(* ===== verification/Prelude.thy ===== *)
theory Prelude
  imports Main "HOL-Library.Word"
begin

text \<open>
  Shared vocabulary of the development: the faults a C program can run into, the result type of
  operations that may fault, the collections of rewrite rules the component theories extend, and
  the generic list lemmas they share.
\<close>

named_theorems queue_simps \<open>rewrite rules of the queue abstractions\<close>
named_theorems tcb_simps \<open>rewrite rules for thread control block and system state access\<close>
named_theorems frame_simps \<open>state components an operation leaves unchanged\<close>

section \<open>Faults and results\<close>

text \<open>
  A C operation that dereferences NULL or freed memory, indexes an array out of bounds, divides
  by zero or fails an \<open>assert\<close> has no result: it is the left value of a sum.
  \<open>Would_block\<close> is a call that waits for another thread, \<open>Uninit\<close> the use of memory
  nothing was stored in, \<open>Exit_1\<close> the end of the process after a failed system call or an
  unimplemented branch.
\<close>

datatype fault =
    Assert_failed
  | Null_deref
  | Use_after_free
  | Out_of_bounds
  | Div_by_zero
  | Would_block
  | Uninit
  | Exit_1

type_synonym 'a res = "fault + 'a"

definition bindR :: "'a res \<Rightarrow> ('a \<Rightarrow> 'b res) \<Rightarrow> 'b res" where
  "bindR r f = (case r of Inl e \<Rightarrow> Inl e | Inr x \<Rightarrow> f x)"

definition assertR :: "bool \<Rightarrow> 'a res \<Rightarrow> 'a res" where
  "assertR b r = (if b then r else Inl Assert_failed)"

lemma bindR_Inl [simp]: "bindR (Inl e) f = Inl e"
  by (simp add: bindR_def)

lemma bindR_Inr [simp]: "bindR (Inr x) f = f x"
  by (simp add: bindR_def)

lemma bindR_eq_Inr: "bindR r f = Inr y \<longleftrightarrow> (\<exists>x. r = Inr x \<and> f x = Inr y)"
  by (cases r) auto

lemma bindR_cong [fundef_cong]:
  "r = r' \<Longrightarrow> (\<And>x. r' = Inr x \<Longrightarrow> f x = f' x) \<Longrightarrow> bindR r f = bindR r' f'"
  by (cases r') auto

lemma assertR_True [simp]: "assertR True r = r"
  by (simp add: assertR_def)

lemma assertR_False [simp]: "assertR False r = Inl Assert_failed"
  by (simp add: assertR_def)

lemma assertR_eq_Inr: "assertR b r = Inr y \<longleftrightarrow> b \<and> r = Inr y"
  by (simp add: assertR_def)

text \<open>The same for routines that may not return.\<close>

type_synonym 'a io = "'a res option"

definition bindO :: "'a io \<Rightarrow> ('a \<Rightarrow> 'b io) \<Rightarrow> 'b io" where
  "bindO r f = (case r of None \<Rightarrow> None | Some (Inl e) \<Rightarrow> Some (Inl e) | Some (Inr x) \<Rightarrow> f x)"

lemma bindO_simps [simp]:
  "bindO None f = None" "bindO (Some (Inl e)) f = Some (Inl e)" "bindO (Some (Inr x)) f = f x"
  by (simp_all add: bindO_def)

lemma bindO_eq_Inr: "bindO r f = Some (Inr y) \<longleftrightarrow> (\<exists>x. r = Some (Inr x) \<and> f x = Some (Inr y))"
  by (simp add: bindO_def split: option.splits sum.splits)

text \<open>A read through a pointer into a store of allocated objects.\<close>

definition readR :: "('a \<Rightarrow> 'b option) \<Rightarrow> 'a \<Rightarrow> 'b res" where
  "readR m a = (case m a of None \<Rightarrow> Inl Use_after_free | Some x \<Rightarrow> Inr x)"

lemma readR_eq_Inr: "readR m a = Inr x \<longleftrightarrow> m a = Some x"
  by (simp add: readR_def split: option.splits)

lemma readR_Some [simp]: "m a = Some x \<Longrightarrow> readR m a = Inr x"
  by (simp add: readR_def)

section \<open>C integer arithmetic\<close>

text \<open>
  The result of an \<open>int\<close> operation: the code is compiled without optimisation, signed
  arithmetic wraps around. \<open>crem\<close> is the remainder \<open>%\<close>, which has the sign of the
  dividend.
\<close>

definition wrap32 :: "int \<Rightarrow> int" where
  "wrap32 x = sint (word_of_int x :: 32 word)"

definition crem :: "int \<Rightarrow> int \<Rightarrow> int" where
  "crem a b = sgn a * (\<bar>a\<bar> mod \<bar>b\<bar>)"

lemma wrap32_id: "- (2 ^ 31) \<le> x \<Longrightarrow> x < 2 ^ 31 \<Longrightarrow> wrap32 x = x"
  by (simp add: wrap32_def signed_of_int signed_take_bit_int_eq_self)

lemma crem_bounds: "0 < b \<Longrightarrow> - b < crem a b \<and> crem a b < b"
proof -
  assume b: "0 < b"
  have "0 \<le> \<bar>a\<bar> mod b" "\<bar>a\<bar> mod b < b" using b by auto
  moreover have "\<bar>crem a b\<bar> \<le> \<bar>a\<bar> mod b"
    using b calculation by (simp add: crem_def abs_mult abs_sgn_eq)
  ultimately show ?thesis by linarith
qed

text \<open>The size of a malloc'ed object never matters below, only its address.\<close>

type_synonym addr = nat

section \<open>Removing the first match of a list\<close>

fun remove_first :: "('a \<Rightarrow> bool) \<Rightarrow> 'a list \<Rightarrow> 'a list" where
  "remove_first P [] = []"
| "remove_first P (x # xs) = (if P x then xs else x # remove_first P xs)"

lemma remove_first_eq_remove1: "remove_first (\<lambda>y. y = x) xs = remove1 x xs"
  by (induction xs) auto

lemma remove_first_no_match: "\<forall>x\<in>set xs. \<not> P x \<Longrightarrow> remove_first P xs = xs"
  by (induction xs) auto

lemma remove_first_append:
  "remove_first P (xs @ ys) =
     (if \<exists>x\<in>set xs. P x then remove_first P xs @ ys else xs @ remove_first P ys)"
  by (induction xs) auto

lemma find_append:
  "List.find P (xs @ ys) = (case List.find P xs of None \<Rightarrow> List.find P ys | Some x \<Rightarrow> Some x)"
  by (induction xs) auto

lemma find_no_match: "\<forall>x\<in>set xs. \<not> P x \<Longrightarrow> List.find P xs = None"
  by (simp add: find_None_iff)

lemma not_Nil_snoc: "xs \<noteq> [] \<Longrightarrow> \<exists>ys y. xs = ys @ [y]"
  by (cases xs rule: rev_cases) auto

lemma dom_singleton_del: "dom m = {a} \<Longrightarrow> m(a := None) = Map.empty"
  by (auto simp: fun_eq_iff dom_def set_eq_iff)

section \<open>Queue interfaces\<close>

text \<open>
  What a client of a linked queue relies on. The queue type \<open>'q\<close> is the pointer structure of the
  code; \<open>abs q xs\<close> says that it is intact and holds \<open>xs\<close>. Operations are partial
  (\<open>None\<close>: a NULL or dangling pointer was dereferenced, or a loop did not return).
\<close>

locale fifo_queue =
  fixes abs :: "'q \<Rightarrow> 'a list \<Rightarrow> bool"
    and push :: "'q \<Rightarrow> 'a \<Rightarrow> 'q option"
    and pop :: "'q \<Rightarrow> ('a option \<times> 'q) option"
  assumes push_abs: "abs q xs \<Longrightarrow> \<exists>q'. push q x = Some q' \<and> abs q' (xs @ [x])"
    and pop_Nil: "abs q [] \<Longrightarrow> pop q = Some (None, q)"
    and pop_Cons: "abs q (x # xs) \<Longrightarrow> \<exists>q'. pop q = Some (Some x, q') \<and> abs q' xs"

datatype 'a qop = Push 'a | Pop | Remove "'a \<Rightarrow> bool"

text \<open>
  The list operation behind \<open>removeFromReadyQueue\<close>: the code looks at the head first, then at
  the tail, then at the nodes between them.
\<close>

definition list_remove :: "('a \<Rightarrow> bool) \<Rightarrow> 'a list \<Rightarrow> 'a option \<times> 'a list" where
  "list_remove P xs =
     (if xs = [] then (None, [])
      else if P (hd xs) then (Some (hd xs), tl xs)
      else if P (last xs) then (Some (last xs), butlast xs)
      else (List.find P xs, remove_first P xs))"

locale removable_queue = fifo_queue +
  fixes remove :: "'q \<Rightarrow> ('a \<Rightarrow> bool) \<Rightarrow> ('a option \<times> 'q) option"
  assumes remove_abs: "abs q xs \<Longrightarrow>
     \<exists>q'. remove q P = Some (fst (list_remove P xs), q') \<and> abs q' (snd (list_remove P xs))"

text \<open>Running a sequence of operations, on the pointer structure and on lists.\<close>

fun run_queue :: "('q \<Rightarrow> 'a \<Rightarrow> 'q option) \<Rightarrow> ('q \<Rightarrow> ('a option \<times> 'q) option) \<Rightarrow>
    ('q \<Rightarrow> ('a \<Rightarrow> bool) \<Rightarrow> ('a option \<times> 'q) option) \<Rightarrow> 'q \<Rightarrow> 'a qop list \<Rightarrow>
    ('a option list \<times> 'q) option" where
  "run_queue push pop remove q [] = Some ([], q)"
| "run_queue push pop remove q (Push x # ops) =
     Option.bind (push q x) (\<lambda>q'. run_queue push pop remove q' ops)"
| "run_queue push pop remove q (Pop # ops) =
     Option.bind (pop q) (\<lambda>(r, q').
       map_option (\<lambda>(rs, q''). (r # rs, q'')) (run_queue push pop remove q' ops))"
| "run_queue push pop remove q (Remove P # ops) =
     Option.bind (remove q P) (\<lambda>(r, q').
       map_option (\<lambda>(rs, q''). (r # rs, q'')) (run_queue push pop remove q' ops))"

fun run_list :: "'a list \<Rightarrow> 'a qop list \<Rightarrow> 'a option list \<times> 'a list" where
  "run_list xs [] = ([], xs)"
| "run_list xs (Push x # ops) = run_list (xs @ [x]) ops"
| "run_list [] (Pop # ops) = (case run_list [] ops of (rs, ys) \<Rightarrow> (None # rs, ys))"
| "run_list (x # xs) (Pop # ops) = (case run_list xs ops of (rs, ys) \<Rightarrow> (Some x # rs, ys))"
| "run_list xs (Remove P # ops) =
     (case run_list (snd (list_remove P xs)) ops of
        (rs, ys) \<Rightarrow> (fst (list_remove P xs) # rs, ys))"

lemma list_remove_distinct:
  assumes "distinct xs"
  shows "list_remove (\<lambda>y. y = x) xs = (if x \<in> set xs then Some x else None, remove1 x xs)"
proof (cases xs rule: rev_cases)
  case (snoc ys y)
  have "List.find (\<lambda>y. y = x) xs = (if x \<in> set xs then Some x else None)" for xs
    by (induction xs) auto
  with assms snoc show ?thesis
    by (cases ys) (auto simp: list_remove_def remove_first_eq_remove1 remove1_append)
qed (simp add: list_remove_def)

lemma list_remove_no_match:
  "\<forall>x\<in>set xs. \<not> P x \<Longrightarrow> list_remove P xs = (None, xs)"
  by (cases xs) (auto simp: list_remove_def remove_first_no_match find_None_iff)

context removable_queue
begin

lemma run_queue_abs:
  "abs q xs \<Longrightarrow> \<exists>q'. run_queue push pop remove q ops = Some (fst (run_list xs ops), q') \<and>
     abs q' (snd (run_list xs ops))"
proof (induction xs ops arbitrary: q rule: run_list.induct)
  case (2 xs x ops)
  then show ?case using push_abs[of q xs x] by auto
next
  case (3 ops)
  then show ?case using pop_Nil[of q] by (fastforce split: prod.splits)
next
  case (4 x xs ops)
  then show ?case using pop_Cons[of q x xs] by (fastforce split: prod.splits)
next
  case (5 xs P ops)
  then show ?case using remove_abs[of q xs P] by (fastforce split: prod.splits)
qed simp

end

end
