(* ===== verification/DList.thy ===== *)
theory DList
  imports Prelude
begin

text \<open>
  The doubly linked lists of the code at pointer level: \<open>struct ready_elem\<close> with
  \<open>struct ready_queue\<close> (threads/thread.c) and \<open>struct ready_elem\<close> with
  \<open>struct cache_lru\<close> (webserver/server_thread.c), which are the same code over different
  payloads. A list owns a store from addresses to nodes; \<open>malloc\<close> takes the next unused
  address and \<open>free\<close> removes a node from the store, so a NULL or dangling dereference is
  the result \<open>None\<close>. The representation predicate \<open>dl_repr\<close> relates a list to its
  nodes in order; it contains the absence of leaks (every node of the store is linked), so the
  refinement lemmas show memory safety, absence of leaks and the list operation each routine
  implements.
\<close>

section \<open>Nodes, stores and the operations of the code\<close>

record 'a ready_elem =
  info :: 'a
  nxt :: "addr option"
  prv :: "addr option"

record 'a dll =
  head :: "addr option"
  tail :: "addr option"
  mem :: "addr \<Rightarrow> 'a ready_elem option"
  brk :: addr

definition dll_empty :: "'a dll" where
  "dll_empty = \<lparr>head = None, tail = None, mem = Map.empty, brk = 0\<rparr>"

text \<open>\<open>void addToHead(struct ready_queue *LL, Tid id)\<close>\<close>

definition addToHead :: "'a dll \<Rightarrow> 'a \<Rightarrow> 'a dll option" where
  "addToHead LL x =
     (let newElem = brk LL;
          m = (mem LL)(newElem \<mapsto> \<lparr>info = x, nxt = None, prv = None\<rparr>)
      in case head LL of
           None \<Rightarrow> Some (LL\<lparr>head := Some newElem, tail := Some newElem, mem := m,
                              brk := Suc newElem\<rparr>)
         | Some h \<Rightarrow>
             (case m h of
                None \<Rightarrow> None
              | Some he \<Rightarrow>
                  Some (LL\<lparr>head := Some newElem,
                           mem := m(newElem \<mapsto> \<lparr>info = x, nxt = Some h, prv = None\<rparr>,
                                    h \<mapsto> he\<lparr>prv := Some newElem\<rparr>),
                           brk := Suc newElem\<rparr>)))"

text \<open>\<open>void addToTail(struct ready_queue *LL, Tid id)\<close>\<close>

definition addToTail :: "'a dll \<Rightarrow> 'a \<Rightarrow> 'a dll option" where
  "addToTail LL x =
     (let newElem = brk LL;
          m = (mem LL)(newElem \<mapsto> \<lparr>info = x, nxt = None, prv = None\<rparr>)
      in case tail LL of
           None \<Rightarrow> Some (LL\<lparr>head := Some newElem, tail := Some newElem, mem := m,
                              brk := Suc newElem\<rparr>)
         | Some t \<Rightarrow>
             (case m t of
                None \<Rightarrow> None
              | Some te \<Rightarrow>
                  Some (LL\<lparr>tail := Some newElem,
                           mem := m(t \<mapsto> te\<lparr>nxt := Some newElem\<rparr>,
                                    newElem \<mapsto> \<lparr>info = x, nxt = None, prv = Some t\<rparr>),
                           brk := Suc newElem\<rparr>)))"

text \<open>\<open>struct ready_elem *getHead(struct ready_queue *LL)\<close>\<close>

definition getHead :: "'a dll \<Rightarrow> addr option" where
  "getHead LL = head LL"

text \<open>Dereferencing a pointer: \<open>None\<close> for NULL and for an address that is not allocated.\<close>

definition ld :: "(addr \<Rightarrow> 'a ready_elem option) \<Rightarrow> addr option \<Rightarrow> (addr \<times> 'a ready_elem) option" where
  "ld m p = Option.bind p (\<lambda>a. map_option (Pair a) (m a))"

text \<open>
  The block that unlinks the head node, shared by \<open>removeNextReadyThread\<close> and the first branch
  of \<open>removeFromReadyQueue\<close>: the only node, or a node with a successor.
\<close>

definition unlink_head :: "'a dll \<Rightarrow> addr \<Rightarrow> 'a ready_elem \<Rightarrow> ('a option \<times> 'a dll) option" where
  "unlink_head LL h he =
     (if prv he = None \<and> nxt he = None
      then Some (Some (info he), LL\<lparr>head := None, tail := None, mem := (mem LL)(h := None)\<rparr>)
      else Option.bind (ld (mem LL) (nxt he)) (\<lambda>(n, ne).
             Some (Some (info he),
                   LL\<lparr>head := Some n,
                      mem := ((mem LL)(n \<mapsto> ne\<lparr>prv := None\<rparr>))(h := None)\<rparr>)))"

text \<open>The block that unlinks the tail node in \<open>removeFromReadyQueue\<close>.\<close>

definition unlink_tail :: "'a dll \<Rightarrow> addr \<Rightarrow> 'a ready_elem \<Rightarrow> ('a option \<times> 'a dll) option" where
  "unlink_tail LL t te =
     (if prv te = None \<and> nxt te = None
      then Some (Some (info te), LL\<lparr>head := None, tail := None, mem := (mem LL)(t := None)\<rparr>)
      else Option.bind (ld (mem LL) (prv te)) (\<lambda>(p, pe).
             Some (Some (info te),
                   LL\<lparr>tail := Some p,
                      mem := ((mem LL)(p \<mapsto> pe\<lparr>nxt := None\<rparr>))(t := None)\<rparr>)))"

text \<open>The block that unlinks a node in the middle: both neighbours are dereferenced.\<close>

definition unlink_middle :: "'a dll \<Rightarrow> addr \<Rightarrow> 'a ready_elem \<Rightarrow> ('a option \<times> 'a dll) option" where
  "unlink_middle LL c ce =
     Option.bind (ld (mem LL) (prv ce)) (\<lambda>(p, pe).
       let m = (mem LL)(p \<mapsto> pe\<lparr>nxt := nxt ce\<rparr>)
       in Option.bind (ld m (nxt ce)) (\<lambda>(n, ne).
            Some (Some (info ce), LL\<lparr>mem := (m(n \<mapsto> ne\<lparr>prv := prv ce\<rparr>))(c := None)\<rparr>)))"

text \<open>\<open>Tid removeNextReadyThread(struct ready_queue *LL)\<close>; the code's \<open>-1\<close> is \<open>None\<close>.\<close>

definition removeNextReadyThread :: "'a dll \<Rightarrow> ('a option \<times> 'a dll) option" where
  "removeNextReadyThread LL =
     (if head LL = None then Some (None, LL)
      else Option.bind (ld (mem LL) (head LL)) (\<lambda>(h, he). unlink_head LL h he))"

text \<open>
  The loop \<open>while (curr) { if (match) ...; curr = curr->next; }\<close>, up to the node found. It
  follows pointers, so on a cyclic or broken list it need not return: \<open>None\<close>.
\<close>

partial_function (option) find_node ::
  "('a \<Rightarrow> bool) \<Rightarrow> (addr \<Rightarrow> 'a ready_elem option) \<Rightarrow> addr option \<Rightarrow> addr option option" where
  "find_node P m cur =
     (if cur = None then Some None
      else Option.bind (ld m cur) (\<lambda>(a, e).
             if P (info e) then Some (Some a) else find_node P m (nxt e)))"

text \<open>
  \<open>Tid removeFromReadyQueue(struct ready_queue *LL, Tid id)\<close>, over the test \<open>P\<close> the
  code applies to a payload (\<open>head->id == id\<close>, or \<open>strcmp\<close> on the file name in
  webserver/server_thread.c).
\<close>

definition removeFromReadyQueue :: "'a dll \<Rightarrow> ('a \<Rightarrow> bool) \<Rightarrow> ('a option \<times> 'a dll) option" where
  "removeFromReadyQueue LL P =
     (if head LL = None then Some (None, LL)
      else Option.bind (ld (mem LL) (head LL)) (\<lambda>(h, he).
        if P (info he) then unlink_head LL h he
        else Option.bind (ld (mem LL) (tail LL)) (\<lambda>(t, te).
          if P (info te) then unlink_tail LL t te
          else Option.bind (find_node P (mem LL) (head LL)) (\<lambda>cur.
            if cur = None then Some (None, LL)
            else Option.bind (ld (mem LL) cur) (\<lambda>(c, ce). unlink_middle LL c ce)))))"

section \<open>Representation\<close>

text \<open>
  \<open>seg m p a ps l n\<close>: from address \<open>a\<close> the store holds the nodes \<open>ps\<close> (address and
  payload) in order; \<open>p\<close> is the back pointer of the first node, \<open>l\<close> the address of the
  last node (or \<open>p\<close> if there is none) and \<open>n\<close> where the last node points.
\<close>

fun seg :: "(addr \<Rightarrow> 'a ready_elem option) \<Rightarrow> addr option \<Rightarrow> addr option \<Rightarrow>
    (addr \<times> 'a) list \<Rightarrow> addr option \<Rightarrow> addr option \<Rightarrow> bool" where
  "seg m p a [] l n \<longleftrightarrow> a = n \<and> l = p"
| "seg m p a ((b, x) # ps) l n \<longleftrightarrow>
     a = Some b \<and> (\<exists>c. m b = Some \<lparr>info = x, nxt = c, prv = p\<rparr> \<and> seg m (Some b) c ps l n)"

definition dl_repr :: "'a dll \<Rightarrow> (addr \<times> 'a) list \<Rightarrow> bool" where
  "dl_repr q ps \<longleftrightarrow>
     seg (mem q) None (head q) ps (tail q) None \<and> distinct (map fst ps) \<and>
     dom (mem q) = fst ` set ps \<and> (\<forall>a\<in>fst ` set ps. a < brk q)"

text \<open>The abstraction relation: the list \<open>q\<close> holds the payloads \<open>xs\<close> from head to tail.\<close>

definition dl_abs :: "'a dll \<Rightarrow> 'a list \<Rightarrow> bool" where
  "dl_abs q xs \<longleftrightarrow> (\<exists>ps. dl_repr q ps \<and> map snd ps = xs)"


section \<open>Segments\<close>

lemma ld_None [simp]: "ld m None = None"
  by (simp add: ld_def)

lemma ld_Some: "ld m (Some a) = map_option (Pair a) (m a)"
  by (simp add: ld_def)

lemma seg_append:
  "seg m p a (xs @ ys) l n \<longleftrightarrow> (\<exists>k c. seg m p a xs k c \<and> seg m k c ys l n)"
  by (induction m p a xs l n rule: seg.induct) auto

lemma seg_frame [simp]:
  "b \<notin> fst ` set ps \<Longrightarrow> seg (m(b := v)) p a ps l n = seg m p a ps l n"
  by (induction m p a ps l n rule: seg.induct) auto

lemma seg_start: "seg m p a (x # ps) l n \<Longrightarrow> a = Some (fst x)"
  by (cases x) auto

lemma seg_snocD:
  assumes "seg m p a (ps @ [(b, x)]) l n"
  shows "l = Some b" and "\<exists>k. m b = Some \<lparr>info = x, nxt = n, prv = k\<rparr> \<and> seg m p a ps k (Some b)"
  using assms by (auto simp: seg_append)

text \<open>Redirecting the last node's forward pointer, and the first node's back pointer.\<close>

lemma seg_set_nxt_last:
  assumes "seg m p a (ps @ [(b, x)]) (Some b) n" and "b \<notin> fst ` set ps" and "m b = Some e"
  shows "seg (m(b \<mapsto> e\<lparr>nxt := n'\<rparr>)) p a (ps @ [(b, x)]) (Some b) n'"
  using assms by (auto simp: seg_append)

lemma seg_set_prv_first:
  assumes "seg m p (Some b) ((b, x) # ps) l n" and "b \<notin> fst ` set ps" and "m b = Some e"
  shows "seg (m(b \<mapsto> e\<lparr>prv := p'\<rparr>)) p' (Some b) ((b, x) # ps) l n"
  using assms by auto

lemma dl_repr_unused: "dl_repr q ps \<Longrightarrow> brk q \<notin> fst ` set ps"
  by (auto simp: dl_repr_def)

lemma dl_repr_Nil: "dl_repr q [] \<longleftrightarrow> head q = None \<and> tail q = None \<and> mem q = Map.empty"
  by (auto simp: dl_repr_def)

lemma dl_repr_empty: "dl_repr dll_empty []"
  by (simp add: dl_repr_Nil dll_empty_def)

section \<open>The routines implement list operations\<close>

lemma addToTail_repr:
  assumes "dl_repr q ps"
  shows "\<exists>q'. addToTail q x = Some q' \<and> dl_repr q' (ps @ [(brk q, x)])"
proof (cases ps rule: rev_cases)
  case Nil
  with assms show ?thesis
    by (auto simp: dl_repr_Nil addToTail_def dl_repr_def Let_def)
next
  case (snoc rs c)
  obtain b y where c: "c = (b, y)" by (cases c)
  have new: "brk q \<notin> fst ` set ps" using assms by (rule dl_repr_unused)
  have sg: "seg (mem q) None (head q) (rs @ [(b, y)]) (tail q) None"
    and d: "distinct (map fst ps)" and dm: "dom (mem q) = fst ` set ps"
    and lt: "\<forall>a\<in>fst ` set ps. a < brk q"
    using assms snoc c by (auto simp: dl_repr_def)
  from seg_snocD[OF sg] obtain k where t: "tail q = Some b"
    and mb: "mem q b = Some \<lparr>info = y, nxt = None, prv = k\<rparr>"
    and pre: "seg (mem q) None (head q) rs k (Some b)" by auto
  show ?thesis
    using new d dm lt snoc c mb pre t
    by (auto simp: addToTail_def dl_repr_def seg_append image_iff less_Suc_eq Let_def)
qed

lemma addToHead_repr:
  assumes "dl_repr q ps"
  shows "\<exists>q'. addToHead q x = Some q' \<and> dl_repr q' ((brk q, x) # ps)"
proof (cases ps)
  case Nil
  with assms show ?thesis
    by (auto simp: dl_repr_Nil addToHead_def dl_repr_def Let_def)
next
  case (Cons c rs)
  obtain b y where c: "c = (b, y)" by (cases c)
  have new: "brk q \<notin> fst ` set ps" using assms by (rule dl_repr_unused)
  show ?thesis
    using assms new Cons c
    by (auto simp: addToHead_def dl_repr_def image_iff less_Suc_eq Let_def)
qed

lemma unlink_head_repr:
  assumes "dl_repr q ((h, x) # ps)" and "mem q h = Some he"
  shows "\<exists>q'. unlink_head q h he = Some (Some x, q') \<and> dl_repr q' ps"
proof (cases ps)
  case Nil
  with assms show ?thesis
    by (auto simp: unlink_head_def dl_repr_def dom_singleton_del)
next
  case (Cons c rs)
  obtain n y where c: "c = (n, y)" by (cases c)
  with Cons assms show ?thesis
    by (auto simp: unlink_head_def dl_repr_def ld_Some)
qed

lemma unlink_tail_repr:
  assumes "dl_repr q (ps @ [(t, x)])" and "mem q t = Some te"
  shows "\<exists>q'. unlink_tail q t te = Some (Some x, q') \<and> dl_repr q' ps"
proof (cases ps rule: rev_cases)
  case Nil
  with assms show ?thesis
    by (auto simp: unlink_tail_def dl_repr_def dom_singleton_del)
next
  case (snoc rs c)
  obtain n y where c: "c = (n, y)" by (cases c)
  with snoc assms show ?thesis
    by (auto simp: unlink_tail_def dl_repr_def ld_Some seg_append)
qed

lemma unlink_middle_repr:
  assumes "dl_repr q (ps @ (b, x) # rs)" and "ps \<noteq> []" and "rs \<noteq> []" and "mem q b = Some e"
  shows "\<exists>q'. unlink_middle q b e = Some (Some x, q') \<and> dl_repr q' (ps @ rs)"
proof -
  obtain ps' p y where ps: "ps = ps' @ [(p, y)]"
    using assms(2) by (cases ps rule: rev_cases) auto
  obtain n z rs' where rs: "rs = (n, z) # rs'"
    using assms(3) by (cases rs) auto
  show ?thesis
    using assms unfolding ps rs
    by (auto simp: unlink_middle_def dl_repr_def ld_Some seg_append Let_def)
qed

lemma find_node_seg:
  "seg m p a ps l None \<Longrightarrow> find_node P m a = Some (map_option fst (List.find (\<lambda>c. P (snd c)) ps))"
  by (induction m p a ps l "None :: addr option" rule: seg.induct)
     (auto simp: find_node.simps ld_Some)

lemma dl_repr_ConsD:
  assumes "dl_repr q ((h, x) # ps)"
  shows "head q = Some h" and "\<exists>n. mem q h = Some \<lparr>info = x, nxt = n, prv = None\<rparr>"
  using assms by (auto simp: dl_repr_def)

lemma dl_repr_snocD:
  assumes "dl_repr q (ps @ [(t, x)])"
  shows "tail q = Some t" and "\<exists>p. mem q t = Some \<lparr>info = x, nxt = None, prv = p\<rparr>"
  using assms by (auto simp: dl_repr_def seg_append)

lemma dl_repr_mem:
  assumes "dl_repr q (ps @ (b, x) # rs)"
  shows "\<exists>e. mem q b = Some e"
  using assms by (auto simp: dl_repr_def seg_append)

lemma removeNextReadyThread_repr:
  "dl_repr q ((h, x) # ps) \<Longrightarrow>
     \<exists>q'. removeNextReadyThread q = Some (Some x, q') \<and> dl_repr q' ps"
  using dl_repr_ConsD[of q h x ps] unlink_head_repr[of q h x ps]
  by (auto simp: removeNextReadyThread_def ld_Some)

text \<open>
  The middle branch: neither end matches, so a match found by the loop has both neighbours.
\<close>

lemma find_match_middle:
  assumes "List.find (\<lambda>c. P (snd c)) (a # ps @ [z]) = Some c" and "\<not> P (snd a)" and "\<not> P (snd z)"
  shows "\<exists>us vs. a # ps @ [z] = (a # us) @ c # vs \<and> vs \<noteq> [] \<and>
     remove_first (\<lambda>c. P (snd c)) (a # ps @ [z]) = (a # us) @ vs \<and> P (snd c)"
  using assms
proof (induction ps arbitrary: a)
  case Nil
  then show ?case by (simp split: if_splits)
next
  case (Cons b ps)
  show ?case
  proof (cases "P (snd b)")
    case True
    with Cons.prems have "c = b" by simp
    with True Cons.prems(2) show ?thesis by (intro exI[of _ "[]"] exI[of _ "ps @ [z]"]) simp
  next
    case False
    with Cons.prems have "List.find (\<lambda>c. P (snd c)) (b # ps @ [z]) = Some c" by simp
    from Cons.IH[OF this False Cons.prems(3)] obtain us vs where
      "b # ps @ [z] = (b # us) @ c # vs" "vs \<noteq> []" "P (snd c)"
      "remove_first (\<lambda>c. P (snd c)) (b # ps @ [z]) = (b # us) @ vs" by blast
    with Cons.prems(2) show ?thesis by (intro exI[of _ "b # us"] exI[of _ vs]) simp
  qed
qed

lemma map_remove_first: "map f (remove_first (\<lambda>x. P (f x)) xs) = remove_first P (map f xs)"
  by (induction xs) auto

lemma map_find: "map_option f (List.find (\<lambda>x. P (f x)) xs) = List.find P (map f xs)"
  by (induction xs) auto

lemma removeFromReadyQueue_two:
  assumes r: "dl_repr q (a # ps @ [z])" and "\<not> P (snd a)" and "\<not> P (snd z)"
  shows "\<exists>q' ps'. removeFromReadyQueue q P =
       Some (List.find P (map snd (a # ps @ [z])), q') \<and>
     dl_repr q' ps' \<and> map snd ps' = remove_first P (map snd (a # ps @ [z]))"
proof -
  let ?qs = "a # ps @ [z]"
  obtain h x t y where a: "a = (h, x)" and z: "z = (t, y)" by (cases a, cases z)
  have s: "seg (mem q) None (head q) ?qs (tail q) None" using r by (simp add: dl_repr_def)
  have lds: "\<exists>e. mem q h = Some e \<and> info e = x" "\<exists>e. mem q t = Some e \<and> info e = y"
    "head q = Some h" "tail q = Some t"
    using dl_repr_ConsD[of q h x "ps @ [z]"] dl_repr_snocD[of q "a # ps" t y] r a z by auto
  note fn = find_node_seg[OF s, of P]
  show ?thesis
  proof (cases "List.find (\<lambda>c. P (snd c)) ?qs")
    case None
    then have "remove_first (\<lambda>c. P (snd c)) ?qs = ?qs"
      unfolding find_None_iff by (intro remove_first_no_match) blast
    then have "remove_first P (map snd ?qs) = map snd ?qs"
      by (metis map_remove_first)
    moreover have "List.find P (map snd ?qs) = None"
      using None map_find[of snd P ?qs] by (metis option.map_disc_iff)
    ultimately show ?thesis
      using r lds assms(2,3) a z fn None
      by (intro exI[of _ q] exI[of _ ?qs])
         (auto simp: removeFromReadyQueue_def ld_Some)
  next
    case (Some c)
    obtain b v where c: "c = (b, v)" by (cases c)
    from find_match_middle[OF Some assms(2,3)] obtain us vs where
      split: "?qs = (a # us) @ (b, v) # vs" and ne: "vs \<noteq> []"
      and rm: "remove_first (\<lambda>c. P (snd c)) ?qs = (a # us) @ vs"
      unfolding c by blast
    have r': "dl_repr q ((a # us) @ (b, v) # vs)" using r unfolding split .
    obtain e where e: "mem q b = Some e" using dl_repr_mem[OF r'] by blast
    obtain q' where q': "unlink_middle q b e = Some (Some v, q')" "dl_repr q' ((a # us) @ vs)"
      using unlink_middle_repr[OF r' _ ne e] by auto
    have "List.find P (map snd ?qs) = Some v"
      using Some c map_find[of snd P ?qs] by simp
    moreover have "map snd ((a # us) @ vs) = remove_first P (map snd ?qs)"
      unfolding rm[symmetric] by (rule map_remove_first)
    ultimately show ?thesis
      using q' lds assms(2,3) a z fn Some c e
      by (intro exI[of _ q'] exI[of _ "(a # us) @ vs"])
         (auto simp: removeFromReadyQueue_def ld_Some)
  qed
qed

lemma removeFromReadyQueue_repr:
  assumes r: "dl_repr q ps"
  shows "\<exists>q' ps'. removeFromReadyQueue q P = Some (fst (list_remove P (map snd ps)), q') \<and>
     dl_repr q' ps' \<and> map snd ps' = snd (list_remove P (map snd ps))"
proof (cases ps)
  case Nil
  with r show ?thesis
    by (auto simp: removeFromReadyQueue_def list_remove_def dl_repr_Nil)
next
  case (Cons a qs)
  obtain h x where a: "a = (h, x)" by (cases a)
  from dl_repr_ConsD[of q h x qs] r Cons a obtain n where hd: "head q = Some h"
    "mem q h = Some \<lparr>info = x, nxt = n, prv = None\<rparr>" by auto
  show ?thesis
  proof (cases "P x")
    case True
    with unlink_head_repr[of q h x qs] hd r Cons a show ?thesis
      by (auto simp: removeFromReadyQueue_def list_remove_def ld_Some)
  next
    case nhd: False
    obtain rs z where snoc: "ps = rs @ [z]" using Cons not_Nil_snoc[of ps] by blast
    obtain t y where z: "z = (t, y)" by (cases z)
    from dl_repr_snocD[of q rs t y] r snoc z obtain k where tl: "tail q = Some t"
      "mem q t = Some \<lparr>info = y, nxt = None, prv = k\<rparr>" by auto
    have lst: "last (map snd ps) = y" "butlast (map snd ps) = map snd rs" "map snd ps \<noteq> []"
      using snoc z by (auto simp: map_butlast)
    have hdx: "hd (map snd ps) = x" using Cons a by simp
    show ?thesis
    proof (cases "P y")
      case True
      with unlink_tail_repr[of q rs t y] hd tl r snoc z nhd lst hdx show ?thesis
        by (auto simp: removeFromReadyQueue_def list_remove_def ld_Some)
    next
      case False
      show ?thesis
      proof (cases rs)
        case Nil
        with r snoc z False show ?thesis
          using find_node_seg[of "mem q" None "head q" ps "tail q" P]
          by (intro exI[of _ q] exI[of _ ps])
             (auto simp: removeFromReadyQueue_def list_remove_def dl_repr_def ld_Some)
      next
        case (Cons c us)
        have ps: "ps = (h, x) # us @ [(t, y)]" using Cons snoc z a \<open>ps = a # qs\<close> by simp
        have "list_remove P (map snd ps) = (List.find P (map snd ps), remove_first P (map snd ps))"
          using lst hdx nhd False by (simp add: list_remove_def)
        with removeFromReadyQueue_two[of q "(h, x)" us "(t, y)" P] r nhd False ps
        show ?thesis by auto
      qed
    qed
  qed
qed

text \<open>\<open>printList\<close> and every other traversal from the head see the payloads in order.\<close>

lemma dl_abs_empty: "dl_abs dll_empty []"
  using dl_repr_empty by (auto simp: dl_abs_def)

lemma addToHead_abs:
  "dl_abs q xs \<Longrightarrow> \<exists>q'. addToHead q x = Some q' \<and> dl_abs q' (x # xs)"
  using addToHead_repr by (fastforce simp: dl_abs_def)

lemma getHead_abs: "dl_abs q xs \<Longrightarrow> getHead q = None \<longleftrightarrow> xs = []"
  by (auto simp: dl_abs_def getHead_def dl_repr_Nil)
     (metis list.map_disc_iff neq_Nil_conv option.distinct(1) seg_start dl_repr_def)

interpretation dl: removable_queue dl_abs addToTail removeNextReadyThread removeFromReadyQueue
proof
  show "\<exists>q'. addToTail q x = Some q' \<and> dl_abs q' (xs @ [x])" if "dl_abs q xs" for q and xs :: "'a list" and x
    using that addToTail_repr by (fastforce simp: dl_abs_def)
  show "removeNextReadyThread q = Some (None, q)" if "dl_abs q []" for q :: "'a dll"
    using that by (auto simp: dl_abs_def dl_repr_Nil removeNextReadyThread_def)
  show "\<exists>q'. removeNextReadyThread q = Some (Some x, q') \<and> dl_abs q' xs"
    if "dl_abs q (x # xs)" for q x and xs :: "'a list"
    using that removeNextReadyThread_repr by (fastforce simp: dl_abs_def)
  show "\<exists>q'. removeFromReadyQueue q P = Some (fst (list_remove P xs), q') \<and>
      dl_abs q' (snd (list_remove P xs))" if "dl_abs q xs" for q P and xs :: "'a list"
    using that removeFromReadyQueue_repr by (fastforce simp: dl_abs_def)
qed


text \<open>
  C12. Pointer code of the ready queue: started empty, any sequence of \<open>addToTail\<close>,
  \<open>removeNextReadyThread\<close> and \<open>removeFromReadyQueue\<close> runs without dereferencing a NULL
  or freed pointer, returns, and gives exactly the answers of the same operations on a list; at
  the end the nodes in the store are those of the list (no leak) and the forward and backward
  links agree.
\<close>

theorem ready_queue_operations:
  "\<exists>q. run_queue addToTail removeNextReadyThread removeFromReadyQueue dll_empty ops =
       Some (fst (run_list [] ops), q) \<and> dl_abs q (snd (run_list [] ops))"
  using dl.run_queue_abs[OF dl_abs_empty] .

end
