(* ===== verification/ThreadState.thy ===== *)
theory ThreadState
  imports Prelude
begin

text \<open>
  Data of the user-level thread package (threads/thread.c, threads/thread.h): thread control
  blocks, the queues, locks and condition variables, the signal mask of threads/interrupt.c, and
  the control state of the process. Singly linked lists that own their nodes (\<open>struct
  wait_queue\<close> behind its pseudo head, \<open>struct availableIds\<close>) are HOL lists; the doubly
  linked ready queue is used through the list operations that theory \<open>DList\<close> shows its
  pointer code to implement.
\<close>

section \<open>Constants of thread.h\<close>

type_synonym Tid = int

definition THREAD_MAX_THREADS :: int where "THREAD_MAX_THREADS = 1024"
definition THREAD_MIN_STACK :: nat where "THREAD_MIN_STACK = 32768"
definition THREAD_ANY :: Tid where "THREAD_ANY = -1"
definition THREAD_SELF :: Tid where "THREAD_SELF = -2"
definition THREAD_INVALID :: Tid where "THREAD_INVALID = -3"
definition THREAD_NONE :: Tid where "THREAD_NONE = -4"
definition THREAD_NOMORE :: Tid where "THREAD_NOMORE = -5"
definition THREAD_NOMEMORY :: Tid where "THREAD_NOMEMORY = -6"
definition THREAD_FAILED :: Tid where "THREAD_FAILED = -7"

lemmas thread_consts = THREAD_MAX_THREADS_def THREAD_MIN_STACK_def THREAD_ANY_def
  THREAD_SELF_def THREAD_INVALID_def THREAD_NONE_def THREAD_NOMORE_def THREAD_NOMEMORY_def
  THREAD_FAILED_def

definition thread_ret_ok :: "Tid \<Rightarrow> int" where
  "thread_ret_ok ret = (if ret \<ge> 0 then 1 else 0)"

text \<open>The indices of the array \<open>TCBs[THREAD_MAX_THREADS]\<close>.\<close>

definition valid_tid :: "Tid \<Rightarrow> bool" where
  "valid_tid t \<longleftrightarrow> 0 \<le> t \<and> t < THREAD_MAX_THREADS"

section \<open>Thread control blocks\<close>

datatype ThreadState = NOT_ASSIGNED | READY | RUNNING

type_synonym wqref = nat
type_synonym lockref = nat
type_synonym cvref = nat

text \<open>
  What is left to do in the callers of \<open>thread_yield\<close> when it returns: the frames of the
  package's own functions on the C stack of the thread, innermost first, each with the local
  variable \<open>enabled\<close> it restores. \<open>F_handler\<close> is the return from the signal handler.
\<close>

datatype frame =
    F_sleep bool
  | F_wait Tid bool
  | F_acquire lockref bool
  | F_cv_wait lockref bool
  | F_cv_done bool
  | F_handler

text \<open>
  Saved machine contexts (\<open>ucontext_t\<close>), by where they were saved: zeroed by
  \<open>memset\<close>; saved inside \<open>thread_create\<close>; prepared for the first run of a thread
  (program counter \<open>thread_stub\<close>, arguments in RDI and RSI, stack pointer, signal mask); saved
  inside \<open>thread_yield\<close> with its locals \<open>nextTidToRun\<close>, \<open>oldThreadId\<close> and
  \<open>enabled\<close>, the signal mask and the frames above it.
\<close>

datatype ucontext =
    Ctx_zero
  | Ctx_create bool
  | Ctx_stub nat nat nat bool
  | Ctx_yield Tid Tid bool bool "frame list"

record thread =
  t_state :: ThreadState
  t_id :: Tid
  mycontext :: ucontext
  stack_to_free :: "nat option"
  setcontext_called :: int
  killOnNextRun :: int
  waitQueue :: "wqref option"
  t_wait :: "wqref option"

record lock =
  wait_on_lock :: wqref
  isAcquired :: bool
  acquiredBy :: Tid

record cv =
  wait_on_cv :: wqref

text \<open>
  Control: the current thread runs client code, the last library call having returned a value;
  \<open>setcontext\<close> was just called and the saved context of the current thread continues; the
  current thread is at the head of the loop of \<open>lock_acquire\<close>; the process called
  \<open>exit(0)\<close>.
\<close>

datatype phase =
    Running int
  | Switching
  | Acquiring lockref bool "frame list"
  | Exited

record sys =
  TCBs :: "Tid \<Rightarrow> thread"
  current_thread_id :: Tid
  readyQueue :: "Tid list"
  availableThreadIds :: "Tid list"
  wait_queues :: "wqref \<Rightarrow> Tid list option"
  locks :: "lockref \<Rightarrow> lock option"
  cvs :: "cvref \<Rightarrow> cv option"
  fresh :: nat
  intr :: bool
  phase :: phase

definition upd_tcb :: "Tid \<Rightarrow> (thread \<Rightarrow> thread) \<Rightarrow> sys \<Rightarrow> sys" where
  "upd_tcb t f s = s\<lparr>TCBs := (TCBs s)(t := f (TCBs s t))\<rparr>"

abbreviation tcb :: "sys \<Rightarrow> Tid \<Rightarrow> thread" where
  "tcb s t \<equiv> TCBs s t"

abbreviation cur :: "sys \<Rightarrow> Tid" where
  "cur s \<equiv> current_thread_id s"

lemma upd_tcb_frame [simp, frame_simps]:
  "current_thread_id (upd_tcb t f s) = current_thread_id s"
  "readyQueue (upd_tcb t f s) = readyQueue s"
  "availableThreadIds (upd_tcb t f s) = availableThreadIds s"
  "wait_queues (upd_tcb t f s) = wait_queues s"
  "locks (upd_tcb t f s) = locks s"
  "cvs (upd_tcb t f s) = cvs s"
  "fresh (upd_tcb t f s) = fresh s"
  "intr (upd_tcb t f s) = intr s"
  "phase (upd_tcb t f s) = phase s"
  by (simp_all add: upd_tcb_def)

lemma TCBs_upd_tcb [simp, tcb_simps]:
  "TCBs (upd_tcb t f s) u = (if u = t then f (TCBs s t) else TCBs s u)"
  by (simp add: upd_tcb_def)

section \<open>The signal mask (interrupt.c)\<close>

text \<open>
  \<open>interrupts_set\<close> blocks or unblocks \<open>SIG_TYPE\<close> and returns whether it was unblocked
  before; \<open>intr\<close> is the state of that one signal.
\<close>

definition interrupts_set :: "bool \<Rightarrow> sys \<Rightarrow> bool \<times> sys" where
  "interrupts_set enabled s = (intr s, s\<lparr>intr := enabled\<rparr>)"

definition interrupts_on :: "sys \<Rightarrow> bool \<times> sys" where
  "interrupts_on s = interrupts_set True s"

definition interrupts_off :: "sys \<Rightarrow> bool \<times> sys" where
  "interrupts_off s = interrupts_set False s"

definition interrupts_enabled :: "sys \<Rightarrow> bool" where
  "interrupts_enabled s = intr s"

text \<open>\<open>interrupts_set(enabled)\<close> with the result dropped, as at the end of every routine.\<close>

abbreviation restore :: "bool \<Rightarrow> sys \<Rightarrow> sys" where
  "restore enabled s \<equiv> snd (interrupts_set enabled s)"

lemma interrupts_set_simps [simp]:
  "fst (interrupts_set b s) = intr s"
  "snd (interrupts_set b s) = s\<lparr>intr := b\<rparr>"
  by (simp_all add: interrupts_set_def)

section \<open>The queues\<close>

text \<open>
  The ready queue through its abstraction: \<open>addToTail\<close>, \<open>removeNextReadyThread\<close> and
  \<open>removeFromReadyQueue\<close> on the sequence of identifiers, with the code's \<open>-1\<close> for no
  thread.
\<close>

definition rq_add :: "Tid \<Rightarrow> sys \<Rightarrow> sys" where
  "rq_add t s = s\<lparr>readyQueue := readyQueue s @ [t]\<rparr>"

definition rq_next :: "Tid list \<Rightarrow> Tid \<times> Tid list" where
  "rq_next q = (case q of [] \<Rightarrow> (-1, []) | t # ts \<Rightarrow> (t, ts))"

definition rq_take :: "Tid list \<Rightarrow> Tid \<Rightarrow> Tid \<times> Tid list" where
  "rq_take q t = (case list_remove (\<lambda>x. x = t) q of (None, q') \<Rightarrow> (-1, q') | (Some x, q') \<Rightarrow> (x, q'))"

text \<open>\<open>getHeadWait\<close>, \<open>pushThreadToWait\<close> (append behind the last node) and
  \<open>popHeadThreadWait\<close>.\<close>

definition getHeadWait :: "Tid list \<Rightarrow> Tid option" where
  "getHeadWait ws = (case ws of [] \<Rightarrow> None | t # _ \<Rightarrow> Some t)"

fun pushThreadToWait :: "Tid list \<Rightarrow> Tid \<Rightarrow> Tid list" where
  "pushThreadToWait [] t = [t]"
| "pushThreadToWait (w # ws) t = w # pushThreadToWait ws t"

definition popHeadThreadWait :: "Tid list \<Rightarrow> Tid \<times> Tid list" where
  "popHeadThreadWait ws = (case ws of [] \<Rightarrow> (-1, []) | t # ts \<Rightarrow> (t, ts))"

text \<open>The pool of unused identifiers, a stack: \<open>addToHeadId\<close> and \<open>removeFromHead\<close>.\<close>

definition addToHeadId :: "Tid \<Rightarrow> sys \<Rightarrow> sys" where
  "addToHeadId t s = s\<lparr>availableThreadIds := t # availableThreadIds s\<rparr>"

definition removeFromHead :: "Tid list \<Rightarrow> Tid \<times> Tid list" where
  "removeFromHead LL = (case LL of [] \<Rightarrow> (-1, []) | t # ts \<Rightarrow> (t, ts))"

text \<open>
  \<open>isIdNotUsed\<close> walks the pool, but its loop never advances \<open>curr\<close>: unless the first
  element matches it does not return (\<open>None\<close>).
\<close>

partial_function (option) isIdNotUsed :: "Tid list \<Rightarrow> Tid \<Rightarrow> bool option" where
  "isIdNotUsed curr_elems t =
     (case curr_elems of
        [] \<Rightarrow> Some False
      | c # cs \<Rightarrow> if c = t then Some True else isIdNotUsed (c # cs) t)"

lemma pushThreadToWait_append [queue_simps]: "pushThreadToWait ws t = ws @ [t]"
  by (induction ws) auto

lemma rq_next_simps [simp]: "rq_next [] = (-1, [])" "rq_next (t # ts) = (t, ts)"
  by (simp_all add: rq_next_def)

lemma popHeadThreadWait_simps [simp]:
  "popHeadThreadWait [] = (-1, [])" "popHeadThreadWait (t # ts) = (t, ts)"
  by (simp_all add: popHeadThreadWait_def)

lemma removeFromHead_simps [simp]: "removeFromHead [] = (-1, [])" "removeFromHead (t # ts) = (t, ts)"
  by (simp_all add: removeFromHead_def)

lemma rq_take_distinct [queue_simps]:
  "distinct q \<Longrightarrow> rq_take q t = (if t \<in> set q then (t, remove1 t q) else (-1, q))"
  by (simp add: rq_take_def list_remove_distinct remove1_idem)

end
