(* ===== verification/ThreadOps.thy ===== *)
theory ThreadOps
  imports ThreadState
begin

text \<open>
  The operations of threads/thread.c and the handler of threads/interrupt.c. Each is a function
  on the state; a result \<open>Inl\<close> is a failed assertion or an invalid memory access. An operation
  that returns to its caller leaves the phase \<open>Running\<close> with the returned value; one that
  calls \<open>setcontext\<close> leaves the phase \<open>Switching\<close>, and \<open>resume\<close> runs what follows
  in the thread that was switched to. Interrupts are off while an operation runs, so each is one
  step.
\<close>

section \<open>Returning through the frames of the package\<close>

fun ret :: "int \<Rightarrow> frame list \<Rightarrow> sys \<Rightarrow> sys" where
  "ret v [] s = s\<lparr>phase := Running v\<rparr>"
| "ret v (F_sleep enabled # fs) s = ret v fs (restore enabled s)"
| "ret v (F_wait t enabled # fs) s = ret t fs (restore enabled s)"
| "ret v (F_cv_done enabled # fs) s = ret v fs (restore enabled s)"
| "ret v (F_handler # fs) s = ret v fs (s\<lparr>intr := True\<rparr>)"
| "ret v (F_acquire l enabled # fs) s = s\<lparr>phase := Acquiring l enabled fs\<rparr>"
| "ret v (F_cv_wait l enabled # fs) s =
     (let (enabled', s) = interrupts_set False s
      in s\<lparr>phase := Acquiring l enabled' (F_cv_done enabled # fs)\<rparr>)"

section \<open>Initialisation\<close>

definition wait_queue_create :: "sys \<Rightarrow> wqref \<times> sys" where
  "wait_queue_create s =
     (fresh s, s\<lparr>wait_queues := (wait_queues s)(fresh s \<mapsto> []), fresh := Suc (fresh s)\<rparr>)"

definition init_tcb :: "ThreadState \<Rightarrow> Tid \<Rightarrow> sys \<Rightarrow> sys" where
  "init_tcb st t s =
     (let (w, s) = wait_queue_create s
      in upd_tcb t (\<lambda>_. \<lparr>t_state = st, t_id = t, mycontext = Ctx_zero, stack_to_free = None,
           setcontext_called = 0, killOnNextRun = 0, waitQueue = None, t_wait = Some w\<rparr>) s)"

text \<open>The loop \<open>for (i = 1023; i >= 1; i--)\<close>.\<close>

fun thread_init_loop :: "nat \<Rightarrow> sys \<Rightarrow> sys" where
  "thread_init_loop 0 s = s"
| "thread_init_loop (Suc i) s =
     thread_init_loop i (init_tcb NOT_ASSIGNED (int (Suc i)) (addToHeadId (int (Suc i)) s))"

definition thread_init :: "sys \<Rightarrow> sys" where
  "thread_init s =
     (let s = s\<lparr>readyQueue := [], availableThreadIds := []\<rparr>;
          s = thread_init_loop 1023 s;
          s = init_tcb RUNNING 0 s
      in s\<lparr>current_thread_id := 0\<rparr>)"

section \<open>Stacks and wait queues of finished threads\<close>

text \<open>The loop \<open>for (i = THREAD_MAX_THREADS - 1; i >= 0; i--)\<close>.\<close>

fun dealloc_loop :: "nat \<Rightarrow> sys \<Rightarrow> sys" where
  "dealloc_loop 0 s = s"
| "dealloc_loop (Suc i) s =
     dealloc_loop i
       (case t_wait (tcb s (int i)) of
          None \<Rightarrow> s
        | Some w \<Rightarrow> upd_tcb (int i) (\<lambda>c. c\<lparr>t_wait := None\<rparr>)
                      (s\<lparr>wait_queues := (wait_queues s)(w := None)\<rparr>))"

definition dealloc_thread_specific_wait_queue :: "sys \<Rightarrow> sys" where
  "dealloc_thread_specific_wait_queue s = dealloc_loop (nat THREAD_MAX_THREADS) s"

text \<open>The loop \<open>for (i = 1; i < THREAD_MAX_THREADS; i++)\<close>; the fuel counts what is left.\<close>

fun freeTCBStacks_loop :: "nat \<Rightarrow> int \<Rightarrow> sys \<Rightarrow> sys" where
  "freeTCBStacks_loop 0 i s = s"
| "freeTCBStacks_loop (Suc n) i s =
     freeTCBStacks_loop n (i + 1)
       (if stack_to_free (tcb s i) \<noteq> None \<and> t_state (tcb s i) = NOT_ASSIGNED
        then upd_tcb i (\<lambda>c. c\<lparr>stack_to_free := None\<rparr>) s else s)"

definition freeTCBStacks :: "sys \<Rightarrow> sys" where
  "freeTCBStacks s = freeTCBStacks_loop (nat THREAD_MAX_THREADS - 1) 1 s"

section \<open>Waking threads\<close>

text \<open>The loop \<open>while (tid_popped != -1)\<close> over the queue, the ready queue and the count.\<close>

function wakeup_loop :: "Tid \<Rightarrow> Tid list \<Rightarrow> Tid list \<Rightarrow> int \<Rightarrow> Tid list \<times> Tid list \<times> int" where
  "wakeup_loop tid_popped ws rq woke_up =
     (if tid_popped \<noteq> -1
      then case popHeadThreadWait ws of
             (t, ws') \<Rightarrow> if t \<noteq> -1 then wakeup_loop t ws' (rq @ [t]) (woke_up + 1)
                         else (ws', rq, woke_up)
      else (ws, rq, woke_up))"
  by pat_completeness auto
termination
  by (relation "measure (\<lambda>(t, ws, rq, n). length ws)")
     (auto simp: popHeadThreadWait_def split: list.splits)

definition thread_wakeup :: "wqref option \<Rightarrow> int \<Rightarrow> sys \<Rightarrow> (int \<times> sys) res" where
  "thread_wakeup queue all s =
     (let (enabled, s) = interrupts_set False s in
      case queue of
        None \<Rightarrow> Inr (0, restore enabled s)
      | Some q \<Rightarrow>
          (case wait_queues s q of
             None \<Rightarrow> Inl Use_after_free
           | Some ws \<Rightarrow>
               if getHeadWait ws = None then Inr (0, restore enabled s)
               else let (tid_popped, ws) = popHeadThreadWait ws;
                        rq = readyQueue s @ [tid_popped];
                        (ws, rq, woke_up) =
                          (if all = 1 then wakeup_loop tid_popped ws rq 1 else (ws, rq, 1))
                    in Inr (woke_up, restore enabled
                              (s\<lparr>readyQueue := rq, wait_queues := (wait_queues s)(q \<mapsto> ws)\<rparr>))))"

section \<open>Exit, and the duties of a thread that gets the processor\<close>

text \<open>The first part of \<open>thread_exit\<close> resets the control block of the thread, except its stack,
  which it is still running on, and \<open>setcontext_called\<close>.\<close>

definition exit_clear :: "sys \<Rightarrow> sys" where
  "exit_clear s =
     upd_tcb (cur s) (\<lambda>c. c\<lparr>mycontext := Ctx_zero, t_state := NOT_ASSIGNED,
       killOnNextRun := 0, waitQueue := None\<rparr>) s"

text \<open>The last part: give the identifier back and run the next ready thread, if there is one.\<close>

definition exit_schedule :: "bool \<Rightarrow> sys \<Rightarrow> sys res" where
  "exit_schedule enabled s =
     (let s = addToHeadId (cur s) s;
          (nextTidToRun, rq) = rq_next (readyQueue s)
      in if nextTidToRun = -1
         then Inr ((restore enabled
                (dealloc_thread_specific_wait_queue (freeTCBStacks s)))\<lparr>phase := Exited\<rparr>)
         else Inr ((upd_tcb nextTidToRun (\<lambda>c. c\<lparr>t_state := RUNNING\<rparr>)
                (s\<lparr>readyQueue := rq, current_thread_id := nextTidToRun\<rparr>))
                  \<lparr>phase := Switching\<rparr>))"

definition thread_exit :: "sys \<Rightarrow> sys res" where
  "thread_exit s =
     (let (enabled, s) = interrupts_set False s;
          s = exit_clear s
      in bindR (thread_wakeup (t_wait (tcb s (cur s))) 1 s) (\<lambda>(_, s). exit_schedule enabled s))"

text \<open>
  \<open>threadResponsibilities\<close>, with what follows it as an argument: it does not return if the
  thread was killed.
\<close>

definition threadResponsibilities :: "(sys \<Rightarrow> sys res) \<Rightarrow> sys \<Rightarrow> sys res" where
  "threadResponsibilities rest s =
     (let (enabled, s) = interrupts_off s;
          s = restore enabled (freeTCBStacks s)
      in if killOnNextRun (tcb s (cur s)) = 1 then thread_exit s else rest s)"

definition thread_id :: "sys \<Rightarrow> Tid \<times> sys" where
  "thread_id s =
     (let (enabled, s) = interrupts_set False s
      in if cur s \<ge> 0 then (cur s, restore enabled s) else (THREAD_INVALID, restore enabled s))"

text \<open>\<open>thread_stub\<close> up to the call of \<open>thread_main\<close>, the client code of the thread; when it
  returns, the stub calls \<open>thread_exit\<close>.\<close>

definition thread_stub :: "sys \<Rightarrow> sys res" where
  "thread_stub s =
     (let s = (if \<not> interrupts_enabled s then restore True s else s)
      in threadResponsibilities (\<lambda>s. Inr (s\<lparr>phase := Running 0\<rparr>)) s)"

section \<open>Creating a thread\<close>

text \<open>The initial stack pointer: the top of the stack, aligned to 16 bytes, less 8.\<close>

definition initial_sp :: "nat \<Rightarrow> nat" where
  "initial_sp base = (let sp = base + THREAD_MIN_STACK; sp = sp - sp mod 16 in sp - 8)"

text \<open>\<open>mem\<close> is what \<open>malloc(THREAD_MIN_STACK)\<close> returns: \<open>None\<close> for NULL.\<close>

definition thread_create :: "nat \<Rightarrow> nat \<Rightarrow> nat option \<Rightarrow> sys \<Rightarrow> Tid \<times> sys" where
  "thread_create fn parg mem s =
     (let (enabled, s) = interrupts_set False s;
          s = upd_tcb (cur s) (\<lambda>c. c\<lparr>mycontext := Ctx_create (intr s)\<rparr>) s;
          (t, ids) = removeFromHead (availableThreadIds s);
          s = s\<lparr>availableThreadIds := ids\<rparr>
      in if t = -1 then (THREAD_NOMORE, restore enabled s)
         else
           let s = upd_tcb t (\<lambda>c. c\<lparr>stack_to_free := mem\<rparr>) s
           in case mem of
                None \<Rightarrow> (THREAD_NOMEMORY, restore enabled s)
              | Some stack \<Rightarrow>
                  let s = upd_tcb t (\<lambda>c. c\<lparr>
                        mycontext := Ctx_stub fn parg (initial_sp stack)
                          (case mycontext (tcb s (cur s)) of Ctx_create m \<Rightarrow> m | _ \<Rightarrow> False),
                        t_state := READY\<rparr>) s
                  in (t, restore enabled (rq_add t s)))"

section \<open>Yielding\<close>

text \<open>
  The code of \<open>thread_yield\<close> after \<open>threadResponsibilities\<close>, the same in its two branches:
  the first time the thread gives up the processor; when it is resumed, \<open>setcontext_called\<close>
  makes it return.
\<close>

definition yield_rest :: "Tid \<Rightarrow> Tid \<Rightarrow> bool \<Rightarrow> frame list \<Rightarrow> sys \<Rightarrow> sys res" where
  "yield_rest nextTidToRun oldThreadId enabled fs s =
     (if setcontext_called (tcb s (cur s)) = 0
      then
        let c = cur s;
            s = upd_tcb c (\<lambda>c. c\<lparr>t_state := READY\<rparr>) s
        in bindR
             (case waitQueue (tcb s c) of
                None \<Rightarrow> Inr (rq_add c s)
              | Some q \<Rightarrow>
                  (case wait_queues s q of
                     None \<Rightarrow> Inl Use_after_free
                   | Some ws \<Rightarrow>
                       Inr (upd_tcb c (\<lambda>c. c\<lparr>waitQueue := None\<rparr>)
                         (s\<lparr>wait_queues := (wait_queues s)(q \<mapsto> pushThreadToWait ws c)\<rparr>))))
             (\<lambda>s. let s = s\<lparr>current_thread_id := nextTidToRun\<rparr>;
                      s = upd_tcb nextTidToRun (\<lambda>c. c\<lparr>t_state := RUNNING\<rparr>) s;
                      s = upd_tcb oldThreadId (\<lambda>c. c\<lparr>setcontext_called := 1\<rparr>) s
                  in Inr (s\<lparr>phase := Switching\<rparr>))
      else
        let s = upd_tcb (cur s) (\<lambda>c. c\<lparr>setcontext_called := 0\<rparr>) s
        in Inr (ret nextTidToRun fs (restore enabled s)))"

text \<open>What runs after \<open>getcontext\<close>, both when it returns and when \<open>setcontext\<close> resumes it.\<close>

definition after_getcontext :: "Tid \<Rightarrow> Tid \<Rightarrow> bool \<Rightarrow> frame list \<Rightarrow> sys \<Rightarrow> sys res" where
  "after_getcontext nextTidToRun oldThreadId enabled fs s =
     threadResponsibilities (yield_rest nextTidToRun oldThreadId enabled fs) s"

definition yield_chosen :: "Tid \<times> Tid list \<Rightarrow> bool \<Rightarrow> frame list \<Rightarrow> sys \<Rightarrow> sys res" where
  "yield_chosen chosen enabled fs s =
     (let (nextTidToRun, rq) = chosen;
          s = s\<lparr>readyQueue := rq\<rparr>
      in if nextTidToRun = -1 then Inr (ret THREAD_NONE fs (restore enabled s))
         else let oldThreadId = cur s;
                  s = upd_tcb (cur s) (\<lambda>c. c\<lparr>mycontext :=
                        Ctx_yield nextTidToRun oldThreadId enabled (intr s) fs\<rparr>) s
              in after_getcontext nextTidToRun oldThreadId enabled fs s)"

text \<open>The two branches: \<open>THREAD_ANY\<close> takes the head of the ready queue, an identifier that thread.\<close>

definition yield_any :: "bool \<Rightarrow> frame list \<Rightarrow> sys \<Rightarrow> sys res" where
  "yield_any enabled fs s = yield_chosen (rq_next (readyQueue s)) enabled fs s"

definition yield_to :: "Tid \<Rightarrow> bool \<Rightarrow> frame list \<Rightarrow> sys \<Rightarrow> sys res" where
  "yield_to want_tid enabled fs s = yield_chosen (rq_take (readyQueue s) want_tid) enabled fs s"

definition thread_yield :: "Tid \<Rightarrow> frame list \<Rightarrow> sys \<Rightarrow> sys res" where
  "thread_yield want_tid fs s =
     (let (enabled, s) = interrupts_set False s
      in if want_tid \<ge> THREAD_MAX_THREADS \<or> want_tid < -7
         then Inr (ret THREAD_INVALID fs (restore enabled s))
         else if THREAD_SELF = want_tid then Inr (ret (cur s) fs (restore enabled s))
         else if want_tid = cur s then Inr (ret (cur s) fs (restore enabled s))
         else if want_tid \<ge> 0 \<and> t_state (tcb s want_tid) = NOT_ASSIGNED
         then Inr (ret THREAD_INVALID fs (restore enabled s))
         else if want_tid = THREAD_ANY then yield_any enabled fs s
         else yield_to want_tid enabled fs s)"

text \<open>
  \<open>setcontext\<close> on the context of the current thread: the signal mask is the saved one and
  execution continues where the context was saved. A zeroed context, or one saved inside
  \<open>thread_create\<close>, is never resumed (shown in theory \<open>ThreadMachine\<close>).
\<close>

definition resume :: "sys \<Rightarrow> sys res" where
  "resume s =
     (case mycontext (tcb s (cur s)) of
        Ctx_zero \<Rightarrow> Inl Null_deref
      | Ctx_create m \<Rightarrow> Inl Assert_failed
      | Ctx_stub fn parg sp m \<Rightarrow> thread_stub (s\<lparr>intr := m\<rparr>)
      | Ctx_yield nextTidToRun oldThreadId enabled m fs \<Rightarrow>
          after_getcontext nextTidToRun oldThreadId enabled fs (s\<lparr>intr := m\<rparr>))"

section \<open>Killing, sleeping, waiting\<close>

definition thread_kill :: "Tid \<Rightarrow> sys \<Rightarrow> (Tid \<times> sys) res" where
  "thread_kill t s =
     (let (enabled, s) = interrupts_set False s
      in if t \<ge> 1024 \<or> t < -7 then Inr (THREAD_INVALID, restore enabled s)
         else if t = cur s then Inr (THREAD_INVALID, restore enabled s)
         else if \<not> valid_tid t then Inl Out_of_bounds
         else if t_state (tcb s t) = NOT_ASSIGNED then Inr (THREAD_INVALID, restore enabled s)
         else Inr (t, restore enabled (upd_tcb t (\<lambda>c. c\<lparr>killOnNextRun := 1\<rparr>) s)))"

text \<open>\<open>wait_queue_destroy\<close> pops and frees every node, then frees the pseudo head; it does not
  look at the threads it drops.\<close>

definition wait_queue_destroy :: "wqref \<Rightarrow> sys \<Rightarrow> sys res" where
  "wait_queue_destroy q s =
     (case wait_queues s q of
        None \<Rightarrow> Inl Use_after_free
      | Some ws \<Rightarrow> Inr (s\<lparr>wait_queues := (wait_queues s)(q := None)\<rparr>))"

definition thread_sleep :: "wqref option \<Rightarrow> frame list \<Rightarrow> sys \<Rightarrow> sys res" where
  "thread_sleep queue fs s =
     (let (enabled, s) = interrupts_set False s
      in if queue = None then Inr (ret THREAD_INVALID fs (restore enabled s))
         else case readyQueue s of
                [] \<Rightarrow> Inr (ret THREAD_NONE fs (restore enabled s))
              | nextReadyThread # _ \<Rightarrow>
                  let s = upd_tcb (cur s) (\<lambda>c. c\<lparr>waitQueue := queue\<rparr>) s
                  in thread_yield nextReadyThread (F_sleep enabled # fs) s)"

definition thread_wait :: "Tid \<Rightarrow> frame list \<Rightarrow> sys \<Rightarrow> sys res" where
  "thread_wait t fs s =
     (let (enabled, s) = interrupts_set False s
      in if t < 0 \<or> t = cur s then Inr (ret THREAD_INVALID fs (restore enabled s))
         else if \<not> valid_tid t then Inl Out_of_bounds
         else if t_state (tcb s t) = NOT_ASSIGNED
         then Inr (ret THREAD_INVALID fs (restore enabled s))
         else thread_sleep (t_wait (tcb s t)) (F_wait t enabled # fs) s)"

section \<open>Locks\<close>

definition lock_create :: "sys \<Rightarrow> lockref \<times> sys" where
  "lock_create s =
     (let l = fresh s; s = s\<lparr>fresh := Suc (fresh s)\<rparr>;
          (w, s) = wait_queue_create s
      in (l, s\<lparr>locks := (locks s)(l \<mapsto> \<lparr>wait_on_lock = w, isAcquired = False, acquiredBy = -1\<rparr>)\<rparr>))"

definition lock_destroy :: "lockref option \<Rightarrow> sys \<Rightarrow> sys res" where
  "lock_destroy lk s =
     (case lk of
        None \<Rightarrow> Inl Assert_failed
      | Some l \<Rightarrow>
          (case locks s l of
             None \<Rightarrow> Inl Use_after_free
           | Some k \<Rightarrow>
               assertR (\<not> isAcquired k)
                 (bindR (wait_queue_destroy (wait_on_lock k) s)
                    (\<lambda>s. Inr (s\<lparr>locks := (locks s)(l := None)\<rparr>)))))"

definition lock_acquire :: "lockref option \<Rightarrow> frame list \<Rightarrow> sys \<Rightarrow> sys res" where
  "lock_acquire lk fs s =
     (let (enabled, s) = interrupts_set False s
      in case lk of
           None \<Rightarrow> Inl Assert_failed
         | Some l \<Rightarrow> Inr (s\<lparr>phase := Acquiring l enabled fs\<rparr>))"

text \<open>One iteration of the loop \<open>while (1)\<close> of \<open>lock_acquire\<close>.\<close>

definition lock_acquire_iter :: "lockref \<Rightarrow> bool \<Rightarrow> frame list \<Rightarrow> sys \<Rightarrow> sys res" where
  "lock_acquire_iter l enabled fs s =
     (case locks s l of
        None \<Rightarrow> Inl Use_after_free
      | Some k \<Rightarrow>
          if \<not> isAcquired k
          then let s = s\<lparr>locks := (locks s)(l \<mapsto> k\<lparr>isAcquired := True, acquiredBy := cur s\<rparr>)\<rparr>
               in Inr (ret 0 fs (restore enabled s))
          else thread_sleep (Some (wait_on_lock k)) (F_acquire l enabled # fs) s)"

definition lock_release :: "lockref option \<Rightarrow> sys \<Rightarrow> sys res" where
  "lock_release lk s =
     (let (enabled, s) = interrupts_set False s
      in case lk of
           None \<Rightarrow> Inl Assert_failed
         | Some l \<Rightarrow>
             (case locks s l of
                None \<Rightarrow> Inl Use_after_free
              | Some k \<Rightarrow>
                  if isAcquired k \<and> acquiredBy k = cur s
                  then bindR (thread_wakeup (Some (wait_on_lock k)) 1 s) (\<lambda>(_, s).
                         Inr (restore enabled (s\<lparr>locks :=
                           (locks s)(l \<mapsto> k\<lparr>acquiredBy := -1, isAcquired := False\<rparr>)\<rparr>)))
                  else Inr (restore enabled s)))"

section \<open>Condition variables\<close>

definition cv_create :: "sys \<Rightarrow> cvref \<times> sys" where
  "cv_create s =
     (let c = fresh s; s = s\<lparr>fresh := Suc (fresh s)\<rparr>;
          (w, s) = wait_queue_create s
      in (c, s\<lparr>cvs := (cvs s)(c \<mapsto> \<lparr>wait_on_cv = w\<rparr>)\<rparr>))"

definition cv_destroy :: "cvref option \<Rightarrow> sys \<Rightarrow> sys res" where
  "cv_destroy c s =
     (case c of
        None \<Rightarrow> Inl Assert_failed
      | Some r \<Rightarrow>
          (case cvs s r of
             None \<Rightarrow> Inl Use_after_free
           | Some v \<Rightarrow>
               bindR (wait_queue_destroy (wait_on_cv v) s)
                 (\<lambda>s. Inr (s\<lparr>cvs := (cvs s)(r := None)\<rparr>))))"

text \<open>The lock a \<open>cv_\<close> routine works on, after \<open>assert(cv != NULL); assert(lock != NULL);\<close>.\<close>

definition cv_lock :: "cvref option \<Rightarrow> lockref option \<Rightarrow> sys \<Rightarrow> lock res" where
  "cv_lock c lk s =
     assertR (c \<noteq> None \<and> lk \<noteq> None)
       (case locks s (the lk) of None \<Rightarrow> Inl Use_after_free | Some k \<Rightarrow> Inr k)"

definition cv_queue :: "cvref option \<Rightarrow> sys \<Rightarrow> wqref res" where
  "cv_queue c s = (case cvs s (the c) of None \<Rightarrow> Inl Use_after_free | Some v \<Rightarrow> Inr (wait_on_cv v))"

definition cv_wait :: "cvref option \<Rightarrow> lockref option \<Rightarrow> frame list \<Rightarrow> sys \<Rightarrow> sys res" where
  "cv_wait c lk fs s =
     (let (enabled, s) = interrupts_set False s
      in bindR (cv_lock c lk s) (\<lambda>k.
           if isAcquired k \<and> acquiredBy k = cur s
           then bindR (lock_release lk s) (\<lambda>s.
                  bindR (cv_queue c s) (\<lambda>w.
                    thread_sleep (Some w) (F_cv_wait (the lk) enabled # fs) s))
           else Inr (ret 0 fs (restore enabled s))))"

text \<open>\<open>cv_signal\<close> and \<open>cv_broadcast\<close> differ in the argument \<open>all\<close> of \<open>thread_wakeup\<close>.\<close>

definition cv_notify :: "int \<Rightarrow> cvref option \<Rightarrow> lockref option \<Rightarrow> sys \<Rightarrow> sys res" where
  "cv_notify all c lk s =
     (let (enabled, s) = interrupts_set False s
      in bindR (cv_lock c lk s) (\<lambda>k.
           if isAcquired k \<and> acquiredBy k = cur s
           then bindR (cv_queue c s) (\<lambda>w.
                  bindR (thread_wakeup (Some w) all s) (\<lambda>(_, s). Inr (restore enabled s)))
           else Inr (restore enabled s)))"

definition cv_signal :: "cvref option \<Rightarrow> lockref option \<Rightarrow> sys \<Rightarrow> sys res" where
  "cv_signal c lk s = cv_notify 0 c lk s"

definition cv_broadcast :: "cvref option \<Rightarrow> lockref option \<Rightarrow> sys \<Rightarrow> sys res" where
  "cv_broadcast c lk s = cv_notify 1 c lk s"

section \<open>The interrupt handler\<close>

text \<open>
  Delivery of \<open>SIGALRM\<close> blocks the signal; the handler checks that, re-arms the timer and
  yields; returning from it unblocks the signal again (\<open>F_handler\<close>).
\<close>

definition interrupt_handler :: "sys \<Rightarrow> sys res" where
  "interrupt_handler s =
     (let s = s\<lparr>intr := False\<rparr>
      in assertR (\<not> interrupts_enabled s) (thread_yield THREAD_ANY [F_handler] s))"


section \<open>Closed forms of the loops\<close>

lemma freeTCBStacks_loop_TCBs:
  "TCBs (freeTCBStacks_loop n i s) =
     (\<lambda>t. if i \<le> t \<and> t < i + int n \<and> t_state (tcb s t) = NOT_ASSIGNED
          then (tcb s t)\<lparr>stack_to_free := None\<rparr> else tcb s t)"
proof (induction n arbitrary: i s)
  case (Suc n)
  have "c\<lparr>stack_to_free := None\<rparr> = c" if "stack_to_free c = None" for c :: thread
    using that by simp
  then show ?case by (fastforce simp: Suc fun_eq_iff)
qed (auto simp: fun_eq_iff)

lemma freeTCBStacks_loop_frame:
  "freeTCBStacks_loop n i s = s\<lparr>TCBs := TCBs (freeTCBStacks_loop n i s)\<rparr>"
proof (induction n arbitrary: i s)
  case (Suc n)
  show ?case
    by (simp only: freeTCBStacks_loop.simps, subst Suc) (simp add: upd_tcb_def)
qed simp

definition freed :: "sys \<Rightarrow> Tid \<Rightarrow> thread" where
  "freed s t = (if 1 \<le> t \<and> t < 1024 \<and> t_state (tcb s t) = NOT_ASSIGNED
     then (tcb s t)\<lparr>stack_to_free := None\<rparr> else tcb s t)"

lemma freeTCBStacks_eq: "freeTCBStacks s = s\<lparr>TCBs := freed s\<rparr>"
  unfolding freeTCBStacks_def
  by (subst freeTCBStacks_loop_frame)
     (simp add: freeTCBStacks_loop_TCBs freed_def fun_eq_iff thread_consts)

lemma freed_simps [simp, tcb_simps]:
  "t_state (freed s t) = t_state (tcb s t)"
  "mycontext (freed s t) = mycontext (tcb s t)"
  "setcontext_called (freed s t) = setcontext_called (tcb s t)"
  "killOnNextRun (freed s t) = killOnNextRun (tcb s t)"
  "waitQueue (freed s t) = waitQueue (tcb s t)"
  "t_wait (freed s t) = t_wait (tcb s t)"
  by (simp_all add: freed_def)

lemma freed_intr [simp]: "freed (s\<lparr>intr := b\<rparr>) = freed s"
  by (simp add: freed_def fun_eq_iff)

lemma threadResponsibilities_eq:
  "threadResponsibilities rest s =
     (if killOnNextRun (tcb s (cur s)) = 1 then thread_exit (freeTCBStacks s)
      else rest (freeTCBStacks s))"
proof -
  have "freeTCBStacks (s\<lparr>intr := False\<rparr>)\<lparr>intr := intr s\<rparr> = freeTCBStacks s"
    by (simp add: freeTCBStacks_eq)
  then show ?thesis
    by (simp add: threadResponsibilities_def interrupts_off_def interrupts_set_def Let_def)
       (simp add: freeTCBStacks_eq)
qed

lemma wakeup_loop_eq:
  "tid \<noteq> -1 \<Longrightarrow> -1 \<notin> set ws \<Longrightarrow>
     wakeup_loop tid ws rq n = ([], rq @ ws, n + int (length ws))"
proof (induction ws arbitrary: tid rq n)
  case Nil
  then show ?case by (simp add: wakeup_loop.simps)
next
  case (Cons w ws)
  then show ?case by (subst wakeup_loop.simps) auto
qed

declare wakeup_loop.simps [simp del]

text \<open>
  \<open>thread_wakeup\<close> on a live queue of threads: the first sleeper, or all of them in order, move
  to the end of the ready queue.
\<close>

lemma thread_wakeup_eq:
  assumes "wait_queues s q = Some ws" and "-1 \<notin> set ws"
  shows "thread_wakeup (Some q) all s =
    Inr (if ws = [] then (0, s)
         else if all = 1
         then (int (length ws), s\<lparr>readyQueue := readyQueue s @ ws,
                 wait_queues := (wait_queues s)(q \<mapsto> [])\<rparr>)
         else (1, s\<lparr>readyQueue := readyQueue s @ [hd ws],
                 wait_queues := (wait_queues s)(q \<mapsto> tl ws)\<rparr>))"
proof (cases ws)
  case (Cons w ws')
  with assms wakeup_loop_eq[of w ws' "readyQueue s @ [w]" 1] show ?thesis
    by (auto simp: thread_wakeup_def getHeadWait_def interrupts_set_def)
qed (use assms in \<open>simp add: thread_wakeup_def getHeadWait_def interrupts_set_def\<close>)

end
