(* ===== verification/ThreadMachine.thy ===== *)
theory ThreadMachine
  imports ThreadOps
begin

text \<open>
  The thread package as a transition system: the current thread calls an operation, is
  interrupted, continues after a context switch, or goes round the loop of \<open>lock_acquire\<close>. The
  invariant says how the queues, the identifier pool and the thread states agree.
\<close>

section \<open>Calls and steps\<close>

datatype call =
    C_id
  | C_interrupts_set bool
  | C_create nat nat "nat option"
  | C_yield Tid
  | C_exit
  | C_kill Tid
  | C_wq_create
  | C_wq_destroy wqref
  | C_sleep "wqref option"
  | C_wakeup "wqref option" int
  | C_wait Tid
  | C_lock_create
  | C_lock_destroy "lockref option"
  | C_acquire "lockref option"
  | C_release "lockref option"
  | C_cv_create
  | C_cv_destroy "cvref option"
  | C_cv_wait "cvref option" "lockref option"
  | C_cv_signal "cvref option" "lockref option"
  | C_cv_broadcast "cvref option" "lockref option"

text \<open>A routine that does not switch returns a value to the client (0 for a \<open>void\<close> routine).\<close>

definition returns :: "int \<times> sys \<Rightarrow> sys" where
  "returns r = (snd r)\<lparr>phase := Running (fst r)\<rparr>"

definition void :: "sys res \<Rightarrow> sys res" where
  "void r = bindR r (\<lambda>s. Inr (returns (0, s)))"

fun exec_call :: "call \<Rightarrow> sys \<Rightarrow> sys res" where
  "exec_call C_id s = Inr (returns (thread_id s))"
| "exec_call (C_interrupts_set b) s =
     (let (old, s') = interrupts_set b s in Inr (returns (if old then 1 else 0, s')))"
| "exec_call (C_create fn parg mem) s = Inr (returns (thread_create fn parg mem s))"
| "exec_call (C_yield t) s = thread_yield t [] s"
| "exec_call C_exit s = thread_exit s"
| "exec_call (C_kill t) s = bindR (thread_kill t s) (\<lambda>r. Inr (returns r))"
| "exec_call C_wq_create s = (let (w, s') = wait_queue_create s in Inr (returns (int w, s')))"
| "exec_call (C_wq_destroy q) s = void (wait_queue_destroy q s)"
| "exec_call (C_sleep q) s = thread_sleep q [] s"
| "exec_call (C_wakeup q all) s = bindR (thread_wakeup q all s) (\<lambda>r. Inr (returns r))"
| "exec_call (C_wait t) s = thread_wait t [] s"
| "exec_call C_lock_create s = (let (l, s') = lock_create s in Inr (returns (int l, s')))"
| "exec_call (C_lock_destroy l) s = void (lock_destroy l s)"
| "exec_call (C_acquire l) s = lock_acquire l [] s"
| "exec_call (C_release l) s = void (lock_release l s)"
| "exec_call C_cv_create s = (let (c, s') = cv_create s in Inr (returns (int c, s')))"
| "exec_call (C_cv_destroy c) s = void (cv_destroy c s)"
| "exec_call (C_cv_wait c l) s = cv_wait c l [] s"
| "exec_call (C_cv_signal c l) s = void (cv_signal c l s)"
| "exec_call (C_cv_broadcast c l) s = void (cv_broadcast c l s)"

datatype label = L_call call | L_interrupt | L_resume | L_acquire

text \<open>
  Which labels a state allows, and what they do; \<open>step\<close> is the transition relation. The timer
  interrupt is possible whenever client code runs with the signal unblocked.
\<close>

inductive step :: "sys \<Rightarrow> label \<Rightarrow> sys \<Rightarrow> bool" where
  call: "phase s = Running v \<Longrightarrow> exec_call c s = Inr s' \<Longrightarrow> step s (L_call c) s'"
| interrupt: "phase s = Running v \<Longrightarrow> intr s \<Longrightarrow> interrupt_handler s = Inr s' \<Longrightarrow>
    step s L_interrupt s'"
| resume: "phase s = Switching \<Longrightarrow> resume s = Inr s' \<Longrightarrow> step s L_resume s'"
| acquire: "phase s = Acquiring l enabled fs \<Longrightarrow> lock_acquire_iter l enabled fs s = Inr s' \<Longrightarrow>
    step s L_acquire s'"

inductive_cases step_callE: "step s (L_call c) s'"
inductive_cases step_interruptE: "step s L_interrupt s'"
inductive_cases step_resumeE: "step s L_resume s'"
inductive_cases step_acquireE: "step s L_acquire s'"

inductive steps :: "sys \<Rightarrow> label list \<Rightarrow> sys \<Rightarrow> bool" where
  steps_Nil: "steps s [] s"
| steps_snoc: "steps s ls s' \<Longrightarrow> step s' l s'' \<Longrightarrow> steps s (ls @ [l]) s''"

text \<open>The state after \<open>thread_init\<close> in a process where nothing else happened yet.\<close>

definition blank :: sys where
  "blank = \<lparr>TCBs = (\<lambda>t. \<lparr>t_state = NOT_ASSIGNED, t_id = 0, mycontext = Ctx_zero,
       stack_to_free = None, setcontext_called = 0, killOnNextRun = 0, waitQueue = None,
       t_wait = None\<rparr>),
     current_thread_id = -1, readyQueue = [], availableThreadIds = [],
     wait_queues = Map.empty, locks = Map.empty, cvs = Map.empty, fresh = 0, intr = True,
     phase = Running 0\<rparr>"

definition start :: sys where
  "start = thread_init blank"

definition reachable :: "sys \<Rightarrow> bool" where
  "reachable s \<longleftrightarrow> (\<exists>ls. steps start ls s)"

section \<open>The invariant\<close>

text \<open>
  A context that can be continued: a first run, or a saved \<open>thread_yield\<close> whose flag
  \<open>setcontext_called\<close> makes it return instead of yielding again.
\<close>

definition resumable :: "thread \<Rightarrow> bool" where
  "resumable c \<longleftrightarrow> (case mycontext c of
       Ctx_stub fn parg sp m \<Rightarrow> True
     | Ctx_yield n old en m fs \<Rightarrow> setcontext_called c \<noteq> 0
     | _ \<Rightarrow> False)"

lemma resumable_cong [simp]:
  "resumable (c\<lparr>t_state := a\<rparr>) = resumable c" "resumable (c\<lparr>stack_to_free := b\<rparr>) = resumable c"
  "resumable (c\<lparr>killOnNextRun := d\<rparr>) = resumable c" "resumable (c\<lparr>waitQueue := e\<rparr>) = resumable c"
  "resumable (c\<lparr>t_wait := f\<rparr>) = resumable c"
  by (simp_all add: resumable_def split: ucontext.splits)

definition waiting_ok :: "sys \<Rightarrow> Tid \<Rightarrow> bool" where
  "waiting_ok s t \<longleftrightarrow> valid_tid t \<and> t_state (tcb s t) = READY \<and> resumable (tcb s t)"

text \<open>The threads asleep on some wait queue, and those in any queue.\<close>

definition sleeping :: "sys \<Rightarrow> Tid set" where
  "sleeping s = {t. \<exists>q ws. wait_queues s q = Some ws \<and> t \<in> set ws}"

definition queued :: "sys \<Rightarrow> Tid set" where
  "queued s = set (readyQueue s) \<union> sleeping s"

definition queues_ok :: "sys \<Rightarrow> bool" where
  "queues_ok s \<longleftrightarrow>
     distinct (readyQueue s) \<and> (\<forall>t\<in>set (readyQueue s). waiting_ok s t) \<and>
     (\<forall>q ws. wait_queues s q = Some ws \<longrightarrow> distinct ws \<and>
        (\<forall>t\<in>set ws. waiting_ok s t \<and> t \<notin> set (readyQueue s) \<and>
           (\<forall>q' ws'. wait_queues s q' = Some ws' \<longrightarrow> t \<in> set ws' \<longrightarrow> q' = q)))"

definition ids_ok :: "sys \<Rightarrow> bool" where
  "ids_ok s \<longleftrightarrow> distinct (availableThreadIds s) \<and>
     (\<forall>t\<in>set (availableThreadIds s). valid_tid t \<and> t_state (tcb s t) = NOT_ASSIGNED)"

definition sole_runner :: "sys \<Rightarrow> bool" where
  "sole_runner s \<longleftrightarrow> valid_tid (cur s) \<and> t_state (tcb s (cur s)) = RUNNING \<and>
     (\<forall>t. valid_tid t \<longrightarrow> t \<noteq> cur s \<longrightarrow> t_state (tcb s t) \<noteq> RUNNING)"

text \<open>
  The whole invariant. A thread in client code or in the loop of \<open>lock_acquire\<close> has not been
  killed; a thread that was switched to has a context to continue.
\<close>

definition sys_inv :: "sys \<Rightarrow> bool" where
  "sys_inv s \<longleftrightarrow> queues_ok s \<and> ids_ok s \<and>
     (case phase s of
        Exited \<Rightarrow> True
      | Switching \<Rightarrow> sole_runner s \<and> resumable (tcb s (cur s))
      | _ \<Rightarrow> sole_runner s \<and> killOnNextRun (tcb s (cur s)) \<noteq> 1)"

lemmas inv_defs = sys_inv_def queues_ok_def ids_ok_def sole_runner_def

section \<open>How elementary changes keep the invariant\<close>

lemma sleeping_upd_tcb [simp]: "sleeping (upd_tcb t f s) = sleeping s"
  by (simp add: sleeping_def)

lemma queued_upd_tcb [simp]: "queued (upd_tcb t f s) = queued s"
  by (simp add: queued_def)

lemma sleeping_cong [simp]:
  "sleeping (s\<lparr>TCBs := a\<rparr>) = sleeping s" "sleeping (s\<lparr>current_thread_id := b\<rparr>) = sleeping s"
  "sleeping (s\<lparr>readyQueue := c\<rparr>) = sleeping s" "sleeping (s\<lparr>availableThreadIds := c\<rparr>) = sleeping s"
  "sleeping (s\<lparr>locks := d\<rparr>) = sleeping s" "sleeping (s\<lparr>cvs := e\<rparr>) = sleeping s"
  "sleeping (s\<lparr>fresh := f\<rparr>) = sleeping s" "sleeping (s\<lparr>intr := g\<rparr>) = sleeping s"
  "sleeping (s\<lparr>phase := h\<rparr>) = sleeping s"
  by (simp_all add: sleeping_def)

lemma queued_cong [simp]:
  "queued (s\<lparr>TCBs := a\<rparr>) = queued s" "queued (s\<lparr>current_thread_id := b\<rparr>) = queued s"
  "queued (s\<lparr>availableThreadIds := c\<rparr>) = queued s"
  "queued (s\<lparr>locks := d\<rparr>) = queued s" "queued (s\<lparr>cvs := e\<rparr>) = queued s"
  "queued (s\<lparr>fresh := f\<rparr>) = queued s" "queued (s\<lparr>intr := g\<rparr>) = queued s"
  "queued (s\<lparr>phase := h\<rparr>) = queued s"
  by (simp_all add: queued_def)

lemma waiting_ok_cong [simp]:
  "waiting_ok (s\<lparr>current_thread_id := b\<rparr>) = waiting_ok s"
  "waiting_ok (s\<lparr>readyQueue := c\<rparr>) = waiting_ok s"
  "waiting_ok (s\<lparr>availableThreadIds := d\<rparr>) = waiting_ok s"
  "waiting_ok (s\<lparr>wait_queues := e\<rparr>) = waiting_ok s"
  "waiting_ok (s\<lparr>locks := f\<rparr>) = waiting_ok s" "waiting_ok (s\<lparr>cvs := g\<rparr>) = waiting_ok s"
  "waiting_ok (s\<lparr>fresh := h\<rparr>) = waiting_ok s" "waiting_ok (s\<lparr>intr := i\<rparr>) = waiting_ok s"
  "waiting_ok (s\<lparr>phase := j\<rparr>) = waiting_ok s"
  by (simp_all add: waiting_ok_def fun_eq_iff)

lemma queues_ok_cong [simp]:
  "queues_ok (s\<lparr>current_thread_id := b\<rparr>) = queues_ok s"
  "queues_ok (s\<lparr>availableThreadIds := d\<rparr>) = queues_ok s"
  "queues_ok (s\<lparr>locks := f\<rparr>) = queues_ok s" "queues_ok (s\<lparr>cvs := g\<rparr>) = queues_ok s"
  "queues_ok (s\<lparr>fresh := h\<rparr>) = queues_ok s" "queues_ok (s\<lparr>intr := i\<rparr>) = queues_ok s"
  "queues_ok (s\<lparr>phase := j\<rparr>) = queues_ok s"
  by (simp_all add: queues_ok_def)

lemma ids_ok_cong [simp]:
  "ids_ok (s\<lparr>current_thread_id := b\<rparr>) = ids_ok s"
  "ids_ok (s\<lparr>readyQueue := d\<rparr>) = ids_ok s" "ids_ok (s\<lparr>wait_queues := e\<rparr>) = ids_ok s"
  "ids_ok (s\<lparr>locks := f\<rparr>) = ids_ok s" "ids_ok (s\<lparr>cvs := g\<rparr>) = ids_ok s"
  "ids_ok (s\<lparr>fresh := h\<rparr>) = ids_ok s" "ids_ok (s\<lparr>intr := i\<rparr>) = ids_ok s"
  "ids_ok (s\<lparr>phase := j\<rparr>) = ids_ok s"
  by (simp_all add: ids_ok_def)

lemma sole_runner_cong [simp]:
  "sole_runner (s\<lparr>availableThreadIds := d\<rparr>) = sole_runner s"
  "sole_runner (s\<lparr>readyQueue := e\<rparr>) = sole_runner s"
  "sole_runner (s\<lparr>wait_queues := e'\<rparr>) = sole_runner s"
  "sole_runner (s\<lparr>locks := f\<rparr>) = sole_runner s" "sole_runner (s\<lparr>cvs := g\<rparr>) = sole_runner s"
  "sole_runner (s\<lparr>fresh := h\<rparr>) = sole_runner s" "sole_runner (s\<lparr>intr := i\<rparr>) = sole_runner s"
  "sole_runner (s\<lparr>phase := j\<rparr>) = sole_runner s"
  by (simp_all add: sole_runner_def)

lemma queues_okD:
  assumes "queues_ok s"
  shows "distinct (readyQueue s)"
    and "t \<in> set (readyQueue s) \<Longrightarrow> waiting_ok s t"
    and "wait_queues s q = Some ws \<Longrightarrow> distinct ws"
    and "wait_queues s q = Some ws \<Longrightarrow> t \<in> set ws \<Longrightarrow> waiting_ok s t"
    and "wait_queues s q = Some ws \<Longrightarrow> t \<in> set ws \<Longrightarrow> t \<notin> set (readyQueue s)"
    and "wait_queues s q = Some ws \<Longrightarrow> t \<in> set ws \<Longrightarrow> wait_queues s q' = Some ws' \<Longrightarrow>
      t \<in> set ws' \<Longrightarrow> q' = q"
  using assms by (auto simp: queues_ok_def)

lemma queued_iff:
  "t \<in> queued s \<longleftrightarrow> t \<in> set (readyQueue s) \<or> (\<exists>q ws. wait_queues s q = Some ws \<and> t \<in> set ws)"
  by (simp add: queued_def sleeping_def)

lemma queued_waiting_ok: "queues_ok s \<Longrightarrow> t \<in> queued s \<Longrightarrow> waiting_ok s t"
  by (auto simp: queued_iff dest: queues_okD)

lemma not_queued: "queues_ok s \<Longrightarrow> t_state (tcb s t) \<noteq> READY \<Longrightarrow> t \<notin> queued s"
  using queued_waiting_ok by (auto simp: waiting_ok_def)

text \<open>Changing control blocks: only queued threads' states and contexts matter to the queues.\<close>

lemma queues_ok_tcbs:
  assumes "queues_ok s"
    and "\<And>t. t \<in> queued s \<Longrightarrow> t_state (T t) = t_state (tcb s t) \<and>
       mycontext (T t) = mycontext (tcb s t) \<and> setcontext_called (T t) = setcontext_called (tcb s t)"
  shows "queues_ok (s\<lparr>TCBs := T\<rparr>)"
proof -
  have "waiting_ok (s\<lparr>TCBs := T\<rparr>) t" if "t \<in> queued s" for t
    using queued_waiting_ok[OF assms(1) that] assms(2)[OF that] by (auto simp: waiting_ok_def resumable_def split: ucontext.splits)
  with assms(1) show ?thesis by (auto simp: queues_ok_def queued_iff)
qed

lemma queues_ok_upd_tcb:
  "queues_ok s \<Longrightarrow>
   (t \<in> queued s \<Longrightarrow> t_state (f (tcb s t)) = t_state (tcb s t) \<and>
      mycontext (f (tcb s t)) = mycontext (tcb s t) \<and>
      setcontext_called (f (tcb s t)) = setcontext_called (tcb s t)) \<Longrightarrow>
   queues_ok (upd_tcb t f s)"
  unfolding upd_tcb_def by (rule queues_ok_tcbs) auto

lemma queues_ok_rq_add:
  "queues_ok s \<Longrightarrow> t \<notin> queued s \<Longrightarrow> waiting_ok s t \<Longrightarrow> queues_ok (rq_add t s)"
  by (auto simp: queues_ok_def rq_add_def queued_iff)

lemma queues_ok_rq_drop:
  "queues_ok s \<Longrightarrow> set rq \<subseteq> set (readyQueue s) \<Longrightarrow> distinct rq \<Longrightarrow>
   queues_ok (s\<lparr>readyQueue := rq\<rparr>)"
  by (auto simp: queues_ok_def)

lemma queues_ok_wq_push:
  assumes "queues_ok s" and "wait_queues s q = Some ws" and "t \<notin> queued s" and "waiting_ok s t"
  shows "queues_ok (s\<lparr>wait_queues := (wait_queues s)(q \<mapsto> ws @ [t])\<rparr>)"
  using assms by (fastforce simp: queues_ok_def queued_iff)

lemma queues_ok_wq_del:
  "queues_ok s \<Longrightarrow> queues_ok (s\<lparr>wait_queues := (wait_queues s)(q := None)\<rparr>)"
  by (auto simp: queues_ok_def)

lemma queues_ok_wq_new:
  "queues_ok s \<Longrightarrow> queues_ok (s\<lparr>wait_queues := (wait_queues s)(q \<mapsto> [])\<rparr>)"
  by (auto simp: queues_ok_def)

lemma queues_ok_wake:
  assumes "queues_ok s" and "wait_queues s q = Some (us @ vs)"
  shows "queues_ok (s\<lparr>readyQueue := readyQueue s @ us, wait_queues := (wait_queues s)(q \<mapsto> vs)\<rparr>)"
  using assms by (fastforce simp: queues_ok_def)

lemma ids_ok_upd_tcb:
  "ids_ok s \<Longrightarrow> t_state (tcb s t) \<noteq> NOT_ASSIGNED \<or> t_state (f (tcb s t)) = NOT_ASSIGNED \<Longrightarrow>
   ids_ok (upd_tcb t f s)"
  by (auto simp: ids_ok_def)

lemma sole_runner_upd_tcb:
  "sole_runner s \<Longrightarrow> t_state (f (tcb s t)) = t_state (tcb s t) \<Longrightarrow> sole_runner (upd_tcb t f s)"
  by (auto simp: sole_runner_def)

section \<open>Operations keep the invariant\<close>

text \<open>Ready to run client code: what holds of the current thread while it executes.\<close>

definition run_ok :: "sys \<Rightarrow> bool" where
  "run_ok s \<longleftrightarrow> queues_ok s \<and> ids_ok s \<and> sole_runner s"

definition alive :: "sys \<Rightarrow> bool" where
  "alive s \<longleftrightarrow> run_ok s \<and> killOnNextRun (tcb s (cur s)) \<noteq> 1"

lemma run_ok_cong [simp]:
  "run_ok (s\<lparr>availableThreadIds := d\<rparr>) \<longleftrightarrow> queues_ok s \<and> sole_runner s \<and> ids_ok (s\<lparr>availableThreadIds := d\<rparr>)"
  "run_ok (s\<lparr>locks := f\<rparr>) = run_ok s" "run_ok (s\<lparr>cvs := g\<rparr>) = run_ok s"
  "run_ok (s\<lparr>fresh := h\<rparr>) = run_ok s" "run_ok (s\<lparr>intr := i\<rparr>) = run_ok s"
  "run_ok (s\<lparr>phase := j\<rparr>) = run_ok s"
  by (auto simp: run_ok_def)

lemma alive_cong [simp]:
  "alive (s\<lparr>locks := f\<rparr>) = alive s" "alive (s\<lparr>cvs := g\<rparr>) = alive s"
  "alive (s\<lparr>fresh := h\<rparr>) = alive s" "alive (s\<lparr>intr := i\<rparr>) = alive s"
  "alive (s\<lparr>phase := j\<rparr>) = alive s"
  by (auto simp: alive_def)

lemma inv_Running: "alive s \<Longrightarrow> sys_inv (s\<lparr>phase := Running v\<rparr>)"
  by (simp add: sys_inv_def alive_def run_ok_def)

lemma inv_Acquiring: "alive s \<Longrightarrow> sys_inv (s\<lparr>phase := Acquiring l en fs\<rparr>)"
  by (simp add: sys_inv_def alive_def run_ok_def)

lemma inv_alive: "sys_inv s \<Longrightarrow> phase s = Running v \<or> phase s = Acquiring l en fs \<Longrightarrow> alive s"
  by (auto simp: sys_inv_def alive_def run_ok_def)

lemma ret_inv: "alive s \<Longrightarrow> sys_inv (ret v fs s)"
  by (induction v fs s rule: ret.induct)
     (simp_all add: inv_Running inv_Acquiring interrupts_set_def)

lemma run_ok_upd_tcb:
  "run_ok s \<Longrightarrow> t_state (f (tcb s t)) = t_state (tcb s t) \<Longrightarrow>
   mycontext (f (tcb s t)) = mycontext (tcb s t) \<and>
     setcontext_called (f (tcb s t)) = setcontext_called (tcb s t) \<or> t \<notin> queued s \<Longrightarrow>
   run_ok (upd_tcb t f s)"
  unfolding run_ok_def
  by (auto intro!: queues_ok_upd_tcb ids_ok_upd_tcb sole_runner_upd_tcb)

lemma run_ok_cur_not_queued: "run_ok s \<Longrightarrow> cur s \<notin> queued s"
  using not_queued[of s "cur s"] by (auto simp: run_ok_def sole_runner_def)

lemma run_ok_cur_not_available: "run_ok s \<Longrightarrow> cur s \<notin> set (availableThreadIds s)"
  by (auto simp: run_ok_def sole_runner_def ids_ok_def)

lemma run_ok_freeTCBStacks: "run_ok s \<Longrightarrow> run_ok (freeTCBStacks s)"
  by (auto simp: freeTCBStacks_eq run_ok_def ids_ok_def sole_runner_def intro: queues_ok_tcbs)

lemma valid_tid_minus1 [simp]: "\<not> valid_tid (-1)"
  by (simp add: valid_tid_def)

lemma queues_ok_no_minus1:
  "queues_ok s \<Longrightarrow> wait_queues s q = Some ws \<Longrightarrow> -1 \<notin> set ws"
  by (auto dest!: queues_okD(4) simp: waiting_ok_def)

text \<open>What \<open>thread_wakeup\<close> changes: a prefix of the queue moves to the end of the ready queue.\<close>

lemma thread_wakeup_cases:
  assumes "queues_ok s" and "thread_wakeup q all s = Inr (n, s')"
  obtains "s' = s"
  | w us vs where "q = Some w" "wait_queues s w = Some (us @ vs)"
      "s' = s\<lparr>readyQueue := readyQueue s @ us, wait_queues := (wait_queues s)(w \<mapsto> vs)\<rparr>"
proof (cases q)
  case None
  with assms(2) that(1) show ?thesis by (simp add: thread_wakeup_def interrupts_set_def)
next
  case (Some w)
  show ?thesis
  proof (cases "wait_queues s w")
    case None
    with Some assms(2) show ?thesis by (simp add: thread_wakeup_def interrupts_set_def)
  next
    case ws: (Some ws)
    have m: "-1 \<notin> set ws" using queues_ok_no_minus1[OF assms(1) ws] .
    show ?thesis
      using thread_wakeup_eq[OF ws m, of all] assms(2) Some ws
        that(1) that(2)[of w ws "[]"] that(2)[of w "[hd ws]" "tl ws"]
      by (auto split: if_splits)
  qed
qed

lemma thread_wakeup_run_ok:
  assumes "run_ok s" and "thread_wakeup q all s = Inr (n, s')"
  shows "run_ok s'"
  using assms(1) thread_wakeup_cases[OF _ assms(2)]
  by (metis run_ok_def ids_ok_cong(2,3) sole_runner_cong(2,3) queues_ok_wake)

text \<open>Handing the processor to a thread taken from the ready queue.\<close>

lemma switch_inv:
  assumes "queues_ok s" and "ids_ok s" and "waiting_ok s t" and "t \<notin> queued s"
    and "\<forall>u. valid_tid u \<longrightarrow> t_state (tcb s u) \<noteq> RUNNING"
  shows "sys_inv ((upd_tcb t (\<lambda>c. c\<lparr>t_state := RUNNING\<rparr>) (s\<lparr>current_thread_id := t\<rparr>))\<lparr>phase := Switching\<rparr>)"
proof -
  have "queues_ok (upd_tcb t (\<lambda>c. c\<lparr>t_state := RUNNING\<rparr>) (s\<lparr>current_thread_id := t\<rparr>))"
    using assms(1,4) by (intro queues_ok_upd_tcb) auto
  moreover have "ids_ok (upd_tcb t (\<lambda>c. c\<lparr>t_state := RUNNING\<rparr>) (s\<lparr>current_thread_id := t\<rparr>))"
    using assms(2,3) by (intro ids_ok_upd_tcb) (auto simp: waiting_ok_def)
  ultimately show ?thesis
    using assms(3,5)
    by (auto simp: sys_inv_def sole_runner_def waiting_ok_def)
qed

lemma dealloc_loop_ok:
  "queues_ok s \<Longrightarrow> ids_ok s \<Longrightarrow> queues_ok (dealloc_loop n s) \<and> ids_ok (dealloc_loop n s)"
proof (induction n arbitrary: s)
  case (Suc n)
  let ?s = "case t_wait (tcb s (int n)) of None \<Rightarrow> s
    | Some w \<Rightarrow> upd_tcb (int n) (\<lambda>c. c\<lparr>t_wait := None\<rparr>) (s\<lparr>wait_queues := (wait_queues s)(w := None)\<rparr>)"
  have "queues_ok ?s"
    using Suc.prems by (auto split: option.splits intro!: queues_ok_upd_tcb queues_ok_wq_del)
  moreover have "ids_ok ?s"
    using Suc.prems by (auto split: option.splits simp: ids_ok_def)
  ultimately show ?case using Suc.IH by simp
qed simp

lemma rq_next_minus1:
  "queues_ok s \<Longrightarrow> fst (rq_next (readyQueue s)) = -1 \<longleftrightarrow> readyQueue s = []"
  using queues_okD(2)[of s "-1"]
  by (cases "readyQueue s") (auto simp: waiting_ok_def)

lemma exit_schedule_inv:
  assumes "queues_ok s" and "ids_ok s" and "valid_tid (cur s)" and "cur s \<notin> set (availableThreadIds s)"
    and "\<forall>u. valid_tid u \<longrightarrow> t_state (tcb s u) \<noteq> RUNNING" and "t_state (tcb s (cur s)) = NOT_ASSIGNED"
    and "exit_schedule enabled s = Inr s'"
  shows "sys_inv s'"
proof -
  define a where "a = addToHeadId (cur s) s"
  have a: "queues_ok a" "ids_ok a" "TCBs a = TCBs s" "readyQueue a = readyQueue s"
    using assms by (auto simp: a_def addToHeadId_def ids_ok_def)
  show ?thesis
  proof (cases "readyQueue s")
    case Nil
    then have "s' = (restore enabled (dealloc_thread_specific_wait_queue (freeTCBStacks a)))\<lparr>phase := Exited\<rparr>"
      using assms(7) a(4) by (simp add: exit_schedule_def a_def[symmetric] Let_def)
    moreover have "queues_ok (freeTCBStacks a)" "ids_ok (freeTCBStacks a)"
      using a by (auto simp: freeTCBStacks_eq ids_ok_def intro: queues_ok_tcbs)
    ultimately show ?thesis
      using dealloc_loop_ok by (auto simp: sys_inv_def dealloc_thread_specific_wait_queue_def)
  next
    case (Cons t ts)
    let ?b = "a\<lparr>readyQueue := ts\<rparr>"
    have t: "waiting_ok a t" using queues_okD(2)[OF a(1), of t] a(4) Cons by simp
    then have t1: "t \<noteq> -1" by (auto simp: waiting_ok_def)
    have tn: "t \<notin> queued ?b"
      using queues_okD(1)[OF a(1)] queues_okD(5)[OF a(1)] a(4) Cons by (auto simp: queued_iff)
    have "queues_ok ?b" using queues_okD(1)[OF a(1)] a(1,4) Cons by (intro queues_ok_rq_drop) auto
    from switch_inv[OF this _ _ tn] a t assms(5,7) t1 Cons show ?thesis
      by (simp add: exit_schedule_def a_def[symmetric] Let_def)
  qed
qed

lemma exit_clear_ok:
  assumes "run_ok s"
  shows "queues_ok (exit_clear s)" and "ids_ok (exit_clear s)"
    and "\<forall>u. valid_tid u \<longrightarrow> t_state (tcb (exit_clear s) u) \<noteq> RUNNING"
    and "t_state (tcb (exit_clear s) (cur s)) = NOT_ASSIGNED" and "valid_tid (cur s)"
  using assms run_ok_cur_not_queued[OF assms] unfolding exit_clear_def
  by (auto simp: run_ok_def sole_runner_def intro!: queues_ok_upd_tcb ids_ok_upd_tcb)

lemma exit_clear_frame [simp]:
  "current_thread_id (exit_clear s) = current_thread_id s"
  "readyQueue (exit_clear s) = readyQueue s"
  "availableThreadIds (exit_clear s) = availableThreadIds s"
  "wait_queues (exit_clear s) = wait_queues s" "locks (exit_clear s) = locks s"
  "t_wait (tcb (exit_clear s) t) = t_wait (tcb s t)"
  by (simp_all add: exit_clear_def)

lemma thread_exit_inv:
  assumes "run_ok s" and "thread_exit s = Inr s'"
  shows "sys_inv s'"
proof -
  let ?e = "exit_clear (s\<lparr>intr := False\<rparr>)"
  have r: "run_ok (s\<lparr>intr := False\<rparr>)" using assms(1) by simp
  note e = exit_clear_ok[OF r]
  have na: "cur s \<notin> set (availableThreadIds s)" using assms(1) by (rule run_ok_cur_not_available)
  from assms(2) obtain n w where wk: "thread_wakeup (t_wait (tcb ?e (cur ?e))) 1 ?e = Inr (n, w)"
    and s': "exit_schedule (intr s) w = Inr s'"
    by (auto simp: thread_exit_def interrupts_set_def bindR_eq_Inr)
  from thread_wakeup_cases[OF e(1) wk] show ?thesis
  proof cases
    case 1
    with e na s' show ?thesis by (intro exit_schedule_inv[OF _ _ _ _ _ _ s']) auto
  next
    case (2 q us vs)
    with queues_ok_wake[OF e(1) 2(2)] e na s' show ?thesis
      by (intro exit_schedule_inv[OF _ _ _ _ _ _ s']) auto
  qed
qed

lemma threadResponsibilities_inv:
  assumes "run_ok s" and "threadResponsibilities rest s = Inr s'"
    and "killOnNextRun (tcb s (cur s)) \<noteq> 1 \<Longrightarrow> rest (freeTCBStacks s) = Inr s' \<Longrightarrow> sys_inv s'"
  shows "sys_inv s'"
  using assms thread_exit_inv[OF run_ok_freeTCBStacks[OF assms(1)]]
  by (auto simp: threadResponsibilities_eq split: if_splits)

lemma alive_freeTCBStacks: "run_ok s \<Longrightarrow> killOnNextRun (tcb s (cur s)) \<noteq> 1 \<Longrightarrow> alive (freeTCBStacks s)"
  by (simp add: alive_def run_ok_freeTCBStacks) (simp add: freeTCBStacks_eq)

text \<open>
  The part of \<open>thread_yield\<close> that gives up the processor: the caller goes to the wait queue it
  named or to the end of the ready queue, and the chosen thread runs.
\<close>

lemma yield_rest_switch_inv:
  assumes "run_ok s" and "setcontext_called (tcb s (cur s)) = 0"
    and "\<exists>n old en m fs. mycontext (tcb s (cur s)) = Ctx_yield n old en m fs"
    and next_ok: "waiting_ok s n" "n \<notin> queued s"
    and "yield_rest n (cur s) enabled fs s = Inr s'"
  shows "sys_inv s'"
proof -
  let ?c = "cur s"
  have cn: "n \<noteq> ?c" using assms(1) next_ok(1) by (auto simp: run_ok_def sole_runner_def waiting_ok_def)
  have nq: "?c \<notin> queued s" using assms(1) by (rule run_ok_cur_not_queued)
  define r where "r = upd_tcb ?c (\<lambda>c. c\<lparr>t_state := READY, waitQueue := None, setcontext_called := 1\<rparr>) s"
  have r: "queues_ok r" "ids_ok r" "waiting_ok r ?c" "?c \<notin> queued r" "waiting_ok r n" "n \<notin> queued r"
      "\<forall>u. valid_tid u \<longrightarrow> t_state (tcb r u) \<noteq> RUNNING"
      "wait_queues r = wait_queues s" "readyQueue r = readyQueue s"
    using assms cn nq unfolding r_def
    by (auto simp: run_ok_def sole_runner_def waiting_ok_def resumable_def
             intro!: queues_ok_upd_tcb ids_ok_upd_tcb)
  have sw: "sys_inv ((upd_tcb n (\<lambda>c. c\<lparr>t_state := RUNNING\<rparr>) (p\<lparr>current_thread_id := n\<rparr>))\<lparr>phase := Switching\<rparr>)"
    if "queues_ok p" "TCBs p = TCBs r" "availableThreadIds p = availableThreadIds s"
       "n \<notin> queued p" for p
    using that r by (intro switch_inv) (auto simp: ids_ok_def waiting_ok_def r_def)
  show ?thesis
  proof (cases "waitQueue (tcb s ?c)")
    case None
    have "s' = (upd_tcb n (\<lambda>c. c\<lparr>t_state := RUNNING\<rparr>) ((rq_add ?c r)\<lparr>current_thread_id := n\<rparr>))\<lparr>phase := Switching\<rparr>"
      using assms(2,6) None cn
      by (auto simp: yield_rest_def Let_def rq_add_def r_def upd_tcb_def fun_eq_iff)
    moreover have "n \<notin> queued (rq_add ?c r)" using r cn by (auto simp: rq_add_def queued_def)
    ultimately show ?thesis
      using sw[OF queues_ok_rq_add[OF r(1,4,3)]] by (simp add: rq_add_def r_def)
  next
    case (Some q)
    with assms(2,6) obtain ws where ws: "wait_queues s q = Some ws"
      by (auto simp: yield_rest_def Let_def split: option.splits)
    let ?p = "r\<lparr>wait_queues := (wait_queues r)(q \<mapsto> ws @ [?c])\<rparr>"
    have "s' = (upd_tcb n (\<lambda>c. c\<lparr>t_state := RUNNING\<rparr>) (?p\<lparr>current_thread_id := n\<rparr>))\<lparr>phase := Switching\<rparr>"
      using assms(2,6) Some cn ws
      by (auto simp: yield_rest_def Let_def r_def upd_tcb_def fun_eq_iff queue_simps)
    moreover have "queues_ok ?p" using r ws by (intro queues_ok_wq_push) auto
    moreover have "n \<notin> queued ?p" using r cn ws by (auto simp: queued_iff split: if_splits)
    ultimately show ?thesis using sw[of ?p] by (simp add: r_def)
  qed
qed

lemma yield_rest_return_inv:
  assumes "alive s" and "setcontext_called (tcb s (cur s)) \<noteq> 0"
    and "yield_rest n old enabled fs s = Inr s'"
  shows "sys_inv s'"
proof -
  have "run_ok (upd_tcb (cur s) (\<lambda>c. c\<lparr>setcontext_called := 0\<rparr>) s)"
    using assms(1) run_ok_cur_not_queued[of s] by (intro run_ok_upd_tcb) (auto simp: alive_def)
  then have "alive (upd_tcb (cur s) (\<lambda>c. c\<lparr>setcontext_called := 0\<rparr>) s)"
    using assms(1) by (simp add: alive_def)
  with assms(2,3) ret_inv show ?thesis by (auto simp: yield_rest_def Let_def)
qed

lemma yield_chosen_inv:
  assumes "alive s" and "set rq \<subseteq> set (readyQueue s)" and "distinct rq"
    and "n = -1 \<or> n \<in> set (readyQueue s) \<and> n \<notin> set rq"
    and "yield_chosen (n, rq) enabled fs s = Inr s'"
  shows "sys_inv s'"
proof -
  have q: "queues_ok s" using assms(1) by (simp add: alive_def run_ok_def)
  let ?d = "s\<lparr>readyQueue := rq\<rparr>"
  have dr: "alive ?d"
    using assms(1-3) by (auto simp: alive_def run_ok_def intro: queues_ok_rq_drop)
  show ?thesis
  proof (cases "n = -1")
    case True
    with assms(5) dr ret_inv show ?thesis by (auto simp: yield_chosen_def)
  next
    case False
    with assms(4) have n: "n \<in> set (readyQueue s)" "n \<notin> set rq" by auto
    define g where "g = upd_tcb (cur s) (\<lambda>c. c\<lparr>mycontext := Ctx_yield n (cur s) enabled (intr s) fs\<rparr>) ?d"
    have cq: "cur s \<notin> queued ?d" using dr run_ok_cur_not_queued[of ?d] by (simp add: alive_def)
    have g: "alive g"
      using dr cq unfolding g_def alive_def by (auto intro!: run_ok_upd_tcb)
    have nw: "waiting_ok s n" using queues_okD(2)[OF q n(1)] .
    have cn: "n \<noteq> cur s" using nw assms(1) by (auto simp: alive_def run_ok_def sole_runner_def waiting_ok_def)
    have gn: "waiting_ok (freeTCBStacks g) n" "n \<notin> queued (freeTCBStacks g)"
      using nw cn n queues_okD(5)[OF q, of _ _ n]
      by (auto simp: waiting_ok_def freeTCBStacks_eq g_def freed_def queued_iff)
    have "after_getcontext n (cur s) enabled fs g = Inr s'"
      using assms(5) False by (simp add: yield_chosen_def g_def Let_def)
    moreover have "sys_inv s'" if "yield_rest n (cur s) enabled fs (freeTCBStacks g) = Inr s'"
    proof (cases "setcontext_called (tcb (freeTCBStacks g) (cur (freeTCBStacks g))) = 0")
      case True
      then show ?thesis
        using that g gn run_ok_freeTCBStacks[of g]
        by (intro yield_rest_switch_inv[of "freeTCBStacks g" n enabled fs])
           (auto simp: alive_def freeTCBStacks_eq g_def)
    next
      case False
      then show ?thesis
        using that g alive_freeTCBStacks[of g]
        by (intro yield_rest_return_inv[OF _ False that]) (auto simp: alive_def)
    qed
    ultimately show ?thesis
      using threadResponsibilities_inv[of g] g by (auto simp: after_getcontext_def alive_def)
  qed
qed

lemma thread_yield_inv:
  assumes "alive s" and "thread_yield t fs s = Inr s'"
  shows "sys_inv s'"
proof -
  let ?o = "s\<lparr>intr := False\<rparr>"
  have o: "alive ?o" using assms(1) by simp
  have q: "queues_ok ?o" and d: "distinct (readyQueue s)"
    using assms(1) queues_okD(1)[of s] by (auto simp: alive_def run_ok_def)
  have any: "sys_inv s'" if "yield_any (intr s) fs ?o = Inr s'"
  proof (rule yield_chosen_inv[OF o])
    show "yield_chosen (fst (rq_next (readyQueue s)), snd (rq_next (readyQueue s))) (intr s) fs ?o = Inr s'"
      using that by (simp add: yield_any_def)
  qed (use d in \<open>auto simp: rq_next_def split: list.splits\<close>)
  have to: "sys_inv s'" if "yield_to t (intr s) fs ?o = Inr s'"
  proof (rule yield_chosen_inv[OF o])
    show "yield_chosen (fst (rq_take (readyQueue s) t), snd (rq_take (readyQueue s) t)) (intr s) fs ?o = Inr s'"
      using that by (simp add: yield_to_def)
  qed (use d in \<open>auto simp: queue_simps set_remove1_eq\<close>)
  show ?thesis
    using assms any to ret_inv
    by (auto simp: thread_yield_def interrupts_set_def split: if_splits)
qed

lemma thread_sleep_inv:
  assumes "alive s" and "thread_sleep q fs s = Inr s'"
  shows "sys_inv s'"
proof -
  have "alive (upd_tcb (cur s) (\<lambda>c. c\<lparr>waitQueue := q\<rparr>) (s\<lparr>intr := False\<rparr>))"
    using assms(1) by (auto simp: alive_def intro!: run_ok_upd_tcb)
  then show ?thesis
    using assms ret_inv thread_yield_inv
    by (auto simp: thread_sleep_def interrupts_set_def split: list.splits if_splits)
qed

lemma thread_wait_inv:
  "alive s \<Longrightarrow> thread_wait t fs s = Inr s' \<Longrightarrow> sys_inv s'"
  by (auto simp: thread_wait_def interrupts_set_def split: if_splits
      intro: ret_inv thread_sleep_inv[of "s\<lparr>intr := False\<rparr>"])

lemma resume_inv:
  assumes "sys_inv s" and "phase s = Switching" and "resume s = Inr s'"
  shows "sys_inv s'"
proof -
  have r: "run_ok s" and c: "resumable (tcb s (cur s))"
    using assms(1,2) by (auto simp: sys_inv_def run_ok_def)
  show ?thesis
  proof (cases "mycontext (tcb s (cur s))")
    case (Ctx_stub fn parg sp m)
    let ?u = "s\<lparr>intr := True\<rparr>"
    have u: "run_ok ?u" using r by simp
    have "threadResponsibilities (\<lambda>s. Inr (s\<lparr>phase := Running 0\<rparr>)) ?u = Inr s'"
      using assms(3) Ctx_stub
      by (cases m) (simp_all add: resume_def thread_stub_def interrupts_enabled_def Let_def)
    then show ?thesis
      using inv_Running[OF alive_freeTCBStacks[OF u]] by (auto intro: threadResponsibilities_inv[OF u])
  next
    case (Ctx_yield n old en m fs)
    let ?u = "s\<lparr>intr := m\<rparr>"
    have u: "run_ok ?u" using r by simp
    have f: "setcontext_called (tcb (freeTCBStacks ?u) (cur (freeTCBStacks ?u))) \<noteq> 0"
      using c Ctx_yield by (simp add: resumable_def freeTCBStacks_eq)
    show ?thesis
    proof (rule threadResponsibilities_inv[OF u])
      show "threadResponsibilities (yield_rest n old en fs) ?u = Inr s'"
        using assms(3) Ctx_yield by (simp add: resume_def after_getcontext_def)
      show "sys_inv s'" if "killOnNextRun (tcb ?u (cur ?u)) \<noteq> 1"
          "yield_rest n old en fs (freeTCBStacks ?u) = Inr s'"
        using yield_rest_return_inv[OF alive_freeTCBStacks[OF u that(1)] f that(2)] .
    qed
  qed (use c in \<open>simp_all add: resumable_def\<close>)
qed

lemma thread_wakeup_alive:
  assumes "alive s" and "thread_wakeup q all s = Inr (n, s')"
  shows "alive s'"
proof -
  have "run_ok s'" using assms thread_wakeup_run_ok by (auto simp: alive_def)
  moreover have "TCBs s' = TCBs s \<and> cur s' = cur s"
    by (rule thread_wakeup_cases[of s q all n s']) (use assms in \<open>auto simp: alive_def run_ok_def\<close>)
  ultimately show ?thesis using assms(1) by (simp add: alive_def)
qed

lemma lock_release_alive:
  assumes "alive s" and "lock_release l s = Inr s'"
  shows "alive s'"
  using assms thread_wakeup_alive[of "s\<lparr>intr := False\<rparr>"]
  by (auto simp: lock_release_def interrupts_set_def bindR_eq_Inr
      split: option.splits if_splits)

lemma lock_acquire_iter_inv:
  "alive s \<Longrightarrow> lock_acquire_iter l en fs s = Inr s' \<Longrightarrow> sys_inv s'"
  by (auto simp: lock_acquire_iter_def Let_def split: option.splits if_splits
      intro: ret_inv thread_sleep_inv)

lemma cv_wait_inv:
  assumes "alive s" and "cv_wait c l fs s = Inr s'"
  shows "sys_inv s'"
  using assms lock_release_alive[of "s\<lparr>intr := False\<rparr>" l]
  by (auto simp: cv_wait_def interrupts_set_def bindR_eq_Inr split: if_splits
      intro: ret_inv thread_sleep_inv)

lemma cv_notify_alive:
  assumes "alive s" and "cv_notify all c l s = Inr s'"
  shows "alive s'"
  using assms thread_wakeup_alive[of "s\<lparr>intr := False\<rparr>"]
  by (auto simp: cv_notify_def interrupts_set_def bindR_eq_Inr split: if_splits)

lemma thread_create_alive:
  assumes "alive s"
  shows "alive (snd (thread_create fn parg mem s))"
proof (cases "availableThreadIds s")
  case Nil
  have "alive (upd_tcb (cur s) (\<lambda>c. c\<lparr>mycontext := Ctx_create False\<rparr>) s)"
    using assms run_ok_cur_not_queued[of s] by (auto simp: alive_def intro!: run_ok_upd_tcb)
  moreover have "snd (thread_create fn parg mem s) =
      (upd_tcb (cur s) (\<lambda>c. c\<lparr>mycontext := Ctx_create False\<rparr>) s)\<lparr>intr := intr s\<rparr>"
    using Nil by (simp add: thread_create_def interrupts_set_def Let_def upd_tcb_def)
  ultimately show ?thesis by simp
next
  case (Cons t ts)
  define g where "g = upd_tcb (cur s) (\<lambda>c. c\<lparr>mycontext := Ctx_create False\<rparr>) s"
  have g: "alive g"
    using assms run_ok_cur_not_queued[of s] unfolding g_def alive_def
    by (auto intro!: run_ok_upd_tcb)
  have t: "valid_tid t" "t_state (tcb g t) = NOT_ASSIGNED" "t \<notin> set ts" "t \<noteq> cur g"
      "t \<notin> queued g" "availableThreadIds g = t # ts"
    using g Cons run_ok_cur_not_available[of g] not_queued[of g t]
    by (auto simp: alive_def run_ok_def ids_ok_def g_def)
  then have t1: "t \<noteq> -1" by auto
  have S: "alive (upd_tcb t (\<lambda>c. c\<lparr>stack_to_free := mem\<rparr>) (g\<lparr>availableThreadIds := ts\<rparr>))"
    using g t by (auto simp: alive_def run_ok_def ids_ok_def sole_runner_def
        intro!: queues_ok_upd_tcb)
  have R: "alive (rq_add t (upd_tcb t (\<lambda>c. c\<lparr>stack_to_free := mem, mycontext := Ctx_stub fn parg sp m,
      t_state := READY\<rparr>) (g\<lparr>availableThreadIds := ts\<rparr>)))" for sp m
  proof -
    let ?r = "upd_tcb t (\<lambda>c. c\<lparr>stack_to_free := mem, mycontext := Ctx_stub fn parg sp m,
      t_state := READY\<rparr>) (g\<lparr>availableThreadIds := ts\<rparr>)"
    have "queues_ok ?r" using g t by (intro queues_ok_upd_tcb) (auto simp: alive_def run_ok_def)
    then have "queues_ok (rq_add t ?r)"
      using t by (intro queues_ok_rq_add) (auto simp: waiting_ok_def resumable_def)
    then show ?thesis
      using g t by (auto simp: alive_def run_ok_def ids_ok_def sole_runner_def rq_add_def)
  qed
  show ?thesis
  proof (cases mem)
    case None
    have "snd (thread_create fn parg mem s) =
        (upd_tcb t (\<lambda>c. c\<lparr>stack_to_free := mem\<rparr>) (g\<lparr>availableThreadIds := ts\<rparr>))\<lparr>intr := intr s\<rparr>"
      using None Cons t1 by (simp add: thread_create_def interrupts_set_def Let_def g_def upd_tcb_def)
    with S show ?thesis by simp
  next
    case (Some stack)
    have "snd (thread_create fn parg mem s) =
        (rq_add t (upd_tcb t (\<lambda>c. c\<lparr>stack_to_free := mem,
           mycontext := Ctx_stub fn parg (initial_sp stack) False, t_state := READY\<rparr>)
             (g\<lparr>availableThreadIds := ts\<rparr>)))\<lparr>intr := intr s\<rparr>"
      using Some Cons t(4) t1
      by (simp add: thread_create_def interrupts_set_def Let_def g_def upd_tcb_def rq_add_def)
    with R show ?thesis by simp
  qed
qed

lemma returns_inv: "alive (snd r) \<Longrightarrow> sys_inv (returns r)"
  by (simp add: returns_def inv_Running)

lemma void_inv: "(\<And>s'. r = Inr s' \<Longrightarrow> alive s') \<Longrightarrow> void r = Inr s \<Longrightarrow> sys_inv s"
  by (auto simp: void_def bindR_eq_Inr intro: returns_inv)

lemma wait_queue_create_alive: "alive s \<Longrightarrow> alive (snd (wait_queue_create s))"
  by (auto simp: alive_def run_ok_def wait_queue_create_def intro: queues_ok_wq_new)

lemma wait_queue_destroy_alive: "alive s \<Longrightarrow> wait_queue_destroy q s = Inr s' \<Longrightarrow> alive s'"
  by (auto simp: alive_def run_ok_def wait_queue_destroy_def intro: queues_ok_wq_del split: option.splits)

lemma thread_kill_alive: "alive s \<Longrightarrow> thread_kill t s = Inr r \<Longrightarrow> alive (snd r)"
  by (auto simp: thread_kill_def interrupts_set_def alive_def intro!: run_ok_upd_tcb split: if_splits)

lemma lock_create_alive: "alive s \<Longrightarrow> alive (snd (lock_create s))"
  using wait_queue_create_alive[of "s\<lparr>fresh := Suc (fresh s)\<rparr>"]
  by (auto simp: lock_create_def Let_def split: prod.splits)

lemma cv_create_alive: "alive s \<Longrightarrow> alive (snd (cv_create s))"
  using wait_queue_create_alive[of "s\<lparr>fresh := Suc (fresh s)\<rparr>"]
  by (auto simp: cv_create_def Let_def split: prod.splits)

lemma lock_destroy_alive: "alive s \<Longrightarrow> lock_destroy l s = Inr s' \<Longrightarrow> alive s'"
  by (auto simp: lock_destroy_def assertR_eq_Inr bindR_eq_Inr split: option.splits
      dest: wait_queue_destroy_alive)

lemma cv_destroy_alive: "alive s \<Longrightarrow> cv_destroy c s = Inr s' \<Longrightarrow> alive s'"
  by (auto simp: cv_destroy_def bindR_eq_Inr split: option.splits dest: wait_queue_destroy_alive)

lemma thread_id_alive: "alive s \<Longrightarrow> alive (snd (thread_id s))"
  by (simp add: thread_id_def interrupts_set_def)

lemma lock_acquire_inv: "alive s \<Longrightarrow> lock_acquire l fs s = Inr s' \<Longrightarrow> sys_inv s'"
  by (auto simp: lock_acquire_def interrupts_set_def inv_Acquiring split: option.splits)

lemma exec_call_inv:
  assumes a: "alive s" and e: "exec_call c s = Inr s'"
  shows "sys_inv s'"
proof (cases c)
  case C_id
  with a e show ?thesis by (auto intro: returns_inv thread_id_alive)
next
  case (C_interrupts_set b)
  with a e show ?thesis by (auto simp: interrupts_set_def intro: returns_inv)
next
  case (C_create fn parg m)
  with a e show ?thesis by (auto intro: returns_inv thread_create_alive)
next
  case (C_yield t)
  with a e show ?thesis by (auto intro: thread_yield_inv)
next
  case C_exit
  with a e show ?thesis by (auto simp: alive_def intro: thread_exit_inv)
next
  case (C_kill t)
  with a e show ?thesis by (auto simp: bindR_eq_Inr intro: returns_inv thread_kill_alive)
next
  case C_wq_create
  with a e wait_queue_create_alive[OF a] show ?thesis
    by (auto simp: split_beta Let_def intro: returns_inv)
next
  case (C_wq_destroy q)
  with a e show ?thesis by (auto intro: void_inv wait_queue_destroy_alive)
next
  case (C_sleep q)
  with a e show ?thesis by (auto intro: thread_sleep_inv)
next
  case (C_wakeup q all)
  with a e show ?thesis
    by (auto simp: bindR_eq_Inr returns_def intro!: inv_Running dest: thread_wakeup_alive)
next
  case (C_wait t)
  with a e show ?thesis by (auto intro: thread_wait_inv)
next
  case C_lock_create
  with a e lock_create_alive[OF a] show ?thesis by (auto simp: split_beta Let_def intro: returns_inv)
next
  case (C_lock_destroy l)
  with a e show ?thesis by (auto intro: void_inv lock_destroy_alive)
next
  case (C_acquire l)
  with a e show ?thesis by (auto intro: lock_acquire_inv)
next
  case (C_release l)
  with a e show ?thesis by (auto intro: void_inv lock_release_alive)
next
  case C_cv_create
  with a e cv_create_alive[OF a] show ?thesis by (auto simp: split_beta Let_def intro: returns_inv)
next
  case (C_cv_destroy x)
  with a e show ?thesis by (auto intro: void_inv cv_destroy_alive)
next
  case (C_cv_wait x l)
  with a e show ?thesis by (auto intro: cv_wait_inv)
next
  case (C_cv_signal x l)
  with a e show ?thesis by (auto simp: cv_signal_def intro: void_inv cv_notify_alive)
next
  case (C_cv_broadcast x l)
  with a e show ?thesis by (auto simp: cv_broadcast_def intro: void_inv cv_notify_alive)
qed

lemma interrupt_handler_inv: "alive s \<Longrightarrow> interrupt_handler s = Inr s' \<Longrightarrow> sys_inv s'"
  by (auto simp: interrupt_handler_def Let_def assertR_eq_Inr intro: thread_yield_inv[of "s\<lparr>intr := False\<rparr>"])

lemma step_inv: "step s l s' \<Longrightarrow> sys_inv s \<Longrightarrow> sys_inv s'"
  by (induction rule: step.induct)
     (auto intro: exec_call_inv interrupt_handler_inv resume_inv lock_acquire_iter_inv inv_alive)

lemma steps_inv: "steps s ls s' \<Longrightarrow> sys_inv s \<Longrightarrow> sys_inv s'"
  by (induction rule: steps.induct) (auto intro: step_inv)

end
