(* ===== verification/ThreadInit.thy ===== *)
theory ThreadInit
  imports ThreadMachine
begin

text \<open>
  The state \<open>thread_init\<close> builds, in closed form, and that it satisfies the invariant, so that
  the invariant holds in every reachable state.
\<close>

definition init_thread :: "ThreadState \<Rightarrow> Tid \<Rightarrow> wqref \<Rightarrow> thread" where
  "init_thread st t w = \<lparr>t_state = st, t_id = t, mycontext = Ctx_zero, stack_to_free = None,
     setcontext_called = 0, killOnNextRun = 0, waitQueue = None, t_wait = Some w\<rparr>"

lemma init_tcb_eq:
  "init_tcb st t s = s\<lparr>TCBs := (TCBs s)(t := init_thread st t (fresh s)),
     wait_queues := (wait_queues s)(fresh s \<mapsto> []), fresh := Suc (fresh s)\<rparr>"
  by (simp add: init_tcb_def wait_queue_create_def upd_tcb_def init_thread_def)

lemma upto_snoc_Suc: "[1..int (Suc n)] = [1..int n] @ [int (Suc n)]"
  using upto_rec2[of 1 "int (Suc n)"] by simp

lemma thread_init_loop_eq:
  "thread_init_loop n s = s\<lparr>
     TCBs := (\<lambda>t. if 1 \<le> t \<and> t \<le> int n
        then init_thread NOT_ASSIGNED t (fresh s + nat (int n - t)) else TCBs s t),
     availableThreadIds := [1..int n] @ availableThreadIds s,
     wait_queues := (\<lambda>q. if fresh s \<le> q \<and> q < fresh s + n then Some [] else wait_queues s q),
     fresh := fresh s + n\<rparr>"
proof (induction n arbitrary: s)
  case 0
  have "(\<lambda>t. if 1 \<le> t \<and> t \<le> int 0 then init_thread NOT_ASSIGNED t (fresh s + nat (int 0 - t))
      else TCBs s t) = TCBs s"
    and "(\<lambda>q. if fresh s \<le> q \<and> q < fresh s + 0 then Some [] else wait_queues s q) = wait_queues s"
    by (auto simp: fun_eq_iff)
  then show ?case by simp
next
  case (Suc n)
  have T: "(if 1 \<le> t \<and> t \<le> int n then init_thread NOT_ASSIGNED t (Suc (fresh s) + nat (int n - t))
      else ((TCBs s)(int (Suc n) := init_thread NOT_ASSIGNED (int (Suc n)) (fresh s))) t) =
     (if 1 \<le> t \<and> t \<le> int (Suc n) then init_thread NOT_ASSIGNED t (fresh s + nat (int (Suc n) - t))
      else TCBs s t)" for t
    by (auto intro!: arg_cong[where f = "init_thread NOT_ASSIGNED t"])
  have W: "(if Suc (fresh s) \<le> q \<and> q < Suc (fresh s) + n then Some []
      else ((wait_queues s)(fresh s \<mapsto> [])) q) =
     (if fresh s \<le> q \<and> q < fresh s + Suc n then Some [] else wait_queues s q)" for q
    by auto
  let ?u = "init_tcb NOT_ASSIGNED (int (Suc n)) (addToHeadId (int (Suc n)) s)"
  have "TCBs ?u = (TCBs s)(int (Suc n) := init_thread NOT_ASSIGNED (int (Suc n)) (fresh s))"
    "availableThreadIds ?u = int (Suc n) # availableThreadIds s"
    "wait_queues ?u = (wait_queues s)(fresh s \<mapsto> [])" "fresh ?u = Suc (fresh s)"
    by (simp_all add: init_tcb_eq addToHeadId_def)
  then show ?case
    by (simp only: thread_init_loop.simps Suc T W upto_snoc_Suc)
       (simp add: init_tcb_eq addToHeadId_def)
qed

definition start_tcb :: "Tid \<Rightarrow> thread" where
  "start_tcb t = (if 0 \<le> t \<and> t < 1024
     then init_thread (if t = 0 then RUNNING else NOT_ASSIGNED) t (nat (1023 - t))
     else TCBs blank t)"

lemma start_eq:
  "start = blank\<lparr>TCBs := start_tcb, current_thread_id := 0, availableThreadIds := [1..1023],
     wait_queues := (\<lambda>q. if q < 1024 then Some [] else None), fresh := 1024\<rparr>"
  unfolding start_def thread_init_def
  by (simp only: thread_init_loop_eq init_tcb_eq Let_def)
     (auto simp: blank_def fun_eq_iff start_tcb_def)

lemma start_simps [simp]:
  "current_thread_id start = 0" "readyQueue start = []" "availableThreadIds start = [1..1023]"
  "wait_queues start = (\<lambda>q. if q < 1024 then Some [] else None)"
  "locks start = Map.empty" "cvs start = Map.empty" "fresh start = 1024" "intr start = True"
  "phase start = Running 0" "TCBs start = start_tcb"
  by (simp_all add: start_eq blank_def)

lemma start_tcb_simps [simp]:
  "t_state (start_tcb t) = (if t = 0 then RUNNING else NOT_ASSIGNED)"
  "mycontext (start_tcb t) = Ctx_zero" "stack_to_free (start_tcb t) = None"
  "setcontext_called (start_tcb t) = 0" "killOnNextRun (start_tcb t) = 0"
  "waitQueue (start_tcb t) = None"
  "t_wait (start_tcb t) = (if 0 \<le> t \<and> t < 1024 then Some (nat (1023 - t)) else None)"
  by (simp_all add: start_tcb_def init_thread_def blank_def)

lemma start_inv: "sys_inv start"
  by (auto simp: sys_inv_def queues_ok_def ids_ok_def sole_runner_def valid_tid_def thread_consts)

lemma reachable_inv: "reachable s \<Longrightarrow> sys_inv s"
  by (auto simp: reachable_def intro: steps_inv start_inv)

lemma reachable_start: "reachable start"
  by (auto simp: reachable_def intro: steps_Nil)

lemma reachable_step: "reachable s \<Longrightarrow> step s l s' \<Longrightarrow> reachable s'"
  unfolding reachable_def by (blast intro: steps_snoc)

end
