(* ===== verification/ThreadRun.thy ===== *)
theory ThreadRun
  imports ThreadInit
begin

text \<open>
  Executing a sequence of labels, which gives concrete executions of the thread package, and how
  it relates to the transition relation.
\<close>

fun exec_label :: "label \<Rightarrow> sys \<Rightarrow> sys res option" where
  "exec_label (L_call c) s = (case phase s of Running v \<Rightarrow> Some (exec_call c s) | _ \<Rightarrow> None)"
| "exec_label L_interrupt s =
     (case phase s of Running v \<Rightarrow> if intr s then Some (interrupt_handler s) else None | _ \<Rightarrow> None)"
| "exec_label L_resume s = (case phase s of Switching \<Rightarrow> Some (resume s) | _ \<Rightarrow> None)"
| "exec_label L_acquire s =
     (case phase s of Acquiring l en fs \<Rightarrow> Some (lock_acquire_iter l en fs s) | _ \<Rightarrow> None)"

fun run :: "label list \<Rightarrow> sys \<Rightarrow> sys res option" where
  "run [] s = Some (Inr s)"
| "run (l # ls) s =
     (case exec_label l s of Some (Inr s') \<Rightarrow> run ls s' | r \<Rightarrow> r)"

lemma step_iff_exec_label: "step s l s' \<longleftrightarrow> exec_label l s = Some (Inr s')"
proof
  assume "step s l s'"
  then show "exec_label l s = Some (Inr s')" by (induction rule: step.induct) simp_all
next
  assume "exec_label l s = Some (Inr s')"
  then show "step s l s'"
    by (cases l) (auto intro: step.intros split: phase.splits if_splits)
qed

lemma steps_Cons: "steps s' ls s'' \<Longrightarrow> step s l s' \<Longrightarrow> steps s (l # ls) s''"
proof (induction rule: steps.induct)
  case (steps_Nil s')
  then show ?case using steps.steps_snoc[OF steps.steps_Nil, of s l s'] by simp
next
  case (steps_snoc s' ls t l' u)
  then show ?case using steps.steps_snoc[of s "l # ls" t l' u] by simp
qed

lemma run_steps: "run ls s = Some (Inr s') \<Longrightarrow> steps s ls s'"
proof (induction ls arbitrary: s)
  case Nil
  then show ?case by (simp add: steps.steps_Nil)
next
  case (Cons l ls)
  then obtain t where "exec_label l s = Some (Inr t)" "run ls t = Some (Inr s')"
    by (auto split: option.splits sum.splits)
  then show ?case using Cons.IH steps_Cons step_iff_exec_label by blast
qed

lemma run_reachable: "run ls start = Some (Inr s) \<Longrightarrow> reachable s"
  unfolding reachable_def by (blast intro: run_steps)

section \<open>Concrete states with two threads\<close>

text \<open>
  States in which only threads 0 and 1 differ from the start, and rewrite rules that keep them in
  this form, so that the simplifier runs a program of calls.
\<close>

definition pool2 :: "Tid list" where
  "pool2 = [2..1023]"

definition duo :: "thread \<Rightarrow> thread \<Rightarrow> Tid \<Rightarrow> Tid list \<Rightarrow> Tid list \<Rightarrow> bool \<Rightarrow> phase \<Rightarrow>
    (wqref \<Rightarrow> Tid list option) \<Rightarrow> (lockref \<Rightarrow> lock option) \<Rightarrow> nat \<Rightarrow> sys" where
  "duo a b c rq ids i p W L n = \<lparr>TCBs = start_tcb(0 := a, 1 := b), current_thread_id = c,
     readyQueue = rq, availableThreadIds = ids, wait_queues = W,
     locks = L, cvs = Map.empty, fresh = n, intr = i, phase = p\<rparr>"

definition th :: "Tid \<Rightarrow> ThreadState \<Rightarrow> ucontext \<Rightarrow> nat option \<Rightarrow> int \<Rightarrow> int \<Rightarrow> wqref option \<Rightarrow> thread" where
  "th t st ctx stk flag kill wq = \<lparr>t_state = st, t_id = t, mycontext = ctx, stack_to_free = stk,
     setcontext_called = flag, killOnNextRun = kill, waitQueue = wq, t_wait = Some (nat (1023 - t))\<rparr>"

text \<open>The wait queues allocated by \<open>thread_init\<close>, all empty.\<close>

definition wq0 :: "wqref \<Rightarrow> Tid list option" where
  "wq0 q = (if q < 1024 then Some [] else None)"

lemma duo_simps [simp]:
  "current_thread_id (duo a b c rq ids i p W L n) = c" "readyQueue (duo a b c rq ids i p W L n) = rq"
  "availableThreadIds (duo a b c rq ids i p W L n) = ids" "intr (duo a b c rq ids i p W L n) = i"
  "phase (duo a b c rq ids i p W L n) = p"
  "TCBs (duo a b c rq ids i p W L n) = start_tcb(0 := a, 1 := b)"
  "wait_queues (duo a b c rq ids i p W L n) = W"
  "locks (duo a b c rq ids i p W L n) = L" "fresh (duo a b c rq ids i p W L n) = n"
  "(duo a b c rq ids i p W L n)\<lparr>current_thread_id := c'\<rparr> = duo a b c' rq ids i p W L n"
  "(duo a b c rq ids i p W L n)\<lparr>readyQueue := rq'\<rparr> = duo a b c rq' ids i p W L n"
  "(duo a b c rq ids i p W L n)\<lparr>availableThreadIds := ids'\<rparr> = duo a b c rq ids' i p W L n"
  "(duo a b c rq ids i p W L n)\<lparr>intr := i'\<rparr> = duo a b c rq ids i' p W L n"
  "(duo a b c rq ids i p W L n)\<lparr>phase := p'\<rparr> = duo a b c rq ids i p' W L n"
  "(duo a b c rq ids i p W L n)\<lparr>wait_queues := W'\<rparr> = duo a b c rq ids i p W' L n"
  "(duo a b c rq ids i p W L n)\<lparr>locks := L'\<rparr> = duo a b c rq ids i p W L' n"
  "(duo a b c rq ids i p W L n)\<lparr>fresh := n'\<rparr> = duo a b c rq ids i p W L n'"
  "upd_tcb 0 f (duo a b c rq ids i p W L n) = duo (f a) b c rq ids i p W L n"
  "upd_tcb 1 f (duo a b c rq ids i p W L n) = duo a (f b) c rq ids i p W L n"
  by (simp_all add: duo_def upd_tcb_def fun_upd_twist)

lemma th_simps [simp]:
  "t_state (th t st ctx stk flag kill wq) = st" "mycontext (th t st ctx stk flag kill wq) = ctx"
  "stack_to_free (th t st ctx stk flag kill wq) = stk" "setcontext_called (th t st ctx stk flag kill wq) = flag"
  "killOnNextRun (th t st ctx stk flag kill wq) = kill" "waitQueue (th t st ctx stk flag kill wq) = wq"
  "t_wait (th t st ctx stk flag kill wq) = Some (nat (1023 - t))"
  "(th t st ctx stk flag kill wq)\<lparr>t_state := st'\<rparr> = th t st' ctx stk flag kill wq"
  "(th t st ctx stk flag kill wq)\<lparr>mycontext := ctx'\<rparr> = th t st ctx' stk flag kill wq"
  "(th t st ctx stk flag kill wq)\<lparr>stack_to_free := stk'\<rparr> = th t st ctx stk' flag kill wq"
  "(th t st ctx stk flag kill wq)\<lparr>setcontext_called := flag'\<rparr> = th t st ctx stk flag' kill wq"
  "(th t st ctx stk flag kill wq)\<lparr>killOnNextRun := kill'\<rparr> = th t st ctx stk flag kill' wq"
  "(th t st ctx stk flag kill wq)\<lparr>waitQueue := wq'\<rparr> = th t st ctx stk flag kill wq'"
  by (simp_all add: th_def)

lemma duo_free [simp]:
  "t_state b = NOT_ASSIGNED \<longrightarrow> stack_to_free b = None \<Longrightarrow>
   freeTCBStacks (duo a b c rq ids i p W L n) = duo a b c rq ids i p W L n"
  by (auto simp: freeTCBStacks_eq freed_def duo_def fun_eq_iff start_tcb_def init_thread_def blank_def)

lemma start_duo:
  "start = duo (th 0 RUNNING Ctx_zero None 0 0 None) (th 1 NOT_ASSIGNED Ctx_zero None 0 0 None) 0 []
     (1 # pool2) True (Running 0) wq0 Map.empty 1024"
proof -
  have "[1..1023] = 1 # pool2"
    by (subst upto_rec1) (simp_all add: pool2_def del: upto_rec_numeral)
  then show ?thesis
    by (auto simp: start_eq blank_def duo_def th_def start_tcb_def init_thread_def
        wq0_def fun_eq_iff)
qed

lemmas thread_evals = thread_create_def interrupts_set_def Let_def rq_add_def returns_def
  thread_yield_def yield_any_def yield_to_def yield_chosen_def after_getcontext_def
  threadResponsibilities_eq yield_rest_def thread_consts resume_def thread_stub_def
  interrupts_enabled_def thread_kill_def valid_tid_def thread_exit_def exit_clear_def
  exit_schedule_def addToHeadId_def thread_wakeup_def getHeadWait_def rq_take_def list_remove_def
  thread_sleep_def thread_wait_def pushThreadToWait_append lock_create_def wait_queue_create_def
  lock_acquire_def lock_acquire_iter_def lock_release_def void_def wq0_def

end
