(* ===== verification/ThreadLocks.thy ===== *)
theory ThreadLocks
  imports ThreadRun
begin

text \<open>
  What the operations of the thread package do to locks, condition variables and the addresses of
  the objects they allocate, and the mutual exclusion that locks give.
\<close>

section \<open>Operations that leave the synchronisation objects alone\<close>

definition sync_same :: "sys \<Rightarrow> sys \<Rightarrow> bool" where
  "sync_same s s' \<longleftrightarrow> locks s' = locks s \<and> cvs s' = cvs s \<and> fresh s' = fresh s \<and>
     dom (wait_queues s') \<subseteq> dom (wait_queues s)"

lemma sync_same_refl [simp]: "sync_same s s"
  by (simp add: sync_same_def)

lemma sync_same_trans: "sync_same s s' \<Longrightarrow> sync_same s' s'' \<Longrightarrow> sync_same s s''"
  unfolding sync_same_def by (metis subset_trans)

lemma sync_same_upd [simp]:
  "sync_same s (s'\<lparr>intr := b\<rparr>) = sync_same s s'" "sync_same (s\<lparr>intr := b\<rparr>) s' = sync_same s s'"
  "sync_same s (s'\<lparr>phase := p\<rparr>) = sync_same s s'" "sync_same (s\<lparr>phase := p\<rparr>) s' = sync_same s s'"
  "sync_same s (s'\<lparr>readyQueue := q\<rparr>) = sync_same s s'"
  "sync_same (s\<lparr>readyQueue := q\<rparr>) s' = sync_same s s'"
  "sync_same s (s'\<lparr>availableThreadIds := i\<rparr>) = sync_same s s'"
  "sync_same s (s'\<lparr>current_thread_id := c\<rparr>) = sync_same s s'"
  "sync_same s (s'\<lparr>TCBs := T\<rparr>) = sync_same s s'" "sync_same (s\<lparr>TCBs := T\<rparr>) s' = sync_same s s'"
  "sync_same s (upd_tcb t f s') = sync_same s s'" "sync_same (upd_tcb t f s) s' = sync_same s s'"
  "sync_same s (addToHeadId t s') = sync_same s s'"
  "sync_same s (rq_add t s') = sync_same s s'"
  "sync_same s (freeTCBStacks s') = sync_same s s'"
  "sync_same (freeTCBStacks s) s' = sync_same s s'"
  by (simp_all add: sync_same_def addToHeadId_def rq_add_def freeTCBStacks_eq)

lemma sync_same_ret [simp]: "sync_same s (ret v fs s') = sync_same s s'"
  by (induction v fs s' rule: ret.induct) (simp_all add: interrupts_set_def)

lemma ret_frame [simp, frame_simps]:
  "locks (ret v fs s) = locks s" "cvs (ret v fs s) = cvs s" "fresh (ret v fs s) = fresh s"
  "wait_queues (ret v fs s) = wait_queues s" "readyQueue (ret v fs s) = readyQueue s"
  "availableThreadIds (ret v fs s) = availableThreadIds s" "TCBs (ret v fs s) = TCBs s"
  "current_thread_id (ret v fs s) = current_thread_id s"
  by (induction v fs s rule: ret.induct) (simp_all add: interrupts_set_def)

lemma sync_same_wq:
  "wait_queues s q = Some ws \<Longrightarrow> sync_same s (s\<lparr>wait_queues := (wait_queues s)(q \<mapsto> ws')\<rparr>)"
  by (auto simp: sync_same_def)

lemma sync_same_wakeup:
  assumes "thread_wakeup q all s = Inr (n, s')"
  shows "sync_same s s'"
  using assms
  by (auto simp: thread_wakeup_def interrupts_set_def sync_same_def Let_def dom_def
      split: option.splits if_splits prod.splits)

lemma sync_same_dealloc: "sync_same s (dealloc_loop n s)"
proof (induction n arbitrary: s)
  case (Suc n)
  let ?s = "case t_wait (tcb s (int n)) of None \<Rightarrow> s
    | Some w \<Rightarrow> upd_tcb (int n) (\<lambda>c. c\<lparr>t_wait := None\<rparr>) (s\<lparr>wait_queues := (wait_queues s)(w := None)\<rparr>)"
  have "sync_same s ?s" by (auto simp: sync_same_def split: option.splits)
  then show ?case using Suc[of ?s] sync_same_trans by simp
qed simp

lemma sync_same_exit: "thread_exit s = Inr s' \<Longrightarrow> sync_same s s'"
proof -
  assume "thread_exit s = Inr s'"
  then obtain n u where w: "thread_wakeup (t_wait (tcb s (cur s))) 1 (exit_clear (s\<lparr>intr := False\<rparr>)) = Inr (n, u)"
    and x: "exit_schedule (intr s) u = Inr s'"
    by (auto simp: thread_exit_def interrupts_set_def bindR_eq_Inr exit_clear_def)
  have "sync_same s u" using sync_same_wakeup[OF w] by (simp add: exit_clear_def)
  moreover have "sync_same u s'"
    using x sync_same_dealloc[of "freeTCBStacks (addToHeadId (cur u) u)"] sync_same_trans[of u "freeTCBStacks (addToHeadId (cur u) u)"]
    by (auto simp: exit_schedule_def Let_def dealloc_thread_specific_wait_queue_def
        split: prod.splits if_splits)
  ultimately show ?thesis by (rule sync_same_trans)
qed

lemma sync_same_responsibilities:
  assumes "threadResponsibilities rest s = Inr s'" "\<And>u. rest (freeTCBStacks s) = Inr u \<Longrightarrow> sync_same s u"
  shows "sync_same s s'"
  using assms sync_same_exit[of "freeTCBStacks s"] by (auto simp: threadResponsibilities_eq split: if_splits)

lemma sync_same_yield_rest: "yield_rest n old en fs s = Inr s' \<Longrightarrow> sync_same s s'"
  by (auto simp: yield_rest_def Let_def bindR_eq_Inr split: if_splits option.splits)
     (auto simp: sync_same_def)

lemma sync_same_after_getcontext: "after_getcontext n old en fs s = Inr s' \<Longrightarrow> sync_same s s'"
  using sync_same_yield_rest[of n old en fs "freeTCBStacks s"]
  by (auto simp: after_getcontext_def elim!: sync_same_responsibilities)

lemma sync_same_yield: "thread_yield t fs s = Inr s' \<Longrightarrow> sync_same s s'"
  by (auto simp: thread_yield_def yield_any_def yield_to_def yield_chosen_def interrupts_set_def Let_def
      split: if_splits prod.splits dest!: sync_same_after_getcontext)

lemma sync_same_sleep: "thread_sleep q fs s = Inr s' \<Longrightarrow> sync_same s s'"
  by (auto simp: thread_sleep_def interrupts_set_def Let_def split: if_splits list.splits
      dest!: sync_same_yield)

lemma sync_same_wait: "thread_wait t fs s = Inr s' \<Longrightarrow> sync_same s s'"
  by (auto simp: thread_wait_def interrupts_set_def split: if_splits dest!: sync_same_sleep)

lemma sync_same_resume: "resume s = Inr s' \<Longrightarrow> sync_same s s'"
proof (cases "mycontext (tcb s (cur s))")
  case (Ctx_stub a b c d)
  assume "resume s = Inr s'"
  with Ctx_stub show ?thesis
    by (auto simp: resume_def thread_stub_def Let_def elim!: sync_same_responsibilities[THEN sync_same_trans[rotated]]
        split: if_splits)
qed (auto simp: resume_def dest!: sync_same_after_getcontext)

lemma sync_same_interrupt: "interrupt_handler s = Inr s' \<Longrightarrow> sync_same s s'"
  by (auto simp: interrupt_handler_def interrupts_enabled_def dest: sync_same_yield)

section \<open>Addresses of allocated objects\<close>

definition addresses_ok :: "sys \<Rightarrow> bool" where
  "addresses_ok s \<longleftrightarrow> (\<forall>l k. locks s l = Some k \<longrightarrow> l < fresh s) \<and>
     (\<forall>c v. cvs s c = Some v \<longrightarrow> c < fresh s) \<and>
     (\<forall>q ws. wait_queues s q = Some ws \<longrightarrow> q < fresh s)"

text \<open>
  What a step may do to the locks: a lock other than \<open>l\<close> stays as it is, nothing is
  overwritten by an allocation.
\<close>

definition locks_but :: "lockref option \<Rightarrow> sys \<Rightarrow> sys \<Rightarrow> bool" where
  "locks_but lk s s' \<longleftrightarrow>
     (addresses_ok s \<longrightarrow> addresses_ok s' \<and>
        (\<forall>l k. locks s l = Some k \<longrightarrow> Some l \<noteq> lk \<longrightarrow> locks s' l = Some k))"

lemma addresses_ok_sync: "sync_same s s' \<Longrightarrow> addresses_ok s \<Longrightarrow> addresses_ok s'"
  by (fastforce simp: addresses_ok_def sync_same_def)

lemma locks_but_sync: "sync_same s s' \<Longrightarrow> locks_but lk s s'"
  using addresses_ok_sync[of s s'] by (auto simp: locks_but_def sync_same_def)

lemma addresses_ok_cong [simp]:
  "addresses_ok (s\<lparr>intr := b\<rparr>) = addresses_ok s" "addresses_ok (s\<lparr>phase := p\<rparr>) = addresses_ok s"
  by (simp_all add: addresses_ok_def)

lemma addresses_ok_start: "addresses_ok start"
  by (auto simp: addresses_ok_def split: if_splits)

lemma locks_but_returns:
  "locks_but lk s (snd r) \<Longrightarrow> locks_but lk s (returns r)"
  by (simp add: locks_but_def returns_def)

lemma locks_but_void:
  "(\<And>u. r = Inr u \<Longrightarrow> locks_but lk s u) \<Longrightarrow> void r = Inr s' \<Longrightarrow> locks_but lk s s'"
  by (auto simp: void_def bindR_eq_Inr intro!: locks_but_returns)

lemma locks_but_release:
  assumes "lock_release lk s = Inr s'"
  shows "locks_but lk s s'"
proof -
  have "sync_same s u" if "thread_wakeup q a (s\<lparr>intr := False\<rparr>) = Inr (n, u)" for q a n u
    using sync_same_wakeup[OF that] by simp
  with assms show ?thesis
    by (auto simp: lock_release_def interrupts_set_def bindR_eq_Inr locks_but_def
        split: option.splits if_splits)
       (fastforce simp: addresses_ok_def sync_same_def)+
qed

lemma locks_but_wq_create: "locks_but lk s (snd (wait_queue_create s))"
  by (auto simp: wait_queue_create_def locks_but_def addresses_ok_def dest: less_SucI)

lemma locks_but_lock_create: "locks_but lk s (snd (lock_create s))"
  by (auto simp: lock_create_def wait_queue_create_def locks_but_def addresses_ok_def Let_def
      dest: less_SucI)

lemma locks_but_cv_create: "locks_but lk s (snd (cv_create s))"
  by (auto simp: cv_create_def wait_queue_create_def locks_but_def addresses_ok_def Let_def
      dest: less_SucI)

lemma locks_but_wq_destroy: "wait_queue_destroy q s = Inr s' \<Longrightarrow> locks_but lk s s'"
  by (auto simp: wait_queue_destroy_def locks_but_def addresses_ok_def
      split: option.splits if_splits)

lemma locks_but_lock_destroy: "lock_destroy lk s = Inr s' \<Longrightarrow> locks_but lk s s'"
  by (auto simp: lock_destroy_def wait_queue_destroy_def locks_but_def addresses_ok_def
      bindR_eq_Inr assertR_eq_Inr split: option.splits if_splits)

lemma locks_but_cv_destroy: "cv_destroy c s = Inr s' \<Longrightarrow> locks_but lk s s'"
  by (auto simp: cv_destroy_def wait_queue_destroy_def locks_but_def addresses_ok_def
      bindR_eq_Inr split: option.splits if_splits)

lemma locks_but_create: "locks_but lk s (snd (thread_create fn parg mem s))"
  by (intro locks_but_sync) (simp add: thread_create_def interrupts_set_def Let_def split: prod.splits option.splits)

lemma locks_but_kill: "thread_kill t s = Inr r \<Longrightarrow> locks_but lk s (snd r)"
  by (intro locks_but_sync) (auto simp: thread_kill_def interrupts_set_def split: if_splits)

lemma locks_but_cv_wait:
  assumes "cv_wait c lk fs s = Inr s'"
  shows "locks_but lk s s'"
proof -
  have "locks_but lk s s'" if "lock_release lk (s\<lparr>intr := False\<rparr>) = Inr u" "thread_sleep q fs' u = Inr s'" for q fs' u
    using locks_but_release[OF that(1)] locks_but_sync[OF sync_same_sleep[OF that(2)], of lk]
    by (auto simp: locks_but_def)
  then show ?thesis
    using assms locks_but_sync[of s s' lk]
    by (auto simp: cv_wait_def interrupts_set_def bindR_eq_Inr split: if_splits)
qed

lemma sync_same_notify: "cv_notify a c lk s = Inr s' \<Longrightarrow> sync_same s s'"
  using sync_same_wakeup[of _ a "s\<lparr>intr := False\<rparr>"]
  by (auto simp: cv_notify_def interrupts_set_def bindR_eq_Inr split: if_splits)

lemma locks_but_acquire:
  assumes "lock_acquire_iter l en fs s = Inr s'"
  shows "locks_but (Some l) s s'"
proof (cases "locks s l")
  case (Some k)
  have "locks s' = (locks s)(l \<mapsto> k') \<and> cvs s' = cvs s \<and> fresh s' = fresh s \<and> wait_queues s' = wait_queues s"
    if "s' = ret 0 fs (s\<lparr>locks := (locks s)(l \<mapsto> k'), intr := en\<rparr>)" for k'
    unfolding that using ret_frame
    by simp
  then show ?thesis
    using assms Some sync_same_sleep[of _ _ s s']
    by (auto simp: lock_acquire_iter_def Let_def locks_but_sync split: if_splits)
       (auto simp: locks_but_def addresses_ok_def)
qed (use assms in \<open>simp add: lock_acquire_iter_def\<close>)

text \<open>The lock a call may change.\<close>

fun touched :: "call \<Rightarrow> lockref option" where
  "touched (C_release lk) = lk"
| "touched (C_cv_wait c lk) = lk"
| "touched (C_lock_destroy lk) = lk"
| "touched c = None"

lemma exec_call_locks: "exec_call c s = Inr s' \<Longrightarrow> locks_but (touched c) s s'"
  by (cases c)
     (auto simp: thread_id_def interrupts_set_def lock_acquire_def bindR_eq_Inr cv_signal_def cv_broadcast_def
        void_def Let_def split_beta
      dest: sync_same_yield sync_same_exit sync_same_sleep sync_same_wait sync_same_wakeup sync_same_notify
      intro: locks_but_sync locks_but_kill locks_but_cv_wait locks_but_wq_destroy locks_but_release
        locks_but_cv_destroy locks_but_lock_destroy locks_but_sync[OF sync_same_wakeup]
        locks_but_sync[OF sync_same_notify]
      intro!: locks_but_returns locks_but_create locks_but_wq_create locks_but_lock_create locks_but_cv_create
      split: option.splits)

section \<open>Mutual exclusion\<close>

text \<open>A held lock is changed by its holder only, in \<open>lock_release\<close> and \<open>cv_wait\<close>.\<close>

lemma release_not_holder:
  "locks s l = Some k \<Longrightarrow> \<not> (isAcquired k \<and> acquiredBy k = cur s) \<Longrightarrow> lock_release (Some l) s = Inr s"
  by (auto simp: lock_release_def interrupts_set_def)

lemma cv_wait_not_holder:
  "locks s l = Some k \<Longrightarrow> isAcquired k \<Longrightarrow> acquiredBy k \<noteq> cur s \<Longrightarrow>
   cv_wait c (Some l) fs s = Inr s' \<Longrightarrow> locks s' = locks s"
  by (auto simp: cv_wait_def cv_lock_def interrupts_set_def assertR_eq_Inr bindR_eq_Inr)

lemma step_addresses_ok: "step s lb s' \<Longrightarrow> addresses_ok s \<Longrightarrow> addresses_ok s'"
proof (induction rule: step.induct)
  case (call s v c s')
  then show ?case using exec_call_locks[of c s s'] by (auto simp: locks_but_def)
next
  case (acquire s l en fs s')
  then show ?case using locks_but_acquire[of l en fs s s'] by (auto simp: locks_but_def)
qed (auto intro: addresses_ok_sync sync_same_resume sync_same_interrupt)

lemma reachable_addresses_ok: "reachable s \<Longrightarrow> addresses_ok s"
proof -
  have "addresses_ok s'" if "steps s ls s'" "addresses_ok s" for s ls s'
    using that by (induction rule: steps.induct) (auto intro: step_addresses_ok)
  then show "reachable s \<Longrightarrow> addresses_ok s" using addresses_ok_start by (auto simp: reachable_def)
qed

lemma call_held:
  assumes "exec_call c s = Inr s'" and "addresses_ok s" and "locks s l = Some k" and "isAcquired k"
  shows "locks s' l = Some k \<or> acquiredBy k = cur s \<and> (c = C_release (Some l) \<or> (\<exists>d. c = C_cv_wait d (Some l)))"
proof (cases "touched c = Some l")
  case True
  then consider "c = C_release (Some l)" | d where "c = C_cv_wait d (Some l)" | "c = C_lock_destroy (Some l)"
    by (cases c) auto
  then show ?thesis
  proof cases
    case 1
    with assms show ?thesis using release_not_holder[of s l k]
      by (auto simp: void_def returns_def)
  next
    case (2 d)
    with assms show ?thesis using cv_wait_not_holder[of s l k d "[]" s'] by auto
  next
    case 3
    with assms show ?thesis by (simp add: void_def lock_destroy_def bindR_def)
  qed
qed (use exec_call_locks[OF assms(1)] assms(2,3) in \<open>auto simp: locks_but_def\<close>)

lemma acquire_held:
  assumes "lock_acquire_iter l' en fs s = Inr s'" and "addresses_ok s" and "locks s l = Some k" and "isAcquired k"
  shows "locks s' l = Some k"
proof (cases "l' = l")
  case True
  with assms have "thread_sleep (Some (wait_on_lock k)) (F_acquire l en # fs) s = Inr s'"
    by (simp add: lock_acquire_iter_def)
  then show ?thesis using sync_same_sleep assms(3) by (auto simp: sync_same_def)
qed (use locks_but_acquire[OF assms(1)] assms(2,3) in \<open>auto simp: locks_but_def\<close>)

lemma step_held:
  assumes "step s lb s'" and "addresses_ok s" and "locks s l = Some k" and "isAcquired k"
  shows "locks s' l = Some k \<or> acquiredBy k = cur s \<and>
    (lb = L_call (C_release (Some l)) \<or> (\<exists>c. lb = L_call (C_cv_wait c (Some l))))"
  using assms
proof (induction rule: step.induct)
  case (call s v c s')
  then show ?case using call_held[of c s s' l k] by auto
next
  case (acquire s l' en fs s')
  then show ?case using acquire_held[of l' en fs s s' l k] by auto
qed (auto dest!: sync_same_resume sync_same_interrupt simp: sync_same_def)



section \<open>Acquiring a lock that nobody will release\<close>

lemma iter_spin:
  assumes "phase s = Acquiring l en fs" and "\<not> intr s" and "locks s l = Some k" and "isAcquired k"
    and "readyQueue s = []"
  shows "lock_acquire_iter l en fs s = Inr s"
  using assms by (cases s) (simp add: lock_acquire_iter_def thread_sleep_def interrupts_set_def)

lemma spin_label:
  assumes "phase s = Acquiring l en fs" and "\<not> intr s" and "locks s l = Some k" and "isAcquired k"
    and "readyQueue s = []"
  shows "exec_label lb s = (if lb = L_acquire then Some (Inr s) else None)"
  using iter_spin[OF assms] assms(1) by (cases lb) simp_all

text \<open>
  C11. \<open>lock_acquire\<close> on a held lock when no thread is ready never returns: \<open>thread_sleep\<close>
  answers \<open>THREAD_NONE\<close> without sleeping, the loop ignores that answer, and each iteration
  leaves the whole state as it was, with interrupts disabled. No sequence of steps leads anywhere
  else.
\<close>

theorem lock_acquire_spins:
  assumes "phase s = Acquiring l en fs" and "\<not> intr s" and "locks s l = Some k" and "isAcquired k"
    and "readyQueue s = []"
  shows "run (replicate n L_acquire) s = Some (Inr s) \<and> (run ls s = None \<or> run ls s = Some (Inr s))"
proof -
  have "run (replicate n L_acquire) s = Some (Inr s)"
    by (induction n) (simp_all add: spin_label[OF assms] del: exec_label.simps)
  moreover have "run ls s = None \<or> run ls s = Some (Inr s)"
    by (induction ls) (simp_all add: spin_label[OF assms] del: exec_label.simps)
  ultimately show ?thesis ..
qed

theorem lock_acquire_spins_witness:
  "\<exists>s. run [L_call C_lock_create, L_call (C_acquire (Some 1024)), L_acquire,
       L_call (C_acquire (Some 1024))] start = Some (Inr s) \<and>
     run (replicate 7 L_acquire) s = Some (Inr s) \<and> run [L_interrupt] s = None"
proof -
  define s where "s = duo (th 0 RUNNING Ctx_zero None 0 0 None)
     (th 1 NOT_ASSIGNED Ctx_zero None 0 0 None) 0 [] (1 # pool2) False (Acquiring 1024 True [])
     (wq0(1025 \<mapsto> [])) [1024 \<mapsto> \<lparr>wait_on_lock = 1025, isAcquired = True, acquiredBy = 0\<rparr>] 1026"
  have "run [L_call C_lock_create, L_call (C_acquire (Some 1024)), L_acquire,
       L_call (C_acquire (Some 1024))] start = Some (Inr s)"
    unfolding start_duo s_def by (simp add: thread_evals)
  moreover have "run (replicate 7 L_acquire) s = Some (Inr s) \<and>
      (run [L_interrupt] s = None \<or> run [L_interrupt] s = Some (Inr s))"
    by (rule lock_acquire_spins[where k = "\<lparr>wait_on_lock = 1025, isAcquired = True, acquiredBy = 0\<rparr>"])
       (simp_all add: s_def)
  moreover have "run [L_interrupt] s = None" by (simp add: s_def)
  ultimately show ?thesis by blast
qed

end
