(* ===== verification/ThreadConserve.thy ===== *)
theory ThreadConserve
  imports ThreadLocks
begin

text \<open>
  No thread is lost: as long as no thread is killed, no allocation of a stack fails and only
  empty wait queues are destroyed, every identifier is in the pool, in a queue, or running.
\<close>

section \<open>Flags and membership\<close>

text \<open>The flag \<open>setcontext_called\<close> is set only in a thread that was switched away from inside
  \<open>thread_yield\<close>.\<close>

fun in_yield :: "ucontext \<Rightarrow> bool" where
  "in_yield (Ctx_yield n old en m fs) = True"
| "in_yield _ = False"

definition flag_ok :: "thread \<Rightarrow> bool" where
  "flag_ok c \<longleftrightarrow> killOnNextRun c \<noteq> 1 \<and> (\<not> in_yield (mycontext c) \<longrightarrow> setcontext_called c = 0)"

text \<open>Every identifier except \<open>n\<close>, which an operation holds in a local variable, is accounted
  for.\<close>

definition conserved_but :: "Tid \<Rightarrow> sys \<Rightarrow> bool" where
  "conserved_but n s \<longleftrightarrow> (\<forall>t. valid_tid t \<longrightarrow> flag_ok (tcb s t) \<and>
     (t_state (tcb s t) = NOT_ASSIGNED \<longrightarrow> setcontext_called (tcb s t) = 0) \<and>
     (t_state (tcb s t) = NOT_ASSIGNED \<longrightarrow> t \<noteq> n \<longrightarrow> t \<in> set (availableThreadIds s)) \<and>
     (t_state (tcb s t) = READY \<longrightarrow> t \<noteq> n \<longrightarrow> t \<in> queued s))"

definition conserved :: "sys \<Rightarrow> bool" where
  "conserved s \<longleftrightarrow> conserved_but (-1) s"

text \<open>A thread that executes has its flag cleared.\<close>

definition steady :: "sys \<Rightarrow> bool" where
  "steady s \<longleftrightarrow> conserved s \<and> setcontext_called (tcb s (cur s)) = 0"

definition cons_inv :: "sys \<Rightarrow> bool" where
  "cons_inv s \<longleftrightarrow> (case phase s of Exited \<Rightarrow> True | Switching \<Rightarrow> conserved s | _ \<Rightarrow> steady s)"

lemmas conserve_defs = conserved_def conserved_but_def flag_ok_def

lemma conserved_but_cong [simp]:
  "conserved_but n (s\<lparr>current_thread_id := b\<rparr>) = conserved_but n s"
  "conserved_but n (s\<lparr>locks := f\<rparr>) = conserved_but n s"
  "conserved_but n (s\<lparr>cvs := g\<rparr>) = conserved_but n s"
  "conserved_but n (s\<lparr>fresh := h\<rparr>) = conserved_but n s"
  "conserved_but n (s\<lparr>intr := i\<rparr>) = conserved_but n s"
  "conserved_but n (s\<lparr>phase := j\<rparr>) = conserved_but n s"
  "conserved_but n (freeTCBStacks s) = conserved_but n s"
  by (simp_all add: conserved_but_def freeTCBStacks_eq flag_ok_def)

lemma conserved_cong [simp]:
  "conserved (s\<lparr>current_thread_id := b\<rparr>) = conserved s" "conserved (s\<lparr>locks := f\<rparr>) = conserved s"
  "conserved (s\<lparr>cvs := g\<rparr>) = conserved s" "conserved (s\<lparr>fresh := h\<rparr>) = conserved s"
  "conserved (s\<lparr>intr := i\<rparr>) = conserved s" "conserved (s\<lparr>phase := j\<rparr>) = conserved s"
  "conserved (freeTCBStacks s) = conserved s"
  by (simp_all add: conserved_def)

lemma steady_cong [simp]:
  "steady (s\<lparr>locks := f\<rparr>) = steady s" "steady (s\<lparr>cvs := g\<rparr>) = steady s"
  "steady (s\<lparr>fresh := h\<rparr>) = steady s" "steady (s\<lparr>intr := i\<rparr>) = steady s"
  "steady (s\<lparr>phase := j\<rparr>) = steady s"
  by (simp_all add: steady_def)

lemma steady_free [simp]: "steady (freeTCBStacks s) = steady s"
  by (simp add: steady_def) (simp add: freeTCBStacks_eq)

lemma ret_cons: "steady s \<Longrightarrow> cons_inv (ret v fs s)"
  by (induction v fs s rule: ret.induct) (simp_all add: cons_inv_def interrupts_set_def)

text \<open>Changes of the current thread's control block that keep its state and its flag.\<close>

lemma steady_upd_cur:
  "steady s \<Longrightarrow> t_state (f (tcb s (cur s))) = t_state (tcb s (cur s)) \<Longrightarrow>
   setcontext_called (f (tcb s (cur s))) = 0 \<Longrightarrow>
   killOnNextRun (f (tcb s (cur s))) = killOnNextRun (tcb s (cur s)) \<Longrightarrow>
   steady (upd_tcb (cur s) f s)"
  by (auto simp: steady_def conserve_defs)

text \<open>Waking threads up only moves them from one queue to another.\<close>

lemma sleeping_upd:
  "sleeping (s\<lparr>wait_queues := W(q \<mapsto> ws)\<rparr>) =
     set ws \<union> {t. \<exists>p vs. p \<noteq> q \<and> W p = Some vs \<and> t \<in> set vs}"
  by (auto simp: sleeping_def)

lemma sleeping_split:
  "wait_queues s q = Some ws \<Longrightarrow>
     sleeping s = set ws \<union> {t. \<exists>p vs. p \<noteq> q \<and> wait_queues s p = Some vs \<and> t \<in> set vs}"
  unfolding sleeping_def by (rule set_eqI) (simp, metis option.inject)

lemma queued_wake:
  assumes "wait_queues s w = Some (us @ vs)"
  shows "queued (s\<lparr>readyQueue := readyQueue s @ us, wait_queues := (wait_queues s)(w \<mapsto> vs)\<rparr>) = queued s"
  by (auto simp: queued_def sleeping_upd sleeping_split[OF assms])

lemma wakeup_frame:
  assumes "queues_ok s" and "thread_wakeup q all s = Inr (n, s')"
  shows "queued s' = queued s" "TCBs s' = TCBs s" "cur s' = cur s"
    "availableThreadIds s' = availableThreadIds s"
  by (rule thread_wakeup_cases[OF assms]; auto simp: queued_wake)+

lemma wakeup_steady:
  assumes "queues_ok s" and "thread_wakeup q all s = Inr (n, s')"
  shows "steady s' = steady s" "conserved_but t s' = conserved_but t s"
  using wakeup_frame[OF assms] by (simp_all add: steady_def conserved_def conserved_but_def)

section \<open>Switching\<close>

text \<open>Taking a thread from the ready queue and running it.\<close>

lemma take_conserved:
  "conserved s \<Longrightarrow> set (readyQueue s) \<subseteq> insert n (set rq) \<Longrightarrow>
   conserved (upd_tcb n (\<lambda>c. c\<lparr>t_state := RUNNING\<rparr>) (s\<lparr>readyQueue := rq, current_thread_id := n\<rparr>))"
  by (auto simp: conserve_defs queued_iff)

lemma exit_cons:
  assumes "run_ok s" and "steady s" and "thread_exit s = Inr s'"
  shows "cons_inv s'"
proof -
  let ?o = "exit_clear (s\<lparr>intr := False\<rparr>)"
  obtain n u where w: "thread_wakeup (t_wait (tcb ?o (cur ?o))) 1 ?o = Inr (n, u)"
    and x: "exit_schedule (intr s) u = Inr s'"
    using assms(3) by (auto simp: thread_exit_def interrupts_set_def bindR_eq_Inr)
  have q: "queues_ok ?o" using assms(1) exit_clear_ok[of "s\<lparr>intr := False\<rparr>"] by auto
  have "conserved_but (cur s) ?o"
    unfolding conserved_but_def
  proof (intro allI impI)
    fix t
    assume v: "valid_tid t"
    then have "t \<noteq> -1" by auto
    with v assms(2) show "flag_ok (tcb ?o t) \<and>
        (t_state (tcb ?o t) = NOT_ASSIGNED \<longrightarrow> setcontext_called (tcb ?o t) = 0) \<and>
        (t_state (tcb ?o t) = NOT_ASSIGNED \<longrightarrow> t \<noteq> cur s \<longrightarrow> t \<in> set (availableThreadIds ?o)) \<and>
        (t_state (tcb ?o t) = READY \<longrightarrow> t \<noteq> cur s \<longrightarrow> t \<in> queued ?o)"
      by (cases "t = cur s") (simp_all add: steady_def conserve_defs exit_clear_def)
  qed
  then have "conserved_but (cur s) u" using wakeup_steady[OF q w] by simp
  moreover have "cur u = cur s" "t_state (tcb u (cur s)) = NOT_ASSIGNED"
    using wakeup_frame[OF q w] by (simp_all add: exit_clear_def)
  ultimately have c: "conserved (addToHeadId (cur u) u)"
    unfolding conserved_def conserved_but_def addToHeadId_def by fastforce
  have "rq_next (readyQueue (addToHeadId (cur u) u)) = rq_next (readyQueue u)"
    by (simp add: addToHeadId_def)
  then show ?thesis
    using x take_conserved[OF c, of "fst (rq_next (readyQueue u))" "snd (rq_next (readyQueue u))"]
    by (cases "readyQueue u")
       (auto simp: exit_schedule_def Let_def cons_inv_def addToHeadId_def split: if_splits)
qed

lemma queued_rq_add [simp]: "queued (rq_add c s) = insert c (queued s)"
  by (auto simp: queued_iff rq_add_def)

lemma rq_add_frame [simp, frame_simps]:
  "TCBs (rq_add c s) = TCBs s" "availableThreadIds (rq_add c s) = availableThreadIds s"
  "wait_queues (rq_add c s) = wait_queues s" "current_thread_id (rq_add c s) = current_thread_id s"
  by (simp_all add: rq_add_def)

lemma queued_push [simp]:
  assumes "wait_queues s q = Some ws" "W = wait_queues s"
  shows "queued (s\<lparr>wait_queues := W(q \<mapsto> ws @ [c])\<rparr>) = insert c (queued s)"
  using assms(2) by (auto simp: queued_def sleeping_upd sleeping_split[OF assms(1)])

lemma yield_rest_cons:
  assumes "conserved_but n s" and "setcontext_called (tcb s (cur s)) = 0"
    and "in_yield (mycontext (tcb s (cur s)))" and "yield_rest n (cur s) en fs s = Inr s'"
    and "n \<noteq> cur s"
  shows "cons_inv s'"
proof (cases "waitQueue (tcb s (cur s))")
  case None
  with assms show ?thesis
    by (auto simp: yield_rest_def Let_def cons_inv_def conserve_defs)
next
  case (Some q)
  with assms(2,4) obtain ws where ws: "wait_queues s q = Some ws"
    by (auto simp: yield_rest_def Let_def split: option.splits)
  with assms Some show ?thesis
    by (auto simp: yield_rest_def Let_def cons_inv_def conserve_defs queue_simps)
qed

lemma yield_chosen_cons:
  assumes "alive s" and "steady s" and "set (readyQueue s) \<subseteq> insert n (set rq)"
    and "n = -1 \<or> n \<in> set (readyQueue s)"
    and "yield_chosen (n, rq) en fs s = Inr s'"
  shows "cons_inv s'"
proof -
  have m: "-1 \<notin> set (readyQueue s)"
    using assms(1) queues_okD(2)[of s "-1"] by (auto simp: alive_def run_ok_def waiting_ok_def)
  have nc: "n \<noteq> cur s"
    using assms(1,4) queues_okD(2)[of s n] by (auto simp: alive_def run_ok_def waiting_ok_def sole_runner_def valid_tid_def)
  let ?g = "upd_tcb (cur s) (\<lambda>c. c\<lparr>mycontext := Ctx_yield n (cur s) en (intr s) fs\<rparr>) (s\<lparr>readyQueue := rq\<rparr>)"
  have b: "conserved_but n ?g"
    using assms(2,3) by (auto simp: steady_def conserve_defs queued_iff)
  have k: "killOnNextRun (tcb ?g (cur ?g)) \<noteq> 1" using assms(1) by (simp add: alive_def)
  show ?thesis
  proof (cases "n = -1")
    case True
    have "steady (s\<lparr>readyQueue := rq\<rparr>)"
      using assms(2,3) m True by (auto simp: steady_def conserve_defs queued_iff)
    with assms(5) True show ?thesis by (auto simp: yield_chosen_def intro: ret_cons)
  next
    case False
    then have "yield_rest n (cur s) en fs (freeTCBStacks ?g) = Inr s'"
      using assms(5) k by (simp add: yield_chosen_def after_getcontext_def threadResponsibilities_eq Let_def)
    moreover have "cur (freeTCBStacks ?g) = cur s"
      "setcontext_called (tcb (freeTCBStacks ?g) (cur s)) = 0"
      "in_yield (mycontext (tcb (freeTCBStacks ?g) (cur s)))"
      using assms(2) by (simp_all add: freeTCBStacks_eq steady_def)
    ultimately show ?thesis
      using yield_rest_cons[of n "freeTCBStacks ?g" en fs s'] b nc by simp
  qed
qed

lemma thread_yield_cons:
  assumes "alive s" and "steady s" and "thread_yield t fs s = Inr s'"
  shows "cons_inv s'"
proof -
  let ?o = "s\<lparr>intr := False\<rparr>"
  have d: "distinct (readyQueue s)"
    using assms(1) queues_okD(1)[of s] by (auto simp: alive_def run_ok_def)
  have any: "cons_inv s'" if "yield_any (intr s) fs ?o = Inr s'"
  proof (rule yield_chosen_cons[of ?o])
    show "yield_chosen (fst (rq_next (readyQueue s)), snd (rq_next (readyQueue s))) (intr s) fs ?o = Inr s'"
      using that by (simp add: yield_any_def)
  qed (use assms in \<open>auto simp: rq_next_def split: list.splits\<close>)
  have to: "cons_inv s'" if "yield_to t (intr s) fs ?o = Inr s'"
  proof (rule yield_chosen_cons[of ?o])
    show "yield_chosen (fst (rq_take (readyQueue s) t), snd (rq_take (readyQueue s) t)) (intr s) fs ?o = Inr s'"
      using that by (simp add: yield_to_def)
  qed (use d assms in \<open>auto simp: queue_simps set_remove1_eq\<close>)
  show ?thesis
    using assms any to ret_cons
    by (auto simp: thread_yield_def interrupts_set_def split: if_splits)
qed

lemma thread_sleep_cons:
  assumes "alive s" and "steady s" and "thread_sleep q fs s = Inr s'"
  shows "cons_inv s'"
proof -
  let ?u = "upd_tcb (cur s) (\<lambda>c. c\<lparr>waitQueue := q\<rparr>) (s\<lparr>intr := False\<rparr>)"
  have "alive ?u" "steady ?u"
    using assms(1,2) steady_upd_cur[of "s\<lparr>intr := False\<rparr>" "\<lambda>c. c\<lparr>waitQueue := q\<rparr>"]
    by (auto simp: alive_def steady_def intro!: run_ok_upd_tcb)
  then show ?thesis
    using assms ret_cons thread_yield_cons
    by (auto simp: thread_sleep_def interrupts_set_def split: list.splits if_splits)
qed

lemma thread_wait_cons:
  "alive s \<Longrightarrow> steady s \<Longrightarrow> thread_wait t fs s = Inr s' \<Longrightarrow> cons_inv s'"
  by (auto simp: thread_wait_def interrupts_set_def split: if_splits
      intro: ret_cons thread_sleep_cons[of "s\<lparr>intr := False\<rparr>"])

lemma resume_cons:
  assumes "sys_inv s" and "conserved s" and "phase s = Switching" and "resume s = Inr s'"
  shows "cons_inv s'"
proof -
  have v: "valid_tid (cur s)" and r: "resumable (tcb s (cur s))"
    using assms(1,3) by (auto simp: sys_inv_def sole_runner_def)
  have f: "flag_ok (tcb s (cur s))" using assms(2) v by (simp add: conserved_def conserved_but_def)
  show ?thesis
  proof (cases "mycontext (tcb s (cur s))")
    case (Ctx_stub fn parg sp m)
    have "s' = (freeTCBStacks (s\<lparr>intr := True\<rparr>))\<lparr>phase := Running 0\<rparr>"
      using assms(4) Ctx_stub f
      by (cases m) (auto simp: resume_def thread_stub_def interrupts_enabled_def Let_def
          threadResponsibilities_eq flag_ok_def)
    then show ?thesis using f assms(2) Ctx_stub
      by (simp add: cons_inv_def steady_def) (simp add: freeTCBStacks_eq flag_ok_def)
  next
    case (Ctx_yield n old en m fs)
    let ?u = "freeTCBStacks (s\<lparr>intr := m\<rparr>)"
    have "yield_rest n old en fs ?u = Inr s'"
      using assms(4) Ctx_yield f
      by (simp add: resume_def after_getcontext_def threadResponsibilities_eq flag_ok_def)
    moreover have "setcontext_called (tcb ?u (cur ?u)) \<noteq> 0" "mycontext (tcb ?u (cur ?u)) = Ctx_yield n old en m fs"
      using r Ctx_yield by (simp_all add: resumable_def freeTCBStacks_eq)
    moreover have "steady (upd_tcb (cur ?u) (\<lambda>c. c\<lparr>setcontext_called := 0\<rparr>) ?u)"
      using assms(2) by (auto simp: steady_def conserve_defs freeTCBStacks_eq)
    ultimately show ?thesis by (auto simp: yield_rest_def Let_def intro!: ret_cons)
  qed (use r in \<open>simp_all add: resumable_def\<close>)
qed

section \<open>Calls that keep every thread accounted for\<close>

fun benign_call :: "call \<Rightarrow> sys \<Rightarrow> bool" where
  "benign_call (C_kill t) s \<longleftrightarrow> False"
| "benign_call (C_create fn parg mem) s \<longleftrightarrow> mem \<noteq> None"
| "benign_call (C_wq_destroy q) s \<longleftrightarrow> wait_queues s q = Some []"
| "benign_call (C_lock_destroy (Some l)) s \<longleftrightarrow>
     (case locks s l of None \<Rightarrow> False | Some k \<Rightarrow> wait_queues s (wait_on_lock k) = Some [])"
| "benign_call (C_cv_destroy (Some c)) s \<longleftrightarrow>
     (case cvs s c of None \<Rightarrow> False | Some v \<Rightarrow> wait_queues s (wait_on_cv v) = Some [])"
| "benign_call _ s \<longleftrightarrow> True"

fun benign :: "label \<Rightarrow> sys \<Rightarrow> bool" where
  "benign (L_call c) s = benign_call c s"
| "benign _ s = True"

inductive benign_reach :: "sys \<Rightarrow> bool" where
  benign_start: "benign_reach start"
| benign_step: "benign_reach s \<Longrightarrow> step s lb s' \<Longrightarrow> benign lb s \<Longrightarrow> benign_reach s'"

lemma steady_queued:
  "steady s \<Longrightarrow> TCBs s' = TCBs s \<Longrightarrow> cur s' = cur s \<Longrightarrow>
   availableThreadIds s' = availableThreadIds s \<Longrightarrow> queued s' = queued s \<Longrightarrow> steady s'"
  by (simp add: steady_def conserved_def conserved_but_def)

lemma queued_empty_wq:
  assumes "wait_queues s q = Some [] \<or> wait_queues s q = None" and "r = None \<or> r = Some []"
  shows "queued (s\<lparr>wait_queues := (wait_queues s)(q := r)\<rparr>) = queued s"
proof -
  have "(\<exists>p vs. ((wait_queues s)(q := r)) p = Some vs \<and> t \<in> set vs) \<longleftrightarrow>
      (\<exists>p vs. wait_queues s p = Some vs \<and> t \<in> set vs)" for t
    using assms by auto (metis empty_iff list.set(1) option.distinct(1) option.inject)+
  then show ?thesis by (simp add: queued_def sleeping_def)
qed

lemma thread_create_steady:
  assumes "run_ok s" and "steady s"
  shows "steady (snd (thread_create fn parg (Some stack) s))"
proof -
  let ?o = "upd_tcb (cur s) (\<lambda>c. c\<lparr>mycontext := Ctx_create False\<rparr>) (s\<lparr>intr := False\<rparr>)"
  have o: "steady ?o" using steady_upd_cur[of "s\<lparr>intr := False\<rparr>"] assms(2) by (simp add: steady_def)
  show ?thesis
  proof (cases "availableThreadIds s")
    case Nil
    with o show ?thesis 
      by (auto simp: thread_create_def interrupts_set_def Let_def steady_def conserve_defs)
  next
    case (Cons t ts)
    then have t: "t \<noteq> -1" "t \<noteq> cur s" "t_state (tcb s t) = NOT_ASSIGNED" "t \<notin> set ts"
      using assms(1) by (auto simp: run_ok_def ids_ok_def sole_runner_def)
    show ?thesis
      using o Cons t
      by (auto simp: thread_create_def interrupts_set_def Let_def steady_def conserve_defs)
  qed
qed

lemma steady_empty_wq:
  "steady s \<Longrightarrow> wait_queues s q = Some [] \<or> wait_queues s q = None \<Longrightarrow> r = None \<or> r = Some [] \<Longrightarrow>
   steady (s\<lparr>wait_queues := (wait_queues s)(q := r)\<rparr>)"
  by (rule steady_queued[of s]) (simp_all add: queued_empty_wq)

lemma wq_create_steady: "steady s \<Longrightarrow> addresses_ok s \<Longrightarrow> steady (snd (wait_queue_create s))"
  by (auto simp: wait_queue_create_def addresses_ok_def intro!: steady_empty_wq) 

lemma wq_destroy_steady:
  "steady s \<Longrightarrow> wait_queues s q = Some [] \<Longrightarrow> wait_queue_destroy q s = Inr s' \<Longrightarrow> steady s'"
  by (auto simp: wait_queue_destroy_def intro!: steady_empty_wq)

lemma lock_release_steady:
  assumes "alive s" and "steady s" and "lock_release l s = Inr s'"
  shows "steady s'"
  using assms wakeup_steady(1)[of "s\<lparr>intr := False\<rparr>"]
  by (auto simp: lock_release_def interrupts_set_def bindR_eq_Inr alive_def run_ok_def
      split: option.splits if_splits)

lemma cv_notify_steady:
  assumes "alive s" and "steady s" and "cv_notify all c l s = Inr s'"
  shows "steady s'"
  using assms wakeup_steady(1)[of "s\<lparr>intr := False\<rparr>"]
  by (auto simp: cv_notify_def interrupts_set_def bindR_eq_Inr alive_def run_ok_def split: if_splits)

lemma cv_wait_cons:
  assumes "alive s" and "steady s" and "cv_wait c l fs s = Inr s'"
  shows "cons_inv s'"
  using assms lock_release_alive[of "s\<lparr>intr := False\<rparr>" l] lock_release_steady[of "s\<lparr>intr := False\<rparr>" l]
  by (auto simp: cv_wait_def interrupts_set_def bindR_eq_Inr split: if_splits
      intro: ret_cons thread_sleep_cons)

lemma acquire_iter_cons:
  "alive s \<Longrightarrow> steady s \<Longrightarrow> lock_acquire_iter l en fs s = Inr s' \<Longrightarrow> cons_inv s'"
  by (auto simp: lock_acquire_iter_def Let_def split: option.splits if_splits
      intro: ret_cons thread_sleep_cons)

lemma returns_cons: "steady (snd r) \<Longrightarrow> cons_inv (returns r)"
  by (simp add: returns_def cons_inv_def)

lemma void_cons: "(\<And>u. r = Inr u \<Longrightarrow> steady u) \<Longrightarrow> void r = Inr s \<Longrightarrow> cons_inv s"
  by (auto simp: void_def bindR_eq_Inr intro!: returns_cons)

lemma create_addr_steady:
  assumes "steady s" and "addresses_ok s"
  shows "steady (snd (wait_queue_create (s\<lparr>fresh := Suc (fresh s)\<rparr>)))"
proof -
  have "addresses_ok (s\<lparr>fresh := Suc (fresh s)\<rparr>)"
    using assms(2) by (fastforce simp: addresses_ok_def intro: less_SucI)
  then show ?thesis using wq_create_steady assms(1) by simp
qed

lemma lock_create_steady: "steady s \<Longrightarrow> addresses_ok s \<Longrightarrow> steady (snd (lock_create s))"
  using create_addr_steady[of s] by (auto simp: lock_create_def Let_def split: prod.splits)

lemma cv_create_steady: "steady s \<Longrightarrow> addresses_ok s \<Longrightarrow> steady (snd (cv_create s))"
  using create_addr_steady[of s] by (auto simp: cv_create_def Let_def split: prod.splits)

lemma lock_destroy_steady:
  "steady s \<Longrightarrow> benign_call (C_lock_destroy l) s \<Longrightarrow> lock_destroy l s = Inr s' \<Longrightarrow> steady s'"
  by (auto simp: lock_destroy_def bindR_eq_Inr assertR_eq_Inr split: option.splits
      intro: wq_destroy_steady)

lemma cv_destroy_steady:
  "steady s \<Longrightarrow> benign_call (C_cv_destroy c) s \<Longrightarrow> cv_destroy c s = Inr s' \<Longrightarrow> steady s'"
  by (auto simp: cv_destroy_def bindR_eq_Inr split: option.splits
      intro: wq_destroy_steady)

lemma exec_call_cons:
  assumes "alive s" and "steady s" and "addresses_ok s" and "benign_call c s" and "exec_call c s = Inr s'"
  shows "cons_inv s'"
proof (cases c)
  case (C_wakeup q all)
  with assms wakeup_steady(1)[of s q all] show ?thesis
    by (auto simp: bindR_eq_Inr alive_def run_ok_def intro!: returns_cons)
next
  case (C_create fn parg mem)
  with assms thread_create_steady[of s fn parg] show ?thesis
    by (auto simp: alive_def intro!: returns_cons)
next
  case (C_lock_destroy l)
  with assms show ?thesis using void_cons[OF lock_destroy_steady[of s l]] by simp
next
  case (C_cv_destroy l)
  with assms show ?thesis using void_cons[OF cv_destroy_steady[of s l]] by simp
next
  case (C_wq_destroy q)
  with assms show ?thesis using void_cons[OF wq_destroy_steady[of s q]] by simp
next
  case (C_release l)
  with assms show ?thesis using void_cons[OF lock_release_steady[of s l]] by simp
next
  case (C_cv_signal d l)
  with assms show ?thesis using void_cons[OF cv_notify_steady[of s 0 d l]] by (simp add: cv_signal_def)
next
  case (C_cv_broadcast d l)
  with assms show ?thesis using void_cons[OF cv_notify_steady[of s 1 d l]] by (simp add: cv_broadcast_def)
next
  case (C_acquire l)
  with assms show ?thesis by (auto simp: lock_acquire_def interrupts_set_def cons_inv_def split: option.splits)
next
  case C_wq_create
  with assms show ?thesis using returns_cons[of "(int (fst (wait_queue_create s)), snd (wait_queue_create s))"]
    by (simp add: split_beta wq_create_steady)
next
  case C_lock_create
  with assms show ?thesis using returns_cons[of "(int (fst (lock_create s)), snd (lock_create s))"]
    by (simp add: split_beta lock_create_steady)
next
  case C_cv_create
  with assms show ?thesis using returns_cons[of "(int (fst (cv_create s)), snd (cv_create s))"]
    by (simp add: split_beta cv_create_steady)
qed (use assms in \<open>auto simp: alive_def thread_id_def interrupts_set_def
      intro!: returns_cons intro: thread_yield_cons exit_cons thread_sleep_cons thread_wait_cons cv_wait_cons\<close>)

lemma step_cons:
  "step s lb s' \<Longrightarrow> sys_inv s \<Longrightarrow> addresses_ok s \<Longrightarrow> cons_inv s \<Longrightarrow> benign lb s \<Longrightarrow> cons_inv s'"
proof (induction rule: step.induct)
  case (call s v c s')
  then show ?case using exec_call_cons[of s c s'] inv_alive[of s v] by (simp add: cons_inv_def)
next
  case (interrupt s v s')
  then show ?case
    using thread_yield_cons[of "s\<lparr>intr := False\<rparr>" THREAD_ANY "[F_handler]" s'] inv_alive[of s v]
    by (simp add: cons_inv_def interrupt_handler_def interrupts_enabled_def)
next
  case (resume s s')
  then show ?case using resume_cons[of s s'] by (simp add: cons_inv_def)
next
  case (acquire s l en fs s')
  then show ?case using acquire_iter_cons[of s l en fs s'] inv_alive[of s undefined l en fs] by (simp add: cons_inv_def)
qed

lemma start_cons: "cons_inv start"
  by (auto simp: cons_inv_def steady_def conserve_defs valid_tid_def thread_consts)

lemma benign_reachable: "benign_reach s \<Longrightarrow> reachable s"
  by (induction rule: benign_reach.induct) (auto intro: reachable_start reachable_step)

lemma benign_reach_cons: "benign_reach s \<Longrightarrow> cons_inv s"
proof (induction rule: benign_reach.induct)
  case (benign_step s lb s')
  then show ?case
    using step_cons benign_reachable reachable_inv reachable_addresses_ok by blast
qed (rule start_cons)

section \<open>Where every thread is\<close>

lemma cons_inv_somewhere:
  assumes "sys_inv s" and "cons_inv s" and "phase s \<noteq> Exited" and "valid_tid t"
  shows "of_bool (t = cur s) + of_bool (t \<in> set (availableThreadIds s)) +
    of_bool (t \<in> set (readyQueue s)) + of_bool (t \<in> sleeping s) = (1 :: nat)"
proof -
  have c: "conserved s" and r: "sole_runner s" and q: "queues_ok s" and i: "ids_ok s"
    using assms(1-3) by (auto simp: cons_inv_def sys_inv_def steady_def split: phase.splits)
  have t1: "t \<noteq> -1" using assms(4) by auto
  have ready: "t \<in> queued s \<Longrightarrow> t_state (tcb s t) = READY"
    using q queued_waiting_ok by (auto simp: waiting_ok_def)
  have na: "t \<in> set (availableThreadIds s) \<Longrightarrow> t_state (tcb s t) = NOT_ASSIGNED"
    using i by (auto simp: ids_ok_def)
  have excl: "t \<in> set (readyQueue s) \<Longrightarrow> t \<notin> sleeping s"
    using q by (auto simp: queues_ok_def sleeping_def)
  show ?thesis
  proof (cases "t_state (tcb s t)")
    case NOT_ASSIGNED
    with c t1 assms(4) r ready show ?thesis by (auto simp: conserve_defs sole_runner_def queued_def)
  next
    case READY
    with c t1 assms(4) r na excl show ?thesis by (auto simp: conserve_defs sole_runner_def queued_def)
  next
    case RUNNING
    with r assms(4) ready na show ?thesis by (auto simp: sole_runner_def queued_def)
  qed
qed

text \<open>
  C2. No thread is lost or duplicated: in every state reached without \<open>thread_kill\<close>, without
  a failed stack allocation and without destroying a wait queue that still has sleepers, each of
  the 1024 identifiers is in exactly one place: it is the running thread, or in the pool of
  unused identifiers, or in the ready queue, or asleep on a wait queue.
\<close>

theorem every_thread_somewhere:
  assumes "benign_reach s" and "phase s \<noteq> Exited" and "valid_tid t"
  shows "of_bool (t = cur s) + of_bool (t \<in> set (availableThreadIds s)) +
    of_bool (t \<in> set (readyQueue s)) + of_bool (t \<in> sleeping s) = (1 :: nat)"
  using assms benign_reachable[of s] reachable_inv[of s] benign_reach_cons[of s]
  by (intro cons_inv_somewhere) auto

theorem every_thread_somewhere_witness:
  "\<exists>s. run [L_call (C_create 7 0 (Some 65536)), L_call (C_yield (-1)), L_resume] start = Some (Inr s) \<and>
     of_bool (0 = cur s) + of_bool (0 \<in> set (availableThreadIds s)) +
     of_bool (0 \<in> set (readyQueue s)) + of_bool (0 \<in> sleeping s) = (1 :: nat)"
proof -
  define s1 where "s1 = duo (th 0 RUNNING (Ctx_create False) None 0 0 None)
    (th 1 READY (Ctx_stub 7 0 98296 False) (Some 65536) 0 0 None) 0 [1] pool2 True (Running 1) wq0 Map.empty 1024"
  define s2 where "s2 = duo (th 0 READY (Ctx_yield 1 0 True False []) None 1 0 None)
    (th 1 RUNNING (Ctx_stub 7 0 98296 False) (Some 65536) 0 0 None) 1 [0] pool2 False Switching wq0 Map.empty 1024"
  define s3 where "s3 = duo (th 0 READY (Ctx_yield 1 0 True False []) None 1 0 None)
    (th 1 RUNNING (Ctx_stub 7 0 98296 False) (Some 65536) 0 0 None) 1 [0] pool2 True (Running 0) wq0 Map.empty 1024"
  have e: "exec_label (L_call (C_create 7 0 (Some 65536))) start = Some (Inr s1)"
    "exec_label (L_call (C_yield (-1))) s1 = Some (Inr s2)" "exec_label L_resume s2 = Some (Inr s3)"
    unfolding start_duo s1_def s2_def s3_def by (simp_all add: thread_evals initial_sp_def)
  have "benign_reach s3"
    using benign_step[OF benign_step[OF benign_step[OF benign_start]], of "L_call (C_create 7 0 (Some 65536))" s1
        "L_call (C_yield (-1))" s2 L_resume s3] e
    by (simp add: step_iff_exec_label del: exec_label.simps)
  moreover have "phase s3 \<noteq> Exited" by (simp add: s3_def)
  moreover have "valid_tid 0" by (simp add: valid_tid_def thread_consts)
  ultimately have "of_bool (0 = cur s3) + of_bool (0 \<in> set (availableThreadIds s3)) +
     of_bool (0 \<in> set (readyQueue s3)) + of_bool (0 \<in> sleeping s3) = (1 :: nat)"
    by (rule every_thread_somewhere)
  with e show ?thesis by (auto simp del: exec_label.simps)
qed

text \<open>
  C3. With \<open>thread_kill\<close> a thread can be lost. \<open>thread_exit\<close> does not reset
  \<open>setcontext_called\<close>; when a thread that was killed while switched out exits, its identifier
  is reused with the flag still set, and the first \<open>thread_yield\<close> of the new thread takes a
  thread from the ready queue, then returns at once without switching to it and without putting
  it back. In the reachable state below thread 1 is \<open>READY\<close>, but it is in no queue, and
  neither running nor in the pool of identifiers.
\<close>

theorem killed_identifier_reuse_loses_thread:
  "\<exists>s. run [L_call (C_create 7 0 (Some 65536)), L_call (C_yield 1), L_resume, L_call (C_kill 0),
       L_call (C_yield 0), L_resume, L_resume, L_call (C_create 8 0 (Some 131072)),
       L_call (C_yield 0), L_resume, L_call (C_yield (-1))] start = Some (Inr s) \<and>
     reachable s \<and> t_state (tcb s 1) = READY \<and> cur s \<noteq> 1 \<and> 1 \<notin> queued s \<and>
     1 \<notin> set (availableThreadIds s)"
proof -
  define s where "s = duo (th 0 RUNNING (Ctx_yield 1 0 True False []) (Some 131072) 0 0 None)
    (th 1 READY (Ctx_yield 0 1 True False []) (Some 65536) 1 0 None) 0 [] pool2 True (Running 1)
    wq0 Map.empty 1024"
  have r: "run [L_call (C_create 7 0 (Some 65536)), L_call (C_yield 1), L_resume, L_call (C_kill 0),
       L_call (C_yield 0), L_resume, L_resume, L_call (C_create 8 0 (Some 131072)),
       L_call (C_yield 0), L_resume, L_call (C_yield (-1))] start = Some (Inr s)"
    unfolding start_duo s_def by (simp add: thread_evals initial_sp_def)
  have "1 \<notin> queued s" by (auto simp: s_def queued_iff wq0_def)
  moreover have "1 \<notin> set (availableThreadIds s)" by (simp add: s_def pool2_def del: upto_rec_numeral)
  moreover have "t_state (tcb s 1) = READY" "cur s \<noteq> 1" by (simp_all add: s_def)
  ultimately show ?thesis using r run_reachable[OF r] by blast
qed

end
