(* ===== verification/ThreadSched.thy ===== *)
theory ThreadSched
  imports ThreadConserve
begin

text \<open>
  Scheduling: what one context switch does, the round-robin order that voluntary yields and timer
  interrupts give, and the dispatch of a chain of killed threads.
\<close>

section \<open>Returning to client code\<close>

text \<open>The state of the signal mask after the frames have returned; \<open>None\<close> if a frame goes back
  to the loop of \<open>lock_acquire\<close>.\<close>

fun ret_intr :: "bool \<Rightarrow> frame list \<Rightarrow> bool option" where
  "ret_intr b [] = Some b"
| "ret_intr b (F_sleep e # fs) = ret_intr e fs"
| "ret_intr b (F_wait t e # fs) = ret_intr e fs"
| "ret_intr b (F_cv_done e # fs) = ret_intr e fs"
| "ret_intr b (F_handler # fs) = ret_intr True fs"
| "ret_intr b (F_acquire l e # fs) = None"
| "ret_intr b (F_cv_wait l e # fs) = None"

lemma ret_Running:
  "ret_intr (intr s) fs = Some b \<Longrightarrow> \<exists>w. ret v fs s = s\<lparr>intr := b, phase := Running w\<rparr>"
proof (induction v fs s rule: ret.induct)
  case (1 v s)
  then show ?case by (cases s) auto
qed auto

text \<open>A thread that will be back in client code, with interrupts on, when it is dispatched.\<close>

definition peer :: "thread \<Rightarrow> bool" where
  "peer c \<longleftrightarrow> killOnNextRun c \<noteq> 1 \<and> waitQueue c = None \<and>
     (case mycontext c of
        Ctx_stub fn parg sp m \<Rightarrow> setcontext_called c = 0
      | Ctx_yield n old en m fs \<Rightarrow> setcontext_called c \<noteq> 0 \<and> ret_intr en fs = Some True
      | _ \<Rightarrow> False)"

definition cooperative :: "sys \<Rightarrow> bool" where
  "cooperative s \<longleftrightarrow> sys_inv s \<and> intr s \<and> (\<exists>v. phase s = Running v) \<and>
     setcontext_called (tcb s (cur s)) = 0 \<and> waitQueue (tcb s (cur s)) = None \<and>
     (\<forall>t\<in>set (readyQueue s). peer (tcb s t))"

lemma peer_freed [simp]: "peer (freed s t) = peer (tcb s t)"
  by (simp add: peer_def split: ucontext.split)

lemma peer_running [simp]: "peer (c\<lparr>t_state := x\<rparr>) = peer c"
  by (simp add: peer_def split: ucontext.split)

section \<open>One switch\<close>

text \<open>The state after \<open>thread_yield\<close> has switched from the current thread to \<open>t\<close>.\<close>

definition switched :: "Tid \<Rightarrow> Tid list \<Rightarrow> bool \<Rightarrow> frame list \<Rightarrow> sys \<Rightarrow> sys" where
  "switched t rq en fs s =
     (let T = freed (upd_tcb (cur s) (\<lambda>c. c\<lparr>mycontext := Ctx_yield t (cur s) en False fs\<rparr>) s)
      in s\<lparr>TCBs := T(cur s := (T (cur s))\<lparr>t_state := READY, setcontext_called := 1\<rparr>,
                    t := (T t)\<lparr>t_state := RUNNING\<rparr>),
          current_thread_id := t, readyQueue := rq @ [cur s], intr := False, phase := Switching\<rparr>)"

lemma switched_frame [simp, frame_simps]:
  "current_thread_id (switched t rq en fs s) = t" "readyQueue (switched t rq en fs s) = rq @ [cur s]"
  "phase (switched t rq en fs s) = Switching"
  by (simp_all add: switched_def Let_def)

lemma yield_chosen_switch:
  assumes "t \<noteq> -1" and "t \<noteq> cur s" and "setcontext_called (tcb s (cur s)) = 0"
    and "waitQueue (tcb s (cur s)) = None" and "killOnNextRun (tcb s (cur s)) \<noteq> 1" and "\<not> intr s"
  shows "yield_chosen (t, rq) en fs s = Inr (switched t rq en fs s)"
proof -
  let ?g = "upd_tcb (cur s) (\<lambda>c. c\<lparr>mycontext := Ctx_yield t (cur s) en False fs\<rparr>) (s\<lparr>readyQueue := rq\<rparr>)"
  have f: "freed ?g = freed (upd_tcb (cur s) (\<lambda>c. c\<lparr>mycontext := Ctx_yield t (cur s) en False fs\<rparr>) s)"
    by (simp add: freed_def fun_eq_iff)
  show ?thesis
    using assms f
    by (cases s) (simp add: yield_chosen_def after_getcontext_def threadResponsibilities_eq freeTCBStacks_eq
        yield_rest_def Let_def switched_def rq_add_def upd_tcb_def fun_upd_twist)
qed

lemma freeTCBStacks_intr: "freeTCBStacks (s\<lparr>intr := b\<rparr>) = (freeTCBStacks s)\<lparr>intr := b\<rparr>"
  by (simp add: freeTCBStacks_eq)

lemma resume_peer:
  assumes "peer (tcb s (cur s))"
  shows "\<exists>w. resume s = Inr ((upd_tcb (cur s) (\<lambda>c. c\<lparr>setcontext_called := 0\<rparr>) (freeTCBStacks s))
     \<lparr>intr := True, phase := Running w\<rparr>)"
proof (cases "mycontext (tcb s (cur s))")
  case (Ctx_stub fn parg sp m)
  have "upd_tcb (cur s) (\<lambda>c. c\<lparr>setcontext_called := 0\<rparr>) (freeTCBStacks s) = freeTCBStacks s"
    using assms Ctx_stub by (simp add: upd_tcb_def freeTCBStacks_eq peer_def fun_eq_iff)
  with assms Ctx_stub show ?thesis
    by (cases m) (auto simp: resume_def thread_stub_def interrupts_enabled_def
        threadResponsibilities_eq peer_def freeTCBStacks_intr)
next
  case (Ctx_yield n old en m fs)
  let ?u = "upd_tcb (cur s) (\<lambda>c. c\<lparr>setcontext_called := 0\<rparr>) (freeTCBStacks (s\<lparr>intr := m\<rparr>))"
  have "resume s = Inr (ret n fs (?u\<lparr>intr := en\<rparr>))"
    using assms Ctx_yield
    by (simp add: resume_def after_getcontext_def threadResponsibilities_eq peer_def yield_rest_def Let_def)
       (simp add: freeTCBStacks_eq)
  moreover obtain w where "ret n fs (?u\<lparr>intr := en\<rparr>) = ?u\<lparr>intr := True, phase := Running w\<rparr>"
    using ret_Running[of "?u\<lparr>intr := en\<rparr>" fs True n] assms Ctx_yield by (auto simp: peer_def)
  ultimately show ?thesis by (auto simp: freeTCBStacks_eq upd_tcb_def)
qed (use assms in \<open>simp_all add: peer_def\<close>)

definition preemption :: "label \<Rightarrow> bool" where
  "preemption l \<longleftrightarrow> l = L_call (C_yield THREAD_ANY) \<or> l = L_interrupt"

lemma cooperative_switch:
  assumes "cooperative s" and "readyQueue s = t # ts" and "preemption l"
  shows "\<exists>en fs. ret_intr en fs = Some True \<and>
    exec_label l s = Some (Inr (switched t ts en fs (s\<lparr>intr := False\<rparr>)))"
proof -
  have "waiting_ok s t" and a: "alive s"
    using assms(1,2) inv_alive[of s] queues_okD(2)[of s t] by (auto simp: cooperative_def sys_inv_def)
  then have t: "t \<noteq> -1" "t \<noteq> cur s" by (auto simp: waiting_ok_def alive_def run_ok_def sole_runner_def)
  have c: "cur s \<noteq> -1" using a by (auto simp: alive_def run_ok_def sole_runner_def)
  have y: "thread_yield THREAD_ANY fs u = Inr (switched t ts (intr u) fs (s\<lparr>intr := False\<rparr>))"
    if "u\<lparr>intr := False\<rparr> = s\<lparr>intr := False\<rparr>" for u fs
  proof -
    have "cur u = cur s" using that by (metis (no_types) sys.ext_inject sys.surjective sys.update_convs(9))
    then show ?thesis
      using that assms(1,2) c t a yield_chosen_switch[of t "s\<lparr>intr := False\<rparr>" ts "intr u" fs]
      by (simp add: thread_yield_def interrupts_set_def yield_any_def thread_consts cooperative_def alive_def)
  qed
  have i: "intr s" "\<exists>v. phase s = Running v" using assms(1) by (simp_all add: cooperative_def)
  show ?thesis
  proof (cases "l = L_interrupt")
    case True
    with i y[of "s\<lparr>intr := False\<rparr>" "[F_handler]"] show ?thesis
      by (intro exI[of _ False] exI[of _ "[F_handler]"])
         (auto simp: interrupt_handler_def interrupts_enabled_def)
  next
    case False
    with assms(3) i y[of s "[]"] show ?thesis
      by (intro exI[of _ True] exI[of _ "[]"]) (auto simp: preemption_def)
  qed
qed

lemma round_switch:
  assumes "cooperative s" and "readyQueue s = t # ts" and "preemption l"
  shows "\<exists>s'. run [l, L_resume] s = Some (Inr s') \<and> cooperative s' \<and> cur s' = t \<and>
    readyQueue s' = ts @ [cur s]"
proof -
  obtain en fs where en: "ret_intr en fs = Some True"
    and l: "exec_label l s = Some (Inr (switched t ts en fs (s\<lparr>intr := False\<rparr>)))" (is "_ = Some (Inr ?u)")
    using cooperative_switch[OF assms] by blast
  have q: "queues_ok s" and r: "sole_runner s" and k: "killOnNextRun (tcb s (cur s)) \<noteq> 1"
    using assms(1) by (auto simp: cooperative_def sys_inv_def)
  have tc: "t \<noteq> cur s" "t \<notin> set ts" "cur s \<notin> set ts"
    using q r assms(2) by (auto simp: queues_ok_def sole_runner_def waiting_ok_def)
  have p: "peer (tcb ?u (cur ?u))"
    using assms(1,2) tc by (simp add: switched_def Let_def cooperative_def)
  then obtain w where w: "resume ?u = Inr ((upd_tcb t (\<lambda>c. c\<lparr>setcontext_called := 0\<rparr>) (freeTCBStacks ?u))
     \<lparr>intr := True, phase := Running w\<rparr>)" (is "_ = Inr ?v")
    using resume_peer[of ?u] by auto
  have run: "run [l, L_resume] s = Some (Inr ?v)"
    using l w by (simp del: exec_label.simps(1,2))
  have "sys_inv ?v" using steps_inv[OF run_steps[OF run]] assms(1) by (simp add: cooperative_def)
  moreover have "peer (tcb ?u (cur s))"
    using assms(1) tc en k by (simp add: switched_def Let_def cooperative_def peer_def)
  moreover have "\<forall>x\<in>set ts. peer (tcb ?u x)"
    using assms(1,2) tc by (auto simp: switched_def Let_def cooperative_def)
  moreover have "tcb ?v x = (if x = t then (freed ?u t)\<lparr>setcontext_called := 0\<rparr> else freed ?u x)" for x
    by (simp add: freeTCBStacks_eq)
  moreover have v: "cur ?v = t" "readyQueue ?v = ts @ [cur s]" "intr ?v" "phase ?v = Running w"
    by (simp_all add: freeTCBStacks_eq)
  moreover have "waitQueue (tcb ?u t) = None" using p by (simp add: peer_def)
  ultimately have "cooperative ?v"
    using tc unfolding cooperative_def by (simp del: TCBs_upd_tcb)
  with v show ?thesis using run by blast
qed

section \<open>Round robin\<close>

lemma run_append: "run (as @ bs) s = (case run as s of Some (Inr u) \<Rightarrow> run bs u | r \<Rightarrow> r)"
  by (induction as arbitrary: s) (auto split: option.splits sum.splits)

text \<open>
  C4. Round robin: while the threads only yield to any thread or are preempted by the timer,
  the processor goes round the ready queue. After any sequence of \<open>n\<close> switches the running
  thread and the ready queue together are the initial ones rotated by \<open>n\<close>, so in a ready
  queue of length \<open>m\<close> every thread runs once in each \<open>m + 1\<close> switches.
\<close>

theorem round_robin:
  assumes "cooperative s" and "readyQueue s \<noteq> []" and "\<forall>l\<in>set ls. preemption l"
  shows "\<exists>s'. run (concat (map (\<lambda>l. [l, L_resume]) ls)) s = Some (Inr s') \<and>
    cur s' # readyQueue s' = rotate (length ls) (cur s # readyQueue s)"
proof -
  have "\<exists>s'. run (concat (map (\<lambda>l. [l, L_resume]) ls)) s = Some (Inr s') \<and> cooperative s' \<and>
    cur s' # readyQueue s' = rotate (length ls) (cur s # readyQueue s)"
    using assms(3)
  proof (induction ls rule: rev_induct)
    case Nil
    with assms(1) show ?case by simp
  next
    case (snoc l ls)
    then obtain u where u: "run (concat (map (\<lambda>l. [l, L_resume]) ls)) s = Some (Inr u)" "cooperative u"
      "cur u # readyQueue u = rotate (length ls) (cur s # readyQueue s)" by auto
    from u(3) have "length (readyQueue u) = length (readyQueue s)"
      by (metis length_Cons length_rotate nat.inject)
    with assms(2) obtain t ts where q: "readyQueue u = t # ts"
      by (metis length_0_conv neq_Nil_conv)
    from snoc.prems have "preemption l" by simp
    from round_switch[OF u(2) q this] obtain s' where s': "run [l, L_resume] u = Some (Inr s')"
      "cooperative s'" "cur s' = t" "readyQueue s' = ts @ [cur u]" by blast
    have "cur s' # readyQueue s' = rotate1 (cur u # readyQueue u)" using s' q by simp
    then show ?case using u s'(1,2) by (auto simp: run_append simp del: run.simps(2))
  qed
  then show ?thesis by blast
qed

theorem round_robin_witness:
  "\<exists>s s'. run [L_call (C_create 7 0 (Some 65536))] start = Some (Inr s) \<and>
     run [L_interrupt, L_resume, L_call (C_yield THREAD_ANY), L_resume] s = Some (Inr s') \<and>
     cur s' = cur s \<and> readyQueue s' = readyQueue s"
proof -
  define s where "s = duo (th 0 RUNNING (Ctx_create False) None 0 0 None)
    (th 1 READY (Ctx_stub 7 0 98296 False) (Some 65536) 0 0 None) 0 [1] pool2 True (Running 1) wq0 Map.empty 1024"
  have r: "run [L_call (C_create 7 0 (Some 65536))] start = Some (Inr s)"
    unfolding start_duo s_def by (simp add: thread_evals initial_sp_def)
  have "cooperative s"
    using reachable_inv[OF run_reachable[OF r]] by (simp add: cooperative_def s_def peer_def)
  moreover have "readyQueue s \<noteq> []" by (simp add: s_def)
  moreover have "\<forall>l\<in>set [L_interrupt, L_call (C_yield THREAD_ANY)]. preemption l"
    by (simp add: preemption_def)
  ultimately have "\<exists>s'. run (concat (map (\<lambda>l. [l, L_resume]) [L_interrupt, L_call (C_yield THREAD_ANY)])) s =
      Some (Inr s') \<and> cur s' # readyQueue s' =
      rotate (length [L_interrupt, L_call (C_yield THREAD_ANY)]) (cur s # readyQueue s)"
    by (rule round_robin)
  then obtain s' where "run [L_interrupt, L_resume, L_call (C_yield THREAD_ANY), L_resume] s = Some (Inr s')"
    "cur s' = cur s \<and> readyQueue s' = readyQueue s"
    by (auto simp: s_def numeral_2_eq_2 simp del: run.simps(2))
  with r show ?thesis by blast
qed

section \<open>Dispatching killed threads\<close>

definition live :: "sys \<Rightarrow> Tid set" where
  "live s = {t. valid_tid t \<and> t_state (tcb s t) \<noteq> NOT_ASSIGNED}"

definition exit_queues_ok :: "sys \<Rightarrow> bool" where
  "exit_queues_ok s \<longleftrightarrow> (\<forall>t w. t_wait (tcb s t) = Some w \<longrightarrow> wait_queues s w \<noteq> None)"

lemma finite_live: "finite (live s)" and card_live: "card (live s) \<le> 1024"
proof -
  have "live s \<subseteq> {0..<1024}" by (auto simp: live_def valid_tid_def thread_consts)
  then show "finite (live s)" "card (live s) \<le> 1024"
    using finite_subset card_mono[of "{0..<1024::int}" "live s"] by auto
qed

lemma ret_not_Switching: "phase (ret v fs s) \<noteq> Switching"
  by (induction v fs s rule: ret.induct) (simp_all add: interrupts_set_def)

lemma wakeup_total:
  assumes "queues_ok s" and "\<And>w. q = Some w \<Longrightarrow> wait_queues s w \<noteq> None"
  obtains n s' where "thread_wakeup q all s = Inr (n, s')" "TCBs s' = TCBs s" "cur s' = cur s"
    "dom (wait_queues s') = dom (wait_queues s)"
proof (cases q)
  case None
  with that[of 0 s] show ?thesis by (auto simp: thread_wakeup_def interrupts_set_def)
next
  case (Some w)
  with assms(2) obtain ws where ws: "wait_queues s w = Some ws" by blast
  note eq = thread_wakeup_eq[OF ws queues_ok_no_minus1[OF assms(1) ws], of all]
  obtain n s' where w: "thread_wakeup q all s = Inr (n, s')"
    using eq Some by (auto split: if_splits)
  moreover have "TCBs s' = TCBs s" "cur s' = cur s" "dom (wait_queues s') = dom (wait_queues s)"
    using w Some eq ws by (auto split: if_splits)
  ultimately show ?thesis by (rule that)
qed

lemma exit_dispatch:
  assumes "run_ok s" and "exit_queues_ok s"
  shows "\<exists>s'. thread_exit s = Inr s' \<and>
    (phase s' = Exited \<or> exit_queues_ok s' \<and> card (live s') < card (live s))"
proof -
  let ?o = "exit_clear (s\<lparr>intr := False\<rparr>)"
  have q: "queues_ok ?o" using assms(1) exit_clear_ok[of "s\<lparr>intr := False\<rparr>"] by auto
  have tw: "\<And>w. t_wait (tcb ?o (cur ?o)) = Some w \<Longrightarrow> wait_queues ?o w \<noteq> None"
    using assms(2) by (auto simp: exit_queues_ok_def)
  obtain n u where u: "thread_wakeup (t_wait (tcb ?o (cur ?o))) 1 ?o = Inr (n, u)" "TCBs u = TCBs ?o"
    "cur u = cur ?o" "dom (wait_queues u) = dom (wait_queues ?o)" using wakeup_total[OF q tw] by blast
  have x: "thread_exit s = exit_schedule (intr s) u" using u(1) by (simp add: thread_exit_def interrupts_set_def)
  have nq: "waiting_ok u t" if "t \<in> set (readyQueue u)" for t
    using q thread_wakeup_cases[OF q u(1)] that queues_ok_wake[OF q]
    by (metis queues_okD(2) select_convs(3))
  show ?thesis
  proof (cases "readyQueue u")
    case Nil
    then show ?thesis using x by (simp add: exit_schedule_def addToHeadId_def)
  next
    case (Cons t ts)
    then have t: "waiting_ok u t" "t \<noteq> -1" using nq[of t] by (auto simp: waiting_ok_def)
    define v where "v = (upd_tcb t (\<lambda>c. c\<lparr>t_state := RUNNING\<rparr>)
      ((addToHeadId (cur u) u)\<lparr>readyQueue := ts, current_thread_id := t\<rparr>))\<lparr>phase := Switching\<rparr>"
    have sv: "thread_exit s = Inr v"
      using x Cons t by (simp add: exit_schedule_def v_def Let_def addToHeadId_def)
    have c: "cur s \<in> live s" "t_state (tcb u (cur s)) = NOT_ASSIGNED"
      using assms(1) u by (auto simp: live_def run_ok_def sole_runner_def exit_clear_def)
    have tc: "t \<noteq> cur s" using t c by (auto simp: waiting_ok_def)
    have "live v \<subseteq> live s - {cur s}"
      using t tc c u by (auto simp: live_def v_def addToHeadId_def exit_clear_def waiting_ok_def split: if_splits)
    then have "live v \<subset> live s" using c(1) by blast
    then have "card (live v) < card (live s)" using finite_live by (rule psubset_card_mono[rotated])
    moreover have "exit_queues_ok v"
      using assms(2) u(2,4) unfolding exit_queues_ok_def v_def
      by (auto simp: addToHeadId_def exit_clear_def domD domI split: if_splits)
    ultimately show ?thesis using sv by blast
  qed
qed

lemma thread_stub_eq:
  "thread_stub s = threadResponsibilities (\<lambda>s. Inr (s\<lparr>phase := Running 0\<rparr>)) (s\<lparr>intr := True\<rparr>)"
  by (cases s) (simp add: thread_stub_def interrupts_enabled_def)

lemma resume_dispatch:
  assumes "sys_inv s" and "phase s = Switching" and "exit_queues_ok s"
  shows "\<exists>s'. resume s = Inr s' \<and>
    (phase s' \<noteq> Switching \<or> exit_queues_ok s' \<and> card (live s') < card (live s))"
proof -
  have c: "resumable (tcb s (cur s))" and r: "run_ok s"
    using assms(1,2) by (auto simp: sys_inv_def run_ok_def)
  have rr: "run_ok (freeTCBStacks (s\<lparr>intr := b\<rparr>))" for b using r by (simp add: run_ok_freeTCBStacks)
  have e: "exit_queues_ok (freeTCBStacks (s\<lparr>intr := b\<rparr>))" "live (freeTCBStacks (s\<lparr>intr := b\<rparr>)) = live s"
    "cur (freeTCBStacks (s\<lparr>intr := b\<rparr>)) = cur s"
    for b using assms(3) by (simp_all add: exit_queues_ok_def live_def freeTCBStacks_eq)
  show ?thesis
  proof (cases "killOnNextRun (tcb s (cur s)) = 1")
    case True
    then obtain b where "resume s = thread_exit (freeTCBStacks (s\<lparr>intr := b\<rparr>))"
      using c by (auto simp: resume_def resumable_def thread_stub_eq after_getcontext_def Let_def
          threadResponsibilities_eq split: ucontext.splits if_splits)
    then show ?thesis using exit_dispatch[OF rr[of b] e(1)] e(2)[of b] by auto
  next
    case False
    then show ?thesis
      using c ret_not_Switching e(3)
      by (auto simp: resume_def resumable_def thread_stub_eq after_getcontext_def Let_def
          threadResponsibilities_eq yield_rest_def split: ucontext.splits) (simp add: freeTCBStacks_eq)
  qed
qed

text \<open>
  C6. A context switch terminates: the thread switched to may have been killed, then it exits
  and switches to the next one, which may have been killed as well. The chain ends after at
  most 1024 switches, in client code, in \<open>lock_acquire\<close>, or with the end of the process.
\<close>

theorem dispatch_terminates:
  assumes "reachable s" and "phase s = Switching" and "exit_queues_ok s"
  shows "\<exists>n s'. n \<le> 1024 \<and> run (replicate n L_resume) s = Some (Inr s') \<and> phase s' \<noteq> Switching"
proof -
  have "\<exists>n s'. n \<le> card (live s) \<and> run (replicate n L_resume) s = Some (Inr s') \<and> phase s' \<noteq> Switching"
    if "sys_inv s" "phase s = Switching" "exit_queues_ok s" for s
    using that
  proof (induction "card (live s)" arbitrary: s rule: less_induct)
    case less
    obtain u where u: "resume s = Inr u"
      "phase u \<noteq> Switching \<or> exit_queues_ok u \<and> card (live u) < card (live s)"
      using resume_dispatch[OF less.prems] by blast
    have run: "run (replicate (Suc n) L_resume) s = run (replicate n L_resume) u" for n
      using u(1) less.prems(2) by simp
    have "cur s \<in> live s" using less.prems(1,2) by (auto simp: live_def sys_inv_def sole_runner_def)
    then have pos: "Suc 0 \<le> card (live s)" using finite_live card_gt_0_iff by (metis Suc_leI empty_iff)
    show ?case
    proof (cases "phase u = Switching")
      case False
      then show ?thesis using pos run[of 0] by (intro exI[of _ "Suc 0"] exI[of _ u]) auto
    next
      case True
      have "sys_inv u" using less.prems(1,2) u(1) by (auto intro: step_inv step.resume)
      with True u(2) less.hyps[of u] obtain n s' where n: "n \<le> card (live u)"
        "run (replicate n L_resume) u = Some (Inr s')" "phase s' \<noteq> Switching" by blast
      then show ?thesis using u(2) True run[of n] by (intro exI[of _ "Suc n"] exI[of _ s']) auto
    qed
  qed
  from this[OF reachable_inv[OF assms(1)] assms(2,3)] show ?thesis
    using card_live[of s] by (meson order_trans)
qed

theorem dispatch_terminates_witness:
  "\<exists>s n s'. run [L_call (C_create 7 0 (Some 65536)), L_call (C_kill 1), L_call (C_yield (-1))] start =
       Some (Inr s) \<and> n \<le> 1024 \<and> run (replicate n L_resume) s = Some (Inr s') \<and> phase s' \<noteq> Switching"
proof -
  define s where "s = duo (th 0 READY (Ctx_yield 1 0 True False []) None 1 0 None)
    (th 1 RUNNING (Ctx_stub 7 0 98296 False) (Some 65536) 0 1 None) 1 [0] pool2 False Switching wq0 Map.empty 1024"
  have r: "run [L_call (C_create 7 0 (Some 65536)), L_call (C_kill 1), L_call (C_yield (-1))] start =
      Some (Inr s)"
    unfolding start_duo s_def by (simp add: thread_evals initial_sp_def)
  have "phase s = Switching" "exit_queues_ok s"
    by (auto simp: s_def exit_queues_ok_def wq0_def split: if_splits)
  from dispatch_terminates[OF run_reachable[OF r] this] r show ?thesis by blast
qed

end
