(* ===== verification/ThreadProps.thy ===== *)
theory ThreadProps
  imports ThreadSched
begin

text \<open>
  The contract of the thread package: the global invariant and what each call returns and
  changes, on every branch.
\<close>

text \<open>What \<open>thread_yield\<close> is to do: return a code at once, or switch to a thread.\<close>

definition yield_target :: "Tid \<Rightarrow> sys \<Rightarrow> Tid + Tid" where
  "yield_target t s =
     (if t \<ge> 1024 \<or> t < -7 then Inl THREAD_INVALID
      else if t = THREAD_SELF \<or> t = cur s then Inl (cur s)
      else if t = THREAD_ANY
      then (if readyQueue s = [] then Inl THREAD_NONE else Inr (hd (readyQueue s)))
      else if t \<ge> 0 \<and> t_state (tcb s t) = NOT_ASSIGNED then Inl THREAD_INVALID
      else if t \<in> set (readyQueue s) then Inr t else Inl THREAD_NONE)"

section \<open>The invariant\<close>

text \<open>
  C7. In every reachable state the queues, the identifier pool and the thread states agree: the
  ready queue and the wait queues hold distinct ready threads that can be continued, no thread
  is in two queues, the pool holds distinct unassigned identifiers, exactly one thread is
  running, a thread in client code has not been killed, and a thread that was switched to has
  a context to continue.
\<close>

theorem reachable_sys_inv:
  assumes "reachable s"
  shows "sys_inv s"
  using assms by (rule reachable_inv)

theorem reachable_sys_inv_witness:
  "\<exists>s. run [L_call (C_create 7 0 (Some 65536)), L_call (C_kill 1), L_call (C_yield (-1))] start =
       Some (Inr s) \<and> sys_inv s"
proof -
  have "\<exists>s. run [L_call (C_create 7 0 (Some 65536)), L_call (C_kill 1), L_call (C_yield (-1))] start =
      Some (Inr s)"
    unfolding start_duo by (simp add: thread_evals initial_sp_def)
  then show ?thesis using reachable_sys_inv run_reachable by blast
qed

section \<open>Creating threads\<close>

text \<open>The initial stack pointer is inside the stack and aligned the way the ABI asks at a
  function entry.\<close>

lemma initial_sp_aligned: "initial_sp base mod 16 = 8"
  and initial_sp_bounds: "base < initial_sp base \<and> initial_sp base < base + THREAD_MIN_STACK"
proof -
  define k where "k = (base + 32768) div 16"
  have "base + 32768 - (base + 32768) mod 16 = 16 * k"
    unfolding k_def by (simp add: minus_mod_eq_mult_div)
  moreover have "k \<ge> 2048" unfolding k_def by simp
  ultimately have e: "initial_sp base = 16 * (k - 1) + 8" "1 \<le> k"
    by (simp_all add: initial_sp_def thread_consts Let_def)
  show "initial_sp base mod 16 = 8" using e by simp
  have "16 * k \<le> base + 32768" "base + 32768 < 16 * k + 16" unfolding k_def by simp_all
  then show "base < initial_sp base \<and> initial_sp base < base + THREAD_MIN_STACK"
    using e by (cases k) (simp_all add: thread_consts)
qed

text \<open>
  C8. \<open>thread_create\<close> in any reachable state: with the pool empty it returns
  \<open>THREAD_NOMORE\<close>; otherwise it takes the identifier \<open>t\<close> at the head of the pool. If the
  stack can be allocated it returns \<open>t\<close>, which is a valid identifier that was unassigned and
  is now ready at the end of the ready queue, prepared to run \<open>thread_stub(fn, parg)\<close> with a
  stack pointer inside the new stack that is 8 below a multiple of 16; if not, it returns
  \<open>THREAD_NOMEMORY\<close>, and the identifier has left the pool for good: it is unassigned, but in
  no list. The signal mask is restored in all cases.
\<close>

theorem thread_create_spec:
  assumes "reachable s" and "phase s = Running v" and "thread_create fn parg mem s = (r, s')"
  shows "intr s' = intr s \<and>
    (case availableThreadIds s of
       [] \<Rightarrow> r = THREAD_NOMORE \<and> readyQueue s' = readyQueue s
     | t # ts \<Rightarrow> valid_tid t \<and> t_state (tcb s t) = NOT_ASSIGNED \<and> availableThreadIds s' = ts \<and>
         (case mem of
            None \<Rightarrow> r = THREAD_NOMEMORY \<and> t_state (tcb s' t) = NOT_ASSIGNED \<and>
              t \<notin> set ts \<and> t \<notin> queued s'
          | Some stack \<Rightarrow> r = t \<and> readyQueue s' = readyQueue s @ [t] \<and>
              t_state (tcb s' t) = READY \<and> stack_to_free (tcb s' t) = Some stack \<and>
              (\<exists>sp. mycontext (tcb s' t) = Ctx_stub fn parg sp False \<and>
                 sp mod 16 = 8 \<and> stack < sp \<and> sp < stack + THREAD_MIN_STACK)))"
proof -
  have a: "alive s" using reachable_inv[OF assms(1)] assms(2) by (intro inv_alive) auto
  have e: "r = fst (thread_create fn parg mem s)" "s' = snd (thread_create fn parg mem s)"
    using assms(3) by simp_all
  show ?thesis
  proof (cases "availableThreadIds s")
    case Nil
    then show ?thesis unfolding e by (simp add: thread_create_def interrupts_set_def Let_def)
  next
    case (Cons t ts)
    then have t: "t \<noteq> -1" "t \<noteq> cur s" "t_state (tcb s t) = NOT_ASSIGNED" "t \<notin> set ts" "valid_tid t"
      using a by (auto simp: alive_def run_ok_def ids_ok_def sole_runner_def)
    then have "t \<notin> queued s" using a not_queued[of s t] by (auto simp: alive_def run_ok_def)
    with t Cons show ?thesis
      using initial_sp_aligned initial_sp_bounds unfolding e
      by (cases mem) (auto simp: thread_create_def interrupts_set_def Let_def rq_add_def)
  qed
qed

theorem thread_create_spec_witness:
  "\<exists>r s'. thread_create 7 0 None start = (r, s') \<and> r = THREAD_NOMEMORY \<and> 1 \<notin> queued s' \<and>
     1 \<notin> set (availableThreadIds s')"
proof -
  have p: "availableThreadIds start = 1 # pool2" "phase start = Running 0" by (simp_all only: start_duo duo_simps)
  obtain r s' where c: "thread_create 7 0 None start = (r, s')" by (cases "thread_create 7 0 None start")
  show ?thesis
    using thread_create_spec[OF reachable_start p(2) c] c unfolding p(1) by auto
qed

section \<open>Yielding\<close>



section \<open>Waking, waiting and exiting\<close>

text \<open>
  \<open>thread_wakeup\<close> on a wait queue wakes its first \<open>k\<close> sleepers, all of them or at
  most one: they move in their order to the end of the ready queue, the others stay, and the
  result is \<open>k\<close>.
\<close>

lemma thread_wakeup_fifo:
  assumes "reachable s" and "wait_queues s q = Some ws" and "k = (if all = 1 then length ws else min 1 (length ws))"
  shows "thread_wakeup (Some q) all s =
    Inr (int k, s\<lparr>readyQueue := readyQueue s @ take k ws,
      wait_queues := (wait_queues s)(q \<mapsto> drop k ws)\<rparr>)"
proof -
  have "queues_ok s" using reachable_inv[OF assms(1)] by (simp add: sys_inv_def)
  moreover have "s\<lparr>readyQueue := readyQueue s, wait_queues := (wait_queues s)(q \<mapsto> ws)\<rparr> = s"
    using assms(2) by (cases s) (simp add: fun_upd_idem)
  ultimately show ?thesis
    using thread_wakeup_eq[OF assms(2) queues_ok_no_minus1[OF _ assms(2)], where all = all] assms(2,3)
    by (cases ws) auto
qed

lemma thread_wakeup_fifo_witness:
  "\<exists>s s'. run [L_call (C_create 7 0 (Some 65536)), L_call (C_sleep (Some 5)), L_resume] start = Some (Inr s) \<and>
     wait_queues s 5 = Some [0] \<and> thread_wakeup (Some 5) 1 s = Inr (1, s') \<and> readyQueue s' = [0]"
proof -
  define s where "s = duo (th 0 READY (Ctx_yield 1 0 False False [F_sleep True]) None 1 0 None)
    (th 1 RUNNING (Ctx_stub 7 0 98296 False) (Some 65536) 0 0 None) 1 [] pool2 True (Running 0)
    (wq0(5 \<mapsto> [0])) Map.empty 1024"
  have r: "run [L_call (C_create 7 0 (Some 65536)), L_call (C_sleep (Some 5)), L_resume] start = Some (Inr s)"
    unfolding start_duo s_def by (simp add: thread_evals initial_sp_def)
  have w: "wait_queues s 5 = Some [0]" "readyQueue s = []" by (simp_all add: s_def)
  then show ?thesis
    using r thread_wakeup_fifo[OF run_reachable[OF r] w(1), of "length [0::Tid]" 1] by simp
qed

text \<open>
  C10. \<open>thread_exit\<close> of a thread on whose queue the threads \<open>ws\<close> wait: they become ready
  behind the threads that are ready already, the identifier goes back to the head of the pool,
  the control block becomes unassigned but keeps the stack the thread still runs on, and the
  first ready thread is switched to; if there is none, the process ends.
\<close>

theorem thread_exit_spec:
  assumes "reachable s" and "phase s = Running v" and "t_wait (tcb s (cur s)) = Some w"
    and "wait_queues s w = Some ws"
  shows "\<exists>s'. thread_exit s = Inr s' \<and>
    (if readyQueue s @ ws = [] then phase s' = Exited
     else phase s' = Switching \<and> cur s' = hd (readyQueue s @ ws) \<and>
       readyQueue s' = tl (readyQueue s @ ws) \<and> wait_queues s' w = Some [] \<and>
       availableThreadIds s' = cur s # availableThreadIds s \<and>
       t_state (tcb s' (cur s)) = NOT_ASSIGNED \<and>
       stack_to_free (tcb s' (cur s)) = stack_to_free (tcb s (cur s)))"
proof -
  have a: "run_ok s" using reachable_inv[OF assms(1)] assms(2) inv_alive[of s] by (auto simp: alive_def)
  let ?o = "exit_clear (s\<lparr>intr := False\<rparr>)"
  have q: "queues_ok ?o" using a exit_clear_ok[of "s\<lparr>intr := False\<rparr>"] by auto
  have ws: "wait_queues ?o w = Some ws" using assms(4) by simp
  have m: "-1 \<notin> set (readyQueue s @ ws)" "cur s \<notin> set (readyQueue s @ ws)"
    using a queues_okD(2)[of s "-1"] queues_okD(4)[of s w ws "-1"] assms(4) run_ok_cur_not_queued[OF a]
    by (auto simp: run_ok_def waiting_ok_def queued_iff)
  obtain n where n: "thread_wakeup (Some w) 1 ?o =
      Inr (n, ?o\<lparr>readyQueue := readyQueue s @ ws, wait_queues := (wait_queues s)(w \<mapsto> [])\<rparr>)"
  proof (cases "ws = []")
    case True
    have "s\<lparr>readyQueue := readyQueue s, wait_queues := (wait_queues s)(w \<mapsto> [])\<rparr> = s"
      if "wait_queues s w = Some []" for s :: sys using that by (cases s) (simp add: fun_upd_idem)
    from this[of ?o] True that[of 0] ws thread_wakeup_eq[OF ws queues_ok_no_minus1[OF q ws], of 1] show ?thesis by simp
  next
    case False
    with that thread_wakeup_eq[OF ws queues_ok_no_minus1[OF q ws], of 1] show ?thesis by simp
  qed
  have x: "thread_exit s = exit_schedule (intr s)
      (?o\<lparr>readyQueue := readyQueue s @ ws, wait_queues := (wait_queues s)(w \<mapsto> [])\<rparr>)"
    using n assms(3) by (simp add: thread_exit_def interrupts_set_def)
  show ?thesis
  proof (cases "readyQueue s @ ws")
    case Nil
    then show ?thesis unfolding x by (simp add: exit_schedule_def addToHeadId_def)
  next
    case (Cons t ts)
    with m have "t \<noteq> -1" "t \<noteq> cur s" by auto
    with Cons show ?thesis unfolding x
      by (simp add: exit_schedule_def addToHeadId_def Let_def) (simp add: exit_clear_def)
  qed
qed

theorem thread_exit_spec_witness:
  "\<exists>s s'. run [L_call (C_create 7 0 (Some 65536)), L_call (C_wait 1), L_resume] start = Some (Inr s) \<and>
     thread_exit s = Inr s' \<and> cur s' = 0 \<and> phase s' = Switching \<and> stack_to_free (tcb s' 1) = Some 65536"
proof -
  define s where "s = duo (th 0 READY (Ctx_yield 1 0 False False [F_sleep False, F_wait 1 True]) None 1 0 None)
    (th 1 RUNNING (Ctx_stub 7 0 98296 False) (Some 65536) 0 0 None) 1 [] pool2 True (Running 0)
    (wq0(1022 \<mapsto> [0])) Map.empty 1024"
  have r: "run [L_call (C_create 7 0 (Some 65536)), L_call (C_wait 1), L_resume] start = Some (Inr s)"
    unfolding start_duo s_def by (simp add: thread_evals initial_sp_def)
  have "phase s = Running 0" "t_wait (tcb s (cur s)) = Some 1022" "wait_queues s 1022 = Some [0]"
    by (simp_all add: s_def)
  from thread_exit_spec[OF run_reachable[OF r] this] obtain s' where "thread_exit s = Inr s'"
    "cur s' = 0" "phase s' = Switching" "stack_to_free (tcb s' 1) = Some 65536"
    by (auto simp: s_def)
  with r show ?thesis by blast
qed

lemma thread_sleep_switch:
  assumes "alive s" and "setcontext_called (tcb s (cur s)) = 0" and "readyQueue s = n # rq"
    and "wait_queues s w = Some ws"
  shows "\<exists>s'. thread_sleep (Some w) fs s = Inr s' \<and> phase s' = Switching \<and> cur s' = n \<and>
    readyQueue s' = rq \<and> wait_queues s' = (wait_queues s)(w \<mapsto> ws @ [cur s])"
proof -
  have q: "queues_ok s" and r: "sole_runner s" and k: "killOnNextRun (tcb s (cur s)) \<noteq> 1"
    using assms(1) by (auto simp: alive_def run_ok_def)
  have n: "valid_tid n" "n \<noteq> cur s" "t_state (tcb s n) = READY"
    using queues_okD(2)[OF q, of n] assms(3) r by (auto simp: waiting_ok_def sole_runner_def)
  have d: "distinct (n # rq)" using queues_okD(1)[OF q] assms(3) by simp
  show ?thesis
    using n assms k d
    by (simp add: thread_sleep_def interrupts_set_def thread_yield_def valid_tid_def thread_consts yield_to_def
        queue_simps yield_chosen_def Let_def after_getcontext_def threadResponsibilities_eq yield_rest_def)
       (simp add: freeTCBStacks_eq queue_simps)
qed

text \<open>
  \<open>thread_wait\<close> on a live thread: if some thread is ready, the caller goes to sleep at the
  end of the queue of threads that wait for \<open>t\<close>, and the first ready thread is switched to. If
  no thread is ready, \<open>thread_wait\<close> returns \<open>t\<close> at once, the value that says that
  \<open>t\<close> has exited, although it has not.
\<close>

lemma thread_wait_spec:
  assumes "reachable s" and "phase s = Running v" and "setcontext_called (tcb s (cur s)) = 0"
    and "valid_tid t" and "t \<noteq> cur s" and "t_state (tcb s t) \<noteq> NOT_ASSIGNED"
    and "t_wait (tcb s t) = Some w" and "wait_queues s w = Some ws"
  shows "\<exists>s'. thread_wait t [] s = Inr s' \<and>
    (case readyQueue s of
       [] \<Rightarrow> s' = s\<lparr>phase := Running t\<rparr> \<and> t_state (tcb s' t) \<noteq> NOT_ASSIGNED
     | n # rq \<Rightarrow> phase s' = Switching \<and> cur s' = n \<and> readyQueue s' = rq \<and>
         wait_queues s' w = Some (ws @ [cur s]))"
proof -
  have a: "alive (s\<lparr>intr := False\<rparr>)" using reachable_inv[OF assms(1)] assms(2) inv_alive[of s] by auto
  have t: "\<not> t < 0" using assms(4) by (simp add: valid_tid_def)
  show ?thesis
  proof (cases "readyQueue s")
    case Nil
    then have "thread_wait t [] s = Inr (s\<lparr>phase := Running t\<rparr>)"
      using assms t by (cases s) (simp add: thread_wait_def thread_sleep_def interrupts_set_def)
    with assms(6) Nil show ?thesis by simp
  next
    case (Cons n rq)
    with assms t thread_sleep_switch[OF a, of n rq w ws "[F_wait t (intr s)]"] show ?thesis
      by (auto simp: thread_wait_def interrupts_set_def)
  qed
qed

lemma thread_wait_spec_witness:
  "\<exists>s s'. run [L_call (C_create 7 0 (Some 65536)), L_call (C_sleep (Some 5)), L_resume] start = Some (Inr s) \<and>
     thread_wait 0 [] s = Inr s' \<and> s' = s\<lparr>phase := Running 0\<rparr> \<and> t_state (tcb s' 0) \<noteq> NOT_ASSIGNED"
proof -
  define s where "s = duo (th 0 READY (Ctx_yield 1 0 False False [F_sleep True]) None 1 0 None)
    (th 1 RUNNING (Ctx_stub 7 0 98296 False) (Some 65536) 0 0 None) 1 [] pool2 True (Running 0)
    (wq0(5 \<mapsto> [0])) Map.empty 1024"
  have r: "run [L_call (C_create 7 0 (Some 65536)), L_call (C_sleep (Some 5)), L_resume] start = Some (Inr s)"
    unfolding start_duo s_def by (simp add: thread_evals initial_sp_def)
  have h: "phase s = Running 0" "setcontext_called (tcb s (cur s)) = 0" "valid_tid 0" "0 \<noteq> cur s"
    "t_state (tcb s 0) \<noteq> NOT_ASSIGNED" "t_wait (tcb s 0) = Some 1023" "wait_queues s 1023 = Some []"
    by (simp_all add: s_def valid_tid_def thread_consts wq0_def)
  have "readyQueue s = []" by (simp add: s_def)
  with thread_wait_spec[OF run_reachable[OF r] h] r show ?thesis by auto
qed

text \<open>
  Missing range checks: \<open>thread_kill\<close> on an identifier from \<open>-7\<close> to \<open>-1\<close> reads the
  array of control blocks at a negative index, and \<open>thread_wait\<close> on an identifier of 1024 or
  more reads past its end; \<open>thread_yield\<close> never does, for any identifier.
\<close>

lemma control_block_bounds:
  assumes "reachable s" and "phase s = Running v"
  shows "(-7 \<le> t \<and> t < 0 \<longrightarrow> thread_kill t s = Inl Out_of_bounds) \<and>
    (t \<ge> 1024 \<longrightarrow> thread_wait t [] s = Inl Out_of_bounds) \<and>
    thread_yield t [] s \<noteq> Inl Out_of_bounds"
proof -
  have "sole_runner s" using reachable_inv[OF assms(1)] assms(2) by (simp add: sys_inv_def)
  then have c: "0 \<le> cur s" "cur s < 1024" by (auto simp: sole_runner_def valid_tid_def thread_consts)
  have w: "thread_wakeup q a u \<noteq> Inl Out_of_bounds" for q a u
    by (auto simp: thread_wakeup_def interrupts_set_def Let_def split: option.splits prod.splits)
  have x: "thread_exit u \<noteq> Inl Out_of_bounds" for u
    using w by (auto simp: thread_exit_def interrupts_set_def exit_schedule_def Let_def bindR_def
        split: sum.splits prod.splits)
  have "thread_yield t [] s \<noteq> Inl Out_of_bounds"
    using x by (auto simp: thread_yield_def yield_any_def yield_to_def yield_chosen_def after_getcontext_def
        threadResponsibilities_eq yield_rest_def interrupts_set_def Let_def bindR_def
        split: prod.splits option.splits)
  with c show ?thesis
    by (auto simp: thread_kill_def thread_wait_def interrupts_set_def valid_tid_def thread_consts)
qed

lemma control_block_bounds_witness:
  "thread_kill (-3) start = Inl Out_of_bounds \<and> thread_wait 2000 [] start = Inl Out_of_bounds"
  using control_block_bounds[OF reachable_start, of 0 "-3"] control_block_bounds[OF reachable_start, of 0 2000]
  by simp

end
