(* ===== verification/Timer.thy ===== *)
theory Timer
  imports ThreadSched
begin

text \<open>
  The timer of threads/interrupt.c: installing the handler, arming the one-shot timer, the part of the
  handler that measures time and arms it again, waiting on the clock and printing without
  interruption; and the machine of the thread library together with the timer, in which an interrupt is
  delivered only when the timer has expired. The value of \<open>it_value\<close> counts down in microseconds.
\<close>

section \<open>Times\<close>

record timeval =
  tv_sec :: int
  tv_usec :: int

text \<open>The macro \<open>timersub\<close> of the C library.\<close>

definition timersub :: "timeval \<Rightarrow> timeval \<Rightarrow> timeval" where
  "timersub a b =
     (let s = tv_sec a - tv_sec b; u = tv_usec a - tv_usec b
      in if u < 0 then \<lparr>tv_sec = s - 1, tv_usec = u + 1000000\<rparr> else \<lparr>tv_sec = s, tv_usec = u\<rparr>)"

abbreviation micros :: "timeval \<Rightarrow> int" where
  "micros t \<equiv> tv_sec t * 1000000 + tv_usec t"

lemma micros_timersub: "micros (timersub a b) = micros a - micros b"
  by (simp add: timersub_def Let_def)

text \<open>\<open>spin\<close>: \<open>clk i\<close> is what the call number \<open>i\<close> of \<open>gettimeofday\<close> gives; the result is the number of
  the call that ended the loop.\<close>

partial_function (option) spin_loop :: "(nat \<Rightarrow> timeval) \<Rightarrow> int \<Rightarrow> timeval \<Rightarrow> nat \<Rightarrow> nat option" where
  "spin_loop clk usecs st i =
     (if micros (timersub (clk i) st) \<ge> usecs then Some i else spin_loop clk usecs st (Suc i))"

definition spin :: "(nat \<Rightarrow> timeval) \<Rightarrow> int \<Rightarrow> nat option" where
  "spin clk usecs = spin_loop clk usecs (clk 0) 1"

section \<open>The timer\<close>

definition SIG_INTERVAL :: nat where "SIG_INTERVAL = 200"

text \<open>The static variables of interrupt.c, what is left on the timer (0: not armed), and whether the
  signal is pending. \<open>report\<close> is what the handler printed last.\<close>

record itimer =
  init_done :: bool
  loud :: bool
  it_value :: nat
  pending_sig :: bool
  first_intr :: bool
  intr_start :: timeval
  intr_diff :: timeval
  report :: "int option"

definition timer_start :: itimer where
  "timer_start = \<lparr>init_done = False, loud = False, it_value = 0, pending_sig = False, first_intr = True,
     intr_start = \<lparr>tv_sec = 0, tv_usec = 0\<rparr>, intr_diff = \<lparr>tv_sec = 0, tv_usec = 0\<rparr>, report = None\<rparr>"

definition set_interrupt :: "itimer \<Rightarrow> itimer" where
  "set_interrupt m = m\<lparr>it_value := SIG_INTERVAL\<rparr>"

definition register_interrupt_handler :: "bool \<Rightarrow> itimer \<Rightarrow> itimer res" where
  "register_interrupt_handler verbose m =
     assertR (\<not> init_done m) (Inr (set_interrupt (m\<lparr>init_done := True, loud := verbose\<rparr>)))"

definition interrupts_quiet :: "itimer \<Rightarrow> itimer" where
  "interrupts_quiet m = m\<lparr>loud := False\<rparr>"

text \<open>The first part of \<open>interrupt_handler\<close>; \<open>now\<close> is the time of day.\<close>

definition handler_clock :: "timeval \<Rightarrow> itimer \<Rightarrow> itimer" where
  "handler_clock now m =
     set_interrupt
       (if loud m
        then let m = (if first_intr m then m\<lparr>first_intr := False\<rparr> else m\<lparr>intr_diff := timersub now (intr_start m)\<rparr>)
             in m\<lparr>intr_start := now, report := Some (micros (intr_diff m))\<rparr>
        else m)"

text \<open>\<open>unintr_printf\<close> on the signal mask; \<open>out\<close> is what \<open>vprintf\<close> makes of the arguments.\<close>

definition unintr_printf :: "string \<Rightarrow> sys \<Rightarrow> int \<times> string \<times> sys" where
  "unintr_printf out s = (let (enabled, s) = interrupts_off s in (int (length out), out, restore enabled s))"

section \<open>The thread library with the timer\<close>

text \<open>The clock advances by a microsecond; when the timer expires, the signal becomes pending.\<close>

definition tick :: "itimer \<Rightarrow> itimer" where
  "tick m = m\<lparr>it_value := it_value m - 1, pending_sig := pending_sig m \<or> it_value m = 1\<rparr>"

datatype tlabel = T_step label | T_deliver timeval | T_tick | T_register bool | T_quiet

inductive tstep :: "itimer \<times> sys \<Rightarrow> tlabel \<Rightarrow> itimer \<times> sys \<Rightarrow> bool" where
  library: "step s l s' \<Longrightarrow> l \<noteq> L_interrupt \<Longrightarrow> tstep (m, s) (T_step l) (m, s')"
| deliver: "pending_sig m \<Longrightarrow> step s L_interrupt s' \<Longrightarrow>
    tstep (m, s) (T_deliver now) (handler_clock now (m\<lparr>pending_sig := False\<rparr>), s')"
| tick: "tstep (m, s) T_tick (tick m, s)"
| register: "register_interrupt_handler verbose m = Inr m' \<Longrightarrow> tstep (m, s) (T_register verbose) (m', s)"
| quiet: "tstep (m, s) T_quiet (interrupts_quiet m, s)"

inductive tsteps :: "itimer \<times> sys \<Rightarrow> tlabel list \<Rightarrow> itimer \<times> sys \<Rightarrow> bool" where
  tsteps_Nil: "tsteps x [] x"
| tsteps_snoc: "tsteps x ls y \<Longrightarrow> tstep y l z \<Longrightarrow> tsteps x (ls @ [l]) z"

definition treachable :: "itimer \<times> sys \<Rightarrow> bool" where
  "treachable x \<longleftrightarrow> (\<exists>ls. tsteps (timer_start, start) ls x)"

section \<open>Facts\<close>

lemma spin_loop_ends:
  "i \<le> j \<Longrightarrow> usecs \<le> micros (clk j) - micros st \<Longrightarrow> \<forall>k. i \<le> k \<and> k < j \<longrightarrow> micros (clk k) - micros st < usecs \<Longrightarrow>
   spin_loop clk usecs st i = Some j"
proof (induction "j - i" arbitrary: i)
  case 0
  then have "i = j" by simp
  with "0.prems"(2) show ?case by (subst spin_loop.simps) (simp only: micros_timersub if_True)
next
  case (Suc d)
  then have "micros (clk i) - micros st < usecs" by simp
  then have "spin_loop clk usecs st i = spin_loop clk usecs st (Suc i)"
    by (subst spin_loop.simps) (simp only: micros_timersub not_le[symmetric] if_False simp_thms)
  with Suc.hyps(1)[of "Suc i"] Suc.hyps(2) Suc.prems show ?case by simp
qed

text \<open>If the clock ever advances far enough, \<open>spin\<close> returns, at the first reading that does.\<close>

lemma spin_waits:
  assumes "0 < j" and "usecs \<le> micros (clk j) - micros (clk 0)"
  shows "spin clk usecs = Some (LEAST j. 0 < j \<and> usecs \<le> micros (clk j) - micros (clk 0))"
proof -
  let ?P = "\<lambda>j. 0 < j \<and> usecs \<le> micros (clk j) - micros (clk 0)"
  have l: "?P (LEAST j. ?P j)" using assms by (intro LeastI[of ?P]) simp
  have "micros (clk k) - micros (clk 0) < usecs" if "1 \<le> k" "k < (LEAST j. ?P j)" for k
    using not_less_Least[OF that(2)] that(1) by auto
  with l show ?thesis unfolding spin_def by (intro spin_loop_ends) auto
qed

lemma unintr_printf_state: "unintr_printf out s = (int (length out), out, s)"
  by (simp add: unintr_printf_def interrupts_off_def interrupts_set_def)

lemma handler_clock_simps [simp]:
  "it_value (handler_clock now m) = SIG_INTERVAL" "init_done (handler_clock now m) = init_done m"
  "pending_sig (handler_clock now m) = pending_sig m"
  by (simp_all add: handler_clock_def set_interrupt_def Let_def)

text \<open>The timer never stays silent: once the handler is installed, the timer is armed for at most the
  interval, or the signal is pending.\<close>

definition timer_ok :: "itimer \<Rightarrow> bool" where
  "timer_ok m \<longleftrightarrow> it_value m \<le> SIG_INTERVAL \<and> (init_done m \<longrightarrow> 0 < it_value m \<or> pending_sig m)"

lemma tstep_timer_ok: "tstep x l y \<Longrightarrow> timer_ok (fst x) \<Longrightarrow> timer_ok (fst y)"
  by (induction rule: tstep.induct)
     (auto simp: timer_ok_def tick_def register_interrupt_handler_def assertR_eq_Inr set_interrupt_def interrupts_quiet_def
        SIG_INTERVAL_def)

text \<open>What the library sees of a run with the timer is a run of the library.\<close>

fun lib :: "tlabel \<Rightarrow> label list" where
  "lib (T_step l) = [l]"
| "lib (T_deliver now) = [L_interrupt]"
| "lib _ = []"

lemma tsteps_lib: "tsteps x ls y \<Longrightarrow> steps (snd x) (concat (map lib ls)) (snd y)"
proof (induction rule: tsteps.induct)
  case (tsteps_snoc x ls y l z)
  from tsteps_snoc(2,3) show ?case
    by (cases rule: tstep.cases) (auto intro: steps.steps_snoc)
qed (simp add: steps.steps_Nil)

lemma tsteps_timer_ok: "tsteps x ls y \<Longrightarrow> timer_ok (fst x) \<Longrightarrow> timer_ok (fst y)"
  by (induction rule: tsteps.induct) (auto intro: tstep_timer_ok)

lemma timer_start_ok: "timer_ok timer_start"
  by (simp add: timer_ok_def timer_start_def)

lemma ticks: "tsteps (m, s) (replicate k T_tick) ((tick ^^ k) m, s)"
proof (induction k)
  case (Suc k)
  have "tsteps (m, s) (replicate k T_tick @ [T_tick]) (tick ((tick ^^ k) m), s)"
    using Suc by (rule tsteps_snoc) (rule tstep.tick)
  then show ?case by (simp add: replicate_append_same)
qed (simp add: tsteps_Nil)

lemma tick_expires: "0 < it_value m \<Longrightarrow> pending_sig ((tick ^^ it_value m) m)"
proof -
  have p: "k < it_value m \<Longrightarrow> it_value ((tick ^^ k) m) = it_value m - k" for k
    by (induction k) (auto simp: tick_def)
  assume v: "0 < it_value m"
  then obtain k where k: "it_value m = Suc k" by (cases "it_value m") auto
  have "it_value ((tick ^^ k) m) = 1" using p[of k] k by simp
  then show ?thesis unfolding k by (simp add: tick_def)
qed




end
