(* ===== verification/SList.thy ===== *)
theory SList
  imports Prelude
begin

text \<open>
  The singly linked queues with head and tail pointers of webserver/server_thread.c at pointer
  level: \<open>struct queue\<close> of connection requests and \<open>struct scdle\<close> of files being sent.
  As for the doubly linked lists, a queue owns a store from addresses to nodes and a NULL or
  dangling dereference is the result \<open>None\<close>. A node that is allocated but not linked is
  garbage of the store.
\<close>

section \<open>Nodes, stores and the operations of the code\<close>

record 'a queue_struct =
  item :: 'a
  snext :: "addr option"

record 'a slist =
  shead :: "addr option"
  stail :: "addr option"
  smem :: "addr \<Rightarrow> 'a queue_struct option"
  sbrk :: addr

definition sl_empty :: "'a slist" where
  "sl_empty = \<lparr>shead = None, stail = None, smem = Map.empty, sbrk = 0\<rparr>"

text \<open>\<open>Malloc\<close> of a node, its \<open>next\<close> set to NULL.\<close>

definition new_elem :: "'a \<Rightarrow> 'a slist \<Rightarrow> addr \<times> 'a slist" where
  "new_elem x q =
     (sbrk q, q\<lparr>smem := (smem q)(sbrk q \<mapsto> \<lparr>item = x, snext = None\<rparr>), sbrk := Suc (sbrk q)\<rparr>)"

text \<open>The block that links a new node behind the tail, the same in \<open>pushConnection\<close> and
  \<open>add_to_queue\<close>.\<close>

definition link_tail :: "addr \<Rightarrow> 'a slist \<Rightarrow> 'a slist option" where
  "link_tail newElem q =
     (if shead q = None then Some (q\<lparr>shead := Some newElem, stail := Some newElem\<rparr>)
      else Option.bind (stail q) (\<lambda>t.
             Option.bind (smem q t) (\<lambda>e.
               Some (q\<lparr>smem := (smem q)(t \<mapsto> e\<lparr>snext := Some newElem\<rparr>), stail := Some newElem\<rparr>))))"

text \<open>\<open>struct sched_queue * add_to_queue(struct scdle * sch_queue, char * filename)\<close>: the new
  node, and the queue.\<close>

definition add_to_queue :: "'a slist \<Rightarrow> 'a \<Rightarrow> (addr \<times> 'a slist) option" where
  "add_to_queue sch_queue x =
     (let (newElem, q) = new_elem x sch_queue
      in map_option (Pair newElem) (link_tail newElem q))"

text \<open>\<open>add_to_queue_cpy\<close>: the copied node goes behind the tail, without looking at the head.\<close>

definition add_to_queue_cpy :: "'a slist \<Rightarrow> addr \<Rightarrow> (addr \<times> 'a slist) option" where
  "add_to_queue_cpy sch_queue cpy =
     Option.bind (smem sch_queue cpy) (\<lambda>c.
       let (newElem, q) = new_elem (item c) sch_queue
       in Option.bind (stail q) (\<lambda>t.
            Option.bind (smem q t) (\<lambda>e.
              Some (newElem, q\<lparr>smem := (smem q)(t \<mapsto> e\<lparr>snext := Some newElem\<rparr>),
                                stail := Some newElem\<rparr>))))"

text \<open>The part of \<open>popConnection\<close> that unlinks and frees the head.\<close>

definition pop_head :: "'a slist \<Rightarrow> ('a option \<times> 'a slist) option" where
  "pop_head q =
     (case shead q of
        None \<Rightarrow> Some (None, q)
      | Some h \<Rightarrow> Option.bind (smem q h) (\<lambda>e.
          Some (Some (item e),
                q\<lparr>shead := snext e, stail := (if snext e = None then None else stail q),
                  smem := (smem q)(h := None)\<rparr>)))"

text \<open>\<open>struct sched_queue *isInFlight(struct scdle * sch_queue, char * filename)\<close>, over the
  test the code applies to a node; on a cyclic list the loop need not return.\<close>

partial_function (option) scan :: "('a \<Rightarrow> bool) \<Rightarrow> (addr \<Rightarrow> 'a queue_struct option) \<Rightarrow> addr option \<Rightarrow>
    addr option option" where
  "scan P m hp =
     (case hp of
        None \<Rightarrow> Some None
      | Some a \<Rightarrow> Option.bind (m a) (\<lambda>e. if P (item e) then Some (Some a) else scan P m (snext e)))"

definition isInFlight :: "'a slist \<Rightarrow> ('a \<Rightarrow> bool) \<Rightarrow> addr option option" where
  "isInFlight sch_queue P = scan P (smem sch_queue) (shead sch_queue)"

text \<open>
  \<open>remove_from_queue\<close>: the loop with \<open>prev\<close> and \<open>head\<close>, and the routine. The node is
  unlinked but not freed.
\<close>

partial_function (option) unlink_loop :: "('a \<Rightarrow> bool) \<Rightarrow> addr \<Rightarrow> addr option \<Rightarrow> 'a slist \<Rightarrow>
    (addr option \<times> 'a slist) option" where
  "unlink_loop P prev hp q =
     (case hp of
        None \<Rightarrow> Some (None, q)
      | Some h \<Rightarrow> Option.bind (smem q h) (\<lambda>e.
          if P (item e)
          then Option.bind (smem q prev) (\<lambda>p.
                 Some (Some h, q\<lparr>smem := (smem q)(prev \<mapsto> p\<lparr>snext := snext e\<rparr>),
                                 stail := (if Some h = stail q then Some prev else stail q)\<rparr>))
          else unlink_loop P h (snext e) q))"

definition remove_from_queue :: "'a slist \<Rightarrow> ('a \<Rightarrow> bool) \<Rightarrow> (addr option \<times> 'a slist) option" where
  "remove_from_queue sch_queue P =
     (case shead sch_queue of
        None \<Rightarrow> Some (None, sch_queue)
      | Some h \<Rightarrow> Option.bind (smem sch_queue h) (\<lambda>e.
          if P (item e)
          then Some (Some h, sch_queue\<lparr>shead := snext e,
                 stail := (if snext e = None then None else stail sch_queue)\<rparr>)
          else unlink_loop P h (snext e) sch_queue))"

section \<open>Representation\<close>

text \<open>\<open>lseg m a ps b\<close>: from \<open>a\<close> the nodes \<open>ps\<close> are linked in order, up to the pointer
  \<open>b\<close>.\<close>

fun lseg :: "(addr \<Rightarrow> 'a queue_struct option) \<Rightarrow> addr option \<Rightarrow> (addr \<times> 'a) list \<Rightarrow> addr option \<Rightarrow> bool" where
  "lseg m a [] b \<longleftrightarrow> a = b"
| "lseg m a ((p, x) # ps) b \<longleftrightarrow> a = Some p \<and> (\<exists>n. m p = Some \<lparr>item = x, snext = n\<rparr> \<and> lseg m n ps b)"

definition sl_repr :: "'a slist \<Rightarrow> (addr \<times> 'a) list \<Rightarrow> bool" where
  "sl_repr q ps \<longleftrightarrow> lseg (smem q) (shead q) ps None \<and> distinct (map fst ps) \<and>
     stail q = (if ps = [] then None else Some (fst (last ps))) \<and> (\<forall>a\<in>dom (smem q). a < sbrk q)"

text \<open>The allocated nodes that are not linked.\<close>

definition garbage :: "'a slist \<Rightarrow> (addr \<times> 'a) list \<Rightarrow> addr set" where
  "garbage q ps = dom (smem q) - fst ` set ps"

lemma lseg_append: "lseg m a (ps @ qs) c \<longleftrightarrow> (\<exists>b. lseg m a ps b \<and> lseg m b qs c)"
  by (induction m a ps c rule: lseg.induct) auto

lemma lseg_upd [simp]: "a' \<notin> fst ` set ps \<Longrightarrow> lseg (m(a' := e)) a ps b = lseg m a ps b"
  by (induction m a ps b rule: lseg.induct) auto

lemma lseg_dom: "lseg m a ps b \<Longrightarrow> fst ` set ps \<subseteq> dom m"
  by (induction m a ps b rule: lseg.induct) auto

lemma lseg_head: "lseg m a ps None \<Longrightarrow> a = (if ps = [] then None else Some (fst (hd ps)))"
  by (cases ps) auto

lemma sl_repr_head: "sl_repr q ps \<Longrightarrow> shead q = (if ps = [] then None else Some (fst (hd ps)))"
  using lseg_head by (fastforce simp: sl_repr_def)

lemma sl_repr_fresh: "sl_repr q ps \<Longrightarrow> sbrk q \<notin> fst ` set ps"
  using lseg_dom by (fastforce simp: sl_repr_def)

lemma sl_repr_empty: "sl_repr sl_empty []"
  by (simp add: sl_repr_def sl_empty_def)

lemma link_tail_repr:
  assumes "sl_repr q ps"
  shows "\<exists>q'. link_tail (fst (new_elem x q)) (snd (new_elem x q)) = Some q' \<and>
    sl_repr q' (ps @ [(sbrk q, x)]) \<and> garbage q' (ps @ [(sbrk q, x)]) = garbage q ps"
proof (cases ps rule: rev_cases)
  case Nil
  with assms show ?thesis
    by (auto simp: link_tail_def new_elem_def sl_repr_def garbage_def less_SucI)
next
  case (snoc rs z)
  obtain t y where z: "z = (t, y)" by (cases z)
  have f: "sbrk q \<notin> fst ` set ps" using sl_repr_fresh[OF assms] .
  have hd: "shead q \<noteq> None" "stail q = Some t"
    using sl_repr_head[OF assms] assms snoc z by (auto simp: sl_repr_def)
  from assms snoc z obtain b where b: "lseg (smem q) (shead q) rs b" "b = Some t"
    "smem q t = Some \<lparr>item = y, snext = None\<rparr>" by (auto simp: sl_repr_def lseg_append)
  have t: "t \<notin> fst ` set rs" "t \<noteq> sbrk q" "t < Suc (sbrk q)"
    using assms snoc z f b(3) by (auto simp: sl_repr_def intro: less_SucI)
  then show ?thesis
    using assms b hd f snoc z lseg_dom[OF b(1)]
    by (auto simp: link_tail_def new_elem_def sl_repr_def lseg_append garbage_def less_SucI)
qed

lemma add_to_queue_repr:
  assumes "sl_repr q ps"
  shows "\<exists>q'. add_to_queue q x = Some (sbrk q, q') \<and> sl_repr q' (ps @ [(sbrk q, x)]) \<and>
    garbage q' (ps @ [(sbrk q, x)]) = garbage q ps"
  using link_tail_repr[OF assms, of x] by (auto simp: add_to_queue_def split_beta new_elem_def)

lemma pop_head_Nil: "sl_repr q [] \<Longrightarrow> pop_head q = Some (None, q)"
  by (simp add: pop_head_def sl_repr_def)

lemma pop_head_repr:
  assumes "sl_repr q ((a, x) # ps)"
  shows "\<exists>q'. pop_head q = Some (Some x, q') \<and> sl_repr q' ps \<and> garbage q' ps = garbage q ((a, x) # ps)"
proof -
  from assms obtain n where n: "shead q = Some a" "smem q a = Some \<lparr>item = x, snext = n\<rparr>"
    "lseg (smem q) n ps None" by (auto simp: sl_repr_def)
  have "n = None \<longleftrightarrow> ps = []" using lseg_head[OF n(3)] by auto
  then show ?thesis using assms n by (auto simp: pop_head_def sl_repr_def garbage_def)
qed

lemma scan_lseg: "lseg m a ps None \<Longrightarrow> scan P m a = Some (map_option fst (List.find (P \<circ> snd) ps))"
  by (induction m a ps "None :: addr option" rule: lseg.induct) (subst scan.simps, auto)+

lemma isInFlight_repr:
  "sl_repr q ps \<Longrightarrow> isInFlight q P = Some (map_option fst (List.find (P \<circ> snd) ps))"
  by (simp add: isInFlight_def sl_repr_def scan_lseg)

lemma unlink_loop_none:
  "lseg (smem q) hp ps None \<Longrightarrow> \<forall>x\<in>set ps. \<not> P (snd x) \<Longrightarrow> unlink_loop P prev hp q = Some (None, q)"
  by (induction "smem q" hp ps "None :: addr option" arbitrary: prev rule: lseg.induct)
     (subst unlink_loop.simps, auto)+

text \<open>The loop finds the first match behind \<open>prev\<close> and relinks its predecessor.\<close>

lemma unlink_loop_found:
  "lseg (smem q) hp (us @ (a, x) # vs) None \<Longrightarrow> \<forall>u\<in>set us. \<not> P (snd u) \<Longrightarrow> P x \<Longrightarrow>
   smem q prev \<noteq> None \<Longrightarrow>
   unlink_loop P prev hp q =
     (let p = (if us = [] then prev else fst (last us))
      in Some (Some a, q\<lparr>smem := (smem q)(p \<mapsto> (the (smem q p))\<lparr>snext := snext (the (smem q a))\<rparr>),
           stail := (if Some a = stail q then Some p else stail q)\<rparr>))"
proof (induction us arbitrary: hp prev)
  case Nil
  then show ?case by (subst unlink_loop.simps) (auto simp: Let_def)
next
  case (Cons u us)
  obtain b y where u: "u = (b, y)" by (cases u)
  with Cons.prems obtain n where n: "hp = Some b" "smem q b = Some \<lparr>item = y, snext = n\<rparr>"
    "lseg (smem q) n (us @ (a, x) # vs) None" by auto
  have "unlink_loop P prev hp q = unlink_loop P b n q"
    using Cons.prems(2) n u by (subst unlink_loop.simps) auto
  also have "\<dots> = (let p = (if us = [] then b else fst (last us))
      in Some (Some a, q\<lparr>smem := (smem q)(p \<mapsto> (the (smem q p))\<lparr>snext := snext (the (smem q a))\<rparr>),
           stail := (if Some a = stail q then Some p else stail q)\<rparr>))"
    using Cons.prems n by (intro Cons.IH) auto
  finally have e: "unlink_loop P prev hp q = (let p = (if us = [] then b else fst (last us))
      in Some (Some a, q\<lparr>smem := (smem q)(p \<mapsto> (the (smem q p))\<lparr>snext := snext (the (smem q a))\<rparr>),
           stail := (if Some a = stail q then Some p else stail q)\<rparr>))" .
  show ?case
  proof -
    have "(if u # us = [] then prev else fst (last (u # us))) = (if us = [] then b else fst (last us))"
      using u by simp
    then show ?thesis using e by (simp only:)
  qed
qed

lemma remove_from_queue_none:
  assumes "sl_repr q ps" and "\<forall>x\<in>set ps. \<not> P (snd x)"
  shows "remove_from_queue q P = Some (None, q)"
proof (cases ps)
  case Nil
  with assms(1) show ?thesis by (simp add: remove_from_queue_def sl_repr_def)
next
  case (Cons u us)
  obtain b y where u: "u = (b, y)" by (cases u)
  from assms(1) Cons u obtain n where "shead q = Some b" "smem q b = Some \<lparr>item = y, snext = n\<rparr>"
    "lseg (smem q) n us None" by (auto simp: sl_repr_def)
  then show ?thesis
    using assms(2) Cons u unlink_loop_none[of q n us P b] by (simp add: remove_from_queue_def)
qed

lemma remove_from_queue_found:
  assumes "sl_repr q (us @ (a, x) # vs)" and "\<forall>u\<in>set us. \<not> P (snd u)" and "P x"
  shows "\<exists>q'. remove_from_queue q P = Some (Some a, q') \<and> sl_repr q' (us @ vs) \<and>
    garbage q' (us @ vs) = insert a (garbage q (us @ (a, x) # vs)) \<and>
    map_option item (smem q' a) = Some x \<and> sbrk q' = sbrk q"
proof (cases us rule: rev_cases)
  case Nil
  from assms(1) Nil obtain n where n: "shead q = Some a" "smem q a = Some \<lparr>item = x, snext = n\<rparr>"
    "lseg (smem q) n vs None" by (auto simp: sl_repr_def)
  have "n = None \<longleftrightarrow> vs = []" using lseg_head[OF n(3)] by auto
  then show ?thesis
    using assms n Nil by (auto simp: remove_from_queue_def sl_repr_def garbage_def)
next
  case (snoc rs z)
  obtain p w where z: "z = (p, w)" by (cases z)
  from assms(1) snoc z obtain n where n: "lseg (smem q) (shead q) rs (Some p)"
    "smem q p = Some \<lparr>item = w, snext = Some a\<rparr>" "smem q a = Some \<lparr>item = x, snext = n\<rparr>"
    "lseg (smem q) n vs None" by (auto simp: sl_repr_def lseg_append)
  have d: "p \<noteq> a" "p \<notin> fst ` set rs" "p \<notin> fst ` set vs" "a \<notin> fst ` set rs" "a \<notin> fst ` set vs"
    using assms(1) snoc z by (auto simp: sl_repr_def)
  define q' where "q' = q\<lparr>smem := (smem q)(p \<mapsto> \<lparr>item = w, snext = n\<rparr>),
    stail := (if Some a = stail q then Some p else stail q)\<rparr>"
  have r: "remove_from_queue q P = Some (Some a, q')"
  proof (cases rs)
    case Nil
    with n z snoc assms(2,3) unlink_loop_found[of q "Some a" "[]" a x vs P p] show ?thesis
      by (auto simp: remove_from_queue_def q'_def)
  next
    case (Cons u rs')
    obtain b y where u: "u = (b, y)" by (cases u)
    with n Cons obtain m where m: "shead q = Some b" "smem q b = Some \<lparr>item = y, snext = m\<rparr>"
      "lseg (smem q) m rs' (Some p)" by auto
    then have "lseg (smem q) m ((rs' @ [(p, w)]) @ (a, x) # vs) None"
      using n by (auto simp: lseg_append)
    from unlink_loop_found[OF this, of P b] m u Cons assms(2,3) snoc z n show ?thesis
      by (auto simp: remove_from_queue_def q'_def)
  qed
  have t: "stail q = Some (fst (last ((a, x) # vs)))" using assms(1) by (simp add: sl_repr_def)
  have ta: "Some a = stail q \<longleftrightarrow> vs = []"
    using t d(5) by (cases vs rule: rev_cases) auto
  have "sl_repr q' (us @ vs)"
    using assms(1) n d t ta snoc z unfolding sl_repr_def q'_def by (auto simp: lseg_append)
  moreover have "garbage q' (us @ vs) = insert a (garbage q (us @ (a, x) # vs))"
    using n d snoc z by (auto simp: garbage_def q'_def)
  ultimately show ?thesis using r n d by (auto simp: q'_def)
qed

section \<open>The queue interface\<close>

definition sl_abs :: "'a slist \<Rightarrow> 'a list \<Rightarrow> bool" where
  "sl_abs q xs \<longleftrightarrow> (\<exists>ps. sl_repr q ps \<and> map snd ps = xs)"

interpretation sl: fifo_queue sl_abs "\<lambda>q x. map_option snd (add_to_queue q x)" pop_head
proof
  show "\<exists>q'. map_option snd (add_to_queue q x) = Some q' \<and> sl_abs q' (xs @ [x])" if "sl_abs q xs" for q x and xs :: "'a list"
    using that add_to_queue_repr by (fastforce simp: sl_abs_def)
  show "pop_head q = Some (None, q)" if "sl_abs q []" for q :: "'a slist"
    using that pop_head_Nil by (auto simp: sl_abs_def)
  show "\<exists>q'. pop_head q = Some (Some x, q') \<and> sl_abs q' xs" if "sl_abs q (x # xs)" for q x and xs :: "'a list"
    using that pop_head_repr by (fastforce simp: sl_abs_def)
qed

end
