(* ===== verification/ConnQueue.thy ===== *)
theory ConnQueue
  imports SList
begin

text \<open>
  The bounded queue of connection requests of webserver/server_thread.c: \<open>struct queue\<close>, its
  linked list at pointer level and its length and bound at their machine width.
\<close>

record 'a queue =
  conns :: "'a slist"
  qlength :: "32 word"
  MAX_SIZE :: "32 word"

text \<open>The initialisation in \<open>server_init\<close>.\<close>

definition queue_init :: "32 word \<Rightarrow> 'a queue" where
  "queue_init max_requests = \<lparr>conns = sl_empty, qlength = 0, MAX_SIZE = max_requests\<rparr>"

definition atMaxCapacity :: "'a queue \<Rightarrow> bool" where
  "atMaxCapacity cn_rqts \<longleftrightarrow> qlength cn_rqts = MAX_SIZE cn_rqts"

text \<open>\<open>length\<close> is unsigned, so the comparison with the \<open>int\<close> bound is unsigned. The node is
  allocated before the bound is looked at.\<close>

definition pushConnection :: "'a queue \<Rightarrow> 'a \<Rightarrow> (bool \<times> 'a queue) option" where
  "pushConnection cn_rqts x =
     (let (newElem, l) = new_elem x (conns cn_rqts)
      in if qlength cn_rqts < MAX_SIZE cn_rqts
         then map_option (\<lambda>l'. (True, cn_rqts\<lparr>conns := l', qlength := qlength cn_rqts + 1\<rparr>))
                (link_tail newElem l)
         else Some (False, cn_rqts\<lparr>conns := l\<rparr>))"

text \<open>The structure with \<open>connfd = -1\<close> that says that the queue is empty is \<open>None\<close>.\<close>

definition popConnection :: "'a queue \<Rightarrow> ('a option \<times> 'a queue) option" where
  "popConnection cn_rqts =
     Option.bind (pop_head (conns cn_rqts)) (\<lambda>(r, l).
       case r of
         None \<Rightarrow> Some (None, cn_rqts)
       | Some x \<Rightarrow> Some (Some x, cn_rqts\<lparr>conns := l, qlength := qlength cn_rqts - 1\<rparr>))"

section \<open>The bounded queue it implements\<close>

datatype 'a cop = PushC 'a | PopC

datatype 'a cres = Pushed bool | Popped "'a option"

fun run_conn :: "'a queue \<Rightarrow> 'a cop list \<Rightarrow> ('a cres list \<times> 'a queue) option" where
  "run_conn q [] = Some ([], q)"
| "run_conn q (PushC x # ops) = Option.bind (pushConnection q x) (\<lambda>(r, q').
     map_option (\<lambda>(rs, q''). (Pushed r # rs, q'')) (run_conn q' ops))"
| "run_conn q (PopC # ops) = Option.bind (popConnection q) (\<lambda>(r, q').
     map_option (\<lambda>(rs, q''). (Popped r # rs, q'')) (run_conn q' ops))"

fun run_bounded :: "nat \<Rightarrow> 'a list \<Rightarrow> 'a cop list \<Rightarrow> 'a cres list \<times> 'a list" where
  "run_bounded m xs [] = ([], xs)"
| "run_bounded m xs (PushC x # ops) =
     (let (rs, ys) = run_bounded m (if length xs < m then xs @ [x] else xs) ops
      in (Pushed (length xs < m) # rs, ys))"
| "run_bounded m xs (PopC # ops) =
     (let (rs, ys) = run_bounded m (tl xs) ops
      in (Popped (case xs of [] \<Rightarrow> None | x # _ \<Rightarrow> Some x) # rs, ys))"

text \<open>The queue holds \<open>xs\<close> with bound \<open>m\<close>, and \<open>n\<close> nodes of its store are garbage.\<close>

definition conn_abs :: "nat \<Rightarrow> nat \<Rightarrow> 'a queue \<Rightarrow> 'a list \<Rightarrow> bool" where
  "conn_abs m n q xs \<longleftrightarrow> m < 2 ^ 31 \<and> MAX_SIZE q = of_nat m \<and> length xs \<le> m \<and>
     qlength q = of_nat (length xs) \<and>
     (\<exists>ps. sl_repr (conns q) ps \<and> map snd ps = xs \<and> finite (garbage (conns q) ps) \<and>
        card (garbage (conns q) ps) = n)"

lemma conn_abs_init: "m < 2 ^ 31 \<Longrightarrow> conn_abs m 0 (queue_init (of_nat m)) []"
  using sl_repr_empty by (auto simp: conn_abs_def queue_init_def garbage_def sl_empty_def intro: exI[of _ "[]"])

lemma word_less_bound:
  "k \<le> m \<Longrightarrow> m < 2 ^ 31 \<Longrightarrow> ((of_nat k :: 32 word) < of_nat m) = (k < m)"
  by (simp add: word_less_nat_alt unat_of_nat take_bit_nat_eq_self)

lemma pushConnection_abs:
  assumes "conn_abs m n q xs"
  shows "\<exists>q'. pushConnection q x = Some (length xs < m, q') \<and>
    (if length xs < m then conn_abs m n q' (xs @ [x]) else conn_abs m (Suc n) q' xs)"
proof -
  from assms obtain ps where ps: "sl_repr (conns q) ps" "map snd ps = xs" "finite (garbage (conns q) ps)"
    "card (garbage (conns q) ps) = n" and b: "m < 2 ^ 31" "length xs \<le> m" "MAX_SIZE q = of_nat m"
    "qlength q = of_nat (length xs)" by (auto simp: conn_abs_def)
  have lt: "qlength q < MAX_SIZE q \<longleftrightarrow> length xs < m" using b word_less_bound by auto
  show ?thesis
  proof (cases "length xs < m")
    case True
    from link_tail_repr[OF ps(1), of x] obtain l where l:
      "link_tail (fst (new_elem x (conns q))) (snd (new_elem x (conns q))) = Some l"
      "sl_repr l (ps @ [(sbrk (conns q), x)])"
      "garbage l (ps @ [(sbrk (conns q), x)]) = garbage (conns q) ps" by blast
    let ?q = "q\<lparr>conns := l, qlength := qlength q + 1\<rparr>"
    have "conn_abs m n ?q (xs @ [x])"
      unfolding conn_abs_def
      using b True ps(2-4) l(2,3) by (auto intro!: exI[of _ "ps @ [(sbrk (conns q), x)]"])
    moreover have "pushConnection q x = Some (True, ?q)"
      using l(1) lt True by (simp add: pushConnection_def split_beta)
    ultimately show ?thesis using True by auto
  next
    case False
    let ?q = "q\<lparr>conns := snd (new_elem x (conns q))\<rparr>"
    have f: "sbrk (conns q) \<notin> garbage (conns q) ps" using ps(1) by (auto simp: sl_repr_def garbage_def)
    have "sl_repr (conns ?q) ps" "garbage (conns ?q) ps = insert (sbrk (conns q)) (garbage (conns q) ps)"
      using ps(1) sl_repr_fresh[OF ps(1)]
      by (auto simp: sl_repr_def new_elem_def garbage_def less_SucI)
    then have "conn_abs m (Suc n) ?q xs"
      unfolding conn_abs_def using b ps(2-4) f by (auto intro!: exI[of _ ps])
    moreover have "pushConnection q x = Some (False, ?q)"
      using lt False by (simp add: pushConnection_def split_beta)
    ultimately show ?thesis using False by auto
  qed
qed

lemma popConnection_abs:
  assumes "conn_abs m n q xs"
  shows "\<exists>q'. popConnection q = Some (case xs of [] \<Rightarrow> None | x # _ \<Rightarrow> Some x, q') \<and> conn_abs m n q' (tl xs)"
proof -
  from assms obtain ps where ps: "sl_repr (conns q) ps" "map snd ps = xs" "finite (garbage (conns q) ps)"
    "card (garbage (conns q) ps) = n" and b: "m < 2 ^ 31" "length xs \<le> m" "MAX_SIZE q = of_nat m"
    "qlength q = of_nat (length xs)" by (auto simp: conn_abs_def)
  show ?thesis
  proof (cases ps)
    case Nil
    with ps assms pop_head_Nil[of "conns q"] show ?thesis by (auto simp: popConnection_def)
  next
    case (Cons p rs)
    obtain a x where p: "p = (a, x)" by (cases p)
    from pop_head_repr[of "conns q" a x rs] ps(1) Cons p obtain l where l:
      "pop_head (conns q) = Some (Some x, l)" "sl_repr l rs" "garbage l rs = garbage (conns q) ps" by auto
    have xs: "xs = x # map snd rs" using ps(2) Cons p by auto
    let ?q = "q\<lparr>conns := l, qlength := qlength q - 1\<rparr>"
    have "conn_abs m n ?q (map snd rs)"
      unfolding conn_abs_def using b l ps(3,4) xs by auto
    with l xs show ?thesis by (auto simp: popConnection_def)
  qed
qed

text \<open>The number of pushes that were refused.\<close>

fun refused :: "'a cres list \<Rightarrow> nat" where
  "refused [] = 0"
| "refused (Pushed b # rs) = (if b then refused rs else Suc (refused rs))"
| "refused (Popped x # rs) = refused rs"

lemma run_conn_abs:
  "conn_abs m n q xs \<Longrightarrow> \<exists>q'. run_conn q ops = Some (fst (run_bounded m xs ops), q') \<and>
     conn_abs m (n + refused (fst (run_bounded m xs ops))) q' (snd (run_bounded m xs ops))"
proof (induction m xs ops arbitrary: n q rule: run_bounded.induct)
  case (2 m xs x ops)
  from pushConnection_abs[OF 2(2), of x] obtain q' where q': "pushConnection q x = Some (length xs < m, q')"
    "if length xs < m then conn_abs m n q' (xs @ [x]) else conn_abs m (Suc n) q' xs" by blast
  then show ?case
    using 2(1)[of "if length xs < m then n else Suc n" q'] by (auto simp: split_beta split: if_splits)
next
  case (3 m xs ops)
  from popConnection_abs[OF 3(2)] obtain q' where "popConnection q = Some (case xs of [] \<Rightarrow> None | x # _ \<Rightarrow> Some x, q')"
    "conn_abs m n q' (tl xs)" by blast
  then show ?case using 3(1)[of n q'] by (auto simp: split_beta)
qed simp

text \<open>
  C13. The queue of connection requests is a bounded FIFO queue: any sequence of
  \<open>pushConnection\<close> and \<open>popConnection\<close> runs without dereferencing a NULL or freed pointer and
  answers like a list of at most \<open>m\<close> elements, and the unsigned length never wraps. Each
  refused push leaks exactly one node: the node is allocated before the bound is tested, and it
  is neither linked nor freed.
\<close>

theorem connection_queue_bounded_fifo:
  assumes "m < 2 ^ 31"
  shows "\<exists>q. run_conn (queue_init (of_nat m)) ops = Some (fst (run_bounded m [] ops), q) \<and>
    conn_abs m (refused (fst (run_bounded m [] ops))) q (snd (run_bounded m [] ops))"
  using run_conn_abs[OF conn_abs_init[OF assms], of ops] by simp

theorem connection_queue_bounded_fifo_witness:
  "\<exists>q. run_conn (queue_init 1) [PushC 4, PushC 5, PopC, PopC] =
       Some ([Pushed True, Pushed False, Popped (Some 4), Popped None], q) \<and>
     conn_abs 1 1 q ([] :: int list)"
  using connection_queue_bounded_fifo[of 1 "[PushC 4, PushC 5, PopC, PopC]"] by simp

end
