(* ===== verification/Cache.thy ===== *)
theory Cache
  imports ConnQueue
begin

unbundle bit_operations_syntax

text \<open>
  The file cache of webserver/server_thread.c: a hash table with chains over the files in memory
  and the list that orders them by last use. File structures live in a store, so the chains, the
  LRU list and the list of files being sent share them by address, and a use of a freed file is
  a fault. The LRU list is the doubly linked list of theory \<open>DList\<close>, used through the list
  operations it implements; chains own their nodes and are lists.
\<close>

section \<open>Data\<close>

record file_data =
  file_name :: string
  file_buf :: string
  file_size :: "32 word"

record cache =
  cMAX_SIZE :: int
  curr_size :: int
  array_size :: int
  mapping :: "addr list list"

text \<open>The globals \<open>fileCache\<close>, \<open>LRU_Policy\<close> and \<open>inflight_q\<close>; an entry of the latter
  points to the name inside a file structure.\<close>

record shared =
  files :: "addr \<Rightarrow> file_data option"
  fileCache :: "cache option"
  LRU_Policy :: "addr list"
  inflight_q :: "addr list"

abbreviation the_cache :: "shared \<Rightarrow> cache" where
  "the_cache s \<equiv> the (fileCache s)"

definition upd_cache :: "(cache \<Rightarrow> cache) \<Rightarrow> shared \<Rightarrow> shared" where
  "upd_cache f s = s\<lparr>fileCache := map_option f (fileCache s)\<rparr>"

definition name_of :: "shared \<Rightarrow> addr \<Rightarrow> string" where
  "name_of s a = file_name (the (files s a))"

definition size_of :: "shared \<Rightarrow> addr \<Rightarrow> int" where
  "size_of s a = sint (file_size (the (files s a)))"

abbreviation bytes :: "file_data \<Rightarrow> int" where
  "bytes d \<equiv> sint (file_size d)"

section \<open>The hash function\<close>

text \<open>\<open>hash = ((hash << 5) + hash) + c\<close> on a 64-bit \<open>long\<close>, \<open>c\<close> a signed character.\<close>

fun hash_loop :: "64 word \<Rightarrow> string \<Rightarrow> 64 word" where
  "hash_loop hash [] = hash"
| "hash_loop hash (c # str) =
     hash_loop ((push_bit 5 hash + hash) + scast (of_char c :: 8 word)) str"

definition hash_value :: "string \<Rightarrow> 64 word" where
  "hash_value str = hash_loop 5381 str"

text \<open>The index of a name: \<open>hash_value(name) % array_size\<close>, made non-negative.\<close>

definition hash_index :: "string \<Rightarrow> cache \<Rightarrow> nat res" where
  "hash_index name wc =
     (if array_size wc = 0 then Inl Div_by_zero
      else let hash = crem (sint (hash_value name)) (array_size wc)
           in Inr (nat (if hash < 0 then hash + array_size wc else hash)))"

text \<open>The chain \<open>(*wc)->mapping[hash]\<close>.\<close>

definition chain :: "cache \<Rightarrow> nat \<Rightarrow> addr list res" where
  "chain wc h = (if h < length (mapping wc) then Inr (mapping wc ! h) else Inl Out_of_bounds)"

section \<open>Lists of files\<close>

text \<open>The first file of a list with the given name, dereferencing each file on the way.\<close>

fun find_file :: "(addr \<Rightarrow> file_data option) \<Rightarrow> string \<Rightarrow> addr list \<Rightarrow> addr option res" where
  "find_file m name [] = Inr None"
| "find_file m name (a # as) =
     bindR (readR m a) (\<lambda>d. if file_name d = name then Inr (Some a) else find_file m name as)"

definition getCachedFile :: "string \<Rightarrow> shared \<Rightarrow> addr option res" where
  "getCachedFile name s = find_file (files s) name (LRU_Policy s)"

definition isInFlightFile :: "string \<Rightarrow> shared \<Rightarrow> addr option res" where
  "isInFlightFile name s = find_file (files s) name (inflight_q s)"

definition pushBack :: "addr \<Rightarrow> shared \<Rightarrow> bool \<times> shared" where
  "pushBack a s = (True, s\<lparr>LRU_Policy := LRU_Policy s @ [a]\<rparr>)"

definition removeLRUFile :: "shared \<Rightarrow> addr option \<times> shared" where
  "removeLRUFile s = (case LRU_Policy s of [] \<Rightarrow> (None, s) | a # as \<Rightarrow> (Some a, s\<lparr>LRU_Policy := as\<rparr>))"

text \<open>\<open>removeFileToBeMovedToBack\<close>: the head, the tail, then the nodes between them are compared
  with the name.\<close>

definition removeFileToBeMovedToBack :: "string \<Rightarrow> shared \<Rightarrow> (addr option \<times> shared) res" where
  "removeFileToBeMovedToBack name s =
     (case LRU_Policy s of
        [] \<Rightarrow> Inr (None, s)
      | a # as \<Rightarrow>
          bindR (readR (files s) a) (\<lambda>d.
            if file_name d = name then Inr (Some a, s\<lparr>LRU_Policy := as\<rparr>)
            else bindR (readR (files s) (last (a # as))) (\<lambda>e.
              if file_name e = name
              then Inr (Some (last (a # as)), s\<lparr>LRU_Policy := butlast (a # as)\<rparr>)
              else bindR (find_file (files s) name (a # as)) (\<lambda>r.
                case r of
                  None \<Rightarrow> Inr (None, s)
                | Some b \<Rightarrow> Inr (Some b, s\<lparr>LRU_Policy := remove1 b (a # as)\<rparr>)))))"

section \<open>Removing and inserting\<close>

text \<open>
  The end of \<open>remove_from_cache\<close>: the first entry of the chain with this name is unlinked and its
  file freed.
\<close>

definition remove_entry :: "nat \<Rightarrow> string \<Rightarrow> shared \<Rightarrow> (bool \<times> shared) res" where
  "remove_entry h name s =
     bindR (chain (the_cache s) h) (\<lambda>c.
       bindR (find_file (files s) name c) (\<lambda>r.
         case r of
           None \<Rightarrow> Inr (False, s)
         | Some a \<Rightarrow>
             bindR (readR (files s) a) (\<lambda>e.
               Inr (True, (upd_cache (\<lambda>wc. wc\<lparr>mapping := (mapping wc)[h := remove1 a c],
                     curr_size := wrap32 (curr_size wc - bytes e)\<rparr>) s)
                   \<lparr>files := (files s)(a := None)\<rparr>))))"

text \<open>
  \<open>remove_from_cache\<close> first waits until the file is not being sent: without another thread
  that wait does not return. Theory \<open>ServerConc\<close> has the test and the removal as separate steps.
\<close>

definition remove_from_cache :: "addr \<Rightarrow> shared \<Rightarrow> (bool \<times> shared) res" where
  "remove_from_cache data s =
     bindR (readR (files s) data) (\<lambda>d.
       bindR (hash_index (file_name d) (the_cache s)) (\<lambda>h.
         bindR (isInFlightFile (file_name d) s) (\<lambda>f.
           if f \<noteq> None then Inl Would_block else remove_entry h (file_name d) s)))"

definition cache_evict :: "shared \<Rightarrow> (bool \<times> shared) res" where
  "cache_evict s =
     (case removeLRUFile s of
        (None, _) \<Rightarrow> Inl Null_deref
      | (Some elem, s') \<Rightarrow> remove_from_cache elem s')"

text \<open>No room for \<open>n\<close> more bytes.\<close>

definition overfull :: "int \<Rightarrow> shared \<Rightarrow> bool" where
  "overfull n s \<longleftrightarrow> wrap32 (curr_size (the_cache s) + n) > cMAX_SIZE (the_cache s)"

lemma remove_from_cache_LRU: "remove_from_cache a s = Inr (b, s') \<Longrightarrow> LRU_Policy s' = LRU_Policy s"
  by (auto simp: remove_from_cache_def remove_entry_def bindR_eq_Inr upd_cache_def split: option.splits if_splits)

lemma cache_evict_LRU: "cache_evict s = Inr (b, s') \<Longrightarrow> length (LRU_Policy s') < length (LRU_Policy s)"
  by (auto simp: cache_evict_def removeLRUFile_def split: list.splits dest!: remove_from_cache_LRU)

text \<open>The loop \<open>while (curr_size + file_size > MAX_SIZE)\<close>.\<close>

function evict_loop :: "int \<Rightarrow> shared \<Rightarrow> shared res" where
  "evict_loop n s =
     (if overfull n s
      then if curr_size (the_cache s) = 0 then Inr s
           else bindR (cache_evict s) (\<lambda>r. evict_loop n (snd r))
      else Inr s)"
  by pat_completeness auto
termination
proof (relation "measure (\<lambda>(n, s). length (LRU_Policy s))", goal_cases)
  case (2 n s r)
  then show ?case by (cases r) (auto dest: cache_evict_LRU)
qed simp

declare evict_loop.simps [simp del]

lemma evict_loop_LRU:
  "evict_loop n s = Inr s' \<Longrightarrow> length (LRU_Policy s') \<le> length (LRU_Policy s) \<and>
     (overfull n s \<longrightarrow> curr_size (the_cache s) \<noteq> 0 \<longrightarrow> length (LRU_Policy s') < length (LRU_Policy s))"
proof (induction n s rule: evict_loop.induct)
  case (1 n s)
  then show ?case
    by (subst (asm) evict_loop.simps)
       (fastforce simp: bindR_eq_Inr split: if_splits dest: cache_evict_LRU)
qed

text \<open>\<open>insert_to_cache\<close>; after making room it calls itself.\<close>

function insert_to_cache :: "addr \<Rightarrow> shared \<Rightarrow> (bool \<times> shared) res" where
  "insert_to_cache data s =
     bindR (readR (files s) data) (\<lambda>d.
       if bytes d > cMAX_SIZE (the_cache s) then Inr (False, s)
       else bindR (hash_index (file_name d) (the_cache s)) (\<lambda>h.
         bindR (chain (the_cache s) h) (\<lambda>c.
           bindR (find_file (files s) (file_name d) c) (\<lambda>r.
             if r \<noteq> None then Inr (False, s)
             else if \<not> overfull (bytes d) s
             then let s = upd_cache (\<lambda>wc. wc\<lparr>mapping := (mapping wc)[h := c @ [data]],
                        curr_size := wrap32 (curr_size wc + bytes d)\<rparr>) s
                  in Inr (pushBack data s)
             else bindR (evict_loop (bytes d) s) (insert_to_cache data)))))"
  by pat_completeness auto
termination
proof (relation "measure (\<lambda>(a, s). length (LRU_Policy s))", goal_cases)
  case (2 data s d h c r s')
  have "wrap32 (bytes d) = bytes d"
    using sint_greater_eq[of "file_size d"] sint_less[of "file_size d"] by (intro wrap32_id) auto
  then have "curr_size (the_cache s) \<noteq> 0" using 2 by (auto simp: overfull_def)
  then show ?case using 2 evict_loop_LRU[of "bytes d" s s'] by auto
qed simp

declare insert_to_cache.simps [simp del]

definition cache_insert :: "addr \<Rightarrow> shared \<Rightarrow> (bool \<times> shared) res" where
  "cache_insert data s = insert_to_cache data s"

definition cache_lookup :: "string \<Rightarrow> shared \<Rightarrow> (bool \<times> shared) res" where
  "cache_lookup name s =
     bindR (removeFileToBeMovedToBack name s) (\<lambda>(info, s).
       case info of None \<Rightarrow> Inr (False, s) | Some a \<Rightarrow> Inr (pushBack a s))"

section \<open>Creating and destroying the cache\<close>

definition init_cache :: "int \<Rightarrow> cache" where
  "init_cache maxSize =
     (let n = 2 * (maxSize div 4096)
      in \<lparr>cMAX_SIZE = maxSize, curr_size = 0, array_size = n, mapping = replicate (nat n) []\<rparr>)"

text \<open>\<open>destroy_cache\<close>: for every entry of every chain the front of the LRU list is dropped and
  the file freed.\<close>

fun destroy_entries :: "addr list \<Rightarrow> shared \<Rightarrow> shared res" where
  "destroy_entries [] s = Inr s"
| "destroy_entries (a # as) s =
     (let (_, s) = removeLRUFile s
      in bindR (readR (files s) a) (\<lambda>d.
           destroy_entries as ((upd_cache (\<lambda>wc. wc\<lparr>curr_size := wrap32 (curr_size wc - bytes d)\<rparr>) s)
             \<lparr>files := (files s)(a := None)\<rparr>)))"

definition destroy_cache :: "shared \<Rightarrow> shared res" where
  "destroy_cache s =
     (case fileCache s of
        None \<Rightarrow> Inl Null_deref
      | Some wc \<Rightarrow> destroy_entries (concat (take (nat (array_size wc)) (mapping wc))) s)"

definition destroy_cache_wrapper :: "shared \<Rightarrow> shared res" where
  "destroy_cache_wrapper s = bindR (destroy_cache s) (\<lambda>s. Inr (s\<lparr>fileCache := None\<rparr>))"

section \<open>The hash index\<close>

lemma hash_index_bound:
  assumes "0 < array_size wc"
  shows "\<exists>h. hash_index name wc = Inr h \<and> int h < array_size wc"
proof -
  define k where "k = crem (sint (hash_value name)) (array_size wc)"
  have "- array_size wc < k \<and> k < array_size wc" using crem_bounds[OF assms] by (simp add: k_def)
  then show ?thesis using assms by (auto simp: hash_index_def Let_def k_def[symmetric])
qed

section \<open>The invariant\<close>

text \<open>
  Sum of the sizes, the LRU order and the hash table agree: each file in the table is allocated,
  in the chain of its name, and once in the LRU list; names are unique.
\<close>

definition total_bytes :: "shared \<Rightarrow> addr list \<Rightarrow> int" where
  "total_bytes s as = sum_list (map (size_of s) as)"

definition cache_inv :: "shared \<Rightarrow> bool" where
  "cache_inv s \<longleftrightarrow> (case fileCache s of None \<Rightarrow> False | Some wc \<Rightarrow>
     0 < array_size wc \<and> int (length (mapping wc)) = array_size wc \<and> cMAX_SIZE wc < 2 ^ 30 \<and>
     distinct (LRU_Policy s) \<and> inj_on (name_of s) (set (LRU_Policy s)) \<and>
     (\<forall>a\<in>set (LRU_Policy s). files s a \<noteq> None \<and> 0 \<le> size_of s a) \<and>
     (\<forall>h < length (mapping wc). distinct (mapping wc ! h) \<and>
        set (mapping wc ! h) = {a \<in> set (LRU_Policy s). hash_index (name_of s a) wc = Inr h}) \<and>
     curr_size wc = total_bytes s (LRU_Policy s) \<and> curr_size wc \<le> cMAX_SIZE wc)"

definition cached :: "shared \<Rightarrow> string \<Rightarrow> addr option" where
  "cached s name = List.find (\<lambda>a. name_of s a = name) (LRU_Policy s)"

text \<open>Files being sent are allocated and none of them is in the cache.\<close>

definition idle :: "shared \<Rightarrow> bool" where
  "idle s \<longleftrightarrow> (\<forall>b\<in>set (inflight_q s). files s b \<noteq> None \<and> name_of s b \<notin> name_of s ` set (LRU_Policy s))"

lemma find_file_eq:
  "\<forall>a\<in>set as. files s a \<noteq> None \<Longrightarrow>
     find_file (files s) name as = Inr (List.find (\<lambda>a. name_of s a = name) as)"
  by (induction as) (auto simp: name_of_def)

lemma find_unique:
  "a \<in> set as \<Longrightarrow> inj_on f (set as) \<Longrightarrow> List.find (\<lambda>x. f x = f a) as = Some a"
proof (induction as)
  case (Cons b as)
  then show ?case by (cases "f b = f a") (auto simp: inj_on_def)
qed simp

lemma cache_invD:
  assumes "cache_inv s"
  obtains wc where "fileCache s = Some wc" "0 < array_size wc" "int (length (mapping wc)) = array_size wc"
    "cMAX_SIZE wc < 2 ^ 30" "curr_size wc = total_bytes s (LRU_Policy s)" "curr_size wc \<le> cMAX_SIZE wc"
    "\<And>h. h < length (mapping wc) \<Longrightarrow> distinct (mapping wc ! h) \<and>
        set (mapping wc ! h) = {a \<in> set (LRU_Policy s). hash_index (name_of s a) wc = Inr h}"
  using assms by (auto simp: cache_inv_def split: option.splits)

lemma cache_inv_LRU:
  assumes "cache_inv s"
  shows "distinct (LRU_Policy s)" "inj_on (name_of s) (set (LRU_Policy s))"
    "a \<in> set (LRU_Policy s) \<Longrightarrow> files s a \<noteq> None" "a \<in> set (LRU_Policy s) \<Longrightarrow> 0 \<le> size_of s a"
  using assms by (auto simp: cache_inv_def split: option.splits)

lemma hash_index_chain:
  assumes "fileCache s = Some wc" "0 < array_size wc" "int (length (mapping wc)) = array_size wc"
  obtains h where "hash_index name wc = Inr h" "h < length (mapping wc)" "chain wc h = Inr (mapping wc ! h)"
  using hash_index_bound[OF assms(2), of name] assms(3) that by (fastforce simp: chain_def)

lemma hash_index_cong [simp]:
  "hash_index name (wc\<lparr>mapping := m\<rparr>) = hash_index name wc"
  "hash_index name (wc\<lparr>curr_size := n\<rparr>) = hash_index name wc"
  by (simp_all add: hash_index_def Let_def)

text \<open>A name is in the cache if and only if it is in the chain of its index.\<close>

lemma find_chain:
  assumes "cache_inv s" and "fileCache s = Some wc" and "hash_index name wc = Inr h" and "h < length (mapping wc)"
  shows "find_file (files s) name (mapping wc ! h) = Inr (cached s name)"
proof -
  from assms(1,2,4) have c: "set (mapping wc ! h) = {a \<in> set (LRU_Policy s). hash_index (name_of s a) wc = Inr h}"
    by (auto simp: cache_inv_def)
  note i = cache_inv_LRU(2)[OF assms(1)]
  have "find_file (files s) name (mapping wc ! h) =
      Inr (List.find (\<lambda>a. name_of s a = name) (mapping wc ! h))"
    using c cache_inv_LRU(3)[OF assms(1)] by (intro find_file_eq) auto
  moreover have "List.find (\<lambda>a. name_of s a = name) (mapping wc ! h) = cached s name"
  proof (cases "name \<in> name_of s ` set (LRU_Policy s)")
    case True
    then obtain a where a: "a \<in> set (LRU_Policy s)" "name = name_of s a" by auto
    with c assms(3) have "a \<in> set (mapping wc ! h)" by auto
    moreover have "inj_on (name_of s) (set (mapping wc ! h))" using i c by (auto intro: inj_on_subset)
    ultimately show ?thesis
      using find_unique[of a "mapping wc ! h" "name_of s"] find_unique[of a "LRU_Policy s" "name_of s"] a i
      by (simp add: cached_def)
  next
    case False
    then have "List.find (\<lambda>a. name_of s a = name) as = None" if "set as \<subseteq> set (LRU_Policy s)" for as
      using that by (auto simp: find_None_iff)
    then show ?thesis using c by (simp add: cached_def)
  qed
  ultimately show ?thesis by simp
qed

section \<open>Eviction\<close>

lemma total_simps [simp]:
  "total_bytes s [] = 0" "total_bytes s (a # as) = size_of s a + total_bytes s as" "total_bytes s (as @ bs) = total_bytes s as + total_bytes s bs"
  by (simp_all add: total_bytes_def)

lemma total_nonneg: "\<forall>a\<in>set as. 0 \<le> size_of s a \<Longrightarrow> 0 \<le> total_bytes s as"
  unfolding total_bytes_def by (rule sum_list_nonneg) auto

lemma total_cong: "(\<And>a. a \<in> set as \<Longrightarrow> files s' a = files s a) \<Longrightarrow> total_bytes s' as = total_bytes s as"
  by (auto simp: total_bytes_def size_of_def intro!: arg_cong[where f = sum_list])

text \<open>Unlinking the file that has just left the front of the LRU list.\<close>

lemma remove_entry_spec:
  assumes "cache_inv s" and "LRU_Policy s = a # as"
  obtains h s' where "hash_index (name_of s a) (the_cache s) = Inr h" "h < length (mapping (the_cache s))"
    "remove_entry h (name_of s a) (s\<lparr>LRU_Policy := as\<rparr>) = Inr (True, s')"
    "cache_inv s'" "LRU_Policy s' = as" "files s' = (files s)(a := None)" "inflight_q s' = inflight_q s"
    "cMAX_SIZE (the_cache s') = cMAX_SIZE (the_cache s)"
proof -
  obtain wc where wc: "fileCache s = Some wc" "0 < array_size wc" "int (length (mapping wc)) = array_size wc"
    "cMAX_SIZE wc < 2 ^ 30" "curr_size wc = total_bytes s (LRU_Policy s)" "curr_size wc \<le> cMAX_SIZE wc"
    and ch: "\<And>h. h < length (mapping wc) \<Longrightarrow> distinct (mapping wc ! h) \<and>
        set (mapping wc ! h) = {a \<in> set (LRU_Policy s). hash_index (name_of s a) wc = Inr h}"
    using cache_invD[OF assms(1)] by blast
  note L = cache_inv_LRU[OF assms(1)]
  obtain d where d: "files s a = Some d" using L(3)[of a] assms(2) by auto
  have n: "bytes d = size_of s a" using d by (simp add: size_of_def)
  obtain h where h: "hash_index (name_of s a) wc = Inr h" "h < length (mapping wc)" "chain wc h = Inr (mapping wc ! h)"
    using hash_index_chain[OF wc(1-3)] by blast
  have f: "find_file (files s) (name_of s a) (mapping wc ! h) = Inr (Some a)"
    using find_chain[OF assms(1) wc(1) h(1,2)] find_unique[of a "LRU_Policy s" "name_of s"] L(2) assms(2)
    by (simp add: cached_def)
  have pos: "0 \<le> total_bytes s as" using L(4) assms(2) by (intro total_nonneg) auto
  have cz: "wrap32 (curr_size wc - size_of s a) = total_bytes s as"
    using wc(4,5,6) pos assms(2) L(4)[of a] by (auto intro!: wrap32_id)
  define wc' where "wc' = wc\<lparr>mapping := (mapping wc)[h := remove1 a (mapping wc ! h)], curr_size := total_bytes s as\<rparr>"
  define s' where "s' = s\<lparr>LRU_Policy := as, fileCache := Some wc', files := (files s)(a := None)\<rparr>"
  have e: "remove_entry h (name_of s a) (s\<lparr>LRU_Policy := as\<rparr>) = Inr (True, s')"
    using d wc(1) h(3) f cz n by (simp add: remove_entry_def upd_cache_def s'_def wc'_def)
  have an: "a \<notin> set as" using L(1) assms(2) by simp
  have nma: "name_of s' b = name_of s b" "size_of s' b = size_of s b" if "b \<in> set as" for b
    using that an by (auto simp: name_of_def size_of_def s'_def)
  have "total_bytes s' as = total_bytes s as" using an by (intro total_cong) (auto simp: s'_def)
  moreover have "inj_on (name_of s) (set as)" using L(2) assms(2) by (auto intro: inj_on_subset)
  then have "inj_on (name_of s') (set as)" using nma(1) by (simp cong: inj_on_cong)
  moreover have "distinct (mapping wc' ! k) \<and>
      set (mapping wc' ! k) = {b \<in> set as. hash_index (name_of s' b) wc' = Inr k}" if "k < length (mapping wc')" for k
  proof (cases "k = h")
    case True
    with ch[of h] h(2) show ?thesis using assms(2) an nma by (auto simp: wc'_def)
  next
    case False
    then have "a \<notin> set (mapping wc ! k)" using ch[of k] that h(1) by (auto simp: wc'_def)
    with False ch[of k] that assms(2) an nma show ?thesis by (auto simp: wc'_def)
  qed
  moreover have "\<forall>b\<in>set as. files s' b \<noteq> None \<and> 0 \<le> size_of s' b"
    using L(3,4) assms(2) an nma by (auto simp: s'_def)
  moreover have "total_bytes s as \<le> cMAX_SIZE wc" using wc(5,6) assms(2) L(4)[of a] by simp
  ultimately have "cache_inv s'"
    using wc pos L(1,4) assms(2) unfolding cache_inv_def by (auto simp: s'_def wc'_def)
  then show ?thesis using that[of h s'] e h wc(1) by (auto simp: s'_def wc'_def)
qed

lemma evict_spec:
  assumes "cache_inv s" and "idle s" and "LRU_Policy s = a # as"
  shows "\<exists>s'. cache_evict s = Inr (True, s') \<and> cache_inv s' \<and> idle s' \<and> LRU_Policy s' = as \<and>
    files s' = (files s)(a := None) \<and> inflight_q s' = inflight_q s \<and>
    cMAX_SIZE (the_cache s') = cMAX_SIZE (the_cache s)"
proof -
  obtain h s' where h: "hash_index (name_of s a) (the_cache s) = Inr h"
    and e: "remove_entry h (name_of s a) (s\<lparr>LRU_Policy := as\<rparr>) = Inr (True, s')"
    and s': "cache_inv s'" "LRU_Policy s' = as" "files s' = (files s)(a := None)" "inflight_q s' = inflight_q s"
      "cMAX_SIZE (the_cache s') = cMAX_SIZE (the_cache s)"
    using remove_entry_spec[OF assms(1,3)] by blast
  obtain d where d: "files s a = Some d" "file_name d = name_of s a"
    using cache_inv_LRU(3)[OF assms(1), of a] assms(3) by (auto simp: name_of_def)
  have "find_file (files s) (name_of s a) (inflight_q s) = Inr None"
    using assms(2,3) find_file_eq[of "inflight_q s" s "name_of s a"] by (auto simp: idle_def find_None_iff)
  then have "cache_evict s = Inr (True, s')"
    using assms(3) d h e by (simp add: cache_evict_def removeLRUFile_def remove_from_cache_def isInFlightFile_def)
  moreover have "idle s'"
    unfolding idle_def s'(2,4)
  proof (intro ballI)
    fix b assume "b \<in> set (inflight_q s)"
    then have b: "files s b \<noteq> None" "name_of s b \<notin> name_of s ` set (a # as)" "b \<noteq> a"
      using assms(2,3) by (auto simp: idle_def)
    have "a \<notin> set as" using cache_inv_LRU(1)[OF assms(1)] assms(3) by simp
    then have "name_of s' ` set as = name_of s ` set as" by (intro image_cong) (auto simp: name_of_def s'(3))
    with b show "files s' b \<noteq> None \<and> name_of s' b \<notin> name_of s' ` set as" by (auto simp: name_of_def s'(3))
  qed
  ultimately show ?thesis using s' by blast
qed

text \<open>The reference policy: drop least recently used files until the new one fits.\<close>

fun make_room :: "(addr \<Rightarrow> int) \<Rightarrow> int \<Rightarrow> int \<Rightarrow> addr list \<Rightarrow> addr list" where
  "make_room sz mx n [] = []"
| "make_room sz mx n (a # as) =
     (if sum_list (map sz (a # as)) + n > mx then make_room sz mx n as else a # as)"

lemma make_room_suffix: "\<exists>es. as = es @ make_room sz mx n as"
proof (induction as)
  case (Cons a as)
  then show ?case by (metis append_Cons append_Nil make_room.simps(2))
qed simp

lemma make_room_fits: "0 \<le> n \<Longrightarrow> n \<le> mx \<Longrightarrow> sum_list (map sz (make_room sz mx n as)) + n \<le> mx"
  by (induction as) auto

lemma make_room_cong: "(\<And>a. a \<in> set as \<Longrightarrow> f a = g a) \<Longrightarrow> make_room f mx n as = make_room g mx n as"
proof (induction as)
  case (Cons a as)
  then have "map f (a # as) = map g (a # as)" by simp
  then have "sum_list (map f (a # as)) = sum_list (map g (a # as))" by (rule arg_cong)
  with Cons show ?case by (simp only: make_room.simps) simp
qed simp

lemma overfull_eq:
  assumes "cache_inv s" and "0 \<le> n" and "n \<le> cMAX_SIZE (the_cache s)"
  shows "overfull n s \<longleftrightarrow> total_bytes s (LRU_Policy s) + n > cMAX_SIZE (the_cache s)"
    and "curr_size (the_cache s) = total_bytes s (LRU_Policy s)"
proof -
  have "0 \<le> total_bytes s (LRU_Policy s)" using cache_inv_LRU[OF assms(1)] by (intro total_nonneg) auto
  moreover obtain wc where "fileCache s = Some wc" "cMAX_SIZE wc < 2 ^ 30"
    "curr_size wc = total_bytes s (LRU_Policy s)" "curr_size wc \<le> cMAX_SIZE wc"
    using cache_invD[OF assms(1)] by metis
  moreover have "wrap32 (total_bytes s (LRU_Policy s) + n) = total_bytes s (LRU_Policy s) + n"
    using assms(2,3) calculation by (intro wrap32_id) auto
  ultimately show "overfull n s \<longleftrightarrow> total_bytes s (LRU_Policy s) + n > cMAX_SIZE (the_cache s)"
    and "curr_size (the_cache s) = total_bytes s (LRU_Policy s)" by (auto simp: overfull_def)
qed

lemma evict_loop_spec:
  assumes "cache_inv s" and "idle s" and "0 \<le> n" and "n \<le> cMAX_SIZE (the_cache s)"
  shows "\<exists>s'. evict_loop n s = Inr s' \<and> cache_inv s' \<and> idle s' \<and>
    LRU_Policy s' = make_room (size_of s) (cMAX_SIZE (the_cache s)) n (LRU_Policy s) \<and>
    files s' = (\<lambda>a. if a \<in> set (LRU_Policy s) - set (LRU_Policy s') then None else files s a) \<and>
    inflight_q s' = inflight_q s \<and> cMAX_SIZE (the_cache s') = cMAX_SIZE (the_cache s) \<and> \<not> overfull n s'"
  using assms
proof (induction n s rule: evict_loop.induct)
  case (1 n s)
  note o = overfull_eq[OF 1(2,4,5)]
  let ?m = "cMAX_SIZE (the_cache s)"
  show ?case
  proof (cases "overfull n s")
    case False
    then have "make_room (size_of s) ?m n (LRU_Policy s) = LRU_Policy s"
      using o(1) by (cases "LRU_Policy s") (auto simp: total_bytes_def)
    with False 1(2,3) show ?thesis by (subst evict_loop.simps) auto
  next
    case True
    have nz: "curr_size (the_cache s) \<noteq> 0" using True o 1(5) by auto
    then obtain a as where as: "LRU_Policy s = a # as" using o(2) by (cases "LRU_Policy s") auto
    from evict_spec[OF 1(2,3) as] obtain u where u: "cache_evict s = Inr (True, u)" "cache_inv u" "idle u"
      "LRU_Policy u = as" "files u = (files s)(a := None)" "inflight_q u = inflight_q s"
      "cMAX_SIZE (the_cache u) = ?m" by blast
    have an: "a \<notin> set as" using cache_inv_LRU(1)[OF 1(2)] as by simp
    have "evict_loop n s = evict_loop n u" using True nz u(1) by (subst evict_loop.simps) simp
    moreover have "make_room (size_of s) ?m n (LRU_Policy s) = make_room (size_of u) ?m n as"
    proof -
      have "make_room (size_of s) ?m n (LRU_Policy s) = make_room (size_of s) ?m n as"
        using True o(1) as by (simp add: total_bytes_def)
      also have "\<dots> = make_room (size_of u) ?m n as"
        using an u(5) by (intro make_room_cong) (auto simp: size_of_def)
      finally show ?thesis .
    qed
    moreover from 1(1)[OF True nz u(1), unfolded snd_conv] u 1(4,5) obtain s' where s': "evict_loop n u = Inr s'" "cache_inv s'"
      "idle s'" "LRU_Policy s' = make_room (size_of u) ?m n as"
      "files s' = (\<lambda>b. if b \<in> set as - set (LRU_Policy s') then None else files u b)"
      "inflight_q s' = inflight_q s" "cMAX_SIZE (the_cache s') = ?m" "\<not> overfull n s'" by auto
    moreover have "set (LRU_Policy s') \<subseteq> set as"
      using make_room_suffix[of as "size_of u" ?m n] s'(4) by (metis Un_upper2 set_append)
    ultimately show ?thesis using as an u(5) by (intro exI[of _ s']) (auto simp: fun_eq_iff)
  qed
qed

section \<open>Insertion and lookup\<close>

text \<open>A file that may be inserted: allocated, small enough, and its name is not cached.\<close>

definition insertable :: "addr \<Rightarrow> shared \<Rightarrow> bool" where
  "insertable d s \<longleftrightarrow> files s d \<noteq> None \<and> 0 \<le> size_of s d \<and> size_of s d \<le> cMAX_SIZE (the_cache s) \<and>
     name_of s d \<notin> name_of s ` set (LRU_Policy s)"

lemma cached_None: "name \<notin> name_of s ` set (LRU_Policy s) \<longleftrightarrow> cached s name = None"
  by (auto simp: cached_def find_None_iff)

lemma insert_unfold:
  assumes "cache_inv s" and "insertable d s"
  obtains wc h fd where "fileCache s = Some wc" "files s d = Some fd" "hash_index (name_of s d) wc = Inr h"
    "h < length (mapping wc)" "insert_to_cache d s =
      (if \<not> overfull (size_of s d) s
       then Inr (pushBack d (upd_cache (\<lambda>wc. wc\<lparr>mapping := (mapping wc)[h := mapping wc ! h @ [d]],
              curr_size := wrap32 (curr_size wc + size_of s d)\<rparr>) s))
       else bindR (evict_loop (size_of s d) s) (insert_to_cache d))"
proof -
  obtain wc where wc: "fileCache s = Some wc" "0 < array_size wc" "int (length (mapping wc)) = array_size wc"
    using cache_invD[OF assms(1)] by metis
  obtain fd where fd: "files s d = Some fd" using assms(2) by (auto simp: insertable_def)
  then have n: "file_name fd = name_of s d" "bytes fd = size_of s d" by (simp_all add: name_of_def size_of_def)
  obtain h where h: "hash_index (name_of s d) wc = Inr h" "h < length (mapping wc)" "chain wc h = Inr (mapping wc ! h)"
    using hash_index_chain[OF wc] by blast
  have "cached s (name_of s d) = None" using assms(2) cached_None by (auto simp: insertable_def)
  then have f: "find_file (files s) (name_of s d) (mapping wc ! h) = Inr None"
    using find_chain[OF assms(1) wc(1) h(1,2)] by simp
  have "insert_to_cache d s =
      (if \<not> overfull (size_of s d) s
       then Inr (pushBack d (upd_cache (\<lambda>wc. wc\<lparr>mapping := (mapping wc)[h := mapping wc ! h @ [d]],
              curr_size := wrap32 (curr_size wc + size_of s d)\<rparr>) s))
       else bindR (evict_loop (size_of s d) s) (insert_to_cache d))"
    using fd n h f wc(1) assms(2)
    by (subst insert_to_cache.simps) (simp add: insertable_def Let_def upd_cache_def)
  with wc(1) fd h that show ?thesis by blast
qed

lemma insert_room:
  assumes "cache_inv s" and "insertable d s" and "\<not> overfull (size_of s d) s"
  shows "\<exists>s'. insert_to_cache d s = Inr (True, s') \<and> cache_inv s' \<and> LRU_Policy s' = LRU_Policy s @ [d] \<and>
    files s' = files s \<and> inflight_q s' = inflight_q s \<and> cMAX_SIZE (the_cache s') = cMAX_SIZE (the_cache s)"
proof -
  obtain wc h fd where u: "fileCache s = Some wc" "files s d = Some fd" "hash_index (name_of s d) wc = Inr h"
    "h < length (mapping wc)" and e: "insert_to_cache d s =
      (if \<not> overfull (size_of s d) s
       then Inr (pushBack d (upd_cache (\<lambda>wc. wc\<lparr>mapping := (mapping wc)[h := mapping wc ! h @ [d]],
              curr_size := wrap32 (curr_size wc + size_of s d)\<rparr>) s))
       else bindR (evict_loop (size_of s d) s) (insert_to_cache d))"
    using insert_unfold[OF assms(1,2)] .
  note L = cache_inv_LRU[OF assms(1)]
  have i: "0 \<le> size_of s d" "size_of s d \<le> cMAX_SIZE wc" "name_of s d \<notin> name_of s ` set (LRU_Policy s)"
    using assms(2) u(1) by (auto simp: insertable_def)
  have o: "total_bytes s (LRU_Policy s) + size_of s d \<le> cMAX_SIZE wc" "curr_size wc = total_bytes s (LRU_Policy s)"
    using overfull_eq[OF assms(1) i(1)] i(2) assms(3) u(1) by auto
  have pos: "0 \<le> total_bytes s (LRU_Policy s)" using L(4) by (intro total_nonneg) auto
  have big: "cMAX_SIZE wc < 2 ^ 30" using assms(1) u(1) by (auto simp: cache_inv_def)
  have cz: "wrap32 (curr_size wc + size_of s d) = total_bytes s (LRU_Policy s @ [d])"
    using o pos i(1) big by (simp add: wrap32_id)
  define wc' where "wc' = wc\<lparr>mapping := (mapping wc)[h := mapping wc ! h @ [d]],
    curr_size := total_bytes s (LRU_Policy s @ [d])\<rparr>"
  define s' where "s' = s\<lparr>fileCache := Some wc', LRU_Policy := LRU_Policy s @ [d]\<rparr>"
  have r: "insert_to_cache d s = Inr (True, s')"
    using e assms(3) cz u(1) by (simp add: pushBack_def upd_cache_def s'_def wc'_def)
  have nm: "name_of s' b = name_of s b" "size_of s' b = size_of s b" "total_bytes s' as = total_bytes s as" for b as
    using total_cong[of as s' s] by (simp_all add: name_of_def size_of_def s'_def)
  have nd: "d \<notin> set (LRU_Policy s)" using i(3) by auto
  have "distinct (mapping wc' ! k) \<and>
      set (mapping wc' ! k) = {b \<in> set (LRU_Policy s'). hash_index (name_of s' b) wc' = Inr k}"
    if "k < length (mapping wc')" for k
  proof -
    have c: "distinct (mapping wc ! k)"
      "set (mapping wc ! k) = {b \<in> set (LRU_Policy s). hash_index (name_of s b) wc = Inr k}"
      using assms(1) u(1) that by (auto simp: cache_inv_def wc'_def)
    have hk: "hash_index (name_of s d) wc' = Inr k \<longleftrightarrow> k = h" using u(3) by (auto simp: wc'_def)
    have dk: "d \<notin> set (mapping wc ! k)" using c(2) nd by simp
    have "set (mapping wc' ! k) = (if k = h then insert d (set (mapping wc ! k)) else set (mapping wc ! k))"
      "distinct (mapping wc' ! k)"
      using u(4) c(1) dk by (simp_all add: wc'_def nth_list_update)
    moreover have "{b \<in> set (LRU_Policy s'). hash_index (name_of s b) wc' = Inr k} =
        {b \<in> set (LRU_Policy s). hash_index (name_of s b) wc = Inr k} \<union> (if k = h then {d} else {})"
      using hk by (auto simp: s'_def wc'_def)
    ultimately show ?thesis using c(2) unfolding nm by (cases "k = h") simp_all
  qed
  moreover have "inj_on (name_of s) (set (LRU_Policy s @ [d]))"
    using L(2) i(3) nd by (simp add: inj_on_insert)
  moreover have "name_of s' = name_of s" "size_of s' = size_of s" using nm by auto
  ultimately have "cache_inv s'"
    using assms(1) u(1,2) nd i(1) o(1) nm(3) unfolding cache_inv_def by (simp add: s'_def wc'_def)
  then show ?thesis using r u(1) by (auto simp: s'_def wc'_def)
qed

lemma insert_spec:
  assumes "cache_inv s" and "idle s" and "insertable d s"
  shows "\<exists>s'. insert_to_cache d s = Inr (True, s') \<and> cache_inv s' \<and>
    LRU_Policy s' = make_room (size_of s) (cMAX_SIZE (the_cache s)) (size_of s d) (LRU_Policy s) @ [d] \<and>
    files s' = (\<lambda>a. if a \<in> set (LRU_Policy s) - set (LRU_Policy s') then None else files s a) \<and>
    inflight_q s' = inflight_q s \<and> cMAX_SIZE (the_cache s') = cMAX_SIZE (the_cache s)"
proof (cases "overfull (size_of s d) s")
  case False
  have i: "0 \<le> size_of s d" "size_of s d \<le> cMAX_SIZE (the_cache s)" using assms(3) by (auto simp: insertable_def)
  have "make_room (size_of s) (cMAX_SIZE (the_cache s)) (size_of s d) (LRU_Policy s) = LRU_Policy s"
    using overfull_eq(1)[OF assms(1) i] False by (cases "LRU_Policy s") (auto simp: total_bytes_def)
  with insert_room[OF assms(1,3) False] show ?thesis by (auto simp: fun_eq_iff)
next
  case True
  have i: "0 \<le> size_of s d" "size_of s d \<le> cMAX_SIZE (the_cache s)" using assms(3) by (auto simp: insertable_def)
  let ?r = "make_room (size_of s) (cMAX_SIZE (the_cache s)) (size_of s d) (LRU_Policy s)"
  from evict_loop_spec[OF assms(1,2) i] obtain u where u: "evict_loop (size_of s d) s = Inr u" "cache_inv u"
    "LRU_Policy u = ?r" "files u = (\<lambda>a. if a \<in> set (LRU_Policy s) - set ?r then None else files s a)"
    "inflight_q u = inflight_q s" "cMAX_SIZE (the_cache u) = cMAX_SIZE (the_cache s)" "\<not> overfull (size_of s d) u"
    by auto
  have sub: "set ?r \<subseteq> set (LRU_Policy s)"
    using make_room_suffix[of "LRU_Policy s" "size_of s" "cMAX_SIZE (the_cache s)" "size_of s d"]
    by (metis Un_upper2 set_append)
  have nd: "d \<notin> set (LRU_Policy s)" using assms(3) by (auto simp: insertable_def)
  then have sd: "size_of u d = size_of s d" "files u d = files s d" "name_of u d = name_of s d"
    using u(4) by (auto simp: size_of_def name_of_def)
  have "name_of u ` set ?r = name_of s ` set ?r"
    using u(4) sub by (intro image_cong) (auto simp: name_of_def)
  then have "insertable d u" using assms(3) sd u(3,6) sub by (auto simp: insertable_def)
  from insert_room[OF u(2) this] u(7) sd obtain s' where s': "insert_to_cache d u = Inr (True, s')" "cache_inv s'"
    "LRU_Policy s' = ?r @ [d]" "files s' = files u" "inflight_q s' = inflight_q s"
    "cMAX_SIZE (the_cache s') = cMAX_SIZE (the_cache s)" using u(3,5,6) by auto
  have "insert_to_cache d s = insert_to_cache d u"
    using insert_unfold[OF assms(1,3)] True u(1) by (metis bindR_Inr)
  then show ?thesis using s' u(4) nd by (intro exI[of _ s']) (auto simp: fun_eq_iff)
qed

lemma insert_refused:
  assumes "cache_inv s" and "files s d \<noteq> None" and "0 \<le> size_of s d"
    and "size_of s d > cMAX_SIZE (the_cache s) \<or> name_of s d \<in> name_of s ` set (LRU_Policy s)"
  shows "insert_to_cache d s = Inr (False, s)"
proof -
  obtain wc where wc: "fileCache s = Some wc" "0 < array_size wc" "int (length (mapping wc)) = array_size wc"
    using cache_invD[OF assms(1)] by metis
  obtain fd where fd: "files s d = Some fd" using assms(2) by auto
  then have n: "file_name fd = name_of s d" "bytes fd = size_of s d" by (simp_all add: name_of_def size_of_def)
  obtain h where h: "hash_index (name_of s d) wc = Inr h" "h < length (mapping wc)" "chain wc h = Inr (mapping wc ! h)"
    using hash_index_chain[OF wc] by blast
  show ?thesis
  proof (cases "size_of s d > cMAX_SIZE (the_cache s)")
    case True
    with fd n show ?thesis by (subst insert_to_cache.simps) simp
  next
    case False
    with assms(4) cached_None have "cached s (name_of s d) \<noteq> None" by blast
    with False fd n h wc(1) find_chain[OF assms(1) wc(1) h(1,2)] show ?thesis
      by (subst insert_to_cache.simps) simp
  qed
qed

lemma removeFile_eq:
  assumes "cache_inv s"
  shows "removeFileToBeMovedToBack name s =
    Inr (case cached s name of None \<Rightarrow> (None, s)
         | Some a \<Rightarrow> (Some a, s\<lparr>LRU_Policy := remove1 a (LRU_Policy s)\<rparr>))"
proof (cases "LRU_Policy s")
  case Nil
  then show ?thesis by (simp add: removeFileToBeMovedToBack_def cached_def)
next
  case (Cons a as)
  note L = cache_inv_LRU[OF assms]
  have al: "files s b \<noteq> None" if "b \<in> set (a # as)" for b using L(3)[of b] that Cons by simp
  have rd: "readR (files s) b = Inr (the (files s b))" if "b \<in> set (a # as)" for b using al[OF that] by auto
  have u: "cached s name = Some b" if "b \<in> set (a # as)" "name_of s b = name" for b
    using find_unique[of b "LRU_Policy s" "name_of s"] L(2) Cons that by (simp add: cached_def)
  define z where "z = last (a # as)"
  have z: "z \<in> set (a # as)" "remove1 z (a # as) = butlast (a # as)"
  proof -
    show "z \<in> set (a # as)" unfolding z_def by (rule last_in_set) simp
    have b: "a # as = butlast (a # as) @ [z]" unfolding z_def by (rule append_butlast_last_id[symmetric]) simp
    then have "z \<notin> set (butlast (a # as))" 
      using L(1) not_distinct_conv_prefix[of "a # as"] Cons by (metis distinct_append disjoint_iff list.set_intros(1))
    then have "remove1 z (butlast (a # as) @ [z]) = butlast (a # as)" by (simp add: remove1_append)
    with b show "remove1 z (a # as) = butlast (a # as)" by (simp only:)
  qed
  have ff: "find_file (files s) name (a # as) = Inr (cached s name)"
    unfolding cached_def Cons by (rule find_file_eq) (use al in blast)
  have rda: "readR (files s) a = Inr (the (files s a))" "readR (files s) z = Inr (the (files s z))"
    using rd z(1) by simp_all
  have e: "removeFileToBeMovedToBack name s =
      (if name_of s a = name then Inr (Some a, s\<lparr>LRU_Policy := as\<rparr>)
       else if name_of s z = name then Inr (Some z, s\<lparr>LRU_Policy := butlast (a # as)\<rparr>)
       else case cached s name of None \<Rightarrow> Inr (None, s)
         | Some b \<Rightarrow> Inr (Some b, s\<lparr>LRU_Policy := remove1 b (a # as)\<rparr>))"
    by (simp only: removeFileToBeMovedToBack_def Cons list.case z_def[symmetric] rda bindR_Inr
        name_of_def[symmetric] ff)
  show ?thesis
    using u[of a] u[of z] z Cons unfolding e by (auto split: option.splits)
qed

text \<open>Moving a file to the end of the LRU list keeps the invariant.\<close>

lemma cache_inv_move:
  assumes "cache_inv s" and "a \<in> set (LRU_Policy s)"
  shows "cache_inv (s\<lparr>LRU_Policy := remove1 a (LRU_Policy s) @ [a]\<rparr>)"
proof -
  let ?L = "remove1 a (LRU_Policy s) @ [a]"
  note L = cache_inv_LRU[OF assms(1)]
  have st: "set ?L = set (LRU_Policy s)" "distinct ?L" using assms(2) L(1) by (auto simp: set_remove1_eq)
  have eq: "name_of (s\<lparr>LRU_Policy := ?L\<rparr>) = name_of s" "size_of (s\<lparr>LRU_Policy := ?L\<rparr>) = size_of s"
    by (simp_all add: name_of_def size_of_def fun_eq_iff)
  have "total_bytes (s\<lparr>LRU_Policy := ?L\<rparr>) ?L = total_bytes s (LRU_Policy s)"
    using sum_list_map_remove1[OF assms(2), of "size_of s"] by (simp add: total_bytes_def eq)
  then show ?thesis using assms(1) st unfolding cache_inv_def eq by (auto split: option.splits)
qed

lemma lookup_spec:
  assumes "cache_inv s"
  shows "cache_lookup name s = Inr (case cached s name of None \<Rightarrow> (False, s)
      | Some a \<Rightarrow> (True, s\<lparr>LRU_Policy := remove1 a (LRU_Policy s) @ [a]\<rparr>))"
  using removeFile_eq[OF assms] by (auto simp: cache_lookup_def pushBack_def split: option.splits)

lemma cached_Some: "cached s name = Some a \<Longrightarrow> a \<in> set (LRU_Policy s) \<and> name_of s a = name"
  unfolding cached_def by (auto simp: find_Some_iff)

lemma getCachedFile_spec: "cache_inv s \<Longrightarrow> getCachedFile name s = Inr (cached s name)"
  unfolding getCachedFile_def cached_def using cache_inv_LRU(3) by (intro find_file_eq) auto

section \<open>Destroying the cache\<close>

lemma destroy_entries_spec:
  "\<forall>a\<in>set as. files s a \<noteq> None \<Longrightarrow> distinct as \<Longrightarrow> \<exists>s'. destroy_entries as s = Inr s' \<and>
     files s' = (\<lambda>a. if a \<in> set as then None else files s a) \<and>
     LRU_Policy s' = drop (length as) (LRU_Policy s)"
proof (induction as arbitrary: s)
  case (Cons a as)
  let ?s = "snd (removeLRUFile s)"
  have f: "files ?s = files s" "LRU_Policy ?s = drop 1 (LRU_Policy s)"
    by (auto simp: removeLRUFile_def split: list.splits)
  obtain d where d: "files s a = Some d" using Cons.prems(1) by auto
  define u where "u = (upd_cache (\<lambda>wc. wc\<lparr>curr_size := wrap32 (curr_size wc - bytes d)\<rparr>) ?s)\<lparr>files := (files s)(a := None)\<rparr>"
  have u: "files u = (files s)(a := None)" "LRU_Policy u = drop 1 (LRU_Policy s)"
    using f by (simp_all add: u_def upd_cache_def)
  have "\<forall>b\<in>set as. files u b \<noteq> None" using Cons.prems u by auto
  from Cons.IH[OF this] Cons.prems(2) obtain s' where s': "destroy_entries as u = Inr s'"
    "files s' = (\<lambda>b. if b \<in> set as then None else files u b)" "LRU_Policy s' = drop (length as) (LRU_Policy u)" by auto
  have "destroy_entries (a # as) s = destroy_entries as u"
    using d f(1) by (simp add: split_beta u_def)
  then show ?case using s' u by (auto simp: fun_eq_iff)
qed simp

lemma concat_mapping:
  assumes "cache_inv s" and "fileCache s = Some wc"
  shows "set (concat (mapping wc)) = set (LRU_Policy s)" and "distinct (concat (mapping wc))"
proof -
  have c: "distinct (mapping wc ! h)" "set (mapping wc ! h) = {a \<in> set (LRU_Policy s). hash_index (name_of s a) wc = Inr h}"
    if "h < length (mapping wc)" for h using assms that by (auto simp: cache_inv_def)
  have wc: "0 < array_size wc" "int (length (mapping wc)) = array_size wc" using assms by (auto simp: cache_inv_def)
  show "set (concat (mapping wc)) = set (LRU_Policy s)"
  proof (intro set_eqI iffI)
    fix a assume "a \<in> set (concat (mapping wc))"
    then obtain h where "h < length (mapping wc)" "a \<in> set (mapping wc ! h)"
      by (metis UN_E in_set_conv_nth set_concat)
    with c(2) show "a \<in> set (LRU_Policy s)" by auto
  next
    fix a assume a: "a \<in> set (LRU_Policy s)"
    obtain h where "hash_index (name_of s a) wc = Inr h" "h < length (mapping wc)"
      using hash_index_chain[OF assms(2) wc] by blast
    with a c(2)[of h] have "a \<in> set (mapping wc ! h)" "mapping wc ! h \<in> set (mapping wc)" by auto
    then show "a \<in> set (concat (mapping wc))" by auto
  qed
  have "distinct (concat (take k (mapping wc))) \<and> (k \<le> length (mapping wc) \<longrightarrow>
      (\<forall>a\<in>set (concat (take k (mapping wc))). \<exists>h<k. hash_index (name_of s a) wc = Inr h))" for k
  proof (induction k)
    case (Suc k)
    show ?case
    proof (cases "k < length (mapping wc)")
      case True
      then have t: "take (Suc k) (mapping wc) = take k (mapping wc) @ [mapping wc ! k]" by (simp add: take_Suc_conv_app_nth)
      have "set (concat (take k (mapping wc))) \<inter> set (mapping wc ! k) = {}"
        using Suc True c(2)[OF True] by fastforce
      moreover have "\<forall>a\<in>set (concat (take k (mapping wc))) \<union> set (mapping wc ! k). \<exists>h<Suc k. hash_index (name_of s a) wc = Inr h"
        using Suc True c(2)[OF True] by (simp add: ball_Un) (meson less_SucI lessI)
      ultimately show ?thesis using Suc True c(1)[OF True] unfolding t by auto
    next
      case False
      with Suc show ?thesis by simp
    qed
  qed simp
  from this[of "length (mapping wc)"] show "distinct (concat (mapping wc))" by simp
qed

lemma destroy_spec:
  assumes "cache_inv s"
  shows "\<exists>s'. destroy_cache_wrapper s = Inr s' \<and> fileCache s' = None \<and> LRU_Policy s' = [] \<and>
    files s' = (\<lambda>a. if a \<in> set (LRU_Policy s) then None else files s a)"
proof -
  obtain wc where wc: "fileCache s = Some wc" "int (length (mapping wc)) = array_size wc"
    using cache_invD[OF assms] by metis
  note cm = concat_mapping[OF assms wc(1)]
  have al: "\<forall>a\<in>set (concat (mapping wc)). files s a \<noteq> None"
    using cm(1) cache_inv_LRU(3)[OF assms] by blast
  have len: "length (concat (mapping wc)) = length (LRU_Policy s)"
    using cm cache_inv_LRU(1)[OF assms] by (metis distinct_card)
  have "take (nat (array_size wc)) (mapping wc) = mapping wc" using wc(2) by simp
  with destroy_entries_spec[OF al cm(2)] wc(1) len show ?thesis
    unfolding cm(1) by (auto simp: destroy_cache_wrapper_def destroy_cache_def)
qed

section \<open>Properties\<close>

text \<open>A cache just created.\<close>

definition cache_start :: "(addr \<Rightarrow> file_data option) \<Rightarrow> int \<Rightarrow> shared" where
  "cache_start m maxSize = \<lparr>files = m, fileCache = Some (init_cache maxSize), LRU_Policy = [], inflight_q = []\<rparr>"

lemma cache_start_inv:
  "4096 \<le> maxSize \<Longrightarrow> maxSize < 2 ^ 30 \<Longrightarrow> cache_inv (cache_start m maxSize) \<and> idle (cache_start m maxSize)"
  by (auto simp: cache_inv_def cache_start_def init_cache_def Let_def idle_def)

text \<open>
  C17. Inserting a file into the cache implements the LRU policy. While no cached file is being
  sent, a file that fits the cache and whose name is not cached is inserted: the least recently
  used files are evicted and freed, no more than needed, the new file becomes the most recently
  used one, everything else stays allocated, and the invariant holds again: table and LRU list
  agree, names are unique, and the recorded size is the sum of the file sizes and at most the
  bound. A file that is too large or whose name is cached already is refused.
\<close>

theorem cache_insert_lru:
  assumes "cache_inv s" and "idle s" and "files s d \<noteq> None" and "0 \<le> size_of s d"
  shows "\<exists>s'. cache_insert d s = Inr (insertable d s, s') \<and> cache_inv s' \<and>
    (if insertable d s
     then LRU_Policy s' = make_room (size_of s) (cMAX_SIZE (the_cache s)) (size_of s d) (LRU_Policy s) @ [d] \<and>
       files s' = (\<lambda>a. if a \<in> set (LRU_Policy s) - set (LRU_Policy s') then None else files s a)
     else s' = s)"
proof (cases "insertable d s")
  case True
  with insert_spec[OF assms(1,2) True] show ?thesis by (auto simp: cache_insert_def)
next
  case False
  with insert_refused[OF assms(1,3,4)] assms show ?thesis by (auto simp: cache_insert_def insertable_def)
qed

theorem cache_insert_lru_witness:
  "\<exists>s'. cache_insert 1 (cache_start [1 \<mapsto> \<lparr>file_name = ''a'', file_buf = ''xyz'', file_size = 3\<rparr>] 8192) =
     Inr (True, s') \<and> cache_inv s' \<and> LRU_Policy s' = [1]"
proof -
  let ?s = "cache_start [1 \<mapsto> \<lparr>file_name = ''a'', file_buf = ''xyz'', file_size = 3\<rparr>] 8192"
  have i: "cache_inv ?s" "idle ?s" using cache_start_inv[of 8192] by auto
  have z: "size_of ?s 1 = 3" "files ?s 1 \<noteq> None" by (simp_all add: size_of_def cache_start_def)
  have n: "insertable 1 ?s" using z by (simp add: insertable_def) (simp add: cache_start_def init_cache_def Let_def)
  from cache_insert_lru[OF i z(2)] z n show ?thesis by (auto simp: cache_start_def)
qed

text \<open>
  \<open>cache_lookup\<close> answers whether a file of this name is cached; if so, the file becomes
  the most recently used one and \<open>getCachedFile\<close> finds it. The invariant is kept.
\<close>

lemma cache_lookup_lru:
  assumes "cache_inv s"
  shows "\<exists>s'. cache_lookup name s = Inr (name \<in> name_of s ` set (LRU_Policy s), s') \<and> cache_inv s' \<and>
    (if name \<in> name_of s ` set (LRU_Policy s)
     then \<exists>a. name_of s a = name \<and> getCachedFile name s' = Inr (Some a) \<and>
       LRU_Policy s' = remove1 a (LRU_Policy s) @ [a] \<and> files s' = files s
     else s' = s)"
proof (cases "cached s name")
  case None
  with assms show ?thesis using lookup_spec[OF assms, of name] cached_None[of name s] by auto
next
  case (Some a)
  let ?s = "s\<lparr>LRU_Policy := remove1 a (LRU_Policy s) @ [a]\<rparr>"
  have a: "a \<in> set (LRU_Policy s)" "name_of s a = name" using cached_Some[OF Some] by auto
  have i: "cache_inv ?s" using cache_inv_move[OF assms a(1)] .
  have "cached ?s name = Some a"
    using find_unique[of a "LRU_Policy ?s" "name_of ?s"] cache_inv_LRU(2)[OF i] a(2)
    by (simp add: cached_def name_of_def)
  then have "getCachedFile name ?s = Inr (Some a)" using getCachedFile_spec[OF i] by simp
  moreover have "cache_lookup name s = Inr (True, ?s)" using lookup_spec[OF assms, of name] Some by simp
  ultimately show ?thesis using a i by (intro exI[of _ ?s]) auto
qed

lemma cache_lookup_lru_witness:
  "\<exists>s'. cache_lookup ''a'' (cache_start Map.empty 8192) = Inr (False, s') \<and> cache_inv s'"
  using cache_lookup_lru[of "cache_start Map.empty 8192" "''a''"] cache_start_inv[of 8192 Map.empty]
  by (auto simp: cache_start_def)

text \<open>
  Destroying the cache frees every cached file exactly once, empties the LRU list and frees
  nothing else; without a cache the routine dereferences a NULL pointer.
\<close>

lemma destroy_cache_frees:
  assumes "fileCache s = None \<or> cache_inv s"
  shows "if fileCache s = None then destroy_cache_wrapper s = Inl Null_deref
    else \<exists>s'. destroy_cache_wrapper s = Inr s' \<and> fileCache s' = None \<and> LRU_Policy s' = [] \<and>
      files s' = (\<lambda>a. if a \<in> set (LRU_Policy s) then None else files s a)"
proof (cases "fileCache s")
  case None
  then show ?thesis by (simp add: destroy_cache_wrapper_def destroy_cache_def)
next
  case (Some wc)
  with assms destroy_spec[of s] show ?thesis by auto
qed

lemma destroy_cache_frees_witness:
  "destroy_cache_wrapper \<lparr>files = Map.empty, fileCache = None, LRU_Policy = [], inflight_q = []\<rparr> = Inl Null_deref"
  using destroy_cache_frees[of "\<lparr>files = Map.empty, fileCache = None, LRU_Policy = [], inflight_q = []\<rparr>"] by simp

text \<open>
  A cache of less than 4096 bytes has a hash table of size 0: inserting any file that fits
  divides by zero.
\<close>

lemma small_cache_divides_by_zero:
  assumes "0 < maxSize" and "maxSize < 4096" and "files s d = Some fd" and "bytes fd \<le> maxSize"
    and "fileCache s = Some (init_cache maxSize)"
  shows "cache_insert d s = Inl Div_by_zero"
  using assms
  by (simp add: cache_insert_def, subst insert_to_cache.simps) (simp add: init_cache_def hash_index_def)

lemma small_cache_divides_by_zero_witness:
  "cache_insert 1 (cache_start [1 \<mapsto> \<lparr>file_name = ''a'', file_buf = ''xyz'', file_size = 3\<rparr>] 4095) = Inl Div_by_zero"
  by (rule small_cache_divides_by_zero[of 4095 _ _ "\<lparr>file_name = ''a'', file_buf = ''xyz'', file_size = 3\<rparr>"])
     (simp_all add: cache_start_def)

lemma insert_without_eviction:
  assumes "fileCache s = Some wc" and "files s d = Some fd" and "bytes fd \<le> cMAX_SIZE wc"
    and "hash_index (file_name fd) wc = Inr h" and "h < length (mapping wc)"
    and "find_file (files s) (file_name fd) (mapping wc ! h) = Inr None" and "\<not> overfull (bytes fd) s"
  shows "insert_to_cache d s = Inr (True, s\<lparr>fileCache := Some (wc\<lparr>mapping := (mapping wc)[h := mapping wc ! h @ [d]],
    curr_size := wrap32 (curr_size wc + bytes fd)\<rparr>), LRU_Policy := LRU_Policy s @ [d]\<rparr>)"
  using assms by (subst insert_to_cache.simps) (simp add: chain_def upd_cache_def pushBack_def Let_def)

lemma wrap32_examples: "wrap32 1073741824 = 1073741824" "wrap32 2147483648 = -2147483648"
  by (simp_all add: wrap32_def)

text \<open>
  With a bound above half of the \<open>int\<close> range the bound is not kept: the sum of the sizes
  wraps to a negative number, which passes the test. Two files of \<open>2 ^ 30\<close> bytes are both
  accepted by a cache of \<open>2 ^ 31 - 1\<close> bytes, and the recorded size is then negative.
\<close>

lemma cache_size_overflows:
  "\<exists>s s'. cache_insert 1 (cache_start
       [1 \<mapsto> \<lparr>file_name = ''a'', file_buf = [], file_size = 1073741824\<rparr>,
        2 \<mapsto> \<lparr>file_name = ''b'', file_buf = [], file_size = 1073741824\<rparr>] 2147483647) = Inr (True, s) \<and>
     cache_insert 2 s = Inr (True, s') \<and> LRU_Policy s' = [1, 2] \<and>
     total_bytes s' (LRU_Policy s') > cMAX_SIZE (the_cache s') \<and> curr_size (the_cache s') < 0"
proof -
  define fa fb :: file_data where "fa = \<lparr>file_name = ''a'', file_buf = [], file_size = 1073741824\<rparr>"
    and "fb = \<lparr>file_name = ''b'', file_buf = [], file_size = 1073741824\<rparr>"
  define m :: "addr \<Rightarrow> file_data option" where "m = [1 \<mapsto> fa, 2 \<mapsto> fb]"
  define wc where "wc = init_cache 2147483647"
  define s0 where "s0 = cache_start m 2147483647"
  have sz: "bytes fa = 1073741824" "bytes fb = 1073741824" "file_name fa = ''a''" "file_name fb = ''b''"
    by (simp_all add: fa_def fb_def)
  have m: "m 1 = Some fa" "m 2 = Some fb" by (simp_all add: m_def)
  have w: "array_size wc = 1048574" "length (mapping wc) = 1048574" "cMAX_SIZE wc = 2147483647" "curr_size wc = 0"
    "\<And>h. h < 1048574 \<Longrightarrow> mapping wc ! h = []"
    by (simp_all add: wc_def init_cache_def Let_def)
  have s0: "fileCache s0 = Some wc" "files s0 = m" "LRU_Policy s0 = []" by (simp_all add: s0_def cache_start_def wc_def)
  have ix: "\<exists>h. hash_index n wc = Inr h \<and> h < 1048574" for n
    using hash_index_bound[of wc n] w(1) by auto
  obtain h where h: "hash_index ''a'' wc = Inr h" "h < 1048574" using ix by blast
  obtain k where k: "hash_index ''b'' wc = Inr k" "k < 1048574" using ix by blast
  define wc1 where "wc1 = wc\<lparr>mapping := (mapping wc)[h := [1]], curr_size := 1073741824\<rparr>"
  define s1 where "s1 = s0\<lparr>fileCache := Some wc1, LRU_Policy := [1]\<rparr>"
  have i1: "insert_to_cache 1 s0 = Inr (True, s1)"
    using insert_without_eviction[of s0 wc 1 fa h] s0 m(1) sz h w(5)[OF h(2)] w
    by (simp add: overfull_def wrap32_examples s1_def wc1_def)
  have s1: "fileCache s1 = Some wc1" "files s1 = m" "LRU_Policy s1 = [1]" by (simp_all add: s1_def s0)
  have c: "mapping wc1 ! k = (if k = h then [1] else [])" using w k(2) h(2) by (simp add: wc1_def)
  have f: "find_file m ''b'' (mapping wc1 ! k) = Inr None" using c m sz by simp
  define wc2 where "wc2 = wc1\<lparr>mapping := (mapping wc1)[k := mapping wc1 ! k @ [2]], curr_size := -2147483648\<rparr>"
  define s2 where "s2 = s1\<lparr>fileCache := Some wc2, LRU_Policy := [1, 2]\<rparr>"
  have i2: "insert_to_cache 2 s1 = Inr (True, s2)"
    using insert_without_eviction[of s1 wc1 2 fb k] s1 m(2) sz k f w
    by (simp add: overfull_def wrap32_examples s2_def wc2_def wc1_def)
  have "size_of s2 1 = 1073741824" "size_of s2 2 = 1073741824"
    using m sz by (simp_all add: size_of_def s2_def s1)
  then have "total_bytes s2 (LRU_Policy s2) > cMAX_SIZE (the_cache s2)" "curr_size (the_cache s2) < 0"
    using w by (simp_all add: s2_def wc2_def wc1_def)
  moreover have "LRU_Policy s2 = [1, 2]" by (simp add: s2_def)
  ultimately show ?thesis
    using i1 i2 unfolding s0_def m_def fa_def fb_def cache_insert_def by blast
qed

end
