(* ===== verification/Rio.thy ===== *)
theory Rio
  imports Prelude
begin

text \<open>
  The robust I/O routines of webserver/common.c. The kernel side of a descriptor is the bytes
  still to come and a schedule of what each system call does: it is interrupted, it fails, or it
  transfers some bytes, at least one if there are any. An empty schedule is a call that does not
  return.
\<close>

section \<open>System calls\<close>

datatype kevent = K_intr | K_err | K_bytes nat

record kern =
  stream :: string
  sched :: "kevent list"

datatype sysret = R_intr | R_err | R_bytes string

definition sys_read :: "nat \<Rightarrow> kern \<Rightarrow> (sysret \<times> kern) option" where
  "sys_read n k =
     (case sched k of
        [] \<Rightarrow> None
      | K_intr # es \<Rightarrow> Some (R_intr, k\<lparr>sched := es\<rparr>)
      | K_err # es \<Rightarrow> Some (R_err, k\<lparr>sched := es\<rparr>)
      | K_bytes j # es \<Rightarrow>
          Some (R_bytes (take (min n (Suc j)) (stream k)),
                k\<lparr>stream := drop (min n (Suc j)) (stream k), sched := es\<rparr>))"

text \<open>\<open>write\<close>: the bytes accepted are appended to what the peer received.\<close>

definition sys_write :: "string \<Rightarrow> kern \<Rightarrow> (sysret \<times> kern) option" where
  "sys_write buf k =
     (case sched k of
        [] \<Rightarrow> None
      | K_intr # es \<Rightarrow> Some (R_intr, k\<lparr>sched := es\<rparr>)
      | K_err # es \<Rightarrow> Some (R_err, k\<lparr>sched := es\<rparr>)
      | K_bytes j # es \<Rightarrow>
          Some (R_bytes (take (Suc j) buf), k\<lparr>stream := stream k @ take (Suc j) buf, sched := es\<rparr>))"

lemma sys_read_sched: "sys_read n k = Some (r, k') \<Longrightarrow> length (sched k') < length (sched k)"
  by (auto simp: sys_read_def split: list.splits kevent.splits)

lemma sys_write_sched: "sys_write b k = Some (r, k') \<Longrightarrow> length (sched k') < length (sched k)"
  by (auto simp: sys_write_def split: list.splits kevent.splits)

section \<open>Unbuffered input and output\<close>

text \<open>The loop of \<open>rio_read\<close>: bytes left to read, and the bytes in the user buffer. The result
  \<open>None\<close> inside is the return value \<open>-1\<close>.\<close>

function rio_read_loop :: "nat \<Rightarrow> string \<Rightarrow> kern \<Rightarrow> (string option \<times> kern) option" where
  "rio_read_loop nleft buf k =
     (if nleft = 0 then Some (Some buf, k)
      else case sys_read nleft k of
             None \<Rightarrow> None
           | Some (R_intr, k') \<Rightarrow> rio_read_loop nleft buf k'
           | Some (R_err, k') \<Rightarrow> Some (None, k')
           | Some (R_bytes bs, k') \<Rightarrow>
               if bs = [] then Some (Some buf, k')
               else rio_read_loop (nleft - length bs) (buf @ bs) k')"
  by pat_completeness auto
termination
  by (relation "measure (\<lambda>(n, b, k). length (sched k))") (auto dest: sys_read_sched)

declare rio_read_loop.simps [simp del]

definition rio_read :: "nat \<Rightarrow> kern \<Rightarrow> (string option \<times> kern) option" where
  "rio_read n k = rio_read_loop n [] k"

text \<open>\<open>rio_write\<close>; the result \<open>False\<close> is the return value \<open>-1\<close>.\<close>

function rio_write :: "string \<Rightarrow> kern \<Rightarrow> (bool \<times> kern) option" where
  "rio_write buf k =
     (if buf = [] then Some (True, k)
      else case sys_write buf k of
             None \<Rightarrow> None
           | Some (R_intr, k') \<Rightarrow> rio_write buf k'
           | Some (R_err, k') \<Rightarrow> Some (False, k')
           | Some (R_bytes bs, k') \<Rightarrow> rio_write (drop (length bs) buf) k')"
  by pat_completeness auto
termination
  by (relation "measure (\<lambda>(b, k). length (sched k))") (auto dest: sys_write_sched)

declare rio_write.simps [simp del]

section \<open>Buffered input\<close>

definition RIO_BUFSIZE :: nat where "RIO_BUFSIZE = 8192"

text \<open>The unread part of \<open>rio_buf\<close>; \<open>rio_cnt\<close> is its length.\<close>

record rio =
  rio_fd :: int
  rio_buf :: string

definition rio_init :: "int \<Rightarrow> rio" where
  "rio_init fd = \<lparr>rio_fd = fd, rio_buf = []\<rparr>"

text \<open>\<open>rio_readb\<close>: refill the buffer while it is empty, then copy.\<close>

function rio_readb :: "nat \<Rightarrow> rio \<Rightarrow> kern \<Rightarrow> (string option \<times> rio \<times> kern) option" where
  "rio_readb n rp k =
     (if rio_buf rp = []
      then case sys_read RIO_BUFSIZE k of
             None \<Rightarrow> None
           | Some (R_intr, k') \<Rightarrow> rio_readb n rp k'
           | Some (R_err, k') \<Rightarrow> Some (None, rp, k')
           | Some (R_bytes bs, k') \<Rightarrow>
               if bs = [] then Some (Some [], rp, k')
               else Some (Some (take n bs), rp\<lparr>rio_buf := drop n bs\<rparr>, k')
      else Some (Some (take n (rio_buf rp)), rp\<lparr>rio_buf := drop n (rio_buf rp)\<rparr>, k))"
  by pat_completeness auto
termination
  by (relation "measure (\<lambda>(n, rp, k). length (sched k))") (auto dest: sys_read_sched)

declare rio_readb.simps [simp del]

datatype lineret = L_error | L_eof | L_line string

text \<open>
  \<open>rio_readlineb(rp, usrbuf, maxlen)\<close> into a buffer of \<open>cap\<close> bytes: \<open>room\<close> iterations are
  left and \<open>out\<close> is in the buffer. Storing a byte, or the final 0, behind the end of the buffer is
  a fault. On end of file with nothing read the buffer is left as it is.
\<close>

fun rio_readlineb_loop :: "nat \<Rightarrow> nat \<Rightarrow> string \<Rightarrow> rio \<Rightarrow> kern \<Rightarrow> (lineret \<times> rio \<times> kern) res option" where
  "rio_readlineb_loop cap 0 out rp k =
     Some (if length out < cap then Inr (L_line out, rp, k) else Inl Out_of_bounds)"
| "rio_readlineb_loop cap (Suc room) out rp k =
     (case rio_readb 1 rp k of
        None \<Rightarrow> None
      | Some (None, rp, k) \<Rightarrow> Some (Inr (L_error, rp, k))
      | Some (Some [], rp, k) \<Rightarrow>
          Some (if out = [] then Inr (L_eof, rp, k)
                else if length out < cap then Inr (L_line out, rp, k) else Inl Out_of_bounds)
      | Some (Some (c # _), rp, k) \<Rightarrow>
          if length out < cap
          then if c = CHR 0x0A
               then Some (if Suc (length out) < cap then Inr (L_line (out @ [c]), rp, k) else Inl Out_of_bounds)
               else rio_readlineb_loop cap room (out @ [c]) rp k
          else Some (Inl Out_of_bounds))"

definition rio_readlineb :: "nat \<Rightarrow> nat \<Rightarrow> rio \<Rightarrow> kern \<Rightarrow> (lineret \<times> rio \<times> kern) res option" where
  "rio_readlineb cap maxlen rp k = rio_readlineb_loop cap maxlen [] rp k"

section \<open>Transfers are complete\<close>

text \<open>A schedule without failures that transfers something at least \<open>n\<close> times.\<close>

definition enough :: "nat \<Rightarrow> kern \<Rightarrow> bool" where
  "enough n k \<longleftrightarrow> K_err \<notin> set (sched k) \<and> n \<le> length (filter (\<lambda>e. e \<noteq> K_intr) (sched k))"

lemma split_at:
  assumes "b \<le> n"
  shows "take b xs @ take (n - length (take b xs)) (drop b xs) = take n xs"
    and "drop (n - length (take b xs)) (drop b xs) = drop n xs"
proof -
  have "take n xs = take b xs @ take (n - b) (drop b xs)" using assms take_add[of b "n - b" xs] by simp
  moreover have "drop n xs = drop (n - b) (drop b xs)" using assms by simp
  ultimately show "take b xs @ take (n - length (take b xs)) (drop b xs) = take n xs"
    and "drop (n - length (take b xs)) (drop b xs) = drop n xs"
    by (cases "b \<le> length xs"; simp)+
qed

lemma rio_read_loop_complete:
  "enough (Suc (min n (length (stream k)))) k \<Longrightarrow>
   \<exists>es. rio_read_loop n buf k = Some (Some (buf @ take n (stream k)), k\<lparr>stream := drop n (stream k), sched := es\<rparr>)"
proof (induction "length (sched k)" arbitrary: n buf k rule: less_induct)
  case less
  show ?case
  proof (cases "n = 0")
    case True
    then show ?thesis by (subst rio_read_loop.simps) (auto intro: exI[of _ "sched k"])
  next
    case False
    then obtain e es where s: "sched k = e # es" using less.prems by (cases "sched k") (auto simp: enough_def)
    show ?thesis
    proof (cases e)
      case K_intr
      with less.hyps[of "k\<lparr>sched := es\<rparr>" n buf] less.prems s False show ?thesis
        by (subst rio_read_loop.simps) (auto simp: sys_read_def enough_def)
    next
      case K_err
      with less.prems s show ?thesis by (simp add: enough_def)
    next
      case (K_bytes j)
      let ?b = "min n (Suc j)"
      let ?k = "k\<lparr>stream := drop ?b (stream k), sched := es\<rparr>"
      show ?thesis
      proof (cases "stream k = []")
        case True
        with K_bytes s False show ?thesis
          by (subst rio_read_loop.simps) (auto simp: sys_read_def intro: exI[of _ es])
      next
        case ne: False
        let ?l = "length (take ?b (stream k))"
        have l: "0 < ?l" "?l \<le> n" using ne False by auto
        have d: "drop ?l (stream k) = drop ?b (stream k)" by (simp add: min_def)
        have "Suc 0 \<le> length (stream k)" using ne by (cases "stream k") auto
        then have "enough (Suc (min (n - ?l) (length (stream ?k)))) ?k"
          using less.prems s K_bytes l by (auto simp: enough_def min_def split: if_splits)
        from less.hyps[OF _ this, of "buf @ take ?b (stream k)"] s obtain es' where
          r: "rio_read_loop (n - ?l) (buf @ take ?b (stream k)) ?k =
            Some (Some ((buf @ take ?b (stream k)) @ take (n - ?l) (stream ?k)), ?k\<lparr>stream := drop (n - ?l) (stream ?k), sched := es'\<rparr>)"
          by auto
        have t: "take ?b (stream k) @ take (n - ?l) (drop ?b (stream k)) = take n (stream k)"
          "drop (n - ?l) (drop ?b (stream k)) = drop n (stream k)"
          using split_at[of ?b n "stream k"] by simp_all
        show ?thesis
          using r t s K_bytes False ne l
          by (subst rio_read_loop.simps) (auto simp: sys_read_def)
      qed
    qed
  qed
qed

lemma rio_write_complete:
  "enough (m + length buf) k \<Longrightarrow>
   \<exists>es. rio_write buf k = Some (True, k\<lparr>stream := stream k @ buf, sched := es\<rparr>) \<and>
     enough m (k\<lparr>stream := stream k @ buf, sched := es\<rparr>)"
proof (induction "length (sched k)" arbitrary: buf k rule: less_induct)
  case less
  show ?case
  proof (cases "buf = []")
    case True
    with less.prems show ?thesis by (subst rio_write.simps) (auto intro!: exI[of _ "sched k"])
  next
    case False
    then obtain e es where s: "sched k = e # es" using less.prems by (cases "sched k") (auto simp: enough_def)
    show ?thesis
    proof (cases e)
      case K_intr
      with less.hyps[of "k\<lparr>sched := es\<rparr>" buf] less.prems s False show ?thesis
        by (subst rio_write.simps) (auto simp: sys_write_def enough_def)
    next
      case K_err
      with less.prems s show ?thesis by (simp add: enough_def)
    next
      case (K_bytes j)
      let ?k = "k\<lparr>stream := stream k @ take (Suc j) buf, sched := es\<rparr>"
      have "enough (m + length (drop (Suc j) buf)) ?k" using less.prems s K_bytes False
        by (cases buf) (auto simp: enough_def)
      moreover have "drop (length (take (Suc j) buf)) buf = drop (Suc j) buf" by (simp add: min_def)
      ultimately show ?thesis
        using less.hyps[of ?k "drop (Suc j) buf"] s K_bytes False
        by (subst rio_write.simps) (auto simp: sys_write_def)
    qed
  qed
qed

section \<open>Lines\<close>

text \<open>What is left to read: the internal buffer, then the kernel.\<close>

definition pending :: "rio \<Rightarrow> kern \<Rightarrow> string" where
  "pending rp k = rio_buf rp @ stream k"

text \<open>The line at the front of the input: up to the newline, or \<open>m\<close> bytes.\<close>

fun line_of :: "nat \<Rightarrow> string \<Rightarrow> string" where
  "line_of 0 s = []"
| "line_of (Suc m) [] = []"
| "line_of (Suc m) (c # s) = (if c = CHR 0x0A then [c] else c # line_of m s)"

lemma rio_readb_one:
  "enough (Suc n) k \<Longrightarrow>
   \<exists>rp' k'. rio_readb 1 rp k = Some (Some (take 1 (pending rp k)), rp', k') \<and>
     pending rp' k' = drop 1 (pending rp k) \<and> enough n k'"
proof (induction "length (sched k)" arbitrary: k rule: less_induct)
  case less
  show ?case
  proof (cases "rio_buf rp = []")
    case False
    then have "rio_readb 1 rp k = Some (Some (take 1 (rio_buf rp)), rp\<lparr>rio_buf := drop 1 (rio_buf rp)\<rparr>, k)"
      by (subst rio_readb.simps) simp
    with False less.prems show ?thesis by (cases "rio_buf rp") (auto simp: pending_def enough_def)
  next
    case True
    obtain e es where s: "sched k = e # es" using less.prems by (cases "sched k") (auto simp: enough_def)
    show ?thesis
    proof (cases e)
      case K_intr
      have "rio_readb 1 rp k = rio_readb 1 rp (k\<lparr>sched := es\<rparr>)"
        using True s K_intr by (subst rio_readb.simps) (simp add: sys_read_def)
      with less.hyps[of "k\<lparr>sched := es\<rparr>"] less.prems s K_intr show ?thesis
        by (auto simp: enough_def pending_def)
    next
      case K_err
      with less.prems s show ?thesis by (simp add: enough_def)
    next
      case (K_bytes j)
      let ?m = "min RIO_BUFSIZE (Suc j)"
      let ?k = "k\<lparr>stream := drop ?m (stream k), sched := es\<rparr>"
      have e: "enough n ?k" using less.prems s K_bytes by (simp add: enough_def)
      have m: "0 < ?m" by (simp add: RIO_BUFSIZE_def)
      show ?thesis
      proof (cases "stream k")
        case Nil
        with True s K_bytes e show ?thesis
          by (subst rio_readb.simps) (auto simp: sys_read_def pending_def)
      next
        case (Cons c cs)
        then have r: "rio_readb 1 rp k = Some (Some (take 1 (take ?m (stream k))), rp\<lparr>rio_buf := drop 1 (take ?m (stream k))\<rparr>, ?k)"
          using True s K_bytes m by (subst rio_readb.simps) (auto simp: sys_read_def)
        have "take 1 (take ?m (stream k)) = take 1 (stream k)" using m by (simp add: take_take min_def)
        moreover have "drop 1 (take ?m (stream k)) @ drop ?m (stream k) = drop 1 (stream k)"
          using m by (metis append_take_drop_id drop_append Suc_leI One_nat_def Cons append_Cons diff_is_0_eq' drop0 drop_Suc_Cons gr0_implies_Suc length_Cons le_add1 plus_1_eq_Suc take_Suc_Cons)
        ultimately show ?thesis using r True e by (auto simp: pending_def)
      qed
    qed
  qed
qed

lemma line_loop_spec:
  "enough (m + Suc room) k \<Longrightarrow> length out + room \<le> cap \<Longrightarrow>
   \<exists>rp' k'. rio_readlineb_loop cap room out rp k =
     Some (if pending rp k = [] \<and> out = [] \<and> 0 < room then Inr (L_eof, rp', k')
           else if length (out @ line_of room (pending rp k)) < cap
           then Inr (L_line (out @ line_of room (pending rp k)), rp', k') else Inl Out_of_bounds) \<and>
     pending rp' k' = drop (length (line_of room (pending rp k))) (pending rp k) \<and> enough m k'"
proof (induction room arbitrary: out rp k)
  case 0
  then show ?case by (intro exI[of _ rp] exI[of _ k]) (auto simp: enough_def)
next
  case (Suc room)
  have "enough (Suc (m + Suc room)) k" using Suc.prems(1) by simp
  from rio_readb_one[OF this, of rp] obtain rp1 k1 where r:
    "rio_readb 1 rp k = Some (Some (take 1 (pending rp k)), rp1, k1)"
    "pending rp1 k1 = drop 1 (pending rp k)" "enough (m + Suc room) k1" by blast
  have m: "enough m k1" using r(3) by (auto simp: enough_def)
  show ?case
  proof (cases "pending rp k")
    case Nil
    with r m show ?thesis by (intro exI[of _ rp1] exI[of _ k1]) auto
  next
    case (Cons c cs)
    show ?thesis
    proof (cases "c = CHR 0x0A")
      case True
      with r m Cons Suc.prems(2) show ?thesis by (intro exI[of _ rp1] exI[of _ k1]) auto
    next
      case False
      from Suc.IH[OF r(3), of "out @ [c]" rp1] Suc.prems(2) obtain rp' k' where
        "rio_readlineb_loop cap room (out @ [c]) rp1 k1 =
           Some (if length ((out @ [c]) @ line_of room (pending rp1 k1)) < cap
             then Inr (L_line ((out @ [c]) @ line_of room (pending rp1 k1)), rp', k') else Inl Out_of_bounds)"
        "pending rp' k' = drop (length (line_of room (pending rp1 k1))) (pending rp1 k1)" "enough m k'" by auto
      with Suc.prems(2) r Cons False show ?thesis by (intro exI[of _ rp'] exI[of _ k']) auto
    qed
  qed
qed

text \<open>Whatever the kernel does, a line that is returned is the next one.\<close>

lemma rio_readb_next:
  "rio_readb 1 rp k = Some (Some bs, rp', k') \<Longrightarrow>
   bs = take 1 (pending rp k) \<and> pending rp' k' = drop 1 (pending rp k)"
proof (induction "length (sched k)" arbitrary: k rule: less_induct)
  case less
  show ?case
  proof (cases "rio_buf rp")
    case (Cons c cs)
    with less.prems show ?thesis by (subst (asm) rio_readb.simps) (auto simp: pending_def)
  next
    case Nil
    with less.prems obtain r k1 where r: "sys_read RIO_BUFSIZE k = Some (r, k1)"
      by (subst (asm) rio_readb.simps) (auto split: option.splits)
    have k1: "length (sched k1) < length (sched k)" using sys_read_sched[OF r] .
    have s: "r = R_intr \<Longrightarrow> stream k1 = stream k" "\<And>b. r = R_bytes b \<Longrightarrow> stream k = b @ stream k1"
      "r = R_bytes [] \<Longrightarrow> stream k = []"
      using r by (auto simp: sys_read_def RIO_BUFSIZE_def split: list.splits kevent.splits)
    show ?thesis
    proof (cases r)
      case R_intr
      have "rio_readb 1 rp k = rio_readb 1 rp k1" using Nil r R_intr by (subst rio_readb.simps) simp
      with less.hyps[OF k1] less.prems s(1)[OF R_intr] Nil show ?thesis by (simp add: pending_def)
    next
      case R_err
      with less.prems Nil r show ?thesis by (subst (asm) rio_readb.simps) simp
    next
      case (R_bytes b)
      with less.prems Nil r s(2)[of b] s(3) show ?thesis
        by (subst (asm) rio_readb.simps) (cases b; auto simp: pending_def)
    qed
  qed
qed

lemma line_loop_next:
  "rio_readlineb_loop cap room out rp k = Some (Inr (l, rp', k')) \<Longrightarrow> l \<noteq> L_error \<Longrightarrow>
   (if pending rp k = [] \<and> out = [] \<and> 0 < room then l = L_eof else l = L_line (out @ line_of room (pending rp k))) \<and>
   pending rp' k' = drop (length (line_of room (pending rp k))) (pending rp k)"
proof (induction room arbitrary: out rp k)
  case 0
  then show ?case by (auto split: if_splits)
next
  case (Suc room)
  from Suc.prems obtain bs rp1 k1 where r: "rio_readb 1 rp k = Some (Some bs, rp1, k1)"
    by (auto split: option.splits prod.splits)
  note n = rio_readb_next[OF r]
  show ?case
  proof (cases "pending rp k")
    case Nil
    with Suc.prems(1) r n show ?thesis by (auto split: if_splits)
  next
    case (Cons c cs)
    with n have bs: "bs = [c]" "pending rp1 k1 = cs" by auto
    show ?thesis
    proof (cases "c = CHR 0x0A")
      case True
      with Suc.prems(1) r bs Cons show ?thesis by (auto split: if_splits)
    next
      case False
      with Suc.prems(1) r bs have "rio_readlineb_loop cap room (out @ [c]) rp1 k1 = Some (Inr (l, rp', k'))"
        by (auto split: if_splits)
      from Suc.IH[OF this Suc.prems(2)] False Cons bs show ?thesis by auto
    qed
  qed
qed

section \<open>Properties\<close>

text \<open>
  C26. The robust transfers are complete: however the kernel splits the transfer and however often
  it interrupts the calls, \<open>rio_write\<close> delivers exactly the bytes of the buffer, in order, and
  \<open>rio_read\<close> returns the next \<open>n\<close> bytes, or all that are left before the end of file, and leaves
  the rest.
\<close>

theorem rio_transfers_complete:
  assumes "enough (length buf) k" and "enough (Suc (min n (length (stream k')))) k'"
  shows "(\<exists>es. rio_write buf k = Some (True, k\<lparr>stream := stream k @ buf, sched := es\<rparr>)) \<and>
    (\<exists>es. rio_read n k' = Some (Some (take n (stream k')), k'\<lparr>stream := drop n (stream k'), sched := es\<rparr>))"
  using rio_write_complete[of 0 buf k] rio_read_loop_complete[OF assms(2), of "[]"] assms(1)
  by (auto simp: rio_read_def)

theorem rio_transfers_complete_witness:
  "\<exists>es. rio_write ''abc'' \<lparr>stream = ''x'', sched = [K_intr, K_bytes 0, K_intr, K_bytes 7, K_bytes 0]\<rparr> =
     Some (True, \<lparr>stream = ''xabc'', sched = es\<rparr>)"
proof -
  let ?k = "\<lparr>stream = ''x'', sched = [K_intr, K_bytes 0, K_intr, K_bytes 7, K_bytes 0]\<rparr>"
  have "enough (length ''abc'') ?k" "enough (Suc (min 0 (length (stream ?k)))) ?k" by (simp_all add: enough_def)
  from rio_transfers_complete[OF this] show ?thesis by simp
qed

text \<open>
  \<open>rio_readlineb\<close> into a buffer of \<open>maxlen\<close> bytes returns the next line with its newline
  and leaves the rest of the input; at the end of the input it returns 0 and leaves the buffer as
  it was. If the first \<open>maxlen - 1\<close> bytes of a longer input have no newline, the terminating 0 is
  stored one byte behind the end of the buffer.
\<close>

lemma rio_readlineb_spec:
  assumes "enough (Suc maxlen) k" and "0 < maxlen"
  shows "\<exists>rp' k'. rio_readlineb maxlen maxlen rp k =
      Some (if pending rp k = [] then Inr (L_eof, rp', k')
            else if length (line_of maxlen (pending rp k)) < maxlen
            then Inr (L_line (line_of maxlen (pending rp k)), rp', k') else Inl Out_of_bounds) \<and>
    pending rp' k' = drop (length (line_of maxlen (pending rp k))) (pending rp k)"
proof -
  have "(pending rp k = [] \<and> ([] :: string) = [] \<and> 0 < maxlen) = (pending rp k = [])" using assms(2) by simp
  with line_loop_spec[of 0 maxlen k "[]" maxlen rp] assms(1) show ?thesis
    unfolding rio_readlineb_def append_Nil by (simp only: list.size add_0 order_refl simp_thms) blast
qed

lemma rio_readlineb_spec_witness:
  "rio_readlineb 4 4 (rio_init 3) \<lparr>stream = ''abcdef'', sched = replicate 5 (K_bytes 9)\<rparr> = Some (Inl Out_of_bounds)"
proof -
  let ?k = "\<lparr>stream = ''abcdef'', sched = replicate 5 (K_bytes 9)\<rparr>"
  have e: "enough (Suc 4) ?k" by (simp add: enough_def)
  have p: "pending (rio_init 3) ?k = ''abcdef''" by (simp add: pending_def rio_init_def)
  show ?thesis using rio_readlineb_spec[OF e, of "rio_init 3"] unfolding p by (simp add: eval_nat_numeral)
qed

end
