(* ===== verification/Request.thy ===== *)
theory Request
  imports Rio "HOL-Library.Sublist"
begin

text \<open>
  The requests of webserver/request.c: reading the request line and the headers of a connection,
  the name of the file, the checks on it, and the responses. Input and output go through theory
  \<open>Rio\<close>; an array nothing was stored in is \<open>None\<close>, and using it is a fault. What the code
  asks the file system (\<open>stat\<close>, the contents of a file) is an argument.
\<close>

definition MAXLINE :: nat where "MAXLINE = 8192"
definition MAXBUF :: nat where "MAXBUF = 8192"

section \<open>The C library\<close>

text \<open>The C string in an array: the characters before the first 0.\<close>

definition cstr :: "string \<Rightarrow> string" where
  "cstr s = takeWhile (\<lambda>c. c \<noteq> CHR 0x00) s"

fun strstr :: "string \<Rightarrow> string \<Rightarrow> bool" where
  "strstr [] n \<longleftrightarrow> n = []"
| "strstr (c # s) n \<longleftrightarrow> take (length n) (c # s) = n \<or> strstr s n"

fun strrchr :: "char \<Rightarrow> string \<Rightarrow> string option" where
  "strrchr c [] = None"
| "strrchr c (x # s) = (case strrchr c s of Some t \<Rightarrow> Some t | None \<Rightarrow> if x = c then Some (x # s) else None)"

definition isspace :: "char \<Rightarrow> bool" where
  "isspace c \<longleftrightarrow> (of_char c :: nat) \<in> {32, 9, 10, 11, 12, 13}"

definition tolower :: "char \<Rightarrow> char" where
  "tolower c = (if 65 \<le> (of_char c :: nat) \<and> (of_char c :: nat) \<le> 90 then char_of ((of_char c :: nat) + 32) else c)"

definition strcasecmp_eq :: "string \<Rightarrow> string \<Rightarrow> bool" where
  "strcasecmp_eq s t \<longleftrightarrow> map tolower s = map tolower t"

text \<open>\<open>sscanf(buf, "%s %s ...", ...)\<close> with \<open>n\<close> conversions: the words stored, fewer if the
  input ends.\<close>

fun sscanf_words :: "nat \<Rightarrow> string \<Rightarrow> string list" where
  "sscanf_words 0 s = []"
| "sscanf_words (Suc n) s =
     (let s = dropWhile isspace s
      in if s = [] then []
         else takeWhile (\<lambda>c. \<not> isspace c) s # sscanf_words n (dropWhile (\<lambda>c. \<not> isspace c) s))"

text \<open>The conversions \<open>%u\<close>, \<open>%ld\<close> and \<open>%d\<close>.\<close>

fun fmt_u :: "nat \<Rightarrow> string" where
  "fmt_u n = (if n < 10 then [char_of (48 + n)] else fmt_u (n div 10) @ [char_of (48 + n mod 10)])"

declare fmt_u.simps [simp del]

definition fmt_d :: "int \<Rightarrow> string" where
  "fmt_d i = (if i < 0 then CHR ''-'' # fmt_u (nat (- i)) else fmt_u (nat i))"

text \<open>The number a decimal numeral denotes.\<close>

definition val_u :: "string \<Rightarrow> nat" where
  "val_u s = foldl (\<lambda>n c. 10 * n + ((of_char c :: nat) - 48)) 0 s"

text \<open>\<open>atoi\<close> as \<open>(int) strtol(s, NULL, 10)\<close>, which saturates at the bounds of \<open>long\<close>.\<close>

definition isdigit :: "char \<Rightarrow> bool" where
  "isdigit c \<longleftrightarrow> 48 \<le> (of_char c :: nat) \<and> (of_char c :: nat) \<le> 57"

definition atoi :: "string \<Rightarrow> int" where
  "atoi s =
     (let s = dropWhile isspace s;
          neg = (take 1 s = ''-'');
          s = (if take 1 s \<in> {''-'', ''+''} then drop 1 s else s);
          v = int (val_u (takeWhile isdigit s))
      in wrap32 (if neg then max (- (2 ^ 63)) (- v) else min (2 ^ 63 - 1) v))"

abbreviation crlf :: string where
  "crlf \<equiv> [CHR 0x0D, CHR 0x0A]"

section \<open>The wrappers of the input and output routines\<close>

definition Rio_read :: "nat \<Rightarrow> kern \<Rightarrow> (string \<times> kern) io" where
  "Rio_read n k =
     (case rio_read n k of
        None \<Rightarrow> None
      | Some (None, _) \<Rightarrow> Some (Inl Exit_1)
      | Some (Some s, k) \<Rightarrow> Some (Inr (s, k)))"

definition Rio_write :: "string \<Rightarrow> kern \<Rightarrow> kern io" where
  "Rio_write buf k =
     (case rio_write buf k of
        None \<Rightarrow> None
      | Some (ok, k) \<Rightarrow> Some (if ok then Inr k else Inl Exit_1))"

text \<open>The line read, or \<open>None\<close> at the end of the input, where the buffer is left alone.\<close>

definition Rio_readlineb :: "rio \<Rightarrow> kern \<Rightarrow> (string option \<times> rio \<times> kern) io" where
  "Rio_readlineb rp k =
     bindO (rio_readlineb MAXLINE MAXLINE rp k) (\<lambda>(l, rp, k).
       case l of
         L_error \<Rightarrow> Some (Inl Exit_1)
       | L_eof \<Rightarrow> Some (Inr (None, rp, k))
       | L_line s \<Rightarrow> Some (Inr (Some s, rp, k)))"

section \<open>Reading a request\<close>

text \<open>
  \<open>request_read_headers\<close>. \<open>buf\<close> is the contents of the line buffer; at the end of the input
  it keeps the last line, and the loop goes on.
\<close>

partial_function (option) request_read_headers :: "string option \<Rightarrow> rio \<Rightarrow> kern \<Rightarrow> (rio \<times> kern) io" where
  "request_read_headers buf rp k =
     Option.bind (Rio_readlineb rp k) (\<lambda>r.
       case r of
         Inl e \<Rightarrow> Some (Inl e)
       | Inr (l, rp, k) \<Rightarrow>
           (case (case l of None \<Rightarrow> buf | Some s \<Rightarrow> Some s) of
              None \<Rightarrow> Some (Inl Uninit)
            | Some s \<Rightarrow> if cstr s = crlf then Some (Inr (rp, k)) else request_read_headers (Some s) rp k))"

definition request_parse_URI :: "string \<Rightarrow> nat \<Rightarrow> string" where
  "request_parse_URI uri mx = take (mx - 1) (''./'' @ uri)"

definition request_get_file_type :: "string \<Rightarrow> string" where
  "request_get_file_type filename =
     (if strstr filename ''.html'' then ''text/html''
      else if strstr filename ''.gif'' then ''image/gif''
      else if strstr filename ''.jpg'' then ''image/jpeg''
      else ''text/plain'')"

text \<open>The checksum loop, on an \<open>unsigned int\<close>.\<close>

definition csum :: "string \<Rightarrow> 32 word" where
  "csum s = foldl (\<lambda>n c. n + of_nat (of_char c)) 0 s"

definition error_body :: "string \<Rightarrow> string \<Rightarrow> string \<Rightarrow> string \<Rightarrow> string" where
  "error_body cause errnum shortmsg longmsg =
     ''<html><title>OS Web Server Error</title>'' @ ''<body bgcolor=fffff>'' @ crlf @
     ''<p>'' @ errnum @ '': '' @ shortmsg @ ''</p>'' @ crlf @
     ''<p>'' @ longmsg @ '': '' @ cause @ ''</p>'' @ crlf @
     ''</body></html>'' @ crlf"

text \<open>\<open>request_error\<close>: the body is put together in an array of \<open>MAXBUF\<close> bytes.\<close>

definition request_error :: "string \<Rightarrow> string \<Rightarrow> string \<Rightarrow> string \<Rightarrow> kern \<Rightarrow> kern io" where
  "request_error cause errnum shortmsg longmsg k =
     (let body = error_body cause errnum shortmsg longmsg
      in if length body \<ge> MAXBUF then Some (Inl Out_of_bounds)
         else bindO (Rio_write (''HTTP/1.0 '' @ errnum @ '' '' @ shortmsg @ crlf) k) (\<lambda>k.
              bindO (Rio_write (''Content-Type: text/html'' @ crlf) k) (\<lambda>k.
              bindO (Rio_write (''Content-Length: '' @ fmt_u (length body) @ crlf) k) (\<lambda>k.
              bindO (Rio_write (''Content-Csum: '' @ fmt_u (unat (csum body)) @ crlf @ crlf) k) (\<lambda>k.
                Rio_write body k)))))"

text \<open>
  \<open>request_init\<close> on the input and the output of the connection: the file name, or \<open>None\<close> after
  an error response. The request line may have fewer than three words; then \<open>method\<close> or
  \<open>uri\<close> is used although nothing was stored in it.
\<close>

definition request_init :: "int \<Rightarrow> kern \<Rightarrow> kern \<Rightarrow> (string option \<times> kern \<times> kern) io" where
  "request_init connfd kin kout =
     bindO (Rio_readlineb (rio_init connfd) kin) (\<lambda>(buf, rio, kin).
       case buf of
         None \<Rightarrow> Some (Inl Uninit)
       | Some s \<Rightarrow>
           (case sscanf_words 3 (cstr s) of
              [] \<Rightarrow> Some (Inl Uninit)
            | method # args \<Rightarrow>
                if \<not> strcasecmp_eq method ''GET''
                then bindO (request_error method ''501'' ''Not Implemented''
                              ''OS Web Server does not implement this method'' kout) (\<lambda>kout.
                       Some (Inr (None, kin, kout)))
                else bindO (request_read_headers None rio kin) (\<lambda>(rio, kin).
                       case args of
                         [] \<Rightarrow> Some (Inl Uninit)
                       | uri # _ \<Rightarrow> Some (Inr (Some (request_parse_URI uri MAXLINE), kin, kout)))))"

section \<open>Reading and sending the file\<close>

text \<open>What \<open>stat\<close> says of a file.\<close>

record stat =
  S_ISREG :: bool
  S_IRUSR :: bool
  st_size :: int

text \<open>
  \<open>request_readfile\<close>: the file buffer and the file size, which is an \<open>int\<close>; \<open>None\<close> after an
  error response. A negative size is a huge argument of \<open>malloc\<close>, which then fails. \<open>file\<close> is
  what reading the opened file gives.
\<close>

definition request_readfile :: "(string \<Rightarrow> stat option) \<Rightarrow> (string \<Rightarrow> kern option) \<Rightarrow> string \<Rightarrow> kern \<Rightarrow>
    ((string \<times> 32 word) option \<times> kern) io" where
  "request_readfile stat_of file name k =
     (let refuse = (\<lambda>errnum shortmsg longmsg.
            bindO (request_error name errnum shortmsg longmsg k) (\<lambda>k. Some (Inr (None, k))))
      in if take 1 name = ''/''
         then refuse ''404'' ''Not found'' ''OS Web Server doesn't serve files with absolute paths''
         else if strstr name ''..''
         then refuse ''404'' ''Not found'' ''OS Web Server doesn't serve files with .. in the path''
         else if strrchr CHR ''.'' name \<in> {Some ''.c'', Some ''.h''}
         then refuse ''404'' ''Not found'' ''OS Web Server doesn't serve C or header files ''
         else case stat_of name of
                None \<Rightarrow> refuse ''404'' ''Not found'' ''OS Web Server could not find this file''
              | Some sbuf \<Rightarrow>
                  if \<not> S_ISREG sbuf \<or> \<not> S_IRUSR sbuf
                  then refuse ''403'' ''Forbidden'' ''OS Web Server could not read this file''
                  else let fsize = word_of_int (st_size sbuf) :: 32 word
                       in if fsize = 0 then Some (Inr (Some ([], 0), k))
                          else case file name of
                                 None \<Rightarrow> Some (Inl Exit_1)
                               | Some srcfd \<Rightarrow>
                                   if sint fsize < 0 then Some (Inl Exit_1)
                                   else bindO (Rio_read (nat (sint fsize)) srcfd) (\<lambda>(buf, _).
                                          Some (Inr (Some (buf, fsize), k))))"

definition ok_header :: "string \<Rightarrow> string \<Rightarrow> 32 word \<Rightarrow> string" where
  "ok_header name buf fsize =
     ''HTTP/1.0 200 OK'' @ crlf @ ''Server: OS Web Server'' @ crlf @
     ''Content-Type: '' @ request_get_file_type name @ crlf @
     ''Content-Length: '' @ fmt_d (sint fsize) @ crlf @
     ''Content-Csum: '' @ fmt_u (unat (csum buf)) @ crlf @ crlf"

text \<open>\<open>request_sendfile\<close>; the loops run over \<open>file_size\<close> bytes of the buffer, of which those
  read from the file are defined.\<close>

definition request_sendfile :: "string \<Rightarrow> string \<Rightarrow> 32 word \<Rightarrow> kern \<Rightarrow> kern io" where
  "request_sendfile name buf fsize k =
     (let n = nat (sint fsize)
      in if length buf < n then Some (Inl Uninit)
         else bindO (Rio_write (ok_header name (take n buf) fsize) k) (\<lambda>k.
                if 0 < sint fsize then Rio_write (take n buf) k else Some (Inr k)))"

section \<open>Facts about the library functions\<close>

lemma strstr_sublist: "strstr s n \<longleftrightarrow> sublist n s"
proof (induction s)
  case (Cons c s)
  then show ?case by (simp add: sublist_Cons_right prefix_def) (metis append_eq_conv_conj append_take_drop_id)
qed simp

lemma strrchr_None: "strrchr c s = None \<longleftrightarrow> c \<notin> set s"
  by (induction s) (auto split: option.splits)

lemma strrchr_suffix: "c \<notin> set u \<Longrightarrow> strrchr c s = Some (c # u) \<longleftrightarrow> suffix (c # u) s"
proof (induction s)
  case (Cons x s)
  have n: "c \<notin> set s \<Longrightarrow> strrchr c s = None \<and> \<not> suffix (c # u) s"
    by (auto simp: strrchr_None dest: set_mono_suffix)
  show ?case
  proof (cases "c \<in> set s")
    case False
    with n show ?thesis by (auto simp: suffix_Cons)
  next
    case True
    then obtain t where "strrchr c s = Some t" using strrchr_None[of c s] by (cases "strrchr c s") auto
    with Cons True show ?thesis by (auto simp: suffix_Cons)
  qed
qed simp

lemma fmt_u_digits: "c \<in> set (fmt_u n) \<Longrightarrow> 48 \<le> (of_char c :: nat) \<and> (of_char c :: nat) \<le> 57"
proof (induction n rule: fmt_u.induct)
  case (1 n)
  then show ?case by (subst (asm) (2) fmt_u.simps) (auto split: if_splits)
qed

lemma fmt_u_length: "0 < d \<Longrightarrow> n < 10 ^ d \<Longrightarrow> length (fmt_u n) \<le> d"
proof (induction d arbitrary: n)
  case (Suc d)
  show ?case
  proof (cases "n < 10")
    case True
    then show ?thesis by (subst fmt_u.simps) simp
  next
    case False
    then have "0 < d" "n div 10 < 10 ^ d" using Suc.prems by (cases d; auto)+
    with Suc.IH[of "n div 10"] False show ?thesis by (subst fmt_u.simps) simp
  qed
qed simp

lemma fmt_u_word: "length (fmt_u (unat (w :: 32 word))) \<le> 10"
  using unsigned_less[of w, where ?'a = nat] by (intro fmt_u_length) simp_all

lemma val_fmt_u: "val_u (fmt_u n) = n"
proof (induction n rule: fmt_u.induct)
  case (1 n)
  then show ?case by (subst fmt_u.simps) (auto simp: val_u_def)
qed

lemma csum_sum: "unat (csum s) = (\<Sum>c\<leftarrow>s. of_char c) mod 2 ^ 32"
proof -
  have "csum s = of_nat (\<Sum>c\<leftarrow>s. of_char c)"
  proof (induction s rule: rev_induct)
    case (snoc c s)
    then show ?case by (simp add: csum_def)
  qed (simp add: csum_def)
  then show ?thesis by (simp add: unat_of_nat)
qed

section \<open>Headers\<close>

text \<open>The input behind the first empty line, if there is one.\<close>

lemma line_of_ne: "p \<noteq> [] \<Longrightarrow> 0 < m \<Longrightarrow> 0 < length (line_of m p)"
  by (cases p; cases m) auto

function skip_headers :: "string \<Rightarrow> string option" where
  "skip_headers p =
     (if p = [] then None
      else if line_of MAXLINE p = crlf then Some (drop 2 p)
      else skip_headers (drop (length (line_of MAXLINE p)) p))"
  by pat_completeness auto
termination
proof (relation "measure length", goal_cases)
  case (2 p)
  moreover have "0 < MAXLINE" by (simp add: MAXLINE_def)
  ultimately show ?case using line_of_ne[of p MAXLINE] by simp
qed simp

declare skip_headers.simps [simp del]

lemma cstr_line: "cstr (line_of m p) = crlf \<longleftrightarrow> line_of m p = crlf"
proof (cases m)
  case (Suc m')
  show ?thesis
  proof (cases p)
    case (Cons a p')
    then show ?thesis using Suc by (cases m'; cases p') (auto simp: cstr_def)
  qed (simp add: Suc cstr_def)
qed (simp add: cstr_def)

lemma Rio_readlineb_next:
  assumes "Rio_readlineb rp k = Some (Inr (l, rp', k'))"
  shows "l = (if pending rp k = [] then None else Some (line_of MAXLINE (pending rp k)))"
    and "pending rp' k' = drop (length (line_of MAXLINE (pending rp k))) (pending rp k)"
proof -
  from assms obtain l' where l': "rio_readlineb_loop MAXLINE MAXLINE [] rp k = Some (Inr (l', rp', k'))" "l' \<noteq> L_error"
    "l = (case l' of L_line s \<Rightarrow> Some s | _ \<Rightarrow> None)"
    using that by (fastforce simp: Rio_readlineb_def rio_readlineb_def bindO_eq_Inr split: lineret.split_asm)
  have "0 < MAXLINE" by (simp add: MAXLINE_def)
  with line_loop_next[OF l'(1,2)] l'(3)
  show "l = (if pending rp k = [] then None else Some (line_of MAXLINE (pending rp k)))"
    and "pending rp' k' = drop (length (line_of MAXLINE (pending rp k))) (pending rp k)"
    by (auto split: if_splits)
qed

lemma read_headers_sound:
  "request_read_headers buf rp k = Some r \<Longrightarrow> r = Inr (rp', k') \<Longrightarrow> (\<forall>s. buf = Some s \<longrightarrow> cstr s \<noteq> crlf) \<Longrightarrow>
   skip_headers (pending rp k) = Some (pending rp' k')"
proof (induction arbitrary: rp' k' rule: request_read_headers.raw_induct[rotated, consumes 1])
  case (1 loop buf rp k r)
  from 1(2) obtain y where y: "Rio_readlineb rp k = Some y" by (auto simp: Option.bind_eq_Some_conv)
  with 1(2) "1.prems"(1) obtain l rp1 k1 where l: "Rio_readlineb rp k = Some (Inr (l, rp1, k1))"
    by (cases y) auto
  note n = Rio_readlineb_next[OF l]
  show ?case
  proof (cases "pending rp k = []")
    case True
    then have l': "l = None" "pending rp1 k1 = []" using n by auto
    then obtain s where s: "buf = Some s" using 1(2) l "1.prems"(1) by (cases buf) auto
    with 1(2) l l' "1.prems" have "loop (Some s) rp1 k1 = Some r" by auto
    from 1(1)[OF this "1.prems"(1)] "1.prems"(2) s l'(2) True show ?thesis by auto
  next
    case False
    let ?s = "line_of MAXLINE (pending rp k)"
    have l': "l = Some ?s" using n False by simp
    show ?thesis
    proof (cases "?s = crlf")
      case True
      then have "Inr (rp', k') = r" "r = Inr (rp1, k1)" using 1 l l' cstr_line[of MAXLINE "pending rp k"] by auto
      then show ?thesis using n True False by (subst skip_headers.simps) (simp add: numeral_2_eq_2)
    next
      case ne: False
      then have "loop (Some ?s) rp1 k1 = Some r" using 1 l l' cstr_line[of MAXLINE "pending rp k"] by auto
      from 1(1)[OF this "1.prems"(1)] ne have "skip_headers (pending rp1 k1) = Some (pending rp' k')"
        by (auto simp: cstr_line)
      then show ?thesis using n ne False by (subst skip_headers.simps) simp
    qed
  qed
qed

text \<open>Header lines: a newline at the end and nowhere else, none of them empty or too long for the
  buffer.\<close>

definition header_lines :: "string list \<Rightarrow> bool" where
  "header_lines ls \<longleftrightarrow> (\<forall>l\<in>set ls. l \<noteq> crlf \<and> length l < MAXLINE \<and> l \<noteq> [] \<and> last l = CHR 0x0A \<and>
     CHR 0x0A \<notin> set (butlast l))"

lemma line_of_line:
  "length l \<le> m \<Longrightarrow> l \<noteq> [] \<Longrightarrow> last l = CHR 0x0A \<Longrightarrow> CHR 0x0A \<notin> set (butlast l) \<Longrightarrow> line_of m (l @ r) = l"
proof (induction l arbitrary: m)
  case (Cons c l)
  then show ?case by (cases m; cases l) auto
qed simp

lemma Rio_readlineb_ok:
  assumes "enough (m + Suc MAXLINE) k" and "pending rp k = l @ r" and "length l < MAXLINE" and "l \<noteq> []"
    and "last l = CHR 0x0A" and "CHR 0x0A \<notin> set (butlast l)"
  shows "\<exists>rp' k'. Rio_readlineb rp k = Some (Inr (Some l, rp', k')) \<and> pending rp' k' = r \<and> enough m k'"
proof -
  have "line_of MAXLINE (pending rp k) = l" using assms line_of_line[of l MAXLINE r] by simp
  with line_loop_spec[OF assms(1), of "[]" MAXLINE rp] assms(2-4) show ?thesis
    by (auto simp: Rio_readlineb_def rio_readlineb_def)
qed

lemma read_headers_complete:
  "header_lines ls \<Longrightarrow> pending rp k = concat ls @ crlf @ rest \<Longrightarrow> enough (m + Suc (length ls) * Suc MAXLINE) k \<Longrightarrow>
   \<exists>rp' k'. request_read_headers buf rp k = Some (Inr (rp', k')) \<and> pending rp' k' = rest"
proof (induction ls arbitrary: buf rp k)
  case Nil
  have "\<exists>rp' k'. Rio_readlineb rp k = Some (Inr (Some crlf, rp', k')) \<and> pending rp' k' = rest \<and> enough m k'"
    using Nil by (intro Rio_readlineb_ok) (auto simp: MAXLINE_def)
  then show ?case by (subst request_read_headers.simps) (auto simp: cstr_def)
next
  case (Cons l ls)
  have l: "l \<noteq> crlf" "length l < MAXLINE" "l \<noteq> []" "last l = CHR 0x0A" "CHR 0x0A \<notin> set (butlast l)" "header_lines ls"
    using Cons.prems(1) by (simp_all add: header_lines_def)
  have "\<exists>rp' k'. Rio_readlineb rp k = Some (Inr (Some l, rp', k')) \<and> pending rp' k' = concat ls @ crlf @ rest \<and>
      enough (m + Suc (length ls) * Suc MAXLINE) k'"
    using Cons.prems l by (intro Rio_readlineb_ok) (auto simp: algebra_simps)
  then obtain rp1 k1 where 1: "Rio_readlineb rp k = Some (Inr (Some l, rp1, k1))"
    "pending rp1 k1 = concat ls @ crlf @ rest" "enough (m + Suc (length ls) * Suc MAXLINE) k1" by blast
  have "cstr l \<noteq> crlf"
    using l line_of_line[of l MAXLINE "[]"] cstr_line[of MAXLINE l] by simp
  with Cons.IH[OF l(6) 1(2,3), of "Some l"] 1(1) show ?case
    by (subst request_read_headers.simps) simp
qed

lemma Rio_write_ok:
  assumes "enough (m + length buf) k"
  shows "\<exists>k'. Rio_write buf k = Some (Inr k') \<and> stream k' = stream k @ buf \<and> enough m k'"
  using rio_write_complete[OF assms] by (auto simp: Rio_write_def)

lemma Rio_read_ok:
  assumes "enough (Suc (min n (length (stream k)))) k"
  shows "\<exists>k'. Rio_read n k = Some (Inr (take n (stream k), k'))"
  using rio_read_loop_complete[OF assms, of "[]"] by (auto simp: Rio_read_def rio_read_def)

text \<open>The error response.\<close>

definition error_response :: "string \<Rightarrow> string \<Rightarrow> string \<Rightarrow> string \<Rightarrow> string" where
  "error_response cause errnum shortmsg longmsg =
     (let body = error_body cause errnum shortmsg longmsg
      in ''HTTP/1.0 '' @ errnum @ '' '' @ shortmsg @ crlf @ ''Content-Type: text/html'' @ crlf @
         ''Content-Length: '' @ fmt_u (length body) @ crlf @
         ''Content-Csum: '' @ fmt_u (unat (csum body)) @ crlf @ crlf @ body)"

lemma error_body_length:
  "length (error_body cause errnum shortmsg longmsg) =
     100 + length errnum + length shortmsg + length longmsg + length cause"
  by (simp add: error_body_def)

lemma error_response_length:
  assumes "length (error_body cause errnum shortmsg longmsg) < 10 ^ 4"
  shows "length (error_response cause errnum shortmsg longmsg) \<le>
    length (error_body cause errnum shortmsg longmsg) + length errnum + length shortmsg + 100"
proof -
  define b where "b = error_body cause errnum shortmsg longmsg"
  have "length (fmt_u (length b)) \<le> 4" using assms fmt_u_length[of 4 "length b"] by (simp add: b_def)
  moreover have "length (fmt_u (unat (csum b))) \<le> 10" by (rule fmt_u_word)
  ultimately show ?thesis by (simp add: error_response_def Let_def b_def[symmetric])
qed

lemma request_error_ok:
  assumes "enough (length (error_response cause errnum shortmsg longmsg)) k"
    and "length (error_body cause errnum shortmsg longmsg) < MAXBUF"
  shows "\<exists>k'. request_error cause errnum shortmsg longmsg k = Some (Inr k') \<and>
    stream k' = stream k @ error_response cause errnum shortmsg longmsg"
proof -
  let ?b = "error_body cause errnum shortmsg longmsg"
  let ?w1 = "''HTTP/1.0 '' @ errnum @ '' '' @ shortmsg @ crlf"
  let ?w2 = "''Content-Type: text/html'' @ crlf"
  let ?w3 = "''Content-Length: '' @ fmt_u (length ?b) @ crlf"
  let ?w4 = "''Content-Csum: '' @ fmt_u (unat (csum ?b)) @ crlf @ crlf"
  have r: "error_response cause errnum shortmsg longmsg = ?w1 @ ?w2 @ ?w3 @ ?w4 @ ?b"
    by (simp add: error_response_def Let_def)
  have "enough ((length ?b + length ?w4 + length ?w3 + length ?w2) + length ?w1) k"
    using assms(1) unfolding r by (simp add: algebra_simps)
  from Rio_write_ok[OF this] obtain k1 where 1: "Rio_write ?w1 k = Some (Inr k1)" "stream k1 = stream k @ ?w1"
    "enough ((length ?b + length ?w4 + length ?w3) + length ?w2) k1" by blast
  from Rio_write_ok[OF 1(3)] obtain k2 where 2: "Rio_write ?w2 k1 = Some (Inr k2)" "stream k2 = stream k1 @ ?w2"
    "enough ((length ?b + length ?w4) + length ?w3) k2" by blast
  from Rio_write_ok[OF 2(3)] obtain k3 where 3: "Rio_write ?w3 k2 = Some (Inr k3)" "stream k3 = stream k2 @ ?w3"
    "enough (length ?b + length ?w4) k3" by blast
  from Rio_write_ok[OF 3(3)] obtain k4 where 4: "Rio_write ?w4 k3 = Some (Inr k4)" "stream k4 = stream k3 @ ?w4"
    "enough (0 + length ?b) k4" by auto
  from Rio_write_ok[OF 4(3)] obtain k5 where 5: "Rio_write ?b k4 = Some (Inr k5)" "stream k5 = stream k4 @ ?b" by blast
  show ?thesis
    unfolding request_error_def Let_def r
    using assms(2) 1 2 3 4 5 by (simp only: not_le[symmetric] if_False simp_thms bindO_simps) simp
qed

section \<open>Properties\<close>

text \<open>
  \<open>request_read_headers\<close> stops exactly behind the first empty line. If it returns, the
  input had an empty line and what follows it is left; so if the client closes the connection
  without sending one, the loop never returns, however often the kernel answers. Conversely, if the
  header lines fit the buffer and an empty line follows, it returns.
\<close>

lemma request_read_headers_spec:
  "(request_read_headers None rp k = Some (Inr (rp', k')) \<longrightarrow> skip_headers (pending rp k) = Some (pending rp' k')) \<and>
   (skip_headers (pending rp k) = None \<longrightarrow> request_read_headers None rp k \<notin> range (\<lambda>r. Some (Inr r))) \<and>
   (header_lines ls \<and> pending rp k = concat ls @ crlf @ rest \<and> enough (Suc (length ls) * Suc MAXLINE) k \<longrightarrow>
     (\<exists>rp' k'. request_read_headers None rp k = Some (Inr (rp', k')) \<and> pending rp' k' = rest))"
proof (intro conjI impI)
  assume "skip_headers (pending rp k) = None"
  then show "request_read_headers None rp k \<notin> range (\<lambda>r. Some (Inr r))"
    using read_headers_sound[of None rp k] by fastforce
next
  assume "header_lines ls \<and> pending rp k = concat ls @ crlf @ rest \<and> enough (Suc (length ls) * Suc MAXLINE) k"
  then show "\<exists>rp' k'. request_read_headers None rp k = Some (Inr (rp', k')) \<and> pending rp' k' = rest"
    using read_headers_complete[of ls rp k rest 0 None] by simp
qed (use read_headers_sound[of None rp k] in auto)

lemma skip_headers_short: "CHR 0x0D \<notin> set p \<Longrightarrow> skip_headers p = None"
proof (induction p rule: skip_headers.induct)
  case (1 p)
  have "set (line_of m p) \<subseteq> set p" for m by (induction m p rule: line_of.induct) auto
  then have "line_of MAXLINE p \<noteq> crlf" using 1(2) by (metis list.set_intros(1) subsetD)
  with 1 show ?case by (subst skip_headers.simps) (auto dest: in_set_dropD)
qed

lemma request_read_headers_example:
  "request_read_headers None (rio_init 4) \<lparr>stream = ''Host: x'', sched = replicate 100 (K_bytes 50)\<rparr>
     \<notin> range (\<lambda>r. Some (Inr r)) \<and>
   (\<exists>rp' k'. request_read_headers None (rio_init 4) \<lparr>stream = ''Host: x'' @ [CHR 0x0A] @ crlf @ ''rest'', sched = replicate 20000 (K_bytes 50)\<rparr> =
     Some (Inr (rp', k')) \<and> pending rp' k' = ''rest'')"
proof
  have "skip_headers (pending (rio_init 4) \<lparr>stream = ''Host: x'', sched = replicate 100 (K_bytes 50)\<rparr>) = None"
    by (intro skip_headers_short) (simp add: pending_def rio_init_def)
  then show "request_read_headers None (rio_init 4) \<lparr>stream = ''Host: x'', sched = replicate 100 (K_bytes 50)\<rparr>
     \<notin> range (\<lambda>r. Some (Inr r))" using request_read_headers_spec by blast
  let ?k = "\<lparr>stream = ''Host: x'' @ [CHR 0x0A] @ crlf @ ''rest'', sched = replicate 20000 (K_bytes 50)\<rparr>"
  have "header_lines [''Host: x'' @ [CHR 0x0A]]" by (simp add: header_lines_def MAXLINE_def)
  moreover have "pending (rio_init 4) ?k = concat [''Host: x'' @ [CHR 0x0A]] @ crlf @ ''rest''"
    by (simp add: pending_def rio_init_def)
  moreover have "enough (Suc (length [''Host: x'' @ [CHR 0x0A]]) * Suc MAXLINE) ?k" by (simp add: enough_def MAXLINE_def)
  ultimately show "\<exists>rp' k'. request_read_headers None (rio_init 4) ?k = Some (Inr (rp', k')) \<and> pending rp' k' = ''rest''"
    using request_read_headers_spec by blast
qed

text \<open>
  \<open>request_init\<close> on a request line and headers that fit its buffers. A GET request yields the
  file name: \<open>./\<close> and the second word of the line, cut to the size of the array. A request line
  without a word, or \<open>GET\<close> alone, makes it use an array nothing was stored in. Any other method
  is answered with the 501 response, unless the method is so long that the response overflows its
  array.
\<close>

lemma request_init_spec:
  assumes "stream kin = l @ concat ls @ crlf @ rest" and "header_lines (l # ls)"
    and "enough (Suc (Suc (length ls)) * Suc MAXLINE) kin"
    and "resp = error_response method ''501'' ''Not Implemented'' ''OS Web Server does not implement this method''"
    and "body = error_body method ''501'' ''Not Implemented'' ''OS Web Server does not implement this method''"
    and "enough (length resp) kout"
  shows "(sscanf_words 3 (cstr l) = [] \<longrightarrow> request_init fd kin kout = Some (Inl Uninit)) \<and>
    (sscanf_words 3 (cstr l) = method # args \<longrightarrow> strcasecmp_eq method ''GET'' \<longrightarrow>
       (\<exists>kin'. request_init fd kin kout = Some (case args of [] \<Rightarrow> Inl Uninit
          | uri # _ \<Rightarrow> Inr (Some (take 8191 (''./'' @ uri)), kin', kout)))) \<and>
    (sscanf_words 3 (cstr l) = method # args \<longrightarrow> \<not> strcasecmp_eq method ''GET'' \<longrightarrow>
       (if length body < MAXBUF
        then \<exists>kin' kout'. request_init fd kin kout = Some (Inr (None, kin', kout')) \<and> stream kout' = stream kout @ resp
        else request_init fd kin kout = Some (Inl Out_of_bounds)))"
proof -
  have l: "length l < MAXLINE" "l \<noteq> []" "last l = CHR 0x0A" "CHR 0x0A \<notin> set (butlast l)" "header_lines ls"
    using assms(2) by (simp_all add: header_lines_def)
  have "\<exists>rp' k'. Rio_readlineb (rio_init fd) kin = Some (Inr (Some l, rp', k')) \<and> pending rp' k' = concat ls @ crlf @ rest \<and>
      enough (0 + Suc (length ls) * Suc MAXLINE) k'"
    using assms(1,3) l by (intro Rio_readlineb_ok) (auto simp: pending_def rio_init_def algebra_simps)
  then obtain rp1 k1 where 1: "Rio_readlineb (rio_init fd) kin = Some (Inr (Some l, rp1, k1))"
    "pending rp1 k1 = concat ls @ crlf @ rest" "enough (0 + Suc (length ls) * Suc MAXLINE) k1" by blast
  from read_headers_complete[OF l(5) 1(2,3), of None] obtain rp2 k2 where
    2: "request_read_headers None rp1 k1 = Some (Inr (rp2, k2))" by blast
  have e: "if length body < MAXBUF
      then \<exists>k'. request_error method ''501'' ''Not Implemented'' ''OS Web Server does not implement this method'' kout = Some (Inr k') \<and> stream k' = stream kout @ resp
      else request_error method ''501'' ''Not Implemented'' ''OS Web Server does not implement this method'' kout = Some (Inl Out_of_bounds)"
    using request_error_ok[of "method" "''501''" "''Not Implemented''" "''OS Web Server does not implement this method''" kout] assms(4-6)
    by (auto simp: request_error_def Let_def not_less)
  show ?thesis
    using 1(1) 2 e
    by (intro conjI impI) (auto simp: request_init_def request_parse_URI_def MAXLINE_def split: if_splits list.splits)
qed

lemma request_init_spec_witness:
  "\<exists>kin'. request_init 4 \<lparr>stream = ''GET /a.html HTTP/1.0'' @ [CHR 0x0A] @ crlf, sched = replicate 20000 (K_bytes 50)\<rparr>
     \<lparr>stream = [], sched = replicate 1000 (K_bytes 50)\<rparr> =
   Some (Inr (Some ''.//a.html'', kin', \<lparr>stream = [], sched = replicate 1000 (K_bytes 50)\<rparr>))"
proof -
  let ?l = "''GET /a.html HTTP/1.0'' @ [CHR 0x0A]"
  let ?kin = "\<lparr>stream = ?l @ crlf, sched = replicate 20000 (K_bytes 50)\<rparr>"
  let ?kout = "\<lparr>stream = [], sched = replicate 1000 (K_bytes 50)\<rparr>"
  let ?resp = "error_response ''GET'' ''501'' ''Not Implemented'' ''OS Web Server does not implement this method''"
  have "stream ?kin = ?l @ concat [] @ crlf @ []" "header_lines [?l]" "enough (Suc (Suc (length [])) * Suc MAXLINE) ?kin"
    by (simp_all add: header_lines_def MAXLINE_def enough_def)
  moreover have "length ?resp \<le> 1000"
    using error_response_length[of "''GET''" "''501''" "''Not Implemented''" "''OS Web Server does not implement this method''"]
    by (simp add: error_body_length)
  then have "enough (length ?resp) ?kout" by (simp add: enough_def)
  moreover have "sscanf_words 3 (cstr ?l) = [''GET'', ''/a.html'', ''HTTP/1.0'']" "strcasecmp_eq ''GET'' ''GET''" by code_simp+
  ultimately show ?thesis
    using request_init_spec[of ?kin ?l "[]" "[]" ?resp "''GET''" _ ?kout 4 "[''/a.html'', ''HTTP/1.0'']"] by simp
qed

text \<open>The names the checks let through.\<close>

definition servable :: "string \<Rightarrow> bool" where
  "servable name \<longleftrightarrow> \<not> prefix ''/'' name \<and> \<not> sublist ''..'' name \<and> \<not> suffix ''.c'' name \<and> \<not> suffix ''.h'' name"

lemma servable_checks:
  "servable name \<longleftrightarrow> take 1 name \<noteq> ''/'' \<and> \<not> strstr name ''..'' \<and> strrchr CHR ''.'' name \<notin> {Some ''.c'', Some ''.h''}"
proof -
  have "prefix ''/'' name \<longleftrightarrow> take 1 name = ''/''" by (cases name) (auto simp: prefix_def)
  then show ?thesis using strrchr_suffix[of "CHR ''.''" "''c''" name] strrchr_suffix[of "CHR ''.''" "''h''" name]
    by (simp add: servable_def strstr_sublist)
qed

lemma sint_of_size: "- (2 ^ 31) \<le> n \<Longrightarrow> n < 2 ^ 31 \<Longrightarrow> sint (word_of_int n :: 32 word) = n"
  by (simp add: signed_of_int signed_take_bit_int_eq_self)

lemma sint_of_large_size: "2 ^ 31 \<le> n \<Longrightarrow> n < 2 ^ 32 \<Longrightarrow> sint (word_of_int n :: 32 word) < 0"
proof -
  assume n: "2 ^ 31 \<le> n" "n < 2 ^ 32"
  have e: "(word_of_int (n - 2 ^ 32) :: 32 word) = word_of_int n" by simp
  have "- (2 ^ 31) \<le> n - 2 ^ 32" "n - 2 ^ 32 < 2 ^ 31" using n by simp_all
  from sint_of_size[OF this] n(2) show ?thesis unfolding e by simp
qed

lemma readfile_safe:
  "request_readfile stat_of file name k = Some (Inr (Some (buf, n), k')) \<Longrightarrow>
   servable name \<and> k' = k \<and> (\<exists>sb. stat_of name = Some sb \<and> S_ISREG sb \<and> S_IRUSR sb \<and> n = word_of_int (st_size sb))"
  by (auto simp: request_readfile_def Let_def bindO_eq_Inr servable_checks split: if_splits option.splits)

lemma readfile_serves:
  assumes 2: "servable name" "stat_of name = Some sb" "S_ISREG sb" "S_IRUSR sb" "file name = Some src"
      "enough (Suc (length (stream src))) src" "st_size sb = int (length (stream src))"
  shows "if st_size sb < 2 ^ 31 then request_readfile stat_of file name k = Some (Inr (Some (stream src, word_of_int (st_size sb)), k))
     else if st_size sb < 2 ^ 32 then request_readfile stat_of file name k = Some (Inl Exit_1)
     else if st_size sb mod 2 ^ 32 = 0 then request_readfile stat_of file name k = Some (Inr (Some ([], 0), k))
     else True"
proof -
  have r: "request_readfile stat_of file name k =
      (let fsize = word_of_int (st_size sb) :: 32 word
       in if fsize = 0 then Some (Inr (Some ([], 0), k))
          else if sint fsize < 0 then Some (Inl Exit_1)
               else bindO (Rio_read (nat (sint fsize)) src) (\<lambda>(buf, _). Some (Inr (Some (buf, fsize), k))))"
    using 2 by (simp add: request_readfile_def servable_checks Let_def)
  have z: "(word_of_int (st_size sb) :: 32 word) = 0 \<longleftrightarrow> st_size sb mod 2 ^ 32 = 0"
    by (simp add: word_of_int_eq_0_iff dvd_eq_mod_eq_0)
  show ?thesis
  proof (cases "st_size sb < 2 ^ 31")
    case True
    have s: "sint (word_of_int (st_size sb) :: 32 word) = st_size sb" using True 2 by (intro sint_of_size) auto
    have "\<exists>k'. Rio_read (nat (st_size sb)) src = Some (Inr (take (nat (st_size sb)) (stream src), k'))"
      using 2 by (intro Rio_read_ok) simp
    with True 2 s z r show ?thesis by (auto simp: Let_def)
  next
    case False
    with sint_of_large_size[of "st_size sb"]
    have "st_size sb < 2 ^ 32 \<Longrightarrow> sint (word_of_int (st_size sb) :: 32 word) < 0" by simp
    with False r z show ?thesis by (auto simp: Let_def)
  qed
qed

text \<open>
  C27. What \<open>request_readfile\<close> serves. If it succeeds, the name does not begin with a slash,
  contains no \<open>..\<close> and ends neither in \<open>.c\<close> nor in \<open>.h\<close>; the file exists, is regular and readable;
  nothing was sent yet, and buffer and size are those of the file. It succeeds for every such file
  of at most \<open>2 ^ 31 - 1\<close> bytes; a file whose size does not fit an \<open>int\<close> ends the server, or is
  served as an empty file when its size is a multiple of \<open>2 ^ 32\<close>.
\<close>

theorem request_readfile_safe:
  "(request_readfile stat_of file name k = Some (Inr (Some (buf, n), k')) \<longrightarrow>
      servable name \<and> k' = k \<and> (\<exists>sb. stat_of name = Some sb \<and> S_ISREG sb \<and> S_IRUSR sb \<and> n = word_of_int (st_size sb))) \<and>
   (servable name \<and> stat_of name = Some sb \<and> S_ISREG sb \<and> S_IRUSR sb \<and> file name = Some src \<and>
      enough (Suc (length (stream src))) src \<and> st_size sb = int (length (stream src)) \<longrightarrow>
    (if st_size sb < 2 ^ 31 then request_readfile stat_of file name k = Some (Inr (Some (stream src, word_of_int (st_size sb)), k))
     else if st_size sb < 2 ^ 32 then request_readfile stat_of file name k = Some (Inl Exit_1)
     else if st_size sb mod 2 ^ 32 = 0 then request_readfile stat_of file name k = Some (Inr (Some ([], 0), k))
     else True))"
  using readfile_safe[of stat_of "file" name k buf n k'] readfile_serves[of name stat_of sb "file" src k] by blast

theorem request_readfile_safe_witness:
  "request_readfile [''./a.txt'' \<mapsto> \<lparr>S_ISREG = True, S_IRUSR = True, st_size = 3\<rparr>]
     [''./a.txt'' \<mapsto> \<lparr>stream = ''abc'', sched = replicate 4 (K_bytes 0)\<rparr>] ''./a.txt'' \<lparr>stream = [], sched = []\<rparr> =
   Some (Inr (Some (''abc'', 3), \<lparr>stream = [], sched = []\<rparr>))"
proof -
  let ?st = "[''./a.txt'' \<mapsto> \<lparr>S_ISREG = True, S_IRUSR = True, st_size = 3\<rparr>]"
  let ?src = "\<lparr>stream = ''abc'', sched = replicate 4 (K_bytes 0)\<rparr>"
  let ?sb = "\<lparr>S_ISREG = True, S_IRUSR = True, st_size = 3\<rparr>"
  have "servable ''./a.txt''" by (simp add: servable_checks)
  then have p: "servable ''./a.txt'' \<and> ?st ''./a.txt'' = Some ?sb \<and> S_ISREG ?sb \<and> S_IRUSR ?sb \<and>
      [''./a.txt'' \<mapsto> ?src] ''./a.txt'' = Some ?src \<and> enough (Suc (length (stream ?src))) ?src \<and>
      st_size ?sb = int (length (stream ?src))" by (simp add: enough_def)
  note q = request_readfile_safe[where stat_of = ?st and sb = ?sb and src = ?src and name = "''./a.txt''" and
      ?file = "[''./a.txt'' \<mapsto> ?src]", THEN conjunct2, THEN mp]
  from q[OF p] show ?thesis by simp
qed

text \<open>
  The responses are well formed. \<open>request_sendfile\<close> writes a header and then exactly the
  bytes of the file; the length and the checksum of the header are the decimal numerals of the
  number of bytes sent and of their sum modulo \<open>2 ^ 32\<close>. The same holds for the error response and
  its body, as long as the body fits its array; a file name of more than about 8000 characters makes
  the error response overflow it.
\<close>

lemma responses_well_formed:
  assumes "0 \<le> sint n" and "length buf = nat (sint n)" and "enough (length (ok_header name buf n @ buf)) k"
    and "body = error_body cause errnum shortmsg longmsg"
    and "enough (length (error_response cause errnum shortmsg longmsg)) k"
  shows "(\<exists>k'. request_sendfile name buf n k = Some (Inr k') \<and>
      stream k' = stream k @ ''HTTP/1.0 200 OK'' @ crlf @ ''Server: OS Web Server'' @ crlf @
        ''Content-Type: '' @ request_get_file_type name @ crlf @
        ''Content-Length: '' @ fmt_u (length buf) @ crlf @
        ''Content-Csum: '' @ fmt_u ((\<Sum>c\<leftarrow>buf. of_char c) mod 2 ^ 32) @ crlf @ crlf @ buf) \<and>
    (if length body < 8192
     then \<exists>k'. request_error cause errnum shortmsg longmsg k = Some (Inr k') \<and>
       stream k' = stream k @ ''HTTP/1.0 '' @ errnum @ '' '' @ shortmsg @ crlf @ ''Content-Type: text/html'' @ crlf @
         ''Content-Length: '' @ fmt_u (length body) @ crlf @
         ''Content-Csum: '' @ fmt_u ((\<Sum>c\<leftarrow>body. of_char c) mod 2 ^ 32) @ crlf @ crlf @ body
     else request_error cause errnum shortmsg longmsg k = Some (Inl Out_of_bounds)) \<and>
    length body = 100 + length errnum + length shortmsg + length longmsg + length cause \<and>
    (\<forall>j. val_u (fmt_u j) = j \<and> set (fmt_u j) \<subseteq> {c. 48 \<le> (of_char c :: nat) \<and> (of_char c :: nat) \<le> 57})"
proof -
  let ?h = "ok_header name buf n"
  have h: "?h = ''HTTP/1.0 200 OK'' @ crlf @ ''Server: OS Web Server'' @ crlf @
        ''Content-Type: '' @ request_get_file_type name @ crlf @
        ''Content-Length: '' @ fmt_u (length buf) @ crlf @
        ''Content-Csum: '' @ fmt_u ((\<Sum>c\<leftarrow>buf. of_char c) mod 2 ^ 32) @ crlf @ crlf"
    using assms(1,2) by (simp add: ok_header_def fmt_d_def csum_sum)
  have "enough (length buf + length ?h) k" using assms(3) by (simp add: add.commute)
  from Rio_write_ok[OF this] obtain k1 where 1: "Rio_write ?h k = Some (Inr k1)" "stream k1 = stream k @ ?h" "enough (0 + length buf) k1" by auto
  from Rio_write_ok[OF 1(3)] obtain k2 where 2: "Rio_write buf k1 = Some (Inr k2)" "stream k2 = stream k1 @ buf" by blast
  have "request_sendfile name buf n k = (if 0 < sint n then Rio_write buf k1 else Some (Inr k1))"
    using assms(2) 1(1) by (simp add: request_sendfile_def Let_def)
  moreover have "0 < sint n \<or> buf = []" using assms(1,2) by (cases buf) auto
  ultimately have s: "\<exists>k'. request_sendfile name buf n k = Some (Inr k') \<and> stream k' = stream k @ ?h @ buf"
    using 1(2) 2 by auto
  have e: "if length body < 8192 then \<exists>k'. request_error cause errnum shortmsg longmsg k = Some (Inr k') \<and>
       stream k' = stream k @ error_response cause errnum shortmsg longmsg
     else request_error cause errnum shortmsg longmsg k = Some (Inl Out_of_bounds)"
    using request_error_ok[OF assms(5)] assms(4) by (auto simp: MAXBUF_def request_error_def Let_def)
  show ?thesis
  proof (intro conjI, goal_cases)
    case 1
    show ?case using s unfolding h append_assoc .
  next
    case 2
    show ?case using e unfolding error_response_def Let_def assms(4)[symmetric] csum_sum .
  next
    case 3
    show ?case by (simp add: assms(4) error_body_length)
  next
    case 4
    show ?case using fmt_u_digits val_fmt_u by (auto simp: subset_iff)
  qed
qed

lemma responses_well_formed_witness:
  "\<exists>k'. request_sendfile ''./a.gif'' ''xy'' 2 \<lparr>stream = [], sched = replicate 9000 (K_bytes 2)\<rparr> = Some (Inr k') \<and>
     stream k' = ''HTTP/1.0 200 OK'' @ crlf @ ''Server: OS Web Server'' @ crlf @ ''Content-Type: image/gif'' @ crlf @
       ''Content-Length: 2'' @ crlf @ ''Content-Csum: 241'' @ crlf @ crlf @ ''xy''"
proof -
  let ?k = "\<lparr>stream = [], sched = replicate 9000 (K_bytes 2)\<rparr>"
  have f: "fmt_u 2 = ''2''" "fmt_u 241 = ''241''" by (simp_all add: fmt_u.simps char_of_def bit_simps)
  have c: "csum ''xy'' = 241" by (simp add: csum_def)
  have t: "request_get_file_type ''./a.gif'' = ''image/gif''" by code_simp
  have s: "0 \<le> sint (2 :: 32 word)" "length ''xy'' = nat (sint (2 :: 32 word))" by simp_all
  have e1: "enough (length (ok_header ''./a.gif'' ''xy'' 2 @ ''xy'')) ?k"
    by (simp add: ok_header_def enough_def fmt_d_def f c t)
  have e2: "enough (length (error_response [] [] [] [])) ?k"
    using error_response_length[of "[]" "[]" "[]" "[]"] by (simp add: error_body_length enough_def)
  have n: "(\<Sum>c\<leftarrow>''xy''. of_char c) mod 2 ^ 32 = (241 :: nat)" "length ''xy'' = 2" by simp_all
  from responses_well_formed[OF s e1 refl e2, THEN conjunct1] show ?thesis unfolding n f t by simp
qed

end
