(* ===== verification/ServerRequest.thy ===== *)
theory ServerRequest
  imports Cache Request
begin

text \<open>
  Serving one connection: \<open>do_server_request\<close> of webserver/server_thread.c over the file cache of
  theory \<open>Cache\<close> and the requests of theory \<open>Request\<close>. A handler is a program counter and the
  local variables of the routine; each step is one critical section of the code, or the code between
  two of them, so that several handlers can be interleaved on the shared state. The routine itself
  runs one handler to its return.
\<close>

section \<open>Requests and connections\<close>

text \<open>\<open>struct request\<close>, and the connection: what comes in, what goes out, and whether its
  descriptor is open.\<close>

record request =
  rq_fd :: int
  rq_data :: "addr option"

record conn =
  kin :: kern
  kout :: kern
  is_open :: bool

text \<open>The name and the buffer of a new file structure are NULL; nothing reads them before they
  are set, and they are modelled as empty strings.\<close>

definition file_data_init :: "addr \<Rightarrow> shared \<Rightarrow> shared" where
  "file_data_init d s = s\<lparr>files := (files s)(d \<mapsto> \<lparr>file_name = [], file_buf = [], file_size = 0\<rparr>)\<rparr>"

definition file_data_free :: "addr \<Rightarrow> shared \<Rightarrow> shared res" where
  "file_data_free d s = bindR (readR (files s) d) (\<lambda>_. Inr (s\<lparr>files := (files s)(d := None)\<rparr>))"

text \<open>A read through a pointer that may be NULL.\<close>

definition deref :: "shared \<Rightarrow> addr option \<Rightarrow> file_data res" where
  "deref s p = (case p of None \<Rightarrow> Inl Null_deref | Some a \<Rightarrow> readR (files s) a)"

text \<open>\<open>request_destroy\<close> closes the descriptor and frees the request; a freed request is \<open>None\<close>.\<close>

definition request_destroy :: "request option \<Rightarrow> conn \<Rightarrow> conn res" where
  "request_destroy rq c =
     (case rq of
        None \<Rightarrow> Inl Use_after_free
      | Some r \<Rightarrow> if is_open c then Inr (c\<lparr>is_open := False\<rparr>) else Inl Exit_1)"

definition request_set_data :: "request \<Rightarrow> addr option \<Rightarrow> request" where
  "request_set_data rq a = rq\<lparr>rq_data := a\<rparr>"

text \<open>\<open>request_init\<close>: the request, and the file name in the file structure.\<close>

definition request_open :: "int \<Rightarrow> addr \<Rightarrow> conn \<Rightarrow> shared \<Rightarrow> (request option \<times> conn \<times> shared) io" where
  "request_open fd d c s =
     bindO (request_init fd (kin c) (kout c)) (\<lambda>(name, ki, ko).
       let c = c\<lparr>kin := ki, kout := ko\<rparr>; rq = \<lparr>rq_fd = fd, rq_data = Some d\<rparr>
       in case name of
            None \<Rightarrow> bindO (Some (request_destroy (Some rq) c)) (\<lambda>c. Some (Inr (None, c, s)))
          | Some n \<Rightarrow> Some (Inr (Some rq, c,
              s\<lparr>files := (files s)(d \<mapsto> \<lparr>file_name = n, file_buf = [], file_size = 0\<rparr>)\<rparr>)))"

text \<open>\<open>request_readfile\<close> and \<open>request_sendfile\<close> on the file structure of the request.\<close>

definition readfile :: "(string \<Rightarrow> stat option) \<Rightarrow> (string \<Rightarrow> kern option) \<Rightarrow> request option \<Rightarrow> conn \<Rightarrow> shared \<Rightarrow>
    (bool \<times> conn \<times> shared) io" where
  "readfile stat_of disk rq c s =
     (case rq of
        None \<Rightarrow> Some (Inl Use_after_free)
      | Some r \<Rightarrow>
          (case rq_data r of
             None \<Rightarrow> Some (Inl Assert_failed)
           | Some a \<Rightarrow>
               bindO (Some (readR (files s) a)) (\<lambda>d.
               bindO (request_readfile stat_of disk (file_name d) (kout c)) (\<lambda>(x, ko).
                 Some (Inr (case x of
                   None \<Rightarrow> (False, c\<lparr>kout := ko\<rparr>, s)
                 | Some (buf, n) \<Rightarrow> (True, c\<lparr>kout := ko\<rparr>,
                     s\<lparr>files := (files s)(a \<mapsto> d\<lparr>file_buf := buf, file_size := n\<rparr>)\<rparr>)))))))"

definition sendfile :: "request option \<Rightarrow> conn \<Rightarrow> shared \<Rightarrow> conn io" where
  "sendfile rq c s =
     (case rq of
        None \<Rightarrow> Some (Inl Use_after_free)
      | Some r \<Rightarrow>
          (case rq_data r of
             None \<Rightarrow> Some (Inl Assert_failed)
           | Some a \<Rightarrow>
               bindO (Some (readR (files s) a)) (\<lambda>d.
               bindO (request_sendfile (file_name d) (file_buf d) (file_size d) (kout c)) (\<lambda>ko.
                 Some (Inr (c\<lparr>kout := ko\<rparr>))))))"

text \<open>\<open>add_to_queue\<close> and \<open>remove_from_queue\<close> on the list of files being sent.\<close>

definition inflight_add :: "addr \<Rightarrow> shared \<Rightarrow> shared" where
  "inflight_add a s = s\<lparr>inflight_q := inflight_q s @ [a]\<rparr>"

definition inflight_remove :: "string \<Rightarrow> shared \<Rightarrow> (addr option \<times> shared) res" where
  "inflight_remove name s =
     bindR (find_file (files s) name (inflight_q s)) (\<lambda>r.
       Inr (r, case r of None \<Rightarrow> s | Some a \<Rightarrow> s\<lparr>inflight_q := remove1 a (inflight_q s)\<rparr>))"

section \<open>The handler\<close>

datatype phase =
    P_init | P_short | P_lookup | P_read | P_insert | P_add | P_send | P_remove | P_out | P_done | P_return

record handler =
  pc :: phase
  rq :: "request option"
  data :: "addr option"
  conn :: conn

text \<open>The file of this name is cached: the request takes the cached structure, its own is freed.\<close>

definition use_cached :: "string \<Rightarrow> handler \<Rightarrow> shared \<Rightarrow> (handler \<times> shared) res" where
  "use_cached name h s =
     bindR (getCachedFile name s) (\<lambda>f.
       case (rq h, data h) of
         (Some r, Some d) \<Rightarrow>
           bindR (readR (files s) d) (\<lambda>_.
             Inr (h\<lparr>pc := P_add, rq := Some (request_set_data r f), data := f\<rparr>,
                  s\<lparr>files := (files s)(d := None)\<rparr>))
       | _ \<Rightarrow> Inl Use_after_free)"

text \<open>
  The steps. \<open>d\<close> is the address \<open>Malloc\<close> returns for the file structure. \<open>P_short\<close> is the
  branch without a cache; the labels \<open>out\<close> and \<open>done\<close> are \<open>P_out\<close> and \<open>P_done\<close>, and the
  first falls through to the second.
\<close>

definition req_init :: "int \<Rightarrow> addr \<Rightarrow> handler \<Rightarrow> shared \<Rightarrow> (handler \<times> shared) io" where
  "req_init fd d h s =
     bindO (request_open fd d (conn h) (file_data_init d s)) (\<lambda>(r, c, s).
       case r of
         None \<Rightarrow> bindO (Some (file_data_free d s)) (\<lambda>s. Some (Inr (h\<lparr>pc := P_return, conn := c\<rparr>, s)))
       | Some _ \<Rightarrow> Some (Inr (h\<lparr>pc := if fileCache s = None then P_short else P_lookup,
                                  rq := r, data := Some d, conn := c\<rparr>, s)))"

definition req_short :: "(string \<Rightarrow> stat option) \<Rightarrow> (string \<Rightarrow> kern option) \<Rightarrow> handler \<Rightarrow> shared \<Rightarrow> (handler \<times> shared) io" where
  "req_short stat_of disk h s =
     bindO (readfile stat_of disk (rq h) (conn h) s) (\<lambda>(ok, c, s).
       bindO (if ok then sendfile (rq h) c s else Some (Inr c)) (\<lambda>c.
       bindO (Some (request_destroy (rq h) c)) (\<lambda>c.
       bindO (Some (file_data_free (the (data h)) s)) (\<lambda>s.
         Some (Inr (h\<lparr>pc := P_return, rq := None, data := None, conn := c\<rparr>, s))))))"

definition req_lookup :: "handler \<Rightarrow> shared \<Rightarrow> (handler \<times> shared) res" where
  "req_lookup h s =
     bindR (deref s (data h)) (\<lambda>d.
     bindR (cache_lookup (file_name d) s) (\<lambda>(found, s).
       if found then use_cached (file_name d) h s else Inr (h\<lparr>pc := P_read\<rparr>, s)))"

definition req_read :: "(string \<Rightarrow> stat option) \<Rightarrow> (string \<Rightarrow> kern option) \<Rightarrow> handler \<Rightarrow> shared \<Rightarrow> (handler \<times> shared) io" where
  "req_read stat_of disk h s =
     bindO (readfile stat_of disk (rq h) (conn h) s) (\<lambda>(ok, c, s).
       Some (Inr (h\<lparr>pc := if ok then P_insert else P_out, conn := c\<rparr>, s)))"

definition req_insert :: "handler \<Rightarrow> shared \<Rightarrow> (handler \<times> shared) res" where
  "req_insert h s =
     bindR (deref s (data h)) (\<lambda>d.
     bindR (cache_lookup (file_name d) s) (\<lambda>(found, s).
       if found then use_cached (file_name d) h s
       else bindR (cache_insert (the (data h)) s) (\<lambda>(_, s). Inr (h\<lparr>pc := P_add\<rparr>, s))))"

definition req_add :: "handler \<Rightarrow> shared \<Rightarrow> (handler \<times> shared) res" where
  "req_add h s =
     bindR (deref s (data h)) (\<lambda>_. Inr (h\<lparr>pc := P_send\<rparr>, inflight_add (the (data h)) s))"

definition req_send :: "handler \<Rightarrow> shared \<Rightarrow> (handler \<times> shared) io" where
  "req_send h s =
     bindO (sendfile (rq h) (conn h) s) (\<lambda>c. Some (Inr (h\<lparr>pc := P_remove, conn := c\<rparr>, s)))"

definition req_remove :: "handler \<Rightarrow> shared \<Rightarrow> (handler \<times> shared) res" where
  "req_remove h s =
     bindR (deref s (data h)) (\<lambda>d.
     bindR (inflight_remove (file_name d) s) (\<lambda>(f, s).
       if f = None then Inl Null_deref else Inr (h\<lparr>pc := P_done\<rparr>, s)))"

definition req_out :: "handler \<Rightarrow> shared \<Rightarrow> (handler \<times> shared) res" where
  "req_out h s =
     bindR (request_destroy (rq h) (conn h)) (\<lambda>c.
     bindR (file_data_free (the (data h)) s) (\<lambda>s.
       Inr (h\<lparr>pc := P_done, rq := None, conn := c\<rparr>, s)))"

definition req_done :: "handler \<Rightarrow> shared \<Rightarrow> (handler \<times> shared) res" where
  "req_done h s =
     bindR (request_destroy (rq h) (conn h)) (\<lambda>c. Inr (h\<lparr>pc := P_return, rq := None, conn := c\<rparr>, s))"

definition req_step :: "(string \<Rightarrow> stat option) \<Rightarrow> (string \<Rightarrow> kern option) \<Rightarrow> int \<Rightarrow> addr \<Rightarrow>
    handler \<Rightarrow> shared \<Rightarrow> (handler \<times> shared) io" where
  "req_step stat_of disk fd d h s =
     (case pc h of
        P_init \<Rightarrow> req_init fd d h s
      | P_short \<Rightarrow> req_short stat_of disk h s
      | P_lookup \<Rightarrow> Some (req_lookup h s)
      | P_read \<Rightarrow> req_read stat_of disk h s
      | P_insert \<Rightarrow> Some (req_insert h s)
      | P_add \<Rightarrow> Some (req_add h s)
      | P_send \<Rightarrow> req_send h s
      | P_remove \<Rightarrow> Some (req_remove h s)
      | P_out \<Rightarrow> Some (req_out h s)
      | P_done \<Rightarrow> Some (req_done h s)
      | P_return \<Rightarrow> Some (Inr (h, s)))"

text \<open>Steps that are left, at most: the routine has no loop.\<close>

fun phase_rank :: "phase \<Rightarrow> nat" where
  "phase_rank P_init = 8"
| "phase_rank P_short = 1"
| "phase_rank P_lookup = 7"
| "phase_rank P_read = 6"
| "phase_rank P_insert = 5"
| "phase_rank P_add = 4"
| "phase_rank P_send = 3"
| "phase_rank P_remove = 2"
| "phase_rank P_out = 2"
| "phase_rank P_done = 1"
| "phase_rank P_return = 0"

lemmas req_defs = req_init_def req_short_def req_lookup_def req_read_def req_insert_def req_add_def
  req_send_def req_remove_def req_out_def req_done_def

lemma bindO_cong [fundef_cong]:
  "r = r' \<Longrightarrow> (\<And>x. r' = Some (Inr x) \<Longrightarrow> f x = f' x) \<Longrightarrow> bindO r f = bindO r' f'"
  by (auto simp: bindO_def split: option.splits sum.splits)

lemma use_cached_pc: "use_cached name h s = Inr (h', s') \<Longrightarrow> pc h' = P_add"
  by (cases "rq h"; cases "data h") (auto simp: use_cached_def bindR_eq_Inr)

lemma req_step_rank:
  "pc h \<noteq> P_return \<Longrightarrow> req_step stat_of disk fd d h s = Some (Inr (h', s')) \<Longrightarrow> phase_rank (pc h') < phase_rank (pc h)"
  by (cases "pc h") (auto simp: req_step_def req_defs bindO_eq_Inr bindR_eq_Inr split: option.splits if_splits prod.splits dest: use_cached_pc)

function req_run :: "(string \<Rightarrow> stat option) \<Rightarrow> (string \<Rightarrow> kern option) \<Rightarrow> int \<Rightarrow> addr \<Rightarrow>
    handler \<Rightarrow> shared \<Rightarrow> (handler \<times> shared) io" where
  "req_run stat_of disk fd d h s =
     (if pc h = P_return then Some (Inr (h, s))
      else bindO (req_step stat_of disk fd d h s) (\<lambda>x. req_run stat_of disk fd d (fst x) (snd x)))"
  by pat_completeness auto
termination
proof (relation "measure (\<lambda>(_, _, _, _, h, _). phase_rank (pc h))", goal_cases)
  case (2 stat_of disk fd d h s x)
  then show ?case using req_step_rank[of h stat_of disk fd d s "fst x" "snd x"] by (simp add: case_prod_beta)
qed simp

declare req_run.simps [simp del]

definition do_server_request :: "(string \<Rightarrow> stat option) \<Rightarrow> (string \<Rightarrow> kern option) \<Rightarrow> addr \<Rightarrow> int \<Rightarrow> conn \<Rightarrow> shared \<Rightarrow>
    (conn \<times> shared) io" where
  "do_server_request stat_of disk d fd c s =
     bindO (req_run stat_of disk fd d \<lparr>pc = P_init, rq = None, data = None, conn = c\<rparr> s) (\<lambda>(h, s).
       Some (Inr (conn h, s)))"


section \<open>A file on disk\<close>

text \<open>The file the server may serve under a name, of at most \<open>2 ^ 31 - 1\<close> bytes; and what serving
  it sends.\<close>

definition on_disk :: "(string \<Rightarrow> stat option) \<Rightarrow> (string \<Rightarrow> kern option) \<Rightarrow> string \<Rightarrow> string \<Rightarrow> bool" where
  "on_disk stat_of disk name content \<longleftrightarrow> servable name \<and> length content < 2 ^ 31 \<and>
     (case stat_of name of None \<Rightarrow> False
        | Some sb \<Rightarrow> S_ISREG sb \<and> S_IRUSR sb \<and> st_size sb = int (length content)) \<and>
     (case disk name of None \<Rightarrow> False
        | Some src \<Rightarrow> stream src = content \<and> enough (Suc (length content)) src)"

abbreviation size32 :: "string \<Rightarrow> 32 word" where
  "size32 content \<equiv> word_of_int (int (length content))"

definition ok_response :: "string \<Rightarrow> string \<Rightarrow> string" where
  "ok_response name content = ok_header name content (size32 content) @ content"

lemma on_disk_readfile:
  assumes "on_disk stat_of disk name content"
  shows "request_readfile stat_of disk name k = Some (Inr (Some (content, size32 content), k))"
proof -
  from assms obtain sb src where "servable name" "stat_of name = Some sb" "S_ISREG sb" "S_IRUSR sb"
    "disk name = Some src" "stream src = content" "enough (Suc (length (stream src))) src"
    "st_size sb = int (length (stream src))" "length content < 2 ^ 31"
    by (auto simp: on_disk_def split: option.splits)
  with readfile_serves[of name stat_of sb disk src k] show ?thesis by simp
qed

lemma sint_size32: "length content < 2 ^ 31 \<Longrightarrow> sint (size32 content) = int (length content)"
  by (intro sint_of_size) simp_all

lemma request_sendfile_ok:
  assumes "length content < 2 ^ 31" and "enough (length (ok_response name content)) k"
  shows "\<exists>k'. request_sendfile name content (size32 content) k = Some (Inr k') \<and>
    stream k' = stream k @ ok_response name content"
proof -
  let ?h = "ok_header name content (size32 content)"
  have "enough (length content + length ?h) k" using assms(2) by (simp add: ok_response_def add.commute)
  from Rio_write_ok[OF this] obtain k1 where
    1: "Rio_write ?h k = Some (Inr k1)" "stream k1 = stream k @ ?h" "enough (0 + length content) k1" by auto
  from Rio_write_ok[OF 1(3)] obtain k2 where 2: "Rio_write content k1 = Some (Inr k2)" "stream k2 = stream k1 @ content"
    by blast
  have "request_sendfile name content (size32 content) k = (if content \<noteq> [] then Rio_write content k1 else Some (Inr k1))"
    using sint_size32[OF assms(1)] 1(1) by (simp add: request_sendfile_def Let_def)
  then show ?thesis using 1(2) 2 by (auto simp: ok_response_def)
qed

section \<open>Runs\<close>

lemma req_run_step:
  "pc h \<noteq> P_return \<Longrightarrow> req_step stat_of disk fd d h s = Some (Inr (h', s')) \<Longrightarrow>
   req_run stat_of disk fd d h s = req_run stat_of disk fd d h' s'"
  by (subst req_run.simps) simp

lemma req_run_fault:
  "pc h \<noteq> P_return \<Longrightarrow> req_step stat_of disk fd d h s = Some (Inl e) \<Longrightarrow> req_run stat_of disk fd d h s = Some (Inl e)"
  by (subst req_run.simps) simp

lemma req_run_return: "pc h = P_return \<Longrightarrow> req_run stat_of disk fd d h s = Some (Inr (h, s))"
  by (subst req_run.simps) simp

text \<open>A file structure that holds a file of the disk.\<close>

definition entry_ok :: "(string \<Rightarrow> stat option) \<Rightarrow> (string \<Rightarrow> kern option) \<Rightarrow> file_data \<Rightarrow> bool" where
  "entry_ok stat_of disk e \<longleftrightarrow> on_disk stat_of disk (file_name e) (file_buf e) \<and> file_size e = size32 (file_buf e)"

text \<open>From \<open>add_to_queue\<close> on: the file is sent, and the shared state is as before.\<close>

lemma run_from_add:
  assumes "pc h = P_add" and "data h = Some a" and "rq h = Some r" and "rq_data r = Some a"
    and "is_open (conn h)" and "files s a = Some e" and "entry_ok stat_of disk e"
    and "enough (length (ok_response (file_name e) (file_buf e))) (kout (conn h))"
    and "\<forall>b\<in>set (inflight_q s). files s b \<noteq> None" and "file_name e \<notin> name_of s ` set (inflight_q s)"
  shows "\<exists>h'. req_run stat_of disk fd d h s = Some (Inr (h', s)) \<and> \<not> is_open (conn h') \<and>
    stream (kout (conn h')) = stream (kout (conn h)) @ ok_response (file_name e) (file_buf e)"
proof -
  define h1 where "h1 = h\<lparr>pc := P_send\<rparr>"
  define s1 where "s1 = inflight_add a s"
  have 1: "req_step stat_of disk fd d h s = Some (Inr (h1, s1))"
    using assms by (simp add: req_step_def req_add_def deref_def h1_def s1_def)
  have "length (file_buf e) < 2 ^ 31" "file_size e = size32 (file_buf e)"
    using assms(7) by (auto simp: entry_ok_def on_disk_def)
  with request_sendfile_ok[OF _ assms(8)] obtain k where
    k: "request_sendfile (file_name e) (file_buf e) (file_size e) (kout (conn h)) = Some (Inr k)"
    "stream k = stream (kout (conn h)) @ ok_response (file_name e) (file_buf e)" by auto
  define h2 where "h2 = h1\<lparr>pc := P_remove, conn := (conn h)\<lparr>kout := k\<rparr>\<rparr>"
  have 2: "req_step stat_of disk fd d h1 s1 = Some (Inr (h2, s1))"
    using assms k by (simp add: req_step_def req_send_def sendfile_def h1_def s1_def inflight_add_def h2_def)
  have an: "a \<notin> set (inflight_q s)" using assms(6,10) by (force simp: name_of_def)
  have "List.find (\<lambda>b. name_of s b = file_name e) (inflight_q s) = None"
    using assms(10) by (intro find_no_match) force
  then have f: "find_file (files s) (file_name e) (inflight_q s @ [a]) = Inr (Some a)"
    using find_file_eq[of "inflight_q s @ [a]" s "file_name e"] assms(6,9)
    by (auto simp: find_append name_of_def)
  have 3: "req_step stat_of disk fd d h2 s1 = Some (Inr (h2\<lparr>pc := P_done\<rparr>, s))"
    using assms f an
    by (simp add: req_step_def req_remove_def deref_def inflight_remove_def h1_def s1_def inflight_add_def h2_def remove1_append)
  define h4 where "h4 = h2\<lparr>pc := P_return, rq := None, conn := (conn h)\<lparr>kout := k, is_open := False\<rparr>\<rparr>"
  have 4: "req_step stat_of disk fd d (h2\<lparr>pc := P_done\<rparr>) s = Some (Inr (h4, s))"
    using assms by (simp add: req_step_def req_done_def request_destroy_def h4_def h2_def h1_def)
  have "req_run stat_of disk fd d h s = Some (Inr (h4, s))"
    using req_run_step[OF _ 1] req_run_step[OF _ 2] req_run_step[OF _ 3] req_run_step[OF _ 4] req_run_return[of h4] assms(1)
    by (simp add: h1_def h2_def h4_def)
  then show ?thesis using k(2) by (auto simp: h4_def)
qed


section \<open>The cache and the disk\<close>

text \<open>Every cached file holds what is on the disk, and none is being sent.\<close>

definition cache_ok :: "(string \<Rightarrow> stat option) \<Rightarrow> (string \<Rightarrow> kern option) \<Rightarrow> shared \<Rightarrow> bool" where
  "cache_ok stat_of disk s \<longleftrightarrow> cache_inv s \<and> idle s \<and> (\<forall>a\<in>set (LRU_Policy s). entry_ok stat_of disk (the (files s a)))"

abbreviation set_file :: "addr \<Rightarrow> file_data option \<Rightarrow> shared \<Rightarrow> shared" where
  "set_file d x s \<equiv> s\<lparr>files := (files s)(d := x)\<rparr>"

lemma set_file_name: "b \<noteq> d \<Longrightarrow> name_of (set_file d x s) b = name_of s b"
  and set_file_size: "b \<noteq> d \<Longrightarrow> size_of (set_file d x s) b = size_of s b"
  by (simp_all add: name_of_def size_of_def)

text \<open>A file structure outside the cache does not matter to it.\<close>

lemma cache_inv_set_file:
  assumes "cache_inv s" and "d \<notin> set (LRU_Policy s)"
  shows "cache_inv (set_file d x s)"
proof -
  have n: "name_of (set_file d x s) b = name_of s b" "size_of (set_file d x s) b = size_of s b" "b \<noteq> d"
    if "b \<in> set (LRU_Policy s)" for b using that assms(2) set_file_name set_file_size by (metis)+
  have t: "total_bytes (set_file d x s) (LRU_Policy s) = total_bytes s (LRU_Policy s)"
    using assms(2) by (intro total_cong) auto
  have i: "inj_on (name_of (set_file d x s)) (set (LRU_Policy s)) \<longleftrightarrow> inj_on (name_of s) (set (LRU_Policy s))"
    using n(1) by (intro inj_on_cong) auto
  have c: "{a \<in> set (LRU_Policy s). hash_index (name_of (set_file d x s) a) wc = Inr h} =
      {a \<in> set (LRU_Policy s). hash_index (name_of s a) wc = Inr h}" for wc h using n(1) by auto
  show ?thesis using assms(1) n(2,3) unfolding cache_inv_def by (simp add: t i c split: option.splits)
qed

lemma set_file_LRU_names:
  "d \<notin> set (LRU_Policy s) \<Longrightarrow> name_of (set_file d x s) ` set (LRU_Policy s) = name_of s ` set (LRU_Policy s)"
  by (intro image_cong refl set_file_name) auto

lemma set_file_cached: "d \<notin> set (LRU_Policy s) \<Longrightarrow> cached (set_file d x s) name = cached s name"
  unfolding cached_def by (rule find_cong) (auto simp: name_of_def)

lemma cache_ok_set_file:
  assumes "cache_ok stat_of disk s" and "d \<notin> set (LRU_Policy s)" and "d \<notin> set (inflight_q s)"
  shows "cache_ok stat_of disk (set_file d x s)"
proof -
  have "idle (set_file d x s)"
    unfolding idle_def using assms set_file_LRU_names[OF assms(2), of x]
    by (auto simp: cache_ok_def idle_def set_file_name)
  moreover have "\<forall>a\<in>set (LRU_Policy s). entry_ok stat_of disk (the (((files s)(d := x)) a))"
    using assms(1,2) by (auto simp: cache_ok_def)
  ultimately show ?thesis using cache_inv_set_file[of s d x] assms by (simp add: cache_ok_def)
qed

lemma cache_ok_fresh:
  assumes "cache_ok stat_of disk s" and "files s d = None"
  shows "d \<notin> set (LRU_Policy s)" and "d \<notin> set (inflight_q s)"
  using assms cache_inv_LRU(3)[of s d] by (auto simp: cache_ok_def idle_def)

text \<open>Looking up a cached file and inserting a new one keep the cache in step with the disk.\<close>

lemma cache_ok_move:
  assumes "cache_ok stat_of disk s" and "a \<in> set (LRU_Policy s)"
  shows "cache_ok stat_of disk (s\<lparr>LRU_Policy := remove1 a (LRU_Policy s) @ [a]\<rparr>)"
proof -
  have "distinct (LRU_Policy s)" using assms(1) cache_inv_LRU(1) by (simp add: cache_ok_def)
  then have "set (remove1 a (LRU_Policy s) @ [a]) = set (LRU_Policy s)" using assms(2) by (auto simp: set_remove1_eq)
  with assms cache_inv_move[of s a] show ?thesis by (auto simp: cache_ok_def idle_def name_of_def)
qed


text \<open>What the LRU list becomes when the file of this name is served from structure \<open>d\<close>.\<close>

definition served_LRU :: "string \<Rightarrow> string \<Rightarrow> addr \<Rightarrow> shared \<Rightarrow> addr list" where
  "served_LRU name content d s =
     (case cached s name of
        Some a \<Rightarrow> remove1 a (LRU_Policy s) @ [a]
      | None \<Rightarrow>
          if int (length content) \<le> cMAX_SIZE (the_cache s)
          then make_room (size_of s) (cMAX_SIZE (the_cache s)) (int (length content)) (LRU_Policy s) @ [d]
          else LRU_Policy s)"

lemma insert_ok:
  assumes "cache_ok stat_of disk s" and "files s d = Some e" and "entry_ok stat_of disk e"
    and "cached s (file_name e) = None" and "d \<notin> set (inflight_q s)" and "file_name e \<notin> name_of s ` set (inflight_q s)"
  shows "\<exists>b s'. cache_insert d s = Inr (b, s') \<and> cache_ok stat_of disk s' \<and> files s' d = Some e \<and>
    LRU_Policy s' = served_LRU (file_name e) (file_buf e) d s \<and> inflight_q s' = inflight_q s \<and>
    (\<forall>b\<in>set (inflight_q s). files s' b = files s b) \<and> (\<forall>b. files s b = None \<longrightarrow> files s' b = None)"
proof -
  have i: "cache_inv s" "idle s" using assms(1) by (auto simp: cache_ok_def)
  have z: "size_of s d = int (length (file_buf e))" "name_of s d = file_name e"
    using assms(2,3) sint_size32[of "file_buf e"] by (auto simp: size_of_def name_of_def entry_ok_def on_disk_def)
  have nl: "file_name e \<notin> name_of s ` set (LRU_Policy s)" using assms(4) by (simp add: cached_None)
  have dl: "d \<notin> set (LRU_Policy s)" using nl z(2) by (metis imageI)
  show ?thesis
  proof (cases "int (length (file_buf e)) \<le> cMAX_SIZE (the_cache s)")
    case False
    then have "insert_to_cache d s = Inr (False, s)" using i(1) assms(2) z by (intro insert_refused) auto
    with False assms show ?thesis by (auto simp: cache_insert_def served_LRU_def)
  next
    case True
    then have "insertable d s" using assms(2) z nl by (simp add: insertable_def)
    from insert_spec[OF i this] obtain s' where s': "insert_to_cache d s = Inr (True, s')" "cache_inv s'"
      and L: "LRU_Policy s' = make_room (size_of s) (cMAX_SIZE (the_cache s)) (size_of s d) (LRU_Policy s) @ [d]"
      and F: "files s' = (\<lambda>a. if a \<in> set (LRU_Policy s) - set (LRU_Policy s') then None else files s a)"
      and Q: "inflight_q s' = inflight_q s" by blast
    obtain es where "LRU_Policy s = es @ make_room (size_of s) (cMAX_SIZE (the_cache s)) (size_of s d) (LRU_Policy s)"
      using make_room_suffix by blast
    then have "set (make_room (size_of s) (cMAX_SIZE (the_cache s)) (size_of s d) (LRU_Policy s)) \<subseteq> set (LRU_Policy s)"
      by (metis Un_upper2 set_append)
    then have sub: "set (LRU_Policy s') \<subseteq> insert d (set (LRU_Policy s))" unfolding L by auto
    have fl: "files s' b = files s b" if "b \<in> insert d (set (inflight_q s))" for b
      using that i(2) dl by (auto simp: F idle_def)
    have fk: "files s' b = files s b" if "b \<in> set (LRU_Policy s')" for b using that by (simp add: F)
    have fn: "\<forall>b. files s b = None \<longrightarrow> files s' b = None" by (simp add: F)
    have "idle s'"
      unfolding idle_def Q
    proof (intro ballI conjI notI)
      fix b assume b: "b \<in> set (inflight_q s)"
      show "False" if "files s' b = None" using b that i(2) fl by (auto simp: idle_def)
      assume "name_of s' b \<in> name_of s' ` set (LRU_Policy s')"
      then obtain c where c: "c \<in> set (LRU_Policy s')" "name_of s' b = name_of s' c" by auto
      then have "name_of s b = name_of s c" using fk fl b by (simp add: name_of_def)
      with c(1) sub b i(2) assms(6) z(2) show False by (force simp: idle_def)
    qed
    moreover have "entry_ok stat_of disk (the (files s' c))" if "c \<in> set (LRU_Policy s')" for c
      using that sub fk[OF that] assms(1-3) by (auto simp: cache_ok_def)
    ultimately show ?thesis
      using s' L Q fl fn assms(2,4) True z by (auto simp: cache_ok_def cache_insert_def served_LRU_def)
  qed
qed


lemma on_disk_unique: "on_disk stat_of disk name c \<Longrightarrow> on_disk stat_of disk name c' \<Longrightarrow> c = c'"
  by (auto simp: on_disk_def split: option.splits)

lemma cached_unique: "cache_inv s \<Longrightarrow> a \<in> set (LRU_Policy s) \<Longrightarrow> cached s (name_of s a) = Some a"
  unfolding cached_def by (intro find_unique cache_inv_LRU(2))

lemma served_LRU_set_file:
  assumes "d \<notin> set (LRU_Policy s)"
  shows "served_LRU name content d (set_file d x s) = served_LRU name content d s"
proof -
  have "make_room (size_of (set_file d x s)) m n (LRU_Policy s) = make_room (size_of s) m n (LRU_Policy s)" for m n
    using assms by (intro make_room_cong set_file_size) auto
  then show ?thesis by (simp add: served_LRU_def set_file_cached[OF assms] split: option.split)
qed

text \<open>A request for a cached file.\<close>

lemma lookup_hit:
  assumes "cache_ok stat_of disk s" and "cached s name = Some a" and "pc h = P_lookup" and "data h = Some d"
    and "rq h = Some r" and "files s d = Some e" and "file_name e = name" and "d \<notin> set (LRU_Policy s)"
  shows "req_step stat_of disk fd d h s = Some (Inr
    (h\<lparr>pc := P_add, rq := Some (r\<lparr>rq_data := Some a\<rparr>), data := Some a\<rparr>,
     set_file d None (s\<lparr>LRU_Policy := remove1 a (LRU_Policy s) @ [a]\<rparr>)))"
proof -
  let ?s = "s\<lparr>LRU_Policy := remove1 a (LRU_Policy s) @ [a]\<rparr>"
  have a: "a \<in> set (LRU_Policy s)" "name_of s a = name" using cached_Some[OF assms(2)] by auto
  have i: "cache_inv s" "cache_inv ?s" using assms(1) cache_ok_move[OF assms(1) a(1)] by (auto simp: cache_ok_def)
  have "getCachedFile name ?s = Inr (Some a)"
    using getCachedFile_spec[OF i(2)] cached_unique[OF i(2), of a] a(2) by (simp add: name_of_def)
  with lookup_spec[OF i(1), of name] assms show ?thesis
    by (simp add: req_step_def req_lookup_def deref_def use_cached_def request_set_data_def)
qed

text \<open>A request for a file that is not cached, up to the insertion.\<close>

lemma lookup_miss:
  assumes "cache_ok stat_of disk s" and "cached s name = None" and "pc h = P_lookup" and "data h = Some d"
    and "rq h = Some r" and "rq_data r = Some d" and "files s d = Some e" and "file_name e = name"
    and "d \<notin> set (LRU_Policy s)" and "d \<notin> set (inflight_q s)" and "name \<notin> name_of s ` set (inflight_q s)"
    and "on_disk stat_of disk name content"
  shows "\<exists>s' e'. req_run stat_of disk fd d h s = req_run stat_of disk fd d (h\<lparr>pc := P_add\<rparr>) s' \<and>
    cache_ok stat_of disk s' \<and> files s' d = Some e' \<and> file_name e' = name \<and> file_buf e' = content \<and>
    entry_ok stat_of disk e' \<and> LRU_Policy s' = served_LRU name content d s \<and> inflight_q s' = inflight_q s \<and>
    name \<notin> name_of s' ` set (inflight_q s) \<and> (\<forall>b. b \<noteq> d \<longrightarrow> files s b = None \<longrightarrow> files s' b = None)"
proof -
  have 1: "req_step stat_of disk fd d h s = Some (Inr (h\<lparr>pc := P_read\<rparr>, s))"
    using assms lookup_spec[of s name] by (simp add: req_step_def req_lookup_def deref_def cache_ok_def)
  define e' where "e' = e\<lparr>file_buf := content, file_size := size32 content\<rparr>"
  let ?s = "set_file d (Some e') s"
  have 2: "req_step stat_of disk fd d (h\<lparr>pc := P_read\<rparr>) s = Some (Inr (h\<lparr>pc := P_insert\<rparr>, ?s))"
    using assms on_disk_readfile[OF assms(12)] by (simp add: req_step_def req_read_def readfile_def e'_def)
  have ok: "cache_ok stat_of disk ?s" using cache_ok_set_file[OF assms(1,9,10)] .
  have e': "entry_ok stat_of disk e'" "file_name e' = name" "file_buf e' = content"
    using assms(8,12) by (simp_all add: entry_ok_def e'_def)
  have c: "cached ?s name = None" using assms(2) set_file_cached[OF assms(9)] by simp
  have "name_of ?s ` set (inflight_q s) = name_of s ` set (inflight_q s)"
    using assms(10) by (intro image_cong refl set_file_name) auto
  then have q: "name \<notin> name_of ?s ` set (inflight_q s)" using assms(11) by simp
  from insert_ok[OF ok _ e'(1), of d] c q assms(10) e'(2,3) obtain b s' where
    s': "cache_insert d ?s = Inr (b, s')" "cache_ok stat_of disk s'" "files s' d = Some e'"
    "LRU_Policy s' = served_LRU name content d ?s" "inflight_q s' = inflight_q s"
    "\<forall>b\<in>set (inflight_q s). files s' b = files ?s b" "\<forall>b. files ?s b = None \<longrightarrow> files s' b = None" by auto
  have 3: "req_step stat_of disk fd d (h\<lparr>pc := P_insert\<rparr>) ?s = Some (Inr (h\<lparr>pc := P_add\<rparr>, s'))"
    using assms(4) e'(2) lookup_spec[of ?s name] ok c s'(1)
    by (simp add: req_step_def req_insert_def deref_def cache_ok_def)
  have "name_of s' ` set (inflight_q s) = name_of ?s ` set (inflight_q s)"
    using s'(6) by (intro image_cong) (auto simp: name_of_def)
  with q s' e' served_LRU_set_file[OF assms(9)] show ?thesis
    using req_run_step[OF _ 1] req_run_step[OF _ 2] req_run_step[OF _ 3] assms(3) by auto
qed

lemma run_from_lookup:
  assumes "cache_ok stat_of disk s" and "pc h = P_lookup" and "data h = Some d"
    and "rq h = Some r" and "rq_data r = Some d" and "files s d = Some e" and "file_name e = name"
    and "d \<notin> set (LRU_Policy s)" and "d \<notin> set (inflight_q s)" and "name \<notin> name_of s ` set (inflight_q s)"
    and "on_disk stat_of disk name content" and "is_open (conn h)"
    and "enough (length (ok_response name content)) (kout (conn h))"
  shows "\<exists>h' s'. req_run stat_of disk fd d h s = Some (Inr (h', s')) \<and> \<not> is_open (conn h') \<and>
    stream (kout (conn h')) = stream (kout (conn h)) @ ok_response name content \<and> cache_ok stat_of disk s' \<and>
    LRU_Policy s' = served_LRU name content d s \<and> inflight_q s' = inflight_q s \<and>
    (\<forall>b. b \<noteq> d \<longrightarrow> files s b = None \<longrightarrow> files s' b = None)"
proof (cases "cached s name")
  case None
  from lookup_miss[OF assms(1) None assms(2-11), of fd] obtain s' e' where
    s': "req_run stat_of disk fd d h s = req_run stat_of disk fd d (h\<lparr>pc := P_add\<rparr>) s'"
    "cache_ok stat_of disk s'" "files s' d = Some e'" "file_name e' = name" "file_buf e' = content"
    "entry_ok stat_of disk e'" "LRU_Policy s' = served_LRU name content d s" "inflight_q s' = inflight_q s"
    "name \<notin> name_of s' ` set (inflight_q s')" "\<forall>b. b \<noteq> d \<longrightarrow> files s b = None \<longrightarrow> files s' b = None" by auto
  have "\<forall>b\<in>set (inflight_q s'). files s' b \<noteq> None" using s'(2) by (simp add: cache_ok_def idle_def)
  with run_from_add[of "h\<lparr>pc := P_add\<rparr>" d r s' e' stat_of disk fd d] s' assms show ?thesis by auto
next
  case (Some a)
  let ?s = "s\<lparr>LRU_Policy := remove1 a (LRU_Policy s) @ [a]\<rparr>"
  let ?h = "h\<lparr>pc := P_add, rq := Some (r\<lparr>rq_data := Some a\<rparr>), data := Some a\<rparr>"
  have a: "a \<in> set (LRU_Policy s)" "name_of s a = name" "a \<noteq> d" using cached_Some[OF Some] assms(8) by auto
  obtain f where f: "files s a = Some f" "entry_ok stat_of disk f" "file_name f = name"
    using a cache_inv_LRU(3)[of s a] assms(1) by (fastforce simp: cache_ok_def name_of_def)
  have b: "file_buf f = content" using on_disk_unique assms(11) f(2,3) by (auto simp: entry_ok_def)
  have dl: "d \<notin> set (LRU_Policy ?s)" using a assms(8) by (auto dest: notin_set_remove1)
  have ok: "cache_ok stat_of disk (set_file d None ?s)"
    using cache_ok_set_file[OF cache_ok_move[OF assms(1) a(1)] dl] assms(9) by simp
  have q: "name_of (set_file d None ?s) b = name_of s b" if "b \<in> set (inflight_q s)" for b
    using that assms(9) by (auto simp: name_of_def)
  have al: "\<forall>b\<in>set (inflight_q s). files (set_file d None ?s) b \<noteq> None" using ok by (simp add: cache_ok_def idle_def)
  have "\<exists>h'. req_run stat_of disk fd d ?h (set_file d None ?s) = Some (Inr (h', set_file d None ?s)) \<and>
      \<not> is_open (conn h') \<and> stream (kout (conn h')) = stream (kout (conn ?h)) @ ok_response (file_name f) (file_buf f)"
    using al f b a assms q by (intro run_from_add[where a = a and r = "r\<lparr>rq_data := Some a\<rparr>"]) (auto simp: image_iff)
  with req_run_step[OF _ lookup_hit[OF assms(1) Some assms(2-4,6-8)]] ok f b assms(2) Some show ?thesis
    by (auto simp: served_LRU_def)
qed


section \<open>The whole routine\<close>

lemma request_init_GET_out:
  "request_init fd ki ko = Some (Inr (Some name, ki', ko')) \<Longrightarrow> ko' = ko"
proof -
  assume r: "request_init fd ki ko = Some (Inr (Some name, ki', ko'))"
  then obtain buf rp k1 where 1: "Rio_readlineb (rio_init fd) ki = Some (Inr (buf, rp, k1))"
    by (auto simp: request_init_def bindO_eq_Inr)
  with r obtain s where s: "buf = Some s" by (cases buf) (auto simp: request_init_def)
  show ?thesis
  proof (cases "sscanf_words 3 (cstr s)")
    case (Cons m args)
    with r 1 s show ?thesis
      by (cases args) (auto simp: request_init_def bindO_eq_Inr split: if_split_asm)
  qed (use r 1 s in \<open>simp add: request_init_def\<close>)
qed

text \<open>The handler and the shared state behind a GET request.\<close>

abbreviation started :: "int \<Rightarrow> addr \<Rightarrow> kern \<Rightarrow> conn \<Rightarrow> shared \<Rightarrow> handler" where
  "started fd d ki c s \<equiv>
     \<lparr>pc = if fileCache s = None then P_short else P_lookup, rq = Some \<lparr>rq_fd = fd, rq_data = Some d\<rparr>,
      data = Some d, conn = c\<lparr>kin := ki\<rparr>\<rparr>"

abbreviation named :: "addr \<Rightarrow> string \<Rightarrow> shared \<Rightarrow> shared" where
  "named d name s \<equiv> set_file d (Some \<lparr>file_name = name, file_buf = [], file_size = 0\<rparr>) s"

lemma do_server_request_GET:
  assumes "request_init fd (kin c) (kout c) = Some (Inr (Some name, ki, ko))"
  shows "do_server_request stat_of disk d fd c s =
    bindO (req_run stat_of disk fd d (started fd d ki c s) (named d name s))
      (\<lambda>(h, s). Some (Inr (conn h, s)))"
proof -
  have "ko = kout c" using request_init_GET_out[OF assms] .
  with assms have "req_step stat_of disk fd d \<lparr>pc = P_init, rq = None, data = None, conn = c\<rparr> s =
      Some (Inr (started fd d ki c s, named d name s))"
    by (simp add: req_step_def req_init_def request_open_def file_data_init_def Let_def)
  from req_run_step[OF _ this] show ?thesis by (simp add: do_server_request_def)
qed

lemma short_run:
  assumes "fileCache s = None" and "files s d = None" and "is_open c"
    and "request_readfile stat_of disk name (kout c) = Some (Inr (x, ko))"
    and "case x of None \<Rightarrow> ko' = ko | Some (buf, n) \<Rightarrow> request_sendfile name buf n ko = Some (Inr ko')"
  shows "\<exists>h'. req_run stat_of disk fd d (started fd d ki c s) (named d name s) =
    Some (Inr (h', s)) \<and> conn h' = c\<lparr>kin := ki, kout := ko', is_open := False\<rparr>"
proof -
  have f: "(files s)(d := None) = files s" using assms(2) by auto
  let ?h = "(started fd d ki c s)\<lparr>pc := P_return, rq := None, data := None,
      conn := c\<lparr>kin := ki, kout := ko', is_open := False\<rparr>\<rparr>"
  have "req_step stat_of disk fd d (started fd d ki c s) (named d name s) = Some (Inr (?h, s))"
    using assms f by (cases x) (auto simp: req_step_def req_short_def readfile_def sendfile_def request_destroy_def
      file_data_free_def)
  from req_run_step[OF _ this] req_run_return[of ?h] assms(1) show ?thesis by auto
qed

text \<open>A GET request that fits the buffers.\<close>

lemma request_init_GET:
  assumes "stream ki = l @ concat ls @ crlf @ rest" and "header_lines (l # ls)"
    and "enough (Suc (Suc (length ls)) * Suc MAXLINE) ki"
    and "sscanf_words 3 (cstr l) = m # uri # args" and "strcasecmp_eq m ''GET''"
  shows "\<exists>ki'. request_init fd ki ko = Some (Inr (Some (request_parse_URI uri MAXLINE), ki', ko))"
proof -
  have l: "length l < MAXLINE" "l \<noteq> []" "last l = CHR 0x0A" "CHR 0x0A \<notin> set (butlast l)" "header_lines ls"
    using assms(2) by (simp_all add: header_lines_def)
  have "\<exists>rp' k'. Rio_readlineb (rio_init fd) ki = Some (Inr (Some l, rp', k')) \<and> pending rp' k' = concat ls @ crlf @ rest \<and>
      enough (0 + Suc (length ls) * Suc MAXLINE) k'"
    using assms(1,3) l by (intro Rio_readlineb_ok) (auto simp: pending_def rio_init_def algebra_simps)
  then obtain rp1 k1 where 1: "Rio_readlineb (rio_init fd) ki = Some (Inr (Some l, rp1, k1))"
    "pending rp1 k1 = concat ls @ crlf @ rest" "enough (0 + Suc (length ls) * Suc MAXLINE) k1" by blast
  from read_headers_complete[OF l(5) 1(2,3), of None] obtain rp2 k2 where
    "request_read_headers None rp1 k1 = Some (Inr (rp2, k2))" by blast
  with 1(1) assms(4,5) show ?thesis by (simp add: request_init_def)
qed

text \<open>A connection on which \<open>/a.txt\<close> is requested.\<close>

definition get_conn :: conn where
  "get_conn = \<lparr>kin = \<lparr>stream = ''GET /a.txt HTTP/1.0'' @ [CHR 0x0A] @ crlf, sched = replicate 20000 (K_bytes 50)\<rparr>,
     kout = \<lparr>stream = [], sched = replicate 1000 (K_bytes 50)\<rparr>, is_open = True\<rparr>"

lemma get_conn_init: "\<exists>ki. request_init fd (kin get_conn) (kout get_conn) = Some (Inr (Some ''.//a.txt'', ki, kout get_conn))"
proof -
  let ?l = "''GET /a.txt HTTP/1.0'' @ [CHR 0x0A]"
  have "stream (kin get_conn) = ?l @ concat [] @ crlf @ []" "header_lines [?l]"
    "enough (Suc (Suc (length [])) * Suc MAXLINE) (kin get_conn)"
    by (simp_all add: get_conn_def header_lines_def MAXLINE_def enough_def)
  moreover have "sscanf_words 3 (cstr ?l) = ''GET'' # ''/a.txt'' # [''HTTP/1.0'']" "strcasecmp_eq ''GET'' ''GET''" by code_simp+
  ultimately show ?thesis
    using request_init_GET[of "kin get_conn" ?l "[]" "[]"] by (simp add: request_parse_URI_def MAXLINE_def)
qed

lemma serves_request:
  assumes "request_init fd (kin c) (kout c) = Some (Inr (Some name, ki, ko))" and "is_open c"
    and "on_disk stat_of disk name content" and "enough (length (ok_response name content)) (kout c)"
    and "files s d = None" and "name \<notin> name_of s ` set (inflight_q s)"
    and "fileCache s = None \<or> cache_ok stat_of disk s"
  shows "\<exists>c' s'. do_server_request stat_of disk d fd c s = Some (Inr (c', s')) \<and> \<not> is_open c' \<and>
    stream (kout c') = stream (kout c) @ ok_response name content \<and>
    (if fileCache s = None then s' = s
     else cache_ok stat_of disk s' \<and> inflight_q s' = inflight_q s \<and> LRU_Policy s' = served_LRU name content d s \<and>
       (\<forall>b. b \<noteq> d \<longrightarrow> files s b = None \<longrightarrow> files s' b = None))"
proof (cases "fileCache s = None")
  case True
  obtain ko' where ko': "request_sendfile name content (size32 content) (kout c) = Some (Inr ko')"
    "stream ko' = stream (kout c) @ ok_response name content"
    using request_sendfile_ok[OF _ assms(4)] assms(3) by (auto simp: on_disk_def)
  with short_run[OF True assms(5,2) on_disk_readfile[OF assms(3)], of ko' fd ki] True
  show ?thesis unfolding do_server_request_GET[OF assms(1)] by auto
next
  case False
  with assms(7) have ok: "cache_ok stat_of disk s" by blast
  note fr = cache_ok_fresh[OF ok assms(5)]
  let ?s = "named d name s"
  have "name_of ?s ` set (inflight_q s) = name_of s ` set (inflight_q s)"
    using fr(2) by (intro image_cong refl set_file_name) auto
  then have n: "name \<notin> name_of (named d name s) ` set (inflight_q (named d name s))" using assms(6) by simp
  have "\<exists>h' s'. req_run stat_of disk fd d (started fd d ki c s) (named d name s) = Some (Inr (h', s')) \<and>
      \<not> is_open (conn h') \<and> stream (kout (conn h')) = stream (kout (conn (started fd d ki c s))) @ ok_response name content \<and>
      cache_ok stat_of disk s' \<and> LRU_Policy s' = served_LRU name content d (named d name s) \<and>
      inflight_q s' = inflight_q (named d name s) \<and>
      (\<forall>b. b \<noteq> d \<longrightarrow> files (named d name s) b = None \<longrightarrow> files s' b = None)"
    by (rule run_from_lookup[OF cache_ok_set_file[OF ok fr] _ _ _ _ _ _ _ _ n assms(3), where r = "\<lparr>rq_fd = fd, rq_data = Some d\<rparr>"
        and e = "\<lparr>file_name = name, file_buf = [], file_size = 0\<rparr>"])
       (use False assms(2,4) fr in simp_all)
  with False served_LRU_set_file[OF fr(1)] show ?thesis
    unfolding do_server_request_GET[OF assms(1)] by auto
qed

text \<open>
  C18. The cache is transparent. On a GET request for a file the server may serve, \<open>do_server_request\<close>
  returns, closes the connection, and sends the response with the bytes of the file on the disk,
  whether there is a cache or not and whether the file is cached or not. Without a cache nothing is
  left behind. With one, the cached files still are what is on the disk, nothing more is marked as
  being sent, and the file is now the most recently used one, unless it is too large for the cache.
\<close>

theorem do_server_request_transparent:
  assumes "request_init fd (kin c) (kout c) = Some (Inr (Some name, ki, ko))" and "is_open c"
    and "on_disk stat_of disk name content" and "enough (length (ok_response name content)) (kout c)"
    and "files s d = None" and "name \<notin> name_of s ` set (inflight_q s)"
    and "fileCache s = None \<or> cache_ok stat_of disk s"
  shows "\<exists>c' s'. do_server_request stat_of disk d fd c s = Some (Inr (c', s')) \<and> \<not> is_open c' \<and>
    stream (kout c') = stream (kout c) @ ok_response name content \<and>
    (if fileCache s = None then s' = s
     else cache_ok stat_of disk s' \<and> inflight_q s' = inflight_q s \<and> LRU_Policy s' = served_LRU name content d s)"
  using serves_request[OF assms] by (auto split: if_splits)

theorem do_server_request_transparent_witness:
  "\<exists>c' s'. do_server_request [''.//a.txt'' \<mapsto> \<lparr>S_ISREG = True, S_IRUSR = True, st_size = 3\<rparr>]
       [''.//a.txt'' \<mapsto> \<lparr>stream = ''abc'', sched = replicate 4 (K_bytes 0)\<rparr>] 1 4 get_conn (cache_start Map.empty 8192) =
     Some (Inr (c', s')) \<and> \<not> is_open c' \<and> LRU_Policy s' = [1] \<and> stream (kout c') = ok_response ''.//a.txt'' ''abc''"
proof -
  let ?st = "[''.//a.txt'' \<mapsto> \<lparr>S_ISREG = True, S_IRUSR = True, st_size = 3\<rparr>]"
  let ?dk = "[''.//a.txt'' \<mapsto> \<lparr>stream = ''abc'', sched = replicate 4 (K_bytes 0)\<rparr>]"
  let ?s = "cache_start Map.empty 8192"
  obtain ki where i: "request_init 4 (kin get_conn) (kout get_conn) = Some (Inr (Some ''.//a.txt'', ki, kout get_conn))"
    using get_conn_init by blast
  have o: "is_open get_conn" "stream (kout get_conn) = []" by (simp_all add: get_conn_def)
  have "servable ''.//a.txt''" by (simp add: servable_checks)
  then have d: "on_disk ?st ?dk ''.//a.txt'' ''abc''" by (simp add: on_disk_def enough_def)
  have c: "size32 ''abc'' = 3" "fmt_u 3 = ''3''" "csum ''abc'' = 294" "fmt_u 294 = ''294''"
    "request_get_file_type ''.//a.txt'' = ''text/plain''"
    by (simp_all add: fmt_u.simps char_of_def bit_simps csum_def request_get_file_type_def)
  have e: "enough (length (ok_response ''.//a.txt'' ''abc'')) (kout get_conn)"
    by (simp add: ok_response_def ok_header_def enough_def fmt_d_def c get_conn_def)
  have s: "files ?s 1 = None" "''.//a.txt'' \<notin> name_of ?s ` set (inflight_q ?s)" "fileCache ?s \<noteq> None"
    "served_LRU ''.//a.txt'' ''abc'' 1 ?s = [1]"
    by (simp_all add: cache_start_def served_LRU_def cached_def init_cache_def Let_def)
  have "cache_ok ?st ?dk ?s" using cache_start_inv[of 8192 Map.empty] by (simp add: cache_ok_def) (simp add: cache_start_def)
  with do_server_request_transparent[OF i o(1) d e s(1,2)] o(2) s(3,4) show ?thesis by auto
qed

section \<open>Failing requests and interleavings\<close>

lemma failed_read_run:
  assumes "cache_ok stat_of disk s" and "cached s name = None" and "pc h = P_lookup" and "data h = Some d"
    and "rq h = Some r" and "rq_data r = Some d" and "files s d = Some e" and "file_name e = name"
    and "request_readfile stat_of disk name (kout (conn h)) = Some (Inr (None, ko))" and "is_open (conn h)"
  shows "req_run stat_of disk fd d h s = Some (Inl Use_after_free)"
proof -
  have 1: "req_step stat_of disk fd d h s = Some (Inr (h\<lparr>pc := P_read\<rparr>, s))"
    using assms lookup_spec[of s name] by (simp add: req_step_def req_lookup_def deref_def cache_ok_def)
  let ?c = "(conn h)\<lparr>kout := ko\<rparr>"
  have 2: "req_step stat_of disk fd d (h\<lparr>pc := P_read\<rparr>) s = Some (Inr (h\<lparr>pc := P_out, conn := ?c\<rparr>, s))"
    using assms by (simp add: req_step_def req_read_def readfile_def)
  let ?h = "h\<lparr>pc := P_done, rq := None, conn := ?c\<lparr>is_open := False\<rparr>\<rparr>"
  have 3: "req_step stat_of disk fd d (h\<lparr>pc := P_out, conn := ?c\<rparr>) s = Some (Inr (?h, set_file d None s))"
    using assms by (simp add: req_step_def req_out_def request_destroy_def file_data_free_def)
  have "req_run stat_of disk fd d ?h (set_file d None s) = Some (Inl Use_after_free)"
    by (intro req_run_fault) (simp_all add: req_step_def req_done_def request_destroy_def)
  then show ?thesis using req_run_step[OF _ 1] req_run_step[OF _ 2] req_run_step[OF _ 3] assms(3) by simp
qed



text \<open>
  Between the lookup of a cached file and its entry into the list of files being sent, no lock is
  held. If another handler evicts the file there, the first one uses the freed structure.
\<close>

lemma make_room_all:
  assumes "mx < sz a + n" and "\<forall>x\<in>set xs. 0 \<le> sz x"
  shows "make_room sz mx n (xs @ [a]) = []"
  using assms
proof (induction xs)
  case (Cons x xs)
  have "0 \<le> sum_list (map sz (x # xs))" using Cons.prems by (intro sum_list_nonneg) auto
  with Cons show ?case by simp
qed simp

lemma eviction_race:
  assumes ok: "cache_ok stat_of disk s" and a: "cached s name = Some a"
    and h: "pc h = P_lookup" "data h = Some d" "rq h = Some r" "files s d = Some e" "file_name e = name"
      "d \<notin> set (LRU_Policy s)" "d \<notin> set (inflight_q s)"
    and g: "pc g = P_insert" "data g = Some d2" "files s d2 = Some e2" "d2 \<noteq> d" "entry_ok stat_of disk e2"
      "cached s (file_name e2) = None" "d2 \<notin> set (inflight_q s)" "file_name e2 \<notin> name_of s ` set (inflight_q s)"
    and sz: "int (length (file_buf e2)) \<le> cMAX_SIZE (the_cache s)"
      "cMAX_SIZE (the_cache s) < size_of s a + int (length (file_buf e2))"
  shows "\<exists>h' s1 g' s2. req_step stat_of disk fd d h s = Some (Inr (h', s1)) \<and>
    req_step stat_of disk fd2 d2 g s1 = Some (Inr (g', s2)) \<and>
    req_step stat_of disk fd d h' s2 = Some (Inl Use_after_free)"
proof -
  let ?m = "s\<lparr>LRU_Policy := remove1 a (LRU_Policy s) @ [a]\<rparr>"
  let ?s1 = "set_file d None ?m"
  let ?h = "h\<lparr>pc := P_add, rq := Some (r\<lparr>rq_data := Some a\<rparr>), data := Some a\<rparr>"
  have al: "a \<in> set (LRU_Policy s)" "name_of s a = name" "a \<noteq> d" using cached_Some[OF a] h by auto
  have 1: "req_step stat_of disk fd d h s = Some (Inr (?h, ?s1))" by (rule lookup_hit[OF ok a h(1-6)])
  have dl: "d \<notin> set (LRU_Policy ?m)" using al h(6) by (auto dest: notin_set_remove1)
  have ok1: "cache_ok stat_of disk ?s1"
    using cache_ok_set_file[OF cache_ok_move[OF ok al(1)] dl] h(7) by simp
  have i1: "cache_inv ?s1" using ok1 by (simp add: cache_ok_def)
  have L: "set (LRU_Policy ?s1) = set (LRU_Policy s)"
    using al cache_inv_LRU(1)[of s] ok by (auto simp: set_remove1_eq cache_ok_def)
  have nm: "name_of ?s1 b = name_of s b" "size_of ?s1 b = size_of s b" if "b \<noteq> d" for b
    using that by (simp_all add: name_of_def size_of_def)
  have "name_of ?s1 ` set (LRU_Policy ?s1) = name_of s ` set (LRU_Policy s)"
    unfolding L using h(6) by (intro image_cong refl nm(1)) auto
  then have c: "cached ?s1 (file_name e2) = None" using g(6) by (simp add: cached_None[symmetric])
  have d2: "name_of ?s1 d2 = file_name e2" "size_of ?s1 d2 = int (length (file_buf e2))" "files ?s1 d2 = Some e2"
    using g(3-5) sint_size32[of "file_buf e2"] by (auto simp: name_of_def size_of_def entry_ok_def on_disk_def)
  have ins: "insertable d2 ?s1" using d2 sz(1) cached_None[of "file_name e2" ?s1] c unfolding insertable_def by simp
  have "idle ?s1" using ok1 by (simp add: cache_ok_def)
  from insert_spec[OF i1 this ins] obtain s2 where s2: "insert_to_cache d2 ?s1 = Inr (True, s2)"
    "LRU_Policy s2 = make_room (size_of ?s1) (cMAX_SIZE (the_cache ?s1)) (size_of ?s1 d2) (LRU_Policy ?s1) @ [d2]"
    "files s2 = (\<lambda>x. if x \<in> set (LRU_Policy ?s1) - set (LRU_Policy s2) then None else files ?s1 x)" by blast
  have "make_room (size_of ?s1) (cMAX_SIZE (the_cache ?s1)) (size_of ?s1 d2) (LRU_Policy ?s1) = []"
    using make_room_all[of "cMAX_SIZE (the_cache s)" "size_of ?s1" a "size_of ?s1 d2" "remove1 a (LRU_Policy s)"]
      sz(2) d2(2) nm(2)[OF al(3)] cache_inv_LRU(4)[OF i1] by simp
  moreover have "d2 \<noteq> a" using g(6) d2(1) nm(1)[OF al(3)] al cached_None[of "file_name e2" s] by force
  ultimately have "files s2 a = None" using s2(2,3) by simp
  then have 3: "req_step stat_of disk fd d ?h s2 = Some (Inl Use_after_free)"
    by (simp add: req_step_def req_add_def deref_def readR_def)
  have 2: "req_step stat_of disk fd2 d2 g ?s1 = Some (Inr (g\<lparr>pc := P_add\<rparr>, s2))"
    using g(1,2) d2(3) lookup_spec[OF i1, of "file_name e2"] c s2(1)
    by (simp add: req_step_def req_insert_def deref_def cache_insert_def)
  from 1 2 3 show ?thesis by blast
qed

end
