(* ===== verification/Client.thy ===== *)
theory Client
  imports ServerRequest
begin

text \<open>
  The clients webserver/client.c and webserver/client_simple.c: sending a request, reading the
  response and checking its length and checksum, and reading the index of a file set. What is printed
  on the terminal is a string; writing there succeeds.
\<close>

section \<open>Conversions of \<open>sscanf\<close>\<close>

text \<open>An optional sign and digits behind white space: the number and the rest of the input.\<close>

definition scan_num :: "string \<Rightarrow> (int \<times> string) option" where
  "scan_num s =
     (let s = dropWhile isspace s;
          neg = (take 1 s = ''-'');
          s = (if take 1 s \<in> {''-'', ''+''} then drop 1 s else s);
          ds = takeWhile isdigit s
      in if ds = [] then None
         else Some (if neg then - int (val_u ds) else int (val_u ds), dropWhile isdigit s))"

text \<open>\<open>%d\<close> and \<open>%u\<close> convert with \<open>strtol\<close> and \<open>strtoul\<close>, which saturate, and truncate.\<close>

definition conv_d :: "int \<Rightarrow> int" where
  "conv_d v = wrap32 (max (- (2 ^ 63)) (min (2 ^ 63 - 1) v))"

definition conv_u :: "int \<Rightarrow> 32 word" where
  "conv_u v = (if \<bar>v\<bar> < 2 ^ 64 then word_of_int v else - 1)"

definition scan_d :: "string \<Rightarrow> (int \<times> string) option" where
  "scan_d s = map_option (map_prod conv_d id) (scan_num s)"

definition scan_u :: "string \<Rightarrow> (32 word \<times> string) option" where
  "scan_u s = map_option (map_prod conv_u id) (scan_num s)"

text \<open>A format that begins with the text \<open>tag\<close> and white space.\<close>

definition scan_tag :: "string \<Rightarrow> string \<Rightarrow> string option" where
  "scan_tag tag s = (if take (length tag) s = tag then Some (drop (length tag) s) else None)"

section \<open>The client\<close>

definition request_text :: "string \<Rightarrow> string \<Rightarrow> string" where
  "request_text host filename =
     ''GET '' @ filename @ '' HTTP/1.0'' @ crlf @ ''host: '' @ host @ crlf @ crlf"

text \<open>\<open>client_send\<close>: the request is put together in an array of \<open>MAXLINE\<close> bytes.\<close>

definition client_send :: "string \<Rightarrow> string \<Rightarrow> kern \<Rightarrow> kern io" where
  "client_send host filename k =
     (if length (request_text host filename) < MAXLINE then Rio_write (request_text host filename) k
      else Some (Inl Out_of_bounds))"

record response_state =
  resp_length :: int
  resp_csum :: "32 word"
  resp_out :: string

text \<open>The two \<open>sscanf\<close> calls on a header line.\<close>

definition scan_header :: "string \<Rightarrow> response_state \<Rightarrow> response_state" where
  "scan_header buf r =
     (let r = (case Option.bind (scan_tag ''Content-Length:'' (cstr buf)) scan_d of
                 None \<Rightarrow> r | Some (v, _) \<Rightarrow> r\<lparr>resp_length := v\<rparr>)
      in case Option.bind (scan_tag ''Content-Csum:'' (cstr buf)) scan_u of
           None \<Rightarrow> r | Some (v, _) \<Rightarrow> r\<lparr>resp_csum := v\<rparr>)"

definition print_if :: "bool \<Rightarrow> string \<Rightarrow> response_state \<Rightarrow> response_state" where
  "print_if print s r = (if print then r\<lparr>resp_out := resp_out r @ s\<rparr> else r)"

text \<open>
  The loop over the header; \<open>buf\<close> and \<open>n\<close> are the line buffer and the result of the last call of
  \<open>Rio_readlineb\<close>, which leaves the buffer alone at the end of the input.
\<close>

partial_function (option) header_loop :: "bool \<Rightarrow> string \<Rightarrow> nat \<Rightarrow> response_state \<Rightarrow> rio \<Rightarrow> kern \<Rightarrow>
    (response_state \<times> rio \<times> kern) io" where
  "header_loop print buf n r rp k =
     (if cstr buf = crlf \<or> n = 0 then Some (Inr (r, rp, k))
      else Option.bind (Rio_readlineb rp k) (\<lambda>x.
             case x of
               Inl e \<Rightarrow> Some (Inl e)
             | Inr (l, rp, k) \<Rightarrow>
                 (let buf' = (case l of None \<Rightarrow> buf | Some s \<Rightarrow> s);
                      n = (case l of None \<Rightarrow> 0 | Some s \<Rightarrow> length s);
                      r = scan_header buf' (print_if print (''Header: '' @ cstr buf) r)
                  in header_loop print buf' n r rp k)))"

text \<open>The loop over the body: bytes received, their sum, what is printed.\<close>

partial_function (option) body_loop :: "bool \<Rightarrow> int \<Rightarrow> 32 word \<Rightarrow> response_state \<Rightarrow> rio \<Rightarrow> kern \<Rightarrow>
    (int \<times> 32 word \<times> response_state \<times> rio \<times> kern) io" where
  "body_loop print len cs r rp k =
     Option.bind (Rio_readlineb rp k) (\<lambda>x.
       case x of
         Inl e \<Rightarrow> Some (Inl e)
       | Inr (None, rp, k) \<Rightarrow> Some (Inr (len, cs, r, rp, k))
       | Inr (Some s, rp, k) \<Rightarrow>
           body_loop print (wrap32 (len + int (length s))) (cs + csum s) (print_if print s r) rp k)"

text \<open>\<open>client_print\<close>; an empty response leaves the line buffer uninitialised.\<close>

definition client_print :: "32 word \<Rightarrow> int \<Rightarrow> bool \<Rightarrow> int \<Rightarrow> kern \<Rightarrow> (string \<times> kern) io" where
  "client_print orig_csum orig_length print fd k =
     bindO (Rio_readlineb (rio_init fd) k) (\<lambda>(l, rp, k).
       case l of
         None \<Rightarrow> Some (Inl Uninit)
       | Some s \<Rightarrow>
           bindO (header_loop print s (length s) \<lparr>resp_length = 0, resp_csum = 0, resp_out = []\<rparr> rp k) (\<lambda>(r, rp, k).
           bindO (body_loop print 0 0 r rp k) (\<lambda>(len, cs, r, rp, k).
             Some (assertR (orig_csum = resp_csum r) (assertR (orig_length = resp_length r)
               (assertR (resp_length r = len) (assertR (resp_csum r = cs) (Inr (resp_out r, k)))))))))"

text \<open>\<open>client_print\<close> of client_simple.c checks the length only, if the header had one; its header
  loop looks for the length only.\<close>

definition client_print_simple :: "int \<Rightarrow> kern \<Rightarrow> (string \<times> kern) io" where
  "client_print_simple fd k =
     bindO (Rio_readlineb (rio_init fd) k) (\<lambda>(l, rp, k).
       case l of
         None \<Rightarrow> Some (Inl Uninit)
       | Some s \<Rightarrow>
           bindO (header_loop True s (length s) \<lparr>resp_length = 0, resp_csum = 0, resp_out = []\<rparr> rp k) (\<lambda>(r, rp, k).
           bindO (body_loop True 0 0 r rp k) (\<lambda>(len, cs, r, rp, k).
             Some (assertR (resp_length r = 0 \<or> resp_length r = len) (Inr (resp_out r, k))))))"

section \<open>The index of a file set\<close>

text \<open>\<open>struct fileinfo\<close>; a field \<open>sscanf\<close> did not store in is \<open>None\<close>.\<close>

record fileinfo =
  fi_name :: "string option"
  fi_csum :: "32 word option"
  fi_len :: "int option"

definition scan_fileinfo :: "string \<Rightarrow> fileinfo" where
  "scan_fileinfo buf =
     (let s = dropWhile isspace (cstr buf); nm = takeWhile (\<lambda>c. \<not> isspace c) s;
          s = dropWhile (\<lambda>c. \<not> isspace c) s
      in if nm = [] then \<lparr>fi_name = None, fi_csum = None, fi_len = None\<rparr>
         else case scan_u s of
                None \<Rightarrow> \<lparr>fi_name = Some nm, fi_csum = None, fi_len = None\<rparr>
              | Some (c, s) \<Rightarrow> \<lparr>fi_name = Some nm, fi_csum = Some c, fi_len = map_option fst (scan_d s)\<rparr>)"

text \<open>The loop of \<open>init_fileset\<close>: \<open>nr\<close> is \<open>cl->nr_files\<close>, \<open>fs\<close> the entries filled so far.\<close>

partial_function (option) fileset_loop :: "int \<Rightarrow> fileinfo list \<Rightarrow> rio \<Rightarrow> kern \<Rightarrow> (int \<times> fileinfo list) io" where
  "fileset_loop nr fs rp k =
     Option.bind (Rio_readlineb rp k) (\<lambda>x.
       case x of
         Inl e \<Rightarrow> Some (Inl e)
       | Inr (None, rp, k) \<Rightarrow> Some (assertR (nr > 0) (assertR (int (length fs) = nr) (Inr (nr, fs))))
       | Inr (Some buf, rp, k) \<Rightarrow>
           if nr = 0
           then let v = atoi (cstr buf) in if v > 0 then fileset_loop v fs rp k else Some (Inl Assert_failed)
           else if int (length fs) < nr then fileset_loop nr (fs @ [scan_fileinfo buf]) rp k
           else Some (Inl Assert_failed))"

definition init_fileset :: "int \<Rightarrow> kern \<Rightarrow> (int \<times> fileinfo list) io" where
  "init_fileset fd k = fileset_loop 0 [] (rio_init fd) k"


section \<open>The loop of a client thread\<close>

text \<open>
  One round of \<open>client_request\<close>: what \<open>rand_int\<close> gave, the socket \<open>open_clientfd\<close> gave, and its
  other end. \<open>peer\<close> says what can be read from the socket once the request was written.
\<close>

record session =
  rand_val :: int
  client_fd :: int
  to_peer :: kern
  peer :: "string \<Rightarrow> kern"

text \<open>\<open>struct client\<close>, less the fields only \<open>main\<close> and \<open>open_clientfd\<close> use.\<close>

record client =
  host :: string
  fileset :: "fileinfo list"
  timing_mode :: bool

definition client_session :: "client \<Rightarrow> session \<Rightarrow> string io" where
  "client_session cl x =
     (let fnr = rand_val x - 1
      in if fnr < 0 \<or> int (length (fileset cl)) \<le> fnr then Some (Inl Out_of_bounds)
         else let fi = fileset cl ! nat fnr
              in case (fi_name fi, fi_csum fi, fi_len fi) of
                   (Some nm, Some c, Some n) \<Rightarrow>
                     bindO (client_send (host cl) nm (to_peer x)) (\<lambda>k.
                     bindO (client_print c n (\<not> timing_mode cl) (client_fd x) (peer x (stream k))) (\<lambda>(out, _).
                       Some (Inr out)))
                 | _ \<Rightarrow> Some (Inl Uninit))"

text \<open>\<open>client_request\<close>: \<open>xs\<close> has the \<open>nr_times\<close> rounds; the result is what was printed.\<close>

fun client_request :: "client \<Rightarrow> session list \<Rightarrow> string io" where
  "client_request cl [] = Some (Inr [])"
| "client_request cl (x # xs) =
     bindO (client_session cl x) (\<lambda>out. bindO (client_request cl xs) (\<lambda>outs. Some (Inr (out @ outs))))"

section \<open>The main routines\<close>

text \<open>The arguments of the client; \<open>argv\<close> ends with a null pointer, \<open>None\<close>.\<close>

record client_opts =
  opt_timing :: bool
  opt_host :: string
  opt_port :: int
  opt_times :: int
  opt_threads :: int
  opt_index :: "string option"

definition client_args :: "string list \<Rightarrow> client_opts res" where
  "client_args argv =
     (if length argv \<noteq> 6 \<and> length argv \<noteq> 7 then Inl Exit_1
      else let t = (argv ! 1 = ''-t''); i = (if t then 2 else 1);
               opt = \<lparr>opt_timing = t, opt_host = argv ! i, opt_port = atoi (argv ! (i + 1)), opt_times = atoi (argv ! (i + 2)),
                    opt_threads = atoi (argv ! (i + 3)),
                    opt_index = if i + 4 < length argv then Some (argv ! (i + 4)) else None\<rparr>
           in if opt_port opt < 1024 \<or> opt_times opt \<le> 0 \<or> opt_threads opt \<le> 0 then Inl Exit_1 else Inr opt)"

text \<open>
  \<open>main\<close> of client.c: \<open>open_index\<close> opens the index for reading, \<open>xss\<close> has the rounds of every
  thread. The threads write nothing in common; the result has what each prints. An assertion that
  fails in one of them ends the program.
\<close>

fun client_threads :: "client \<Rightarrow> session list list \<Rightarrow> string list io" where
  "client_threads cl [] = Some (Inr [])"
| "client_threads cl (xs # xss) =
     bindO (client_request cl xs) (\<lambda>out. bindO (client_threads cl xss) (\<lambda>outs. Some (Inr (out # outs))))"

definition client_main :: "(string \<Rightarrow> kern option) \<Rightarrow> session list list \<Rightarrow> string list \<Rightarrow> string list io" where
  "client_main open_index xss argv =
     (case client_args argv of
        Inl e \<Rightarrow> Some (Inl e)
      | Inr opt \<Rightarrow>
          (case Option.bind (opt_index opt) open_index of
             None \<Rightarrow> Some (Inl Exit_1)
           | Some k \<Rightarrow>
               bindO (init_fileset 3 k) (\<lambda>(_, fs).
                 client_threads \<lparr>host = opt_host opt, fileset = fs, timing_mode = opt_timing opt\<rparr>
                   (map (take (nat (opt_times opt))) (take (nat (opt_threads opt)) xss)))))"

text \<open>\<open>main\<close> of client_simple.c, on the socket \<open>open_clientfd\<close> gave.\<close>

definition client_simple_main :: "session \<Rightarrow> string list \<Rightarrow> string io" where
  "client_simple_main x argv =
     (if length argv \<noteq> 4 then Some (Inl Exit_1)
      else bindO (client_send (argv ! 1) (argv ! 3) (to_peer x)) (\<lambda>k.
           bindO (client_print_simple (client_fd x) (peer x (stream k))) (\<lambda>(out, _). Some (Inr out))))"

section \<open>Reading lines\<close>

lemma readline_step:
  assumes "enough (m + Suc MAXLINE) k"
  shows "\<exists>rp' k'. Rio_readlineb rp k =
      Some (if pending rp k = [] then Inr (None, rp', k')
            else if length (line_of MAXLINE (pending rp k)) < MAXLINE
            then Inr (Some (line_of MAXLINE (pending rp k)), rp', k') else Inl Out_of_bounds) \<and>
    pending rp' k' = drop (length (line_of MAXLINE (pending rp k))) (pending rp k) \<and> enough m k'"
proof -
  have c: "(pending rp k = [] \<and> ([] :: string) = [] \<and> 0 < MAXLINE) = (pending rp k = [])" by (simp add: MAXLINE_def)
  have "length ([] :: string) + MAXLINE \<le> MAXLINE" by simp
  from line_loop_spec[OF assms this, of rp, unfolded append_Nil c] obtain rp' k' where
    "rio_readlineb MAXLINE MAXLINE rp k = Some (if pending rp k = [] then Inr (L_eof, rp', k')
       else if length (line_of MAXLINE (pending rp k)) < MAXLINE
       then Inr (L_line (line_of MAXLINE (pending rp k)), rp', k') else Inl Out_of_bounds)"
    "pending rp' k' = drop (length (line_of MAXLINE (pending rp k))) (pending rp k)" "enough m k'"
    unfolding rio_readlineb_def by blast
  then show ?thesis by (intro exI[of _ rp'] exI[of _ k']) (simp add: Rio_readlineb_def)
qed

text \<open>No line of a text fills the buffer.\<close>

function lines_fit :: "string \<Rightarrow> bool" where
  "lines_fit p =
     (if p = [] then True
      else if length (line_of MAXLINE p) < MAXLINE then lines_fit (drop (length (line_of MAXLINE p)) p)
      else False)"
  by pat_completeness auto
termination
proof (relation "measure length", goal_cases)
  case (2 p)
  moreover have "0 < MAXLINE" by (simp add: MAXLINE_def)
  ultimately show ?case using line_of_ne[of p MAXLINE] by simp
qed simp

declare lines_fit.simps [simp del]

lemma csum_append: "csum (a @ b) = csum a + csum b"
proof -
  have "csum s = of_nat (\<Sum>c\<leftarrow>s. of_char c)" for s
    by (induction s rule: rev_induct) (simp_all add: csum_def)
  then show ?thesis by simp
qed

lemma line_of_prefix: "line_of m p @ drop (length (line_of m p)) p = p"
  by (induction m p rule: line_of.induct) auto

lemma line_of_length: "length (line_of m p) \<le> length p"
  by (metis le_add1 length_append line_of_prefix)

lemma print_if_append: "print_if b u (print_if b s r) = print_if b (s @ u) r"
  by (simp add: print_if_def)

lemma body_loop_spec:
  "enough (m + Suc (length p) * Suc MAXLINE) k \<Longrightarrow> pending rp k = p \<Longrightarrow> 0 \<le> len \<Longrightarrow> len + int (length p) < 2 ^ 31 \<Longrightarrow>
   if lines_fit p
   then \<exists>rp' k'. body_loop print len cs r rp k = Some (Inr (len + int (length p), cs + csum p, print_if print p r, rp', k'))
   else body_loop print len cs r rp k = Some (Inl Out_of_bounds)"
proof (induction p arbitrary: len cs r rp k rule: lines_fit.induct)
  case (1 p)
  let ?l = "line_of MAXLINE p" and ?p = "drop (length (line_of MAXLINE p)) p"
  have pos: "0 < MAXLINE" by (simp add: MAXLINE_def)
  have "enough ((m + length p * Suc MAXLINE) + Suc MAXLINE) k" using "1.prems"(1) by (simp add: algebra_simps)
  from readline_step[OF this, of rp] "1.prems"(2) obtain rp1 k1 where
    1: "Rio_readlineb rp k = Some (if p = [] then Inr (None, rp1, k1) else if length ?l < MAXLINE then Inr (Some ?l, rp1, k1) else Inl Out_of_bounds)"
      "pending rp1 k1 = ?p" "enough (m + length p * Suc MAXLINE) k1" by auto
  show ?case
  proof (cases "p = []")
    case True
    with 1(1) show ?thesis
      by (subst body_loop.simps, subst lines_fit.simps) (simp add: csum_def print_if_def)
  next
    case ne: False
    show ?thesis
    proof (cases "length ?l < MAXLINE")
      case False
      with ne 1(1) show ?thesis by (subst lines_fit.simps) (subst body_loop.simps, simp)
    next
      case True
      have lp: "0 < length ?l" using line_of_ne[OF ne pos] .
      have lens: "length ?l + length ?p = length p" using line_of_length[of MAXLINE p] by simp
      then have "Suc (length ?p) \<le> length p" using lp by linarith
      then have "Suc (length ?p) * Suc MAXLINE \<le> length p * Suc MAXLINE" by (rule mult_le_mono1)
      with 1(3) have e: "enough (m + Suc (length ?p) * Suc MAXLINE) k1" by (auto simp: enough_def)
      have w: "wrap32 (len + int (length ?l)) = len + int (length ?l)"
        using "1.prems"(3,4) line_of_length[of MAXLINE p] by (intro wrap32_id) auto
      have b: "body_loop print len cs r rp k = body_loop print (len + int (length ?l)) (cs + csum ?l) (print_if print ?l r) rp1 k1"
        using 1(1) ne True w by (subst body_loop.simps) simp
      have f: "lines_fit p \<longleftrightarrow> lines_fit ?p" using ne True by (subst lines_fit.simps) simp
      have "csum p = csum ?l + csum ?p" by (metis csum_append line_of_prefix)
      then have e2: "(cs + csum ?l) + csum ?p = cs + csum p" by simp
      have e3: "print_if print ?p (print_if print ?l r) = print_if print p r" unfolding print_if_append line_of_prefix ..
      have e1: "len + int (length ?l) + int (length ?p) = len + int (length p)" using lens by linarith
      have "0 \<le> len + int (length ?l)" "len + int (length ?l) + int (length ?p) < 2 ^ 31"
        using "1.prems"(3,4) e1 by linarith+
      from "1.IH"[OF ne True e 1(2) this, of "cs + csum ?l" "print_if print ?l r"]
      show ?thesis unfolding b f e1 e2 e3 .
    qed
  qed
qed


text \<open>What the header loop does with the lines of a header, the first of which is in the buffer.\<close>

fun absorb :: "bool \<Rightarrow> string list \<Rightarrow> response_state \<Rightarrow> response_state" where
  "absorb print [] r = r"
| "absorb print [h] r = scan_header crlf (print_if print (''Header: '' @ cstr h) r)"
| "absorb print (h # h' # hs) r = absorb print (h' # hs) (scan_header h' (print_if print (''Header: '' @ cstr h) r))"

lemma header_line_cstr: "header_lines (h # hs) \<Longrightarrow> cstr h \<noteq> crlf \<and> length h \<noteq> 0"
  using line_of_line[of h MAXLINE "[]"] cstr_line[of MAXLINE h] by (auto simp: header_lines_def)

lemma header_loop_spec:
  "header_lines (h # hs) \<Longrightarrow> enough (m + Suc (length hs) * Suc MAXLINE) k \<Longrightarrow> pending rp k = concat hs @ crlf @ rest \<Longrightarrow>
   \<exists>rp' k'. header_loop print h (length h) r rp k = Some (Inr (absorb print (h # hs) r, rp', k')) \<and>
     pending rp' k' = rest \<and> enough m k'"
proof (induction hs arbitrary: h r rp k)
  case Nil
  have "\<exists>rp' k'. Rio_readlineb rp k = Some (Inr (Some crlf, rp', k')) \<and> pending rp' k' = rest \<and> enough m k'"
    using Nil by (intro Rio_readlineb_ok) (auto simp: MAXLINE_def)
  then obtain rp1 k1 where 1: "Rio_readlineb rp k = Some (Inr (Some crlf, rp1, k1))" "pending rp1 k1 = rest" "enough m k1" by blast
  have "header_loop print crlf n r' rp1 k1 = Some (Inr (r', rp1, k1))" for n r'
    by (subst header_loop.simps) (simp add: cstr_def)
  with 1 header_line_cstr[OF Nil(1)] show ?case by (subst header_loop.simps) (simp add: Let_def)
next
  case (Cons h' hs)
  have l: "h' \<noteq> crlf" "length h' < MAXLINE" "h' \<noteq> []" "last h' = CHR 0x0A" "CHR 0x0A \<notin> set (butlast h')" "header_lines (h' # hs)"
    using Cons.prems(1) by (simp_all add: header_lines_def)
  have "\<exists>rp' k'. Rio_readlineb rp k = Some (Inr (Some h', rp', k')) \<and> pending rp' k' = concat hs @ crlf @ rest \<and>
      enough (m + Suc (length hs) * Suc MAXLINE) k'"
    using Cons.prems l by (intro Rio_readlineb_ok) (auto simp: algebra_simps)
  then obtain rp1 k1 where 1: "Rio_readlineb rp k = Some (Inr (Some h', rp1, k1))" "pending rp1 k1 = concat hs @ crlf @ rest"
    "enough (m + Suc (length hs) * Suc MAXLINE) k1" by blast
  from Cons.IH[OF l(6) 1(3,2)] 1(1) header_line_cstr[OF Cons.prems(1)] show ?case
    by (subst header_loop.simps) (simp add: Let_def)
qed

section \<open>Numbers in headers\<close>

lemma fmt_u_ne: "fmt_u n \<noteq> []"
  by (subst fmt_u.simps) simp

lemma isdigit_fmt_u: "c \<in> set (fmt_u n) \<Longrightarrow> isdigit c"
  using fmt_u_digits by (auto simp: isdigit_def)

lemma digit_chars: "isdigit c \<Longrightarrow> \<not> isspace c \<and> c \<noteq> CHR ''-'' \<and> c \<noteq> CHR ''+''"
  by (auto simp: isdigit_def isspace_def)

lemma takeWhile_digits:
  assumes "\<forall>c. take 1 rest = [c] \<longrightarrow> \<not> isdigit c"
  shows "takeWhile isdigit (fmt_u n @ rest) = fmt_u n" and "dropWhile isdigit (fmt_u n @ rest) = rest"
proof -
  have "takeWhile isdigit rest = []" "dropWhile isdigit rest = rest" using assms by (cases rest; simp)+
  then show "takeWhile isdigit (fmt_u n @ rest) = fmt_u n" and "dropWhile isdigit (fmt_u n @ rest) = rest"
    using isdigit_fmt_u[of _ n] by (simp_all add: takeWhile_append2 dropWhile_append2)
qed

lemma scan_num_fmt:
  assumes "\<forall>c. take 1 rest = [c] \<longrightarrow> \<not> isdigit c" and "\<forall>c\<in>set ws. isspace c"
  shows "scan_num (ws @ fmt_u n @ rest) = Some (int n, rest)"
proof -
  obtain c ds where f: "fmt_u n = c # ds" using fmt_u_ne[of n] by (cases "fmt_u n") auto
  have c: "\<not> isspace c" "c \<noteq> CHR ''-''" "c \<noteq> CHR ''+''" using isdigit_fmt_u[of c n] f digit_chars by auto
  have "dropWhile isspace (ws @ fmt_u n @ rest) = fmt_u n @ rest" using assms(2) c(1) f by (simp add: dropWhile_append2)
  moreover have "take 1 (fmt_u n @ rest) \<noteq> ''-''" "take 1 (fmt_u n @ rest) \<noteq> ''+''" using c f by simp_all
  ultimately show ?thesis
    using takeWhile_digits[OF assms(1), of n] by (simp add: scan_num_def Let_def fmt_u_ne val_fmt_u)
qed


section \<open>The response of the server\<close>

text \<open>The lines of the header of a response.\<close>

definition ok_lines :: "string \<Rightarrow> string \<Rightarrow> string list" where
  "ok_lines name content =
     [''HTTP/1.0 200 OK'' @ crlf, ''Server: OS Web Server'' @ crlf,
      ''Content-Type: '' @ request_get_file_type name @ crlf,
      ''Content-Length: '' @ fmt_u (length content) @ crlf,
      ''Content-Csum: '' @ fmt_u (unat (csum content)) @ crlf]"

lemma ok_response_lines:
  "length content < 2 ^ 31 \<Longrightarrow> ok_response name content = concat (ok_lines name content) @ crlf @ content"
  unfolding ok_response_def ok_header_def ok_lines_def fmt_d_def by (subst sint_size32, assumption)+ simp

lemma file_types: "request_get_file_type name \<in> {''text/html'', ''image/gif'', ''image/jpeg'', ''text/plain''}"
  by (simp add: request_get_file_type_def)

lemma digits_no_ctrl: "c \<in> set (fmt_u n) \<Longrightarrow> c \<noteq> CHR 0x00 \<and> c \<noteq> CHR 0x0A"
  using fmt_u_digits[of c n] by auto

lemma content_length_digits: "length content < 2 ^ 31 \<Longrightarrow> length (fmt_u (length content)) \<le> 10"
  by (intro fmt_u_length) simp_all

lemma header_line_simple:
  "CHR 0x0A \<notin> set s \<Longrightarrow> s \<noteq> [] \<Longrightarrow> length s < 8000 \<Longrightarrow> header_lines [s @ crlf]"
  by (auto simp: header_lines_def MAXLINE_def butlast_append)

lemma header_lines_Cons: "header_lines (h # hs) \<longleftrightarrow> header_lines [h] \<and> header_lines hs"
  by (auto simp: header_lines_def)

lemma ok_lines_header:
  assumes "length content < 2 ^ 31"
  shows "header_lines (ok_lines name content)"
proof -
  have "header_lines [(''Content-Type: '' @ request_get_file_type name) @ crlf]"
    using file_types[of name] by (intro header_line_simple) auto
  moreover have "header_lines [(''Content-Length: '' @ fmt_u (length content)) @ crlf]"
    using content_length_digits[OF assms] digits_no_ctrl[of "CHR 0x0A" "length content"] by (intro header_line_simple) auto
  moreover have "header_lines [(''Content-Csum: '' @ fmt_u (unat (csum content))) @ crlf]"
    using fmt_u_word[of "csum content"] digits_no_ctrl[of "CHR 0x0A" "unat (csum content)"] by (intro header_line_simple) auto
  moreover have "header_lines [''HTTP/1.0 200 OK'' @ crlf]" "header_lines [''Server: OS Web Server'' @ crlf]"
    by (rule header_line_simple; simp)+
  ultimately show ?thesis
    unfolding ok_lines_def by (subst header_lines_Cons, simp)+
qed

lemma cstr_id: "CHR 0x00 \<notin> set s \<Longrightarrow> cstr s = s"
  unfolding cstr_def by (induction s) auto

lemma cstr_ok_lines: "h \<in> set (ok_lines name content) \<Longrightarrow> cstr h = h"
proof (rule cstr_id)
  assume "h \<in> set (ok_lines name content)"
  moreover have "CHR 0x00 \<notin> set (fmt_u n)" for n using digits_no_ctrl by blast
  moreover have "CHR 0x00 \<notin> set (request_get_file_type name)" using file_types[of name] by auto
  ultimately show "CHR 0x00 \<notin> set h" by (auto simp: ok_lines_def)
qed

lemma scan_d_fmt:
  "n < 2 ^ 31 \<Longrightarrow> \<forall>c. take 1 rest = [c] \<longrightarrow> \<not> isdigit c \<Longrightarrow> \<forall>c\<in>set ws. isspace c \<Longrightarrow>
   scan_d (ws @ fmt_u n @ rest) = Some (int n, rest)"
  by (simp add: scan_d_def scan_num_fmt conv_d_def wrap32_id)

lemma scan_u_fmt:
  "\<forall>c. take 1 rest = [c] \<longrightarrow> \<not> isdigit c \<Longrightarrow> \<forall>c\<in>set ws. isspace c \<Longrightarrow>
   scan_u (ws @ fmt_u (unat w) @ rest) = Some (w, rest)"
proof -
  assume a: "\<forall>c. take 1 rest = [c] \<longrightarrow> \<not> isdigit c" "\<forall>c\<in>set ws. isspace c"
  have "uint w < 2 ^ 64" using unsigned_less[of w, where ?'a = int] by simp
  with a show ?thesis by (simp add: scan_u_def scan_num_fmt conv_u_def)
qed

lemma scan_header_length:
  assumes "n < 2 ^ 31" shows "scan_header (''Content-Length: '' @ fmt_u n @ crlf) r = r\<lparr>resp_length := int n\<rparr>"
proof -
  have c: "cstr (''Content-Length: '' @ fmt_u n @ crlf) = ''Content-Length: '' @ fmt_u n @ crlf"
    using digits_no_ctrl[of "CHR 0x00" n] by (intro cstr_id) auto
  have s: "scan_d (CHR '' '' # fmt_u n @ crlf) = Some (int n, crlf)"
    using scan_d_fmt[OF assms, of crlf "'' ''"] by (simp add: isdigit_def isspace_def)
  have t: "scan_tag ''Content-Csum:'' (''Content-Length: '' @ fmt_u n @ crlf) = None"
    "scan_tag ''Content-Length:'' (''Content-Length: '' @ fmt_u n @ crlf) = Some (CHR '' '' # fmt_u n @ crlf)"
    by (simp_all add: scan_tag_def)
  show ?thesis by (simp only: scan_header_def Let_def c t s Option.bind.simps option.case prod.case)
qed

lemma scan_header_csum: "scan_header (''Content-Csum: '' @ fmt_u (unat w) @ crlf) r = r\<lparr>resp_csum := w\<rparr>"
proof -
  let ?l = "''Content-Csum: '' @ fmt_u (unat w) @ crlf"
  have c: "cstr ?l = ?l" using digits_no_ctrl[of "CHR 0x00" "unat w"] by (intro cstr_id) auto
  have s: "scan_u (CHR '' '' # fmt_u (unat w) @ crlf) = Some (w, crlf)"
    using scan_u_fmt[of crlf "'' ''" w] by (simp add: isdigit_def isspace_def)
  have t: "scan_tag ''Content-Length:'' ?l = None" "scan_tag ''Content-Csum:'' ?l = Some (CHR '' '' # fmt_u (unat w) @ crlf)"
    by (simp_all add: scan_tag_def)
  show ?thesis by (simp only: scan_header_def Let_def c t s Option.bind.simps option.case prod.case)
qed

lemma scan_header_other:
  assumes "cstr l = l" and "scan_tag ''Content-Length:'' l = None" and "scan_tag ''Content-Csum:'' l = None"
  shows "scan_header l r = r"
  by (simp only: scan_header_def Let_def assms bind.bind_lzero option.case)

text \<open>What the client prints of a header.\<close>

definition header_out :: "string list \<Rightarrow> string" where
  "header_out hs = concat (map (\<lambda>h. ''Header: '' @ h) hs)"

lemma print_if_upd:
  "print_if b s (r\<lparr>resp_length := v\<rparr>) = (print_if b s r)\<lparr>resp_length := v\<rparr>"
  "print_if b s (r\<lparr>resp_csum := w\<rparr>) = (print_if b s r)\<lparr>resp_csum := w\<rparr>"
  by (simp_all add: print_if_def)

lemma absorb_ok_lines:
  assumes "length content < 2 ^ 31"
  shows "absorb print (ok_lines name content) r =
    (print_if print (header_out (ok_lines name content)) r)\<lparr>resp_length := int (length content), resp_csum := csum content\<rparr>"
proof -
  let ?h = "ok_lines name content"
  have c: "\<forall>h\<in>set ?h. cstr h = h" using cstr_ok_lines by blast
  note p = scan_header_length[OF assms] scan_header_csum
  from c have s: "cstr (''HTTP/1.0 200 OK'' @ crlf) = ''HTTP/1.0 200 OK'' @ crlf"
     "cstr (''Server: OS Web Server'' @ crlf) = ''Server: OS Web Server'' @ crlf"
     "cstr (''Content-Type: '' @ request_get_file_type name @ crlf) = ''Content-Type: '' @ request_get_file_type name @ crlf"
     "cstr (''Content-Length: '' @ fmt_u (length content) @ crlf) = ''Content-Length: '' @ fmt_u (length content) @ crlf"
     "cstr (''Content-Csum: '' @ fmt_u (unat (csum content)) @ crlf) = ''Content-Csum: '' @ fmt_u (unat (csum content)) @ crlf"
    by (simp_all only: ok_lines_def list.set ball_simps)
  have "cstr crlf = crlf" by (simp add: cstr_def)
  then have o1: "scan_header crlf r = r" for r by (rule scan_header_other) (simp_all add: scan_tag_def)
  from s(2) have o2: "scan_header (''Server: OS Web Server'' @ crlf) r = r" for r
    by (rule scan_header_other) (simp_all add: scan_tag_def)
  from s(3) have o3: "scan_header (''Content-Type: '' @ request_get_file_type name @ crlf) r = r" for r
    by (rule scan_header_other) (simp_all add: scan_tag_def)
  show ?thesis
    by (simp only: ok_lines_def absorb.simps s o1 o2 o3 p print_if_upd print_if_append header_out_def list.map concat.simps
        append_assoc append_Nil2)
qed


text \<open>How often the kernel has to answer for a client to read a response.\<close>

definition reads_for :: "string \<Rightarrow> nat" where
  "reads_for content = (7 + length content) * Suc MAXLINE"

lemma client_print_reads:
  assumes "stream k = ok_response name content" and "length content < 2 ^ 31" and "enough (reads_for content) k"
  shows "\<exists>s rp1 k1 rp2 k2. Rio_readlineb (rio_init fd) k = Some (Inr (Some s, rp1, k1)) \<and>
      header_loop print s (length s) r rp1 k1 = Some (Inr (absorb print (ok_lines name content) r, rp2, k2)) \<and>
      pending rp2 k2 = content \<and> enough (0 + Suc (length content) * Suc MAXLINE) k2"
proof -
  let ?h = "''HTTP/1.0 200 OK'' @ crlf"
  obtain hs where hs: "ok_lines name content = ?h # hs" "length hs = 4" by (simp add: ok_lines_def)
  have l: "header_lines (?h # hs)" using ok_lines_header[OF assms(2), of name] hs(1) by simp
  have p: "pending (rio_init fd) k = ?h @ concat hs @ crlf @ content"
    using assms(1) ok_response_lines[OF assms(2), of name] hs(1) by (simp add: pending_def rio_init_def)
  have "\<exists>rp' k'. Rio_readlineb (rio_init fd) k = Some (Inr (Some ?h, rp', k')) \<and> pending rp' k' = concat hs @ crlf @ content \<and>
      enough (Suc (length content) * Suc MAXLINE + Suc (length hs) * Suc MAXLINE) k'"
  proof (rule Rio_readlineb_ok[OF _ p])
    show "enough (Suc (length content) * Suc MAXLINE + Suc (length hs) * Suc MAXLINE + Suc MAXLINE) k"
      using assms(3) hs(2) by (simp add: reads_for_def algebra_simps)
  qed (use l in \<open>simp_all add: header_lines_def MAXLINE_def\<close>)
  then obtain rp1 k1 where 1: "Rio_readlineb (rio_init fd) k = Some (Inr (Some ?h, rp1, k1))"
    "pending rp1 k1 = concat hs @ crlf @ content"
    "enough (Suc (length content) * Suc MAXLINE + Suc (length hs) * Suc MAXLINE) k1" by blast
  from header_loop_spec[OF l 1(3,2), of print r] 1(1) show ?thesis unfolding hs(1) by auto
qed

lemma client_print_response:
  assumes "stream k = ok_response name content" and "length content < 2 ^ 31" and "enough (reads_for content) k"
  shows "if lines_fit content
    then \<exists>k'. client_print cs len print fd k = Some (assertR (cs = csum content) (assertR (len = int (length content))
      (Inr (if print then header_out (ok_lines name content) @ content else [], k'))))
    else client_print cs len print fd k = Some (Inl Out_of_bounds)"
proof -
  let ?r = "\<lparr>resp_length = 0, resp_csum = 0, resp_out = []\<rparr>"
  let ?a = "absorb print (ok_lines name content) ?r"
  from client_print_reads[OF assms, of fd print ?r] obtain s rp1 k1 rp2 k2 where
    1: "Rio_readlineb (rio_init fd) k = Some (Inr (Some s, rp1, k1))"
      "header_loop print s (length s) ?r rp1 k1 = Some (Inr (?a, rp2, k2))"
      "pending rp2 k2 = content" "enough (0 + Suc (length content) * Suc MAXLINE) k2" by blast
  have b: "if lines_fit content
   then \<exists>rp' k'. body_loop print 0 0 ?a rp2 k2 = Some (Inr (0 + int (length content), 0 + csum content, print_if print content ?a, rp', k'))
   else body_loop print 0 0 ?a rp2 k2 = Some (Inl Out_of_bounds)"
    using assms(2) by (intro body_loop_spec[OF 1(4,3)]) simp_all
  have c: "client_print cs len print fd k = bindO (body_loop print 0 0 ?a rp2 k2) (\<lambda>(n, w, r, rp, k).
      Some (assertR (cs = resp_csum r) (assertR (len = resp_length r) (assertR (resp_length r = n) (assertR (resp_csum r = w) (Inr (resp_out r, k)))))))"
    using 1(1,2) by (simp add: client_print_def)
  have a: "?a = (print_if print (header_out (ok_lines name content)) ?r)\<lparr>resp_length := int (length content), resp_csum := csum content\<rparr>"
    using absorb_ok_lines[OF assms(2)] .
  show ?thesis using b unfolding c unfolding a by (auto simp: print_if_def) blast+
qed


lemma client_print_simple_response:
  assumes "stream k = ok_response name content" and "length content < 2 ^ 31" and "enough (reads_for content) k"
  shows "if lines_fit content
    then \<exists>k'. client_print_simple fd k = Some (Inr (header_out (ok_lines name content) @ content, k'))
    else client_print_simple fd k = Some (Inl Out_of_bounds)"
proof -
  let ?r = "\<lparr>resp_length = 0, resp_csum = 0, resp_out = []\<rparr>"
  let ?a = "absorb True (ok_lines name content) ?r"
  from client_print_reads[OF assms, of fd True ?r] obtain s rp1 k1 rp2 k2 where
    1: "Rio_readlineb (rio_init fd) k = Some (Inr (Some s, rp1, k1))"
      "header_loop True s (length s) ?r rp1 k1 = Some (Inr (?a, rp2, k2))"
      "pending rp2 k2 = content" "enough (0 + Suc (length content) * Suc MAXLINE) k2" by blast
  have b: "if lines_fit content
   then \<exists>rp' k'. body_loop True 0 0 ?a rp2 k2 = Some (Inr (0 + int (length content), 0 + csum content, print_if True content ?a, rp', k'))
   else body_loop True 0 0 ?a rp2 k2 = Some (Inl Out_of_bounds)"
    using assms(2) by (intro body_loop_spec[OF 1(4,3)]) simp_all
  have c: "client_print_simple fd k = bindO (body_loop True 0 0 ?a rp2 k2) (\<lambda>(n, w, r, rp, k).
      Some (assertR (resp_length r = 0 \<or> resp_length r = n) (Inr (resp_out r, k))))"
    using 1(1,2) by (simp add: client_print_simple_def)
  have a: "?a = (print_if True (header_out (ok_lines name content)) ?r)\<lparr>resp_length := int (length content), resp_csum := csum content\<rparr>"
    using absorb_ok_lines[OF assms(2)] .
  show ?thesis using b unfolding c unfolding a by (auto simp: print_if_def)
qed

section \<open>A request and its response\<close>

lemma dropWhile_space_word: "w \<noteq> [] \<Longrightarrow> \<forall>c\<in>set w. \<not> isspace c \<Longrightarrow> dropWhile isspace (w @ r) = w @ r"
  by (cases w) auto

lemma takeWhile_word:
  "\<forall>c\<in>set w. \<not> isspace c \<Longrightarrow> isspace x \<Longrightarrow> takeWhile (\<lambda>c. \<not> isspace c) (w @ x # r) = w"
  "\<forall>c\<in>set w. \<not> isspace c \<Longrightarrow> isspace x \<Longrightarrow> dropWhile (\<lambda>c. \<not> isspace c) (w @ x # r) = x # r"
  by (simp_all add: takeWhile_append2 dropWhile_append2)

text \<open>A name the request line can carry.\<close>

definition plain_name :: "string \<Rightarrow> bool" where
  "plain_name s \<longleftrightarrow> s \<noteq> [] \<and> (\<forall>c\<in>set s. \<not> isspace c \<and> c \<noteq> CHR 0x00)"

lemma request_line_words:
  assumes "plain_name nm"
  shows "sscanf_words 3 (cstr (''GET '' @ nm @ '' HTTP/1.0'' @ crlf)) = [''GET'', nm, ''HTTP/1.0'']"
proof -
  have c: "cstr (''GET '' @ nm @ '' HTTP/1.0'' @ crlf) = ''GET '' @ nm @ '' HTTP/1.0'' @ crlf"
    using assms by (intro cstr_id) (auto simp: plain_name_def)
  have sp: "isspace (CHR '' '')" "\<not> isspace (CHR ''G'')" "\<not> isspace (CHR ''E'')" "\<not> isspace (CHR ''T'')"
    "isspace (CHR 0x0D)" by (simp_all add: isspace_def)
  have w: "dropWhile isspace (nm @ CHR '' '' # r) = nm @ CHR '' '' # r" "takeWhile (\<lambda>c. \<not> isspace c) (nm @ CHR '' '' # r) = nm"
    "dropWhile (\<lambda>c. \<not> isspace c) (nm @ CHR '' '' # r) = CHR '' '' # r" for r
    using assms dropWhile_space_word[of nm "CHR '' '' # r"] takeWhile_word[of nm "CHR '' ''" r] sp(1)
    by (auto simp: plain_name_def)
  have h: "sscanf_words 1 ('' HTTP/1.0'' @ crlf) = [''HTTP/1.0'']" by code_simp
  have "sscanf_words 3 (''GET '' @ nm @ '' HTTP/1.0'' @ crlf) = ''GET'' # nm # sscanf_words 1 ('' HTTP/1.0'' @ crlf)"
    using w sp assms by (simp add: numeral_3_eq_3 plain_name_def)
  then show ?thesis unfolding c h .
qed

lemma request_init_client:
  assumes "plain_name nm" and "CHR 0x0A \<notin> set hst" and "length (request_text hst nm) < MAXLINE"
    and "stream ki = request_text hst nm" and "enough (3 * Suc MAXLINE) ki"
  shows "\<exists>ki'. request_init fd ki ko = Some (Inr (Some (''./'' @ nm), ki', ko))"
proof -
  let ?l = "''GET '' @ nm @ '' HTTP/1.0'' @ crlf" and ?h = "''host: '' @ hst @ crlf"
  have sp: "isspace (CHR 0x0A)" by (simp add: isspace_def)
  then have n: "CHR 0x0A \<notin> set nm" using assms(1) by (auto simp: plain_name_def)
  have len: "length ?l < MAXLINE" "length ?h < MAXLINE" "Suc (length (''./'' @ nm)) < MAXLINE"
    using assms(3) by (simp_all add: request_text_def)
  have "header_lines [?l, ?h]" using n assms(2) len by (auto simp: header_lines_def butlast_append)
  moreover have "stream ki = ?l @ concat [?h] @ crlf @ []" using assms(4) by (simp add: request_text_def)
  moreover have "enough (Suc (Suc (length [?h])) * Suc MAXLINE) ki" using assms(5) by (simp add: eval_nat_numeral)
  moreover have "strcasecmp_eq ''GET'' ''GET''" by (simp add: strcasecmp_eq_def)
  moreover have "request_parse_URI nm MAXLINE = ''./'' @ nm" using len(3) by (simp add: request_parse_URI_def)
  ultimately show ?thesis using request_init_GET[of ki ?l "[?h]" "[]"] request_line_words[OF assms(1)] by fastforce
qed

lemma client_send_ok:
  assumes "length (request_text hst nm) < MAXLINE" and "enough (length (request_text hst nm)) k"
  shows "\<exists>k'. client_send hst nm k = Some (Inr k') \<and> stream k' = stream k @ request_text hst nm"
  using Rio_write_ok[of 0 "request_text hst nm" k] assms by (auto simp: client_send_def)

text \<open>
  C22. A client and the server. The client sends a request for a file of its file set; the server
  reads it on the connection, sends the file and closes the connection; the client reads what was
  sent, finds the length and the checksum in the header, and all its assertions hold: the length and
  the checksum of the body are those announced. It prints the header and exactly the bytes of the
  file. This needs the lines of the file to fit the client's buffer of 8192 bytes; otherwise the
  client writes the terminating 0 behind its buffer.
\<close>

theorem client_server_roundtrip:
  assumes "plain_name nm" and "CHR 0x0A \<notin> set hst" and "length (request_text hst nm) < MAXLINE"
    and "stream k = []" and "enough (length (request_text hst nm)) k"
    and "on_disk stat_of disk (''./'' @ nm) content"
    and "is_open c" and "stream (kin c) = request_text hst nm" and "enough (3 * Suc MAXLINE) (kin c)"
    and "stream (kout c) = []" and "enough (length (ok_response (''./'' @ nm) content)) (kout c)"
    and "files s d = None" and "''./'' @ nm \<notin> name_of s ` set (inflight_q s)"
    and "fileCache s = None \<or> cache_ok stat_of disk s"
  shows "\<exists>k' c' s'. client_send hst nm k = Some (Inr k') \<and> stream k' = stream (kin c) \<and>
    do_server_request stat_of disk d fd c s = Some (Inr (c', s')) \<and> \<not> is_open c' \<and>
    (\<forall>kc. stream kc = stream (kout c') \<longrightarrow> enough (reads_for content) kc \<longrightarrow>
      (if lines_fit content
       then \<exists>kc'. client_print (csum content) (int (length content)) print cfd kc =
         Some (Inr (if print then header_out (ok_lines (''./'' @ nm) content) @ content else [], kc'))
       else client_print (csum content) (int (length content)) print cfd kc = Some (Inl Out_of_bounds)))"
proof -
  obtain k' where 1: "client_send hst nm k = Some (Inr k')" "stream k' = stream (kin c)"
    using client_send_ok[OF assms(3,5)] assms(4,8) by auto
  obtain ki where "request_init fd (kin c) (kout c) = Some (Inr (Some (''./'' @ nm), ki, kout c))"
    using request_init_client[OF assms(1,2,3,8,9)] by blast
  from serves_request[OF this assms(7,6,11-14)] assms(10) obtain c' s' where
    2: "do_server_request stat_of disk d fd c s = Some (Inr (c', s'))" "\<not> is_open c'"
      "stream (kout c') = ok_response (''./'' @ nm) content" by auto
  have l: "length content < 2 ^ 31" using assms(6) by (simp add: on_disk_def)
  have "if lines_fit content
       then \<exists>kc'. client_print (csum content) (int (length content)) print cfd kc =
         Some (Inr (if print then header_out (ok_lines (''./'' @ nm) content) @ content else [], kc'))
       else client_print (csum content) (int (length content)) print cfd kc = Some (Inl Out_of_bounds)"
    if "stream kc = stream (kout c')" "enough (reads_for content) kc" for kc
    using client_print_response[OF that(1)[unfolded 2(3)] l that(2), of "csum content" "int (length content)" print cfd]
    by (simp cong: if_cong)
  with 1 2 show ?thesis by blast
qed

lemma lines_fit_short: "length p < MAXLINE \<Longrightarrow> lines_fit p"
proof (induction p rule: lines_fit.induct)
  case (1 p)
  then show ?case using line_of_length[of MAXLINE p] by (subst lines_fit.simps) auto
qed

text \<open>A connection on which a client requests \<open>a.txt\<close>.\<close>

definition client_conn :: conn where
  "client_conn = \<lparr>kin = \<lparr>stream = request_text ''h'' ''a.txt'', sched = replicate 30000 (K_bytes 50)\<rparr>,
     kout = \<lparr>stream = [], sched = replicate 1000 (K_bytes 50)\<rparr>, is_open = True\<rparr>"

theorem client_server_roundtrip_witness:
  "\<exists>c' s' kc'. do_server_request [''./a.txt'' \<mapsto> \<lparr>S_ISREG = True, S_IRUSR = True, st_size = 3\<rparr>]
       [''./a.txt'' \<mapsto> \<lparr>stream = ''abc'', sched = replicate 4 (K_bytes 0)\<rparr>] 1 4 client_conn (cache_start Map.empty 8192) =
     Some (Inr (c', s')) \<and>
   client_print 294 3 False 5 \<lparr>stream = stream (kout c'), sched = replicate 90000 (K_bytes 0)\<rparr> = Some (Inr ([], kc'))"
proof -
  let ?st = "[''./a.txt'' \<mapsto> \<lparr>S_ISREG = True, S_IRUSR = True, st_size = 3\<rparr>]"
  let ?dk = "[''./a.txt'' \<mapsto> \<lparr>stream = ''abc'', sched = replicate 4 (K_bytes 0)\<rparr>]"
  let ?s = "cache_start Map.empty 8192" and ?k = "\<lparr>stream = [], sched = replicate 100 (K_bytes 0)\<rparr>"
  have t: "request_text ''h'' ''a.txt'' = ''GET a.txt HTTP/1.0'' @ crlf @ ''host: h'' @ crlf @ crlf" by (simp add: request_text_def)
  have n: "plain_name ''a.txt''" "CHR 0x0A \<notin> set ''h''" "length (request_text ''h'' ''a.txt'') < MAXLINE" "stream ?k = []"
    "enough (length (request_text ''h'' ''a.txt'')) ?k"
    unfolding t by (simp_all add: plain_name_def isspace_def MAXLINE_def enough_def)
  have "servable ''./a.txt''" by (simp add: servable_checks)
  then have d: "on_disk ?st ?dk (''./'' @ ''a.txt'') ''abc''" by (simp add: on_disk_def enough_def)
  have c: "size32 ''abc'' = 3" "fmt_u 3 = ''3''" "csum ''abc'' = 294" "fmt_u 294 = ''294''"
    "request_get_file_type ''./a.txt'' = ''text/plain''"
    by (simp_all add: fmt_u.simps char_of_def bit_simps csum_def request_get_file_type_def)
  have o: "is_open client_conn" "stream (kin client_conn) = request_text ''h'' ''a.txt''" "enough (3 * Suc MAXLINE) (kin client_conn)"
    "stream (kout client_conn) = []" by (simp_all add: client_conn_def enough_def MAXLINE_def)
  have e: "enough (length (ok_response (''./'' @ ''a.txt'') ''abc'')) (kout client_conn)"
    by (simp add: ok_response_def ok_header_def enough_def fmt_d_def c client_conn_def)
  have s: "files ?s 1 = None" "''./'' @ ''a.txt'' \<notin> name_of ?s ` set (inflight_q ?s)" by (simp_all add: cache_start_def)
  have "cache_ok ?st ?dk ?s" using cache_start_inv[of 8192 Map.empty] by (simp add: cache_ok_def) (simp add: cache_start_def)
  then have k: "fileCache ?s = None \<or> cache_ok ?st ?dk ?s" ..
  have f: "lines_fit ''abc''" "enough (reads_for ''abc'') \<lparr>stream = x, sched = replicate 90000 (K_bytes 0)\<rparr>" for x
    by (rule lines_fit_short) (simp_all add: MAXLINE_def reads_for_def enough_def)
  from client_server_roundtrip[OF n d o e s k, of 4 False 5] f c(3) show ?thesis by fastforce
qed

text \<open>A file set whose entries tell the checksum and the length of the files.\<close>

definition describes :: "fileinfo \<Rightarrow> string \<Rightarrow> string \<Rightarrow> bool" where
  "describes fi nm content \<longleftrightarrow> fi = \<lparr>fi_name = Some nm, fi_csum = Some (csum content), fi_len = Some (int (length content))\<rparr> \<and>
     length content < 2 ^ 31 \<and> lines_fit content"

text \<open>A round on file \<open>nm\<close>: the request is sent, and there is enough to read; and one whose peer answers
  as the server does.\<close>

definition round_on :: "client \<Rightarrow> session \<Rightarrow> string \<Rightarrow> string \<Rightarrow> bool" where
  "round_on cl x nm content \<longleftrightarrow>
     1 \<le> rand_val x \<and> rand_val x \<le> int (length (fileset cl)) \<and>
     describes (fileset cl ! nat (rand_val x - 1)) nm content \<and>
     length (request_text (host cl) nm) < MAXLINE \<and> stream (to_peer x) = [] \<and>
     enough (length (request_text (host cl) nm)) (to_peer x) \<and>
     enough (reads_for content) (peer x (request_text (host cl) nm))"

definition good_session :: "client \<Rightarrow> session \<Rightarrow> string \<Rightarrow> string \<Rightarrow> bool" where
  "good_session cl x nm content \<longleftrightarrow> round_on cl x nm content \<and>
     stream (peer x (request_text (host cl) nm)) = ok_response (''./'' @ nm) content"

definition session_out :: "client \<Rightarrow> string \<Rightarrow> string \<Rightarrow> string" where
  "session_out cl nm content = (if timing_mode cl then [] else header_out (ok_lines (''./'' @ nm) content) @ content)"

lemma client_session_ok:
  assumes "good_session cl x nm content"
  shows "client_session cl x = Some (Inr (session_out cl nm content))"
proof -
  let ?t = "request_text (host cl) nm"
  have g: "1 \<le> rand_val x" "rand_val x \<le> int (length (fileset cl))" "length ?t < MAXLINE" "stream (to_peer x) = []"
    "enough (length ?t) (to_peer x)" "stream (peer x ?t) = ok_response (''./'' @ nm) content" "enough (reads_for content) (peer x ?t)"
    "length content < 2 ^ 31" "lines_fit content"
    "fileset cl ! nat (rand_val x - 1) = \<lparr>fi_name = Some nm, fi_csum = Some (csum content), fi_len = Some (int (length content))\<rparr>"
    using assms by (simp_all add: good_session_def round_on_def describes_def)
  obtain k' where 1: "client_send (host cl) nm (to_peer x) = Some (Inr k')" "stream k' = ?t"
    using client_send_ok[OF g(3,5)] g(4) by auto
  obtain kc where "client_print (csum content) (int (length content)) (\<not> timing_mode cl) (client_fd x) (peer x ?t) =
      Some (Inr (session_out cl nm content, kc))"
    using client_print_response[OF g(6,8,7), of "csum content" "int (length content)" "\<not> timing_mode cl" "client_fd x"] g(9)
    by (auto simp: session_out_def)
  with 1 g(1,2,10) show ?thesis by (simp add: client_session_def Let_def)
qed

lemma client_request_ok:
  "list_all2 (\<lambda>x (nm, content). good_session cl x nm content) xs fs \<Longrightarrow>
   client_request cl xs = Some (Inr (concat (map (\<lambda>(nm, content). session_out cl nm content) fs)))"
  by (induction rule: list_all2_induct) (auto simp: client_session_ok)


section \<open>What the clients rely on\<close>

text \<open>A server as the clients see it: \<open>reply\<close> gives what is sent back for the text of a request, \<open>available\<close>
  says which files it has.\<close>

locale file_server =
  fixes reply :: "string \<Rightarrow> string" and available :: "string \<Rightarrow> string \<Rightarrow> bool"
  assumes reply_file: "available nm content \<Longrightarrow> plain_name nm \<Longrightarrow> CHR 0x0A \<notin> set hst \<Longrightarrow>
      length (request_text hst nm) < MAXLINE \<Longrightarrow> reply (request_text hst nm) = ok_response (''./'' @ nm) content"
begin

lemma client_run:
  assumes "CHR 0x0A \<notin> set (host cl)"
    and "list_all2 (\<lambda>x (nm, content). available nm content \<and> plain_name nm \<and> round_on cl x nm content \<and>
      (\<forall>t. stream (peer x t) = reply t)) xs fs"
  shows "client_request cl xs = Some (Inr (concat (map (\<lambda>(nm, content). session_out cl nm content) fs)))"
proof (rule client_request_ok)
  show "list_all2 (\<lambda>x (nm, content). good_session cl x nm content) xs fs"
    using assms(2)
    by (rule list_all2_mono) (use reply_file[OF _ _ assms(1)] in \<open>auto simp: good_session_def round_on_def\<close>)
qed

end

text \<open>The server of this repository, without a cache, on a connection whose output takes \<open>n\<close> writes.\<close>

definition server_reply :: "(string \<Rightarrow> stat option) \<Rightarrow> (string \<Rightarrow> kern option) \<Rightarrow> nat \<Rightarrow> string \<Rightarrow> string" where
  "server_reply stat_of disk n req =
     (case do_server_request stat_of disk 0 4
         \<lparr>kin = \<lparr>stream = req, sched = replicate (3 * Suc MAXLINE) (K_bytes 4095)\<rparr>,
          kout = \<lparr>stream = [], sched = replicate n (K_bytes 4095)\<rparr>, is_open = True\<rparr>
         \<lparr>files = Map.empty, fileCache = None, LRU_Policy = [], inflight_q = []\<rparr> of
        Some (Inr (c, _)) \<Rightarrow> stream (kout c)
      | _ \<Rightarrow> [])"

interpretation srv: file_server "server_reply stat_of disk n"
  "\<lambda>nm content. on_disk stat_of disk (''./'' @ nm) content \<and> length (ok_response (''./'' @ nm) content) \<le> n"
  for stat_of disk n
proof
  fix nm content hst
  assume a: "on_disk stat_of disk (''./'' @ nm) content \<and> length (ok_response (''./'' @ nm) content) \<le> n"
    "plain_name nm" "CHR 0x0A \<notin> set hst" "length (request_text hst nm) < MAXLINE"
  let ?c = "\<lparr>kin = \<lparr>stream = request_text hst nm, sched = replicate (3 * Suc MAXLINE) (K_bytes 4095)\<rparr>,
     kout = \<lparr>stream = [], sched = replicate n (K_bytes 4095)\<rparr>, is_open = True\<rparr>"
  let ?s = "\<lparr>files = Map.empty, fileCache = None, LRU_Policy = [], inflight_q = []\<rparr> :: shared"
  have e: "enough (3 * Suc MAXLINE) (kin ?c)" "enough (length (ok_response (''./'' @ nm) content)) (kout ?c)"
    using a(1) by (simp_all add: enough_def)
  obtain ki where i: "request_init 4 (kin ?c) (kout ?c) = Some (Inr (Some (''./'' @ nm), ki, kout ?c))"
    using request_init_client[OF a(2-4) _ e(1)] by auto
  have "\<exists>c' s'. do_server_request stat_of disk 0 4 ?c ?s = Some (Inr (c', s')) \<and>
      stream (kout c') = stream (kout ?c) @ ok_response (''./'' @ nm) content"
    using serves_request[OF i _ conjunct1[OF a(1)] e(2), of ?s 0] by auto
  then show "server_reply stat_of disk n (request_text hst nm) = ok_response (''./'' @ nm) content"
    by (auto simp: server_reply_def)
qed

text \<open>A client thread against this server: it passes all its assertions and prints the files it asked for.\<close>

lemma client_against_server:
  assumes "CHR 0x0A \<notin> set (host cl)"
    and "list_all2 (\<lambda>x (nm, content). (on_disk stat_of disk (''./'' @ nm) content \<and> length (ok_response (''./'' @ nm) content) \<le> n) \<and>
      plain_name nm \<and> round_on cl x nm content \<and> (\<forall>t. stream (peer x t) = server_reply stat_of disk n t)) xs fs"
  shows "client_request cl xs = Some (Inr (concat (map (\<lambda>(nm, content). session_out cl nm content) fs)))"
  using srv.client_run[OF assms] .

end
