(* ===== verification/Pool.thy ===== *)
theory Pool
  imports ConnQueue
begin

text \<open>
  The thread pool of webserver/server_thread.c: the main thread hands connections to the worker
  threads through the bounded queue, under the mutex \<open>mp\<close> and with the condition variables
  \<open>cv_work\<close> and \<open>cv_main\<close>. What a thread does while it holds \<open>mp\<close> is one step, up to the
  unlock or to the wait that releases it; threads interleave at these points. A signal wakes one
  of the waiting threads, whichever; a woken thread competes for the mutex like the others.
\<close>

section \<open>State\<close>

datatype worker = W_Top | W_Waiting | W_Woken | W_Serving int | W_Done

text \<open>The main thread: between calls, waiting to push a connection, joining the workers, done.\<close>

datatype main = M_Idle | M_Waiting int | M_Woken int | M_Joining nat | M_Exited

record pool =
  nr_threads :: nat
  max_requests :: nat
  workers :: "nat \<Rightarrow> worker"
  main_th :: main
  connection_requests :: "int queue"
  isServerExiting :: bool

text \<open>\<open>server_init\<close>, with one worker or more.\<close>

definition server_init :: "nat \<Rightarrow> nat \<Rightarrow> pool" where
  "server_init n m = \<lparr>nr_threads = n, max_requests = m, workers = (\<lambda>i. if i < n then W_Top else W_Done),
     main_th = M_Idle, connection_requests = queue_init (of_nat m), isServerExiting = False\<rparr>"

section \<open>Signals\<close>

text \<open>\<open>pthread_cond_signal(&cv_work)\<close> wakes the worker \<open>i\<close>, a waiting one, or none if no worker
  waits.\<close>

definition signal_work :: "nat option \<Rightarrow> pool \<Rightarrow> pool option" where
  "signal_work i s =
     (case i of
        None \<Rightarrow> if \<forall>j < nr_threads s. workers s j \<noteq> W_Waiting then Some s else None
      | Some j \<Rightarrow> if j < nr_threads s \<and> workers s j = W_Waiting
                  then Some (s\<lparr>workers := (workers s)(j := W_Woken)\<rparr>) else None)"

definition broadcast_work :: "pool \<Rightarrow> pool" where
  "broadcast_work s = s\<lparr>workers := (\<lambda>j. if workers s j = W_Waiting then W_Woken else workers s j)\<rparr>"

text \<open>Only the main thread waits on \<open>cv_main\<close>.\<close>

definition signal_main :: "pool \<Rightarrow> pool" where
  "signal_main s = (case main_th s of M_Waiting fd \<Rightarrow> s\<lparr>main_th := M_Woken fd\<rparr> | _ \<Rightarrow> s)"

section \<open>The worker\<close>

text \<open>
  \<open>do_server_t_request\<close>: the code between taking the mutex and releasing or waiting. \<open>woken\<close>
  says that it continues after \<open>pthread_cond_wait\<close>, where an exiting server ends the inner loop
  whatever \<open>popConnection\<close> gave.
\<close>

definition do_server_t_request :: "nat \<Rightarrow> bool \<Rightarrow> pool \<Rightarrow> (int option \<times> pool) option" where
  "do_server_t_request i woken s =
     Option.bind (popConnection (connection_requests s)) (\<lambda>(front, q).
       let s = s\<lparr>connection_requests := q\<rparr>
       in if front = None \<and> \<not> (woken \<and> isServerExiting s)
          then Some (None, s\<lparr>workers := (workers s)(i := W_Waiting)\<rparr>)
          else let s = signal_main s
               in if isServerExiting s
                  then Some (front, s\<lparr>workers := (workers s)(i := W_Done)\<rparr>)
                  else Some (front, s\<lparr>workers := (workers s)(i := W_Serving (the front))\<rparr>))"

section \<open>The main thread\<close>

text \<open>
  \<open>server_request\<close> with worker threads: push, or wait on \<open>cv_main\<close>; after a successful push
  the assertion on the tail of the queue, and the signal. \<open>w\<close> is the worker the signal wakes.
  The result \<open>Inl\<close> is a failed assertion.
\<close>

definition tail_connfd :: "int queue \<Rightarrow> int option" where
  "tail_connfd q = Option.bind (stail (conns q)) (\<lambda>a. map_option item (smem (conns q) a))"

definition server_request :: "int \<Rightarrow> nat option \<Rightarrow> pool \<Rightarrow> (bool \<times> pool) res option" where
  "server_request fd w s =
     (case pushConnection (connection_requests s) fd of
        None \<Rightarrow> Some (Inl Null_deref)
      | Some (pushSuccess, q) \<Rightarrow>
          let s = s\<lparr>connection_requests := q\<rparr>
          in if \<not> pushSuccess then Some (Inr (False, s\<lparr>main_th := M_Waiting fd\<rparr>))
             else if tail_connfd q \<noteq> Some fd then Some (Inl Assert_failed)
             else map_option (\<lambda>s. Inr (True, s\<lparr>main_th := M_Idle\<rparr>)) (signal_work w s))"

text \<open>\<open>server_exit\<close>: the part under the mutex, and one iteration of the loop that joins the
  workers, bounded by \<open>max_requests\<close>.\<close>

definition server_exit :: "pool \<Rightarrow> pool" where
  "server_exit s = (broadcast_work (s\<lparr>isServerExiting := True\<rparr>))\<lparr>main_th := M_Joining 0\<rparr>"

definition join_next :: "nat \<Rightarrow> pool \<Rightarrow> pool res option" where
  "join_next i s =
     (if i < max_requests s
      then if i < nr_threads s
           then if workers s i = W_Done then Some (Inr (s\<lparr>main_th := M_Joining (Suc i)\<rparr>)) else None
           else Some (Inl Out_of_bounds)
      else Some (Inr (s\<lparr>main_th := M_Exited\<rparr>)))"

section \<open>Interleaving\<close>

text \<open>Labels name who moved and what it took from or put into the queue.\<close>

datatype plabel =
    Accept int
  | Full int
  | Take nat int
  | Nothing nat
  | Finish nat
  | Exit
  | Join nat

inductive pstep :: "pool \<Rightarrow> plabel \<Rightarrow> pool \<Rightarrow> bool" where
  accept: "main_th s = M_Idle \<or> main_th s = M_Woken fd \<Longrightarrow>
    server_request fd w s = Some (Inr (True, s')) \<Longrightarrow> pstep s (Accept fd) s'"
| full: "main_th s = M_Idle \<or> main_th s = M_Woken fd \<Longrightarrow>
    server_request fd w s = Some (Inr (False, s')) \<Longrightarrow> pstep s (Full fd) s'"
| take: "i < nr_threads s \<Longrightarrow> workers s i = (if woken then W_Woken else W_Top) \<Longrightarrow>
    do_server_t_request i woken s = Some (Some fd, s') \<Longrightarrow> pstep s (Take i fd) s'"
| empty: "i < nr_threads s \<Longrightarrow> workers s i = (if woken then W_Woken else W_Top) \<Longrightarrow>
    do_server_t_request i woken s = Some (None, s') \<Longrightarrow> pstep s (Nothing i) s'"
| finish: "i < nr_threads s \<Longrightarrow> workers s i = W_Serving fd \<Longrightarrow>
    pstep s (Finish i) (s\<lparr>workers := (workers s)(i := W_Top)\<rparr>)"
| exit: "main_th s = M_Idle \<Longrightarrow> pstep s Exit (server_exit s)"
| join: "main_th s = M_Joining i \<Longrightarrow> join_next i s = Some (Inr s') \<Longrightarrow> pstep s (Join i) s'"

inductive psteps :: "pool \<Rightarrow> plabel list \<Rightarrow> pool \<Rightarrow> bool" where
  psteps_Nil: "psteps s [] s"
| psteps_snoc: "psteps s ls s' \<Longrightarrow> pstep s' l s'' \<Longrightarrow> psteps s (ls @ [l]) s''"

text \<open>The connections accepted, and those taken by workers, in order.\<close>

fun accepted :: "plabel list \<Rightarrow> int list" where
  "accepted [] = []"
| "accepted (Accept fd # ls) = fd # accepted ls"
| "accepted (_ # ls) = accepted ls"

fun taken :: "plabel list \<Rightarrow> int list" where
  "taken [] = []"
| "taken (Take i fd # ls) = fd # taken ls"
| "taken (_ # ls) = taken ls"

text \<open>Executing a schedule: each label with the worker a signal wakes and whether the worker that
  moves was woken.\<close>

fun pexec :: "plabel \<Rightarrow> nat option \<Rightarrow> bool \<Rightarrow> pool \<Rightarrow> pool option" where
  "pexec (Accept fd) w woken s =
     (if main_th s = M_Idle \<or> main_th s = M_Woken fd
      then case server_request fd w s of Some (Inr (True, s')) \<Rightarrow> Some s' | _ \<Rightarrow> None else None)"
| "pexec (Full fd) w woken s =
     (if main_th s = M_Idle \<or> main_th s = M_Woken fd
      then case server_request fd w s of Some (Inr (False, s')) \<Rightarrow> Some s' | _ \<Rightarrow> None else None)"
| "pexec (Take i fd) w woken s =
     (if i < nr_threads s \<and> workers s i = (if woken then W_Woken else W_Top)
      then case do_server_t_request i woken s of
             Some (Some fd', s') \<Rightarrow> if fd' = fd then Some s' else None | _ \<Rightarrow> None else None)"
| "pexec (Nothing i) w woken s =
     (if i < nr_threads s \<and> workers s i = (if woken then W_Woken else W_Top)
      then case do_server_t_request i woken s of Some (None, s') \<Rightarrow> Some s' | _ \<Rightarrow> None else None)"
| "pexec (Finish i) w woken s =
     (if i < nr_threads s
      then case workers s i of W_Serving fd \<Rightarrow> Some (s\<lparr>workers := (workers s)(i := W_Top)\<rparr>) | _ \<Rightarrow> None
      else None)"
| "pexec Exit w woken s = (if main_th s = M_Idle then Some (server_exit s) else None)"
| "pexec (Join i) w woken s =
     (if main_th s = M_Joining i then case join_next i s of Some (Inr s') \<Rightarrow> Some s' | _ \<Rightarrow> None else None)"

fun prun :: "(plabel \<times> nat option \<times> bool) list \<Rightarrow> pool \<Rightarrow> pool option" where
  "prun [] s = Some s"
| "prun ((l, w, woken) # as) s = Option.bind (pexec l w woken s) (prun as)"

section \<open>The invariant\<close>

definition pool_inv :: "nat \<Rightarrow> nat \<Rightarrow> pool \<Rightarrow> int list \<Rightarrow> bool" where
  "pool_inv n m s xs \<longleftrightarrow> nr_threads s = n \<and> max_requests s = m \<and>
     (\<exists>k. conn_abs m k (connection_requests s) xs) \<and>
     (\<forall>fd. main_th s = M_Waiting fd \<longrightarrow> length xs = m) \<and>
     (xs \<noteq> [] \<longrightarrow> 0 < n \<longrightarrow> (\<exists>i<n. workers s i \<noteq> W_Waiting)) \<and>
     (\<forall>i<n. workers s i = W_Done \<longrightarrow> isServerExiting s) \<and>
     (isServerExiting s \<longleftrightarrow> main_th s \<in> insert M_Exited (range M_Joining))"

lemma pool_inv_init: "m < 2 ^ 31 \<Longrightarrow> pool_inv n m (server_init n m) []"
  using conn_abs_init[of m] by (auto simp: pool_inv_def server_init_def)

lemma sl_repr_tail:
  assumes "sl_repr q (ps @ [(a, x)])"
  shows "stail q = Some a" "smem q a = Some \<lparr>item = x, snext = None\<rparr>"
  using assms by (auto simp: sl_repr_def lseg_append)

lemma conn_abs_tail: "conn_abs m k q (xs @ [fd]) \<Longrightarrow> tail_connfd q = Some fd"
proof -
  assume "conn_abs m k q (xs @ [fd])"
  then obtain ps where ps: "sl_repr (conns q) ps" "map snd ps = xs @ [fd]" by (auto simp: conn_abs_def)
  then obtain rs a where "ps = rs @ [(a, fd)]" by (cases ps rule: rev_cases) auto
  with ps sl_repr_tail[of "conns q" rs a fd] show ?thesis by (simp add: tail_connfd_def)
qed

lemma signal_main_simps [simp]:
  "nr_threads (signal_main s) = nr_threads s" "max_requests (signal_main s) = max_requests s"
  "workers (signal_main s) = workers s" "connection_requests (signal_main s) = connection_requests s"
  "isServerExiting (signal_main s) = isServerExiting s" "main_th (signal_main s) \<noteq> M_Waiting fd"
  "main_th (signal_main s) \<in> insert M_Exited (range M_Joining) \<longleftrightarrow> main_th s \<in> insert M_Exited (range M_Joining)"
  by (auto simp: signal_main_def split: main.splits)

text \<open>What a push does: it never fails the assertion.\<close>

lemma server_request_inv:
  assumes "pool_inv n m s xs" and "main_th s = M_Idle \<or> main_th s = M_Woken fd"
  shows "server_request fd w s \<noteq> Some (Inl e)"
    and "server_request fd w s = Some (Inr (b, s')) \<Longrightarrow> pool_inv n m s' (if b then xs @ [fd] else xs)"
proof -
  obtain k where k: "conn_abs m k (connection_requests s) xs" using assms(1) by (auto simp: pool_inv_def)
  from pushConnection_abs[OF k, of fd] obtain q where q: "pushConnection (connection_requests s) fd = Some (length xs < m, q)"
    "if length xs < m then conn_abs m k q (xs @ [fd]) else conn_abs m (Suc k) q xs" by blast
  have le: "length xs \<le> m" using k by (simp add: conn_abs_def)
  show "server_request fd w s \<noteq> Some (Inl e)"
    using q conn_abs_tail[of m k q xs fd] by (auto simp: server_request_def split: if_splits)
  assume r: "server_request fd w s = Some (Inr (b, s'))"
  have ne: "\<not> isServerExiting s" using assms by (auto simp: pool_inv_def)
  show "pool_inv n m s' (if b then xs @ [fd] else xs)"
  proof (cases "length xs < m")
    case True
    let ?s = "s\<lparr>connection_requests := q\<rparr>"
    from r q True conn_abs_tail[of m k q xs fd] obtain u where u: "signal_work w ?s = Some u" "s' = u\<lparr>main_th := M_Idle\<rparr>" "b"
      by (auto simp: server_request_def)
    have "nr_threads u = n" "max_requests u = m" "connection_requests u = q" "isServerExiting u = isServerExiting s"
      using u(1) assms(1) by (auto simp: signal_work_def pool_inv_def split: option.splits if_splits)
    moreover have "\<exists>i<n. workers u i \<noteq> W_Waiting" if "0 < n"
    proof (cases w)
      case None
      with u(1) assms(1) that show ?thesis by (intro exI[of _ 0]) (auto simp: signal_work_def pool_inv_def split: if_splits)
    next
      case (Some j)
      with u(1) assms(1) show ?thesis by (intro exI[of _ j]) (auto simp: signal_work_def pool_inv_def split: if_splits)
    qed
    moreover have "\<forall>i<n. workers u i \<noteq> W_Done"
      using u(1) assms(1) ne by (auto simp: signal_work_def pool_inv_def split: option.splits if_splits)
    ultimately show ?thesis using u q(2) True ne by (auto simp: pool_inv_def)
  next
    case False
    with r q have "s' = s\<lparr>connection_requests := q, main_th := M_Waiting fd\<rparr>" "\<not> b"
      by (auto simp: server_request_def)
    with q(2) False le assms(1) ne show ?thesis by (auto simp: pool_inv_def)
  qed
qed

lemma worker_update:
  assumes "pool_inv n m s xs" and "i < n" and "conn_abs m k q ys"
    and "mt = main_th s \<or> mt = main_th (signal_main s)" and "\<forall>fd. mt = M_Waiting fd \<longrightarrow> length ys = m"
    and "ys \<noteq> [] \<longrightarrow> st \<noteq> W_Waiting" and "st = W_Done \<longrightarrow> isServerExiting s"
  shows "pool_inv n m (s\<lparr>connection_requests := q, main_th := mt, workers := (workers s)(i := st)\<rparr>) ys"
proof -
  have "mt \<in> insert M_Exited (range M_Joining) \<longleftrightarrow> main_th s \<in> insert M_Exited (range M_Joining)"
    using assms(4) signal_main_simps(7)[of s] by (elim disjE) (simp_all only:)
  moreover have "\<exists>j<n. ((workers s)(i := st)) j \<noteq> W_Waiting" if "ys \<noteq> []"
    using that assms(2,6) by (intro exI[of _ i]) simp
  moreover have "\<forall>j<n. ((workers s)(i := st)) j = W_Done \<longrightarrow> isServerExiting s"
    using assms(1,7) by (auto simp: pool_inv_def)
  ultimately show ?thesis using assms(1,3,5) unfolding pool_inv_def by simp blast
qed

lemma worker_inv:
  assumes "pool_inv n m s xs" and "i < n" and "do_server_t_request i woken s = Some (r, s')"
  shows "r = (case xs of [] \<Rightarrow> None | x # _ \<Rightarrow> Some x) \<and> pool_inv n m s' (tl xs)"
proof -
  obtain k where k: "conn_abs m k (connection_requests s) xs" using assms(1) by (auto simp: pool_inv_def)
  from popConnection_abs[OF k] obtain q where q: "popConnection (connection_requests s) = Some (case xs of [] \<Rightarrow> None | x # _ \<Rightarrow> Some x, q)"
    "conn_abs m k q (tl xs)" by blast
  let ?r = "case xs of [] \<Rightarrow> None | x # _ \<Rightarrow> Some x"
  let ?st = "if isServerExiting s then W_Done else W_Serving (the ?r)"
  have sm: "signal_main (s\<lparr>connection_requests := q\<rparr>) = s\<lparr>connection_requests := q, main_th := main_th (signal_main s)\<rparr>"
    by (cases s) (simp add: signal_main_def split: main.splits)
  have "s' = (if ?r = None \<and> \<not> (woken \<and> isServerExiting s)
      then s\<lparr>connection_requests := q, main_th := main_th s, workers := (workers s)(i := W_Waiting)\<rparr>
      else s\<lparr>connection_requests := q, main_th := main_th (signal_main s), workers := (workers s)(i := ?st)\<rparr>)" "r = ?r"
    using assms(3) q(1) by (auto simp: do_server_t_request_def Let_def sm split: if_splits)
  moreover have "pool_inv n m (s\<lparr>connection_requests := q, main_th := main_th s, workers := (workers s)(i := W_Waiting)\<rparr>) (tl xs)"
    if "?r = None"
    using assms(1) that by (intro worker_update[OF assms(1,2) q(2)]) (auto simp: pool_inv_def split: list.splits)
  moreover have "pool_inv n m (s\<lparr>connection_requests := q, main_th := main_th (signal_main s), workers := (workers s)(i := ?st)\<rparr>) (tl xs)"
    by (intro worker_update[OF assms(1,2) q(2)]) auto
  ultimately show ?thesis by auto
qed

lemma pstep_inv:
  "pstep s l s' \<Longrightarrow> pool_inv n m s xs \<Longrightarrow> \<exists>ys. pool_inv n m s' ys \<and> xs @ accepted [l] = taken [l] @ ys"
proof (induction rule: pstep.induct)
  case (accept s fd w s')
  with server_request_inv(2)[OF accept(3,1,2)] show ?case by auto
next
  case (full s fd w s')
  with server_request_inv(2)[OF full(3,1,2)] show ?case by auto
next
  case (take i s woken fd s')
  then have "i < n" by (simp add: pool_inv_def)
  from worker_inv[OF take(4) this take(3)] show ?case by (cases xs) auto
next
  case (empty i s woken s')
  then have "i < n" by (simp add: pool_inv_def)
  from worker_inv[OF empty(4) this empty(3)] show ?case by (cases xs) auto
next
  case (finish i s fd)
  then have "i < n" "workers s i \<noteq> W_Waiting" by (auto simp: pool_inv_def)
  with finish show ?case by (auto simp: pool_inv_def)
next
  case (exit s)
  then show ?case by (auto simp: pool_inv_def server_exit_def broadcast_work_def)
next
  case (join s i s')
  then show ?case by (auto simp: pool_inv_def join_next_def split: if_splits)
qed

lemma accepted_append [simp]: "accepted (as @ bs) = accepted as @ accepted bs"
  by (induction as rule: accepted.induct) auto

lemma taken_append [simp]: "taken (as @ bs) = taken as @ taken bs"
  by (induction as rule: taken.induct) auto

lemma psteps_inv:
  "psteps s ls s' \<Longrightarrow> pool_inv n m s [] \<Longrightarrow> \<exists>xs. pool_inv n m s' xs \<and> accepted ls = taken ls @ xs"
proof (induction rule: psteps.induct)
  case (psteps_snoc s ls s' l s'')
  then obtain xs where xs: "pool_inv n m s' xs" "accepted ls = taken ls @ xs" by blast
  from pstep_inv[OF psteps_snoc(2) xs(1)] obtain ys where "pool_inv n m s'' ys" "xs @ accepted [l] = taken [l] @ ys" by blast
  with xs(2) show ?case by (metis accepted_append append.assoc taken_append)
qed auto

section \<open>Concrete schedules\<close>

lemma pexec_pstep: "pexec l w woken s = Some s' \<Longrightarrow> pstep s l s'"
  by (cases l) (auto split: if_splits option.splits sum.splits prod.splits bool.splits worker.splits
      intro: pstep.intros)

lemma psteps_Cons: "psteps s' ls s'' \<Longrightarrow> pstep s l s' \<Longrightarrow> psteps s (l # ls) s''"
proof (induction rule: psteps.induct)
  case (psteps_Nil s')
  then show ?case using psteps.psteps_snoc[OF psteps.psteps_Nil, of s l s'] by simp
next
  case (psteps_snoc s' ls t l' u)
  then show ?case using psteps.psteps_snoc[of s "l # ls" t l' u] by simp
qed

lemma prun_psteps: "prun as s = Some s' \<Longrightarrow> psteps s (map fst as) s'"
proof (induction as arbitrary: s)
  case Nil
  then show ?case by (simp add: psteps.psteps_Nil)
next
  case (Cons a as)
  then show ?case by (cases a) (auto simp: bind_eq_Some_conv intro: psteps_Cons pexec_pstep)
qed

lemmas pool_evals = server_init_def queue_init_def sl_empty_def server_request_def pushConnection_def
  new_elem_def link_tail_def signal_work_def tail_connfd_def do_server_t_request_def popConnection_def
  pop_head_def signal_main_def server_exit_def broadcast_work_def join_next_def Let_def

section \<open>Properties\<close>

text \<open>
  C14. Every connection the main thread accepts is taken by exactly one worker, in the order of
  acceptance: in any interleaving of the main thread and the workers, the connections accepted so
  far are those taken so far followed by the contents of the queue, of which there are at most
  \<open>max_requests\<close>. The assertion of \<open>server_request\<close> on the tail of the queue never fails.
\<close>

theorem requests_exactly_once:
  assumes "m < 2 ^ 31" and "psteps (server_init n m) ls s"
  shows "(\<exists>xs k. accepted ls = taken ls @ xs \<and> length xs \<le> m \<and> conn_abs m k (connection_requests s) xs) \<and>
    (main_th s = M_Idle \<or> main_th s = M_Woken fd \<longrightarrow> server_request fd w s \<noteq> Some (Inl e))"
proof -
  obtain xs where xs: "pool_inv n m s xs" "accepted ls = taken ls @ xs"
    using psteps_inv[OF assms(2) pool_inv_init[OF assms(1)]] by blast
  then obtain k where "conn_abs m k (connection_requests s) xs" by (auto simp: pool_inv_def)
  moreover from this have "length xs \<le> m" by (simp add: conn_abs_def)
  ultimately show ?thesis using xs server_request_inv(1)[OF xs(1)] by blast
qed

theorem requests_exactly_once_witness:
  "\<exists>s xs. psteps (server_init 1 1) [Nothing 0, Accept 5, Full 6, Take 0 5] s \<and>
     accepted [Nothing 0, Accept 5, Full 6, Take 0 5] = taken [Nothing 0, Accept 5, Full 6, Take 0 5] @ xs"
proof -
  obtain s where s: "prun [(Nothing 0, None, False), (Accept 5, Some 0, False), (Full 6, None, False),
      (Take 0 5, None, True)] (server_init 1 1) = Some s"
    by (simp add: pool_evals)
  have p: "psteps (server_init 1 1) [Nothing 0, Accept 5, Full 6, Take 0 5] s" using prun_psteps[OF s] by simp
  from requests_exactly_once[OF _ p, of 0 None Assert_failed] p show ?thesis by auto
qed

lemma worker_enabled:
  assumes "pool_inv n m s xs" and "i < n" and "workers s i \<noteq> W_Waiting" and "workers s i \<noteq> W_Done"
  shows "\<exists>l s'. pstep s l s' \<and> l \<in> {Nothing i, Finish i} \<union> range (Take i)"
proof -
  have n: "nr_threads s = n" using assms(1) by (simp add: pool_inv_def)
  obtain k where "conn_abs m k (connection_requests s) xs" using assms(1) by (auto simp: pool_inv_def)
  from popConnection_abs[OF this] have "\<exists>r s'. do_server_t_request i woken s = Some (r, s')" for woken
    by (auto simp: do_server_t_request_def Let_def)
  then have tk: "\<exists>l s'. pstep s l s' \<and> l \<in> {Nothing i} \<union> range (Take i)"
    if "workers s i = (if woken then W_Woken else W_Top)" for woken
    using that assms(2) n pstep.take[of i s woken] pstep.empty[of i s woken]
    by (metis UnCI insertCI not_Some_eq rangeI)
  show ?thesis
  proof (cases "workers s i")
    case W_Top
    with tk[of False] show ?thesis by auto
  next
    case W_Woken
    with tk[of True] show ?thesis by auto
  next
    case (W_Serving fd)
    with pstep.finish[of i s fd] assms(2) n show ?thesis by blast
  qed (use assms in auto)
qed



section \<open>Exiting\<close>

definition stuck_worker :: "nat \<Rightarrow> pool \<Rightarrow> bool" where
  "stuck_worker i s \<longleftrightarrow> isServerExiting s \<and> workers s i = W_Waiting \<and> i < nr_threads s \<and> i < max_requests s \<and>
     (\<exists>j\<le>i. main_th s = M_Joining j)"

lemma worker_frame:
  assumes "do_server_t_request k woken s = Some (r, s')"
  shows "nr_threads s' = nr_threads s" "max_requests s' = max_requests s"
    "isServerExiting s' = isServerExiting s" "j \<noteq> k \<Longrightarrow> workers s' j = workers s j"
    "main_th s = M_Joining i \<Longrightarrow> main_th s' = M_Joining i"
  using assms
  by (auto simp: do_server_t_request_def Let_def bind_eq_Some_conv signal_main_def split: if_splits main.splits)

lemma stuck_step: "pstep s l s' \<Longrightarrow> stuck_worker i s \<Longrightarrow> stuck_worker i s'"
proof (induction rule: pstep.induct)
  case (take k s woken fd s')
  then have "k \<noteq> i" by (auto simp: stuck_worker_def split: if_splits)
  with take worker_frame[OF take(3)] show ?case by (auto simp: stuck_worker_def)
next
  case (empty k s woken s')
  then have "k \<noteq> i" by (auto simp: stuck_worker_def split: if_splits)
  with empty worker_frame[OF empty(3)] show ?case by (auto simp: stuck_worker_def)
next
  case (join s j s')
  then have j: "j \<le> i" "i < nr_threads s" "i < max_requests s" "workers s i = W_Waiting"
    by (auto simp: stuck_worker_def)
  then have s': "workers s j = W_Done" "s' = s\<lparr>main_th := M_Joining (Suc j)\<rparr>"
    using join(2) by (auto simp: join_next_def split: if_splits)
  then have "j \<noteq> i" using j(4) by auto
  then have "Suc j \<le> i" using j(1) by simp
  with s' join(3) show ?case by (auto simp: stuck_worker_def)
qed (auto simp: stuck_worker_def)

text \<open>
  C16. \<open>server_exit\<close> can wait forever. A worker that is serving a connection while
  \<open>server_exit\<close> broadcasts finds the queue empty afterwards and waits on \<open>cv_work\<close> without
  looking at \<open>isServerExiting\<close>; nobody signals again. From any state with such a worker, whatever
  happens, the worker stays asleep and the main thread never gets past joining it.
\<close>

theorem server_exit_waits_forever:
  assumes "stuck_worker i s" and "psteps s ls s'"
  shows "workers s' i = W_Waiting \<and> main_th s' \<noteq> M_Exited"
proof -
  have "stuck_worker i s'" using assms(2,1) by (induction rule: psteps.induct) (auto intro: stuck_step)
  then show ?thesis by (auto simp: stuck_worker_def)
qed

theorem server_exit_waits_forever_witness:
  "\<exists>s. psteps (server_init 1 1) [Accept 5, Take 0 5, Exit, Finish 0, Nothing 0] s \<and> main_th s = M_Joining 0 \<and>
     workers s 0 = W_Waiting \<and> main_th s \<noteq> M_Exited"
proof -
  obtain s where s: "prun [(Accept 5, None, False), (Take 0 5, None, False), (Exit, None, False),
      (Finish 0, None, False), (Nothing 0, None, False)] (server_init 1 1) = Some s" "stuck_worker 0 s"
      "main_th s = M_Joining 0"
    by (simp add: pool_evals stuck_worker_def)
  have "psteps (server_init 1 1) [Accept 5, Take 0 5, Exit, Finish 0, Nothing 0] s" using prun_psteps[OF s(1)] by simp
  with s(3) server_exit_waits_forever[OF s(2) psteps_Nil] show ?thesis by blast
qed

text \<open>
  \<open>server_exit\<close> joins \<open>max_requests\<close> threads instead of \<open>nr_threads\<close>. With fewer
  requests than threads it returns, having freed the pool and the cache, while a worker is still
  serving a connection; with more requests than threads it joins past the end of the array.
\<close>

lemma server_exit_joins_wrong_count:
  "(\<exists>s. psteps (server_init 2 1) [Accept 5, Take 1 5, Nothing 0, Exit, Nothing 0, Join 0, Join 1] s \<and>
      main_th s = M_Exited \<and> workers s 1 = W_Serving 5) \<and>
   (\<exists>s. psteps (server_init 1 2) [Nothing 0, Exit, Nothing 0, Join 0] s \<and>
      main_th s = M_Joining 1 \<and> join_next 1 s = Some (Inl Out_of_bounds))"
proof -
  obtain s where s: "prun [(Accept 5, None, False), (Take 1 5, None, False), (Nothing 0, None, False), (Exit, None, False),
      (Nothing 0, None, True), (Join 0, None, False), (Join 1, None, False)] (server_init 2 1) = Some s"
      "main_th s = M_Exited \<and> workers s 1 = W_Serving 5"
    by (simp add: pool_evals)
  obtain u where u: "prun [(Nothing 0, None, False), (Exit, None, False), (Nothing 0, None, True), (Join 0, None, False)]
      (server_init 1 2) = Some u" "main_th u = M_Joining 1 \<and> join_next 1 u = Some (Inl Out_of_bounds)"
    by (simp add: pool_evals)
  show ?thesis using prun_psteps[OF s(1)] prun_psteps[OF u(1)] s(2) u(2) by auto
qed

end
