(* ===== verification/ServerMain.thy ===== *)
theory ServerMain
  imports Client Pool
begin

text \<open>
  The main routine of webserver/server.c: its arguments, the initial state \<open>server_init\<close> makes, the
  loop that waits for a connection or for the request to exit, and the end. Without worker threads
  the main thread serves the connections itself, in the order of their arrival; with them it
  hands them to the pool of theory \<open>Pool\<close>. A pass through the loop is described by what \<open>poll\<close>
  reports and, for a connection, by what \<open>accept\<close> and \<open>malloc\<close> return.
\<close>

section \<open>The program\<close>

record server_opts =
  so_port :: int
  so_nr_threads :: int
  so_max_requests :: int
  so_max_cache_size :: int

definition server_args :: "string list \<Rightarrow> server_opts res" where
  "server_args argv =
     (if length argv \<noteq> 5 then Inl Exit_1
      else let opt = \<lparr>so_port = atoi (argv ! 1), so_nr_threads = atoi (argv ! 2), so_max_requests = atoi (argv ! 3),
                      so_max_cache_size = atoi (argv ! 4)\<rparr>
           in if so_port opt < 1024 then Inl Exit_1
              else if so_nr_threads opt < 0 \<or> so_max_requests opt < 0 \<or> so_max_cache_size opt < 0 then Inl Exit_1
              else Inr opt)"

text \<open>What a pass through the loop sees: the events on the fifo and on the listening socket, the
  connection, and the address of the file structure.\<close>

record poll_pass =
  exit_in :: bool
  listen_in :: bool
  conn_fd :: int
  conn_of :: conn
  alloc_at :: addr

text \<open>The cache part of \<open>server_init\<close>.\<close>

definition init_shared :: "int \<Rightarrow> shared" where
  "init_shared max_cache_size =
     \<lparr>files = Map.empty, fileCache = if 0 < max_cache_size then Some (init_cache max_cache_size) else None,
      LRU_Policy = [], inflight_q = []\<rparr>"

text \<open>The loop without worker threads; it waits when there is nothing more to see.\<close>

fun server_loop :: "(string \<Rightarrow> stat option) \<Rightarrow> (string \<Rightarrow> kern option) \<Rightarrow> poll_pass list \<Rightarrow> shared \<Rightarrow>
    (conn list \<times> shared) io" where
  "server_loop stat_of disk [] s = Some (Inl Would_block)"
| "server_loop stat_of disk (e # es) s =
     (if exit_in e then Some (Inr ([], s))
      else if \<not> listen_in e then Some (Inl Assert_failed)
      else bindO (do_server_request stat_of disk (alloc_at e) (conn_fd e) (conn_of e) s) (\<lambda>(c, s).
             bindO (server_loop stat_of disk es s) (\<lambda>(cs, s). Some (Inr (c # cs, s)))))"

text \<open>
  What the main thread does with worker threads, as labels of the steps of \<open>Pool\<close>: the connections
  in order, then the exit. \<open>follows\<close> says that a schedule of the pool is one of this main thread.
\<close>

fun main_labels :: "poll_pass list \<Rightarrow> plabel list" where
  "main_labels [] = []"
| "main_labels (e # es) = (if exit_in e then [Exit] else if listen_in e then Accept (conn_fd e) # main_labels es else [])"

fun of_main :: "plabel \<Rightarrow> bool" where
  "of_main (Accept fd) = True"
| "of_main Exit = True"
| "of_main _ = False"

definition follows :: "poll_pass list \<Rightarrow> plabel list \<Rightarrow> bool" where
  "follows es ls \<longleftrightarrow> (let ms = filter of_main ls in take (length ms) (main_labels es) = ms)"

datatype outcome = Sequential "conn list" shared | Pooled pool

text \<open>\<open>main\<close>; \<open>sched\<close> schedules the threads, if there are any. Without worker threads
  \<open>server_exit\<close> only frees the server structure.\<close>

definition server_main :: "(string \<Rightarrow> stat option) \<Rightarrow> (string \<Rightarrow> kern option) \<Rightarrow> poll_pass list \<Rightarrow>
    (plabel \<times> nat option \<times> bool) list \<Rightarrow> string list \<Rightarrow> outcome io" where
  "server_main stat_of disk es schd argv =
     (case server_args argv of
        Inl e \<Rightarrow> Some (Inl e)
      | Inr opt \<Rightarrow>
          if so_nr_threads opt = 0
          then bindO (server_loop stat_of disk es (init_shared (so_max_cache_size opt))) (\<lambda>(cs, s). Some (Inr (Sequential cs s)))
          else if follows es (map fst schd)
               then map_option (\<lambda>p. Inr (Pooled p))
                      (prun schd (server_init (nat (so_nr_threads opt)) (nat (so_max_requests opt))))
               else None)"

section \<open>Serving every connection\<close>

text \<open>A connection on which a client requests the file \<open>nm\<close>, which is on the disk.\<close>

definition file_request :: "(string \<Rightarrow> stat option) \<Rightarrow> (string \<Rightarrow> kern option) \<Rightarrow> poll_pass \<Rightarrow> string \<Rightarrow> string \<Rightarrow> bool" where
  "file_request stat_of disk e nm content \<longleftrightarrow> \<not> exit_in e \<and> listen_in e \<and> is_open (conn_of e) \<and> plain_name nm \<and>
     (\<exists>hst. CHR 0x0A \<notin> set hst \<and> length (request_text hst nm) < MAXLINE \<and> stream (kin (conn_of e)) = request_text hst nm) \<and>
     enough (3 * Suc MAXLINE) (kin (conn_of e)) \<and> stream (kout (conn_of e)) = [] \<and>
     enough (length (ok_response (''./'' @ nm) content)) (kout (conn_of e)) \<and> on_disk stat_of disk (''./'' @ nm) content"

definition answered :: "conn \<Rightarrow> string \<times> string \<Rightarrow> bool" where
  "answered c = (\<lambda>(nm, content). \<not> is_open c \<and> stream (kout c) = ok_response (''./'' @ nm) content)"

lemma file_request_served:
  assumes "file_request stat_of disk e nm content" and "files s (alloc_at e) = None" and "inflight_q s = []"
    and "fileCache s = None \<or> cache_ok stat_of disk s"
  shows "\<exists>c' s'. do_server_request stat_of disk (alloc_at e) (conn_fd e) (conn_of e) s = Some (Inr (c', s')) \<and>
    answered c' (nm, content) \<and> inflight_q s' = [] \<and>
    (if fileCache s = None then s' = s else fileCache s' \<noteq> None \<and> cache_ok stat_of disk s') \<and>
    (\<forall>b. b \<noteq> alloc_at e \<longrightarrow> files s b = None \<longrightarrow> files s' b = None)"
proof -
  obtain hst where h: "CHR 0x0A \<notin> set hst" "length (request_text hst nm) < MAXLINE" "stream (kin (conn_of e)) = request_text hst nm"
    and f: "plain_name nm" "is_open (conn_of e)" "enough (3 * Suc MAXLINE) (kin (conn_of e))" "stream (kout (conn_of e)) = []"
      "enough (length (ok_response (''./'' @ nm) content)) (kout (conn_of e))" "on_disk stat_of disk (''./'' @ nm) content"
    using assms(1) by (auto simp: file_request_def)
  obtain ki where "request_init (conn_fd e) (kin (conn_of e)) (kout (conn_of e)) = Some (Inr (Some (''./'' @ nm), ki, kout (conn_of e)))"
    using request_init_client[OF f(1) h f(3)] by blast
  from serves_request[OF this f(2,6,5) assms(2) _ assms(4)] assms(3) obtain c' s' where
    r: "do_server_request stat_of disk (alloc_at e) (conn_fd e) (conn_of e) s = Some (Inr (c', s'))" "\<not> is_open c'"
      "stream (kout c') = ok_response (''./'' @ nm) content"
      "if fileCache s = None then s' = s else cache_ok stat_of disk s' \<and> inflight_q s' = inflight_q s \<and>
         LRU_Policy s' = served_LRU (''./'' @ nm) content (alloc_at e) s \<and>
         (\<forall>b. b \<noteq> alloc_at e \<longrightarrow> files s b = None \<longrightarrow> files s' b = None)" using f(4) by auto
  have "cache_ok stat_of disk s' \<Longrightarrow> fileCache s' \<noteq> None" by (auto simp: cache_ok_def cache_inv_def split: option.splits)
  with r assms(3) show ?thesis by (cases "fileCache s = None") (auto simp: answered_def)
qed

lemma server_loop_serves:
  "list_all2 (\<lambda>e (nm, content). file_request stat_of disk e nm content) es gs \<Longrightarrow> exit_in x \<Longrightarrow>
   distinct (map alloc_at es) \<Longrightarrow> \<forall>e\<in>set es. files s (alloc_at e) = None \<Longrightarrow> inflight_q s = [] \<Longrightarrow>
   fileCache s = None \<or> cache_ok stat_of disk s \<Longrightarrow>
   \<exists>cs s'. server_loop stat_of disk (es @ x # rest) s = Some (Inr (cs, s')) \<and> list_all2 answered cs gs \<and>
     (if fileCache s = None then s' = s else cache_ok stat_of disk s')"
proof (induction arbitrary: s rule: list_all2_induct)
  case Nil
  then show ?case by auto
next
  case (Cons e es g gs)
  obtain nm content where g: "g = (nm, content)" by force
  with Cons.hyps(1) have e: "file_request stat_of disk e nm content" by simp
  from file_request_served[OF e, of s] Cons.prems obtain c' s' where
    1: "do_server_request stat_of disk (alloc_at e) (conn_fd e) (conn_of e) s = Some (Inr (c', s'))" "answered c' g" "inflight_q s' = []"
      "if fileCache s = None then s' = s else fileCache s' \<noteq> None \<and> cache_ok stat_of disk s'"
      "\<forall>b. b \<noteq> alloc_at e \<longrightarrow> files s b = None \<longrightarrow> files s' b = None" unfolding g by auto
  have "\<forall>e'\<in>set es. files s' (alloc_at e') = None"
    using 1(5) Cons.prems(2,3) by (auto simp: image_iff)
  moreover have "fileCache s' = None \<or> cache_ok stat_of disk s'" using 1(4) by (auto split: if_splits)
  ultimately obtain cs t where 2: "server_loop stat_of disk (es @ x # rest) s' = Some (Inr (cs, t))" "list_all2 answered cs gs"
    "if fileCache s' = None then t = s' else cache_ok stat_of disk t"
    using Cons.IH[of s'] Cons.prems(1,2) 1(3) by auto
  have "\<not> exit_in e" "listen_in e" using e by (simp_all add: file_request_def)
  with 1 2 show ?case by (intro exI[of _ "c' # cs"] exI[of _ t]) (auto split: if_splits)
qed


lemma init_shared_ok:
  "max_cache_size \<le> 0 \<or> 4096 \<le> max_cache_size \<and> max_cache_size < 2 ^ 30 \<Longrightarrow>
   fileCache (init_shared max_cache_size) = None \<or> cache_ok stat_of disk (init_shared max_cache_size)"
proof (cases "0 < max_cache_size")
  case True
  moreover assume "max_cache_size \<le> 0 \<or> 4096 \<le> max_cache_size \<and> max_cache_size < 2 ^ 30"
  ultimately have "cache_inv (cache_start Map.empty max_cache_size) \<and> idle (cache_start Map.empty max_cache_size)"
    by (intro cache_start_inv) auto
  moreover have "init_shared max_cache_size = cache_start Map.empty max_cache_size"
    using True by (simp add: init_shared_def cache_start_def)
  ultimately show ?thesis by (simp add: cache_ok_def) (simp add: cache_start_def)
qed (simp add: init_shared_def)

text \<open>
  C23. The server without worker threads. Started with no cache or with one of at least a block,
  \<open>main\<close> serves the connections it accepts in the order of their arrival, each with the file that was
  requested, as it is on the disk, whatever was cached before, and closes them; it ends when the exit
  is requested, and what is then in the cache still is what is on the disk.
\<close>

theorem server_serves_in_order:
  assumes "server_args argv = Inr opt" and "so_nr_threads opt = 0"
    and "so_max_cache_size opt = 0 \<or> 4096 \<le> so_max_cache_size opt \<and> so_max_cache_size opt < 2 ^ 30"
    and "list_all2 (\<lambda>e (nm, content). file_request stat_of disk e nm content) es gs" and "exit_in x"
    and "distinct (map alloc_at es)"
  shows "\<exists>cs s. server_main stat_of disk (es @ x # rest) schd argv = Some (Inr (Sequential cs s)) \<and>
    list_all2 (\<lambda>c (nm, content). \<not> is_open c \<and> stream (kout c) = ok_response (''./'' @ nm) content) cs gs \<and>
    (if so_max_cache_size opt = 0 then s = init_shared 0 else cache_ok stat_of disk s)"
proof -
  let ?s = "init_shared (so_max_cache_size opt)"
  have s: "files ?s a = None" "inflight_q ?s = []" "fileCache ?s = None \<longleftrightarrow> so_max_cache_size opt = 0" for a
    using assms(3) by (auto simp: init_shared_def)
  have "fileCache ?s = None \<or> cache_ok stat_of disk ?s" using assms(3) by (intro init_shared_ok) auto
  from server_loop_serves[OF assms(4-6) _ s(2) this] s(1) obtain cs s' where
    "server_loop stat_of disk (es @ x # rest) ?s = Some (Inr (cs, s'))" "list_all2 answered cs gs"
    "if fileCache ?s = None then s' = ?s else cache_ok stat_of disk s'" by blast
  with assms(1,2) s(3) show ?thesis by (auto simp: server_main_def answered_def[abs_def] split: if_splits)
qed

definition client_pass :: "addr \<Rightarrow> poll_pass" where
  "client_pass d = \<lparr>exit_in = False, listen_in = True, conn_fd = 4, conn_of = client_conn, alloc_at = d\<rparr>"

theorem server_serves_in_order_witness:
  "\<exists>cs s. server_main [''./a.txt'' \<mapsto> \<lparr>S_ISREG = True, S_IRUSR = True, st_size = 3\<rparr>]
      [''./a.txt'' \<mapsto> \<lparr>stream = ''abc'', sched = replicate 4 (K_bytes 0)\<rparr>]
      [client_pass 1, client_pass 2, (client_pass 3)\<lparr>exit_in := True\<rparr>] [] [''server'', ''2000'', ''0'', ''8'', ''8192''] =
     Some (Inr (Sequential cs s)) \<and> map (\<lambda>c. stream (kout c)) cs = replicate 2 (ok_response ''./a.txt'' ''abc'')"
proof -
  let ?st = "[''./a.txt'' \<mapsto> \<lparr>S_ISREG = True, S_IRUSR = True, st_size = 3\<rparr>]"
  let ?dk = "[''./a.txt'' \<mapsto> \<lparr>stream = ''abc'', sched = replicate 4 (K_bytes 0)\<rparr>]"
  let ?o = "\<lparr>so_port = 2000, so_nr_threads = 0, so_max_requests = 8, so_max_cache_size = 8192\<rparr>"
  have a: "server_args [''server'', ''2000'', ''0'', ''8'', ''8192''] = Inr ?o" by code_simp
  have "servable ''./a.txt''" by (simp add: servable_checks)
  then have d: "on_disk ?st ?dk ''./a.txt'' ''abc''" by (simp add: on_disk_def enough_def)
  have c: "size32 ''abc'' = 3" "fmt_u 3 = ''3''" "csum ''abc'' = 294" "fmt_u 294 = ''294''"
    "request_get_file_type ''./a.txt'' = ''text/plain''"
    by (simp_all add: fmt_u.simps char_of_def bit_simps csum_def request_get_file_type_def)
  have e: "enough (length (ok_response ''./a.txt'' ''abc'')) (kout client_conn)"
    by (simp add: ok_response_def ok_header_def enough_def fmt_d_def c client_conn_def)
  have n: "plain_name ''a.txt''" by (simp add: plain_name_def isspace_def)
  have h: "\<exists>hst. CHR 0x0A \<notin> set hst \<and> length (request_text hst ''a.txt'') < MAXLINE \<and>
      stream (kin client_conn) = request_text hst ''a.txt''"
    by (intro exI[of _ "''h''"]) (simp add: request_text_def MAXLINE_def client_conn_def)
  have k: "is_open client_conn" "enough (3 * Suc MAXLINE) (kin client_conn)" "stream (kout client_conn) = []"
    by (simp_all add: client_conn_def enough_def MAXLINE_def)
  have f: "file_request ?st ?dk (client_pass i) ''a.txt'' ''abc''" for i
    using n h k e d by (simp add: file_request_def client_pass_def)
  have l: "list_all2 (\<lambda>e (nm, content). file_request ?st ?dk e nm content) [client_pass 1, client_pass 2] [(''a.txt'', ''abc''), (''a.txt'', ''abc'')]"
    using f by simp
  have x: "exit_in ((client_pass 3)\<lparr>exit_in := True\<rparr>)" "distinct (map alloc_at [client_pass 1, client_pass 2])"
    by (simp_all add: client_pass_def)
  from server_serves_in_order[OF a _ _ l x, of "[]" "[]"] obtain cs s where
    r: "server_main ?st ?dk [client_pass 1, client_pass 2, (client_pass 3)\<lparr>exit_in := True\<rparr>] [] [''server'', ''2000'', ''0'', ''8'', ''8192''] =
       Some (Inr (Sequential cs s))"
     "list_all2 (\<lambda>c (nm, content). \<not> is_open c \<and> stream (kout c) = ok_response (''./'' @ nm) content) cs [(''a.txt'', ''abc''), (''a.txt'', ''abc'')]"
    by auto
  then have "map (\<lambda>c. stream (kout c)) cs = replicate 2 (ok_response ''./a.txt'' ''abc'')"
    by (auto simp: list_all2_Cons2 numeral_2_eq_2)
  with r(1) show ?thesis by blast
qed

section \<open>Handing connections to the pool\<close>

lemma accepted_main: "accepted (filter of_main ls) = accepted ls"
  by (induction ls rule: accepted.induct) auto

lemma accepted_main_labels:
  "\<exists>n. accepted (take k (main_labels es)) = map conn_fd (take n es)"
proof (induction es arbitrary: k)
  case (Cons e es)
  show ?case
  proof (cases k)
    case (Suc k')
    obtain n where "accepted (take k' (main_labels es)) = map conn_fd (take n es)" using Cons by blast
    then have "accepted (take k (Accept (conn_fd e) # main_labels es)) = map conn_fd (take (Suc n) (e # es))" using Suc by simp
    moreover have "accepted (take k [Exit]) = map conn_fd (take 0 (e # es))" using Suc by simp
    moreover have "accepted (take k []) = map conn_fd (take 0 (e # es))" by simp
    ultimately show ?thesis by (simp only: main_labels.simps split: if_split) blast
  qed (auto intro: exI[of _ 0])
qed (auto intro: exI[of _ 0])

text \<open>With worker threads, the workers take the connections in the order of their arrival.\<close>

lemma server_pool_order:
  assumes "server_main stat_of disk es schd argv = Some (Inr (Pooled p))" and "server_args argv = Inr opt"
    and "so_max_requests opt < 2 ^ 31"
  shows "\<exists>n. prefix (taken (map fst schd)) (map conn_fd (take n es))"
proof -
  let ?s = "server_init (nat (so_nr_threads opt)) (nat (so_max_requests opt))"
  from assms(1,2) have f: "follows es (map fst schd)" and r: "prun schd ?s = Some p"
    by (auto simp: server_main_def bindO_eq_Inr split: if_splits)
  have "pool_inv (nat (so_nr_threads opt)) (nat (so_max_requests opt)) ?s []" using assms(3) by (intro pool_inv_init) simp
  from psteps_inv[OF prun_psteps[OF r] this] obtain xs where x: "accepted (map fst schd) = taken (map fst schd) @ xs" by blast
  obtain n where "accepted (filter of_main (map fst schd)) = map conn_fd (take n es)"
    using f accepted_main_labels unfolding follows_def Let_def by metis
  then have "accepted (map fst schd) = map conn_fd (take n es)" by (simp only: accepted_main)
  with x show ?thesis by (intro exI[of _ n]) (metis prefixI)
qed

end
