(* ===== verification/ServerConc.thy ===== *)
theory ServerConc
  imports ServerRequest
begin

text \<open>
  Several request handlers on one cache. Each handler runs \<open>do_server_request\<close> of
  webserver/server_thread.c; the steps of theory \<open>ServerRequest\<close> are interleaved in any order on the
  shared state. The insertion of a file, which theory \<open>Cache\<close> has as one operation, is split here
  where the code gives other threads a chance: while a handler makes room it keeps the mutex
  \<open>cache_access\<close>, but the others go on adding files to the list of files being sent and removing
  them; it takes a file out of the LRU list, waits until it is not being sent, and only then, in a
  further step, frees it.
\<close>

section \<open>Handlers that share a cache\<close>

text \<open>The requests: how many, their sockets, the addresses \<open>Malloc\<close> gives them, and their connections;
  with the files of the server.\<close>

record world =
  stats :: "string \<Rightarrow> stat option"
  disks :: "string \<Rightarrow> kern option"
  njobs :: nat
  sockfd :: "nat \<Rightarrow> int"
  mem :: "nat \<Rightarrow> addr"
  peer :: "nat \<Rightarrow> conn"

text \<open>Where the holder of \<open>cache_access\<close> is in making room: at the head of the loop, waiting until
  the file taken from the LRU list is not being sent, or about to free it.\<close>

datatype stage = E_loop | E_wait addr | E_free addr

record workers =
  hs :: "nat \<Rightarrow> handler"
  evictor :: "(nat \<times> stage) option"
  sh :: shared

abbreviation set_handler :: "nat \<Rightarrow> handler \<Rightarrow> workers \<Rightarrow> workers" where
  "set_handler i h w \<equiv> w\<lparr>hs := (hs w)(i := h)\<rparr>"

definition workers_start :: "world \<Rightarrow> int \<Rightarrow> workers" where
  "workers_start W maxSize =
     \<lparr>hs = (\<lambda>i. \<lparr>pc = P_init, rq = None, data = None, conn = peer W i\<rparr>), evictor = None,
      sh = cache_start Map.empty maxSize\<rparr>"

section \<open>The steps of an insertion\<close>

text \<open>One activation of \<open>insert_to_cache\<close>: it ends, with the file in the cache or not, or room has
  to be made (\<open>None\<close>).\<close>

definition insert_attempt :: "addr \<Rightarrow> shared \<Rightarrow> (bool \<times> shared) option res" where
  "insert_attempt a s =
     bindR (readR (files s) a) (\<lambda>d.
       if bytes d > cMAX_SIZE (the_cache s) then Inr (Some (False, s))
       else bindR (hash_index (file_name d) (the_cache s)) (\<lambda>h.
         bindR (chain (the_cache s) h) (\<lambda>c.
           bindR (find_file (files s) (file_name d) c) (\<lambda>r.
             if r \<noteq> None then Inr (Some (False, s))
             else if \<not> overfull (bytes d) s
             then Inr (Some (pushBack a (upd_cache (\<lambda>wc. wc\<lparr>mapping := (mapping wc)[h := c @ [a]],
                        curr_size := wrap32 (curr_size wc + bytes d)\<rparr>) s)))
             else Inr None))))"

definition insert_go :: "nat \<Rightarrow> workers \<Rightarrow> workers res" where
  "insert_go i w =
     bindR (insert_attempt (the (data (hs w i))) (sh w)) (\<lambda>r.
       Inr (case r of
              Some (_, s) \<Rightarrow> (set_handler i ((hs w i)\<lparr>pc := P_add\<rparr>) w)\<lparr>evictor := None, sh := s\<rparr>
            | None \<Rightarrow> w\<lparr>evictor := Some (i, E_loop)\<rparr>))"

text \<open>The file has been read: the handler takes \<open>cache_access\<close>, looks the file up again and inserts it
  when it is not there.\<close>

definition insert_start :: "nat \<Rightarrow> workers \<Rightarrow> workers res" where
  "insert_start i w =
     bindR (deref (sh w) (data (hs w i))) (\<lambda>d.
     bindR (cache_lookup (file_name d) (sh w)) (\<lambda>(found, s).
       if found
       then bindR (use_cached (file_name d) (hs w i) s) (\<lambda>(h, s). Inr ((set_handler i h w)\<lparr>sh := s\<rparr>))
       else insert_go i (w\<lparr>sh := s\<rparr>)))"

text \<open>The loop that makes room, with \<open>cache_evict\<close> and \<open>remove_from_cache\<close>.\<close>

definition evict_step :: "nat \<Rightarrow> stage \<Rightarrow> workers \<Rightarrow> workers res" where
  "evict_step i g w =
     (case g of
        E_loop \<Rightarrow>
          bindR (deref (sh w) (data (hs w i))) (\<lambda>d.
            if overfull (bytes d) (sh w) \<and> curr_size (the_cache (sh w)) \<noteq> 0
            then case removeLRUFile (sh w) of
                   (None, _) \<Rightarrow> Inl Null_deref
                 | (Some a, s) \<Rightarrow> Inr (w\<lparr>evictor := Some (i, E_wait a), sh := s\<rparr>)
            else insert_go i w)
      | E_wait a \<Rightarrow>
          bindR (readR (files (sh w)) a) (\<lambda>d.
          bindR (hash_index (file_name d) (the_cache (sh w))) (\<lambda>_.
          bindR (isInFlightFile (file_name d) (sh w)) (\<lambda>f.
            if f \<noteq> None then Inl Would_block else Inr (w\<lparr>evictor := Some (i, E_free a)\<rparr>))))
      | E_free a \<Rightarrow>
          bindR (readR (files (sh w)) a) (\<lambda>d.
          bindR (hash_index (file_name d) (the_cache (sh w))) (\<lambda>h.
          bindR (remove_entry h (file_name d) (sh w)) (\<lambda>(_, s).
            Inr (w\<lparr>evictor := Some (i, E_loop), sh := s\<rparr>)))))"

section \<open>One step of one handler\<close>

text \<open>\<open>cache_access\<close> is taken for the lookup and for the insertion, and kept between the steps of the
  insertion only.\<close>

definition worker_step :: "world \<Rightarrow> nat \<Rightarrow> workers \<Rightarrow> workers io" where
  "worker_step W i w =
     (let plain = bindO (req_step (stats W) (disks W) (sockfd W i) (mem W i) (hs w i) (sh w))
            (\<lambda>(h, s). Some (Inr ((set_handler i h w)\<lparr>sh := s\<rparr>)))
      in case evictor w of
           None \<Rightarrow> if pc (hs w i) = P_insert then Some (insert_start i w) else plain
         | Some (j, g) \<Rightarrow>
             if j = i then Some (evict_step i g w)
             else if pc (hs w i) \<in> {P_lookup, P_insert} then Some (Inl Would_block)
             else plain)"

text \<open>The reachable states, and a run along a given schedule.\<close>

inductive reach :: "world \<Rightarrow> int \<Rightarrow> workers \<Rightarrow> bool" for W maxSize where
  reach_start: "reach W maxSize (workers_start W maxSize)"
| reach_step: "reach W maxSize w \<Longrightarrow> i < njobs W \<Longrightarrow> worker_step W i w = Some (Inr w') \<Longrightarrow> reach W maxSize w'"

fun run_schedule :: "world \<Rightarrow> nat list \<Rightarrow> workers \<Rightarrow> workers io" where
  "run_schedule W [] w = Some (Inr w)"
| "run_schedule W (i # is) w = bindO (worker_step W i w) (run_schedule W is)"

section \<open>A handler alone\<close>

lemma insert_to_cache_attempt:
  "insert_to_cache a s =
     bindR (insert_attempt a s) (\<lambda>r. case r of
         Some x \<Rightarrow> Inr x
       | None \<Rightarrow> bindR (readR (files s) a) (\<lambda>d. bindR (evict_loop (bytes d) s) (insert_to_cache a)))"
  by (subst insert_to_cache.simps) (auto simp: insert_attempt_def bindR_def Let_def split: sum.splits)


lemma run_schedule_append:
  "run_schedule W (is @ js) w = bindO (run_schedule W is w) (run_schedule W js)"
  by (induction "is" arbitrary: w) (auto simp: bindO_def split: option.splits sum.splits)

lemma run_schedule_snoc:
  "run_schedule W is w = Some (Inr u) \<Longrightarrow> run_schedule W js u = r \<Longrightarrow> run_schedule W (is @ js) w = r"
  by (simp add: run_schedule_append)

lemma evict_step_alone:
  assumes "cache_inv (sh w)" and "idle (sh w)" and "LRU_Policy (sh w) = b # bs" and "evictor w = Some (i, E_loop)"
    and "data (hs w i) = Some a" and "files (sh w) a = Some e" and "overfull (bytes e) (sh w)"
    and "curr_size (the_cache (sh w)) \<noteq> 0" and "cache_evict (sh w) = Inr (x, u)"
  shows "run_schedule W [i, i, i] w = Some (Inr (w\<lparr>sh := u\<rparr>))"
proof -
  let ?s = "(sh w)\<lparr>LRU_Policy := bs\<rparr>"
  obtain d where d: "files (sh w) b = Some d"
    using cache_inv_LRU(3)[OF assms(1), of b] assms(3) by auto
  obtain h where h: "hash_index (file_name d) (the_cache (sh w)) = Inr h"
    "isInFlightFile (file_name d) ?s = Inr None" "remove_entry h (file_name d) ?s = Inr (x, u)"
    using assms(3,9) d
    by (auto simp: cache_evict_def removeLRUFile_def remove_from_cache_def bindR_eq_Inr split: if_splits)
  have 1: "worker_step W i w = Some (Inr (w\<lparr>evictor := Some (i, E_wait b), sh := ?s\<rparr>))"
    using assms by (simp add: worker_step_def evict_step_def deref_def removeLRUFile_def)
  have 2: "worker_step W i (w\<lparr>evictor := Some (i, E_wait b), sh := ?s\<rparr>) =
      Some (Inr (w\<lparr>evictor := Some (i, E_free b), sh := ?s\<rparr>))"
    using d h by (simp add: worker_step_def evict_step_def)
  have 3: "worker_step W i (w\<lparr>evictor := Some (i, E_free b), sh := ?s\<rparr>) =
      Some (Inr (w\<lparr>evictor := Some (i, E_loop), sh := u\<rparr>))"
    using d h by (simp add: worker_step_def evict_step_def)
  have "w\<lparr>evictor := Some (i, E_loop), sh := u\<rparr> = w\<lparr>sh := u\<rparr>" using assms(4) by (cases w) simp
  with 1 2 3 show ?thesis by simp
qed

lemma evict_loop_alone:
  assumes "cache_inv s" and "idle s" and "sh w = s" and "evictor w = Some (i, E_loop)"
    and "data (hs w i) = Some a" and "files s a = Some e" and "a \<notin> set (LRU_Policy s)"
    and "n = bytes e" and "0 \<le> n" and "n \<le> cMAX_SIZE (the_cache s)" and "evict_loop n s = Inr u"
  shows "\<exists>k. run_schedule W (replicate k i) w = Some (Inr (w\<lparr>sh := u\<rparr>))"
  using assms
proof (induction n s arbitrary: w rule: evict_loop.induct)
  case (1 n s)
  show ?case
  proof (cases "overfull n s \<and> curr_size (the_cache s) \<noteq> 0")
    case False
    then have "u = s" using 1(12) by (subst (asm) evict_loop.simps) (auto split: if_splits)
    then show ?thesis using 1(4) by (intro exI[of _ 0]) simp
  next
    case True
    note o = overfull_eq[OF 1(2,10,11)]
    then obtain b bs where bs: "LRU_Policy s = b # bs" using True by (cases "LRU_Policy s") auto
    from evict_spec[OF 1(2,3) bs] obtain v where v: "cache_evict s = Inr (True, v)" "cache_inv v" "idle v"
      "LRU_Policy v = bs" "files v = (files s)(b := None)" "cMAX_SIZE (the_cache v) = cMAX_SIZE (the_cache s)" by blast
    have 3: "run_schedule W [i, i, i] w = Some (Inr (w\<lparr>sh := v\<rparr>))"
      using evict_step_alone[of w b bs i a e True v] True 1(2-9) bs v(1) by simp
    have r: "evict_loop n v = Inr u" using True 1(12) v(1) by (subst (asm) evict_loop.simps) simp
    have "\<exists>k. run_schedule W (replicate k i) (w\<lparr>sh := v\<rparr>) = Some (Inr (w\<lparr>sh := v, sh := u\<rparr>))"
      by (rule 1(1)[OF _ _ v(1), unfolded snd_conv]) (use True 1 v r bs in auto)
    then obtain k where "run_schedule W (replicate k i) (w\<lparr>sh := v\<rparr>) = Some (Inr (w\<lparr>sh := u\<rparr>))" by auto
    then have "run_schedule W ([i, i, i] @ replicate k i) w = Some (Inr (w\<lparr>sh := u\<rparr>))"
      by (rule run_schedule_snoc[OF 3])
    moreover have "[i, i, i] @ replicate k i = replicate (k + 3) i"
      by (simp add: replicate_add[symmetric] numeral_3_eq_3)
    ultimately show ?thesis by metis
  qed
qed


lemma insert_attempt_None:
  "insert_attempt a s = Inr None \<Longrightarrow> \<exists>e. files s a = Some e \<and> bytes e \<le> cMAX_SIZE (the_cache s) \<and> overfull (bytes e) s"
  by (auto simp: insert_attempt_def bindR_eq_Inr readR_def split: if_splits option.splits)

text \<open>While no cached file is being sent, the steps of a handler that is not interrupted amount to the
  operation of theory \<open>ServerRequest\<close>.\<close>

lemma insert_alone:
  assumes "cache_inv (sh w)" and "idle (sh w)" and "evictor w = None" and "pc (hs w i) = P_insert"
    and "data (hs w i) = Some a" and "files (sh w) a = Some e" and "0 \<le> bytes e"
    and "req_insert (hs w i) (sh w) = Inr (h, s)"
  shows "\<exists>k. run_schedule W (replicate k i) w = Some (Inr ((set_handler i h w)\<lparr>sh := s\<rparr>))"
proof (cases "cached (sh w) (file_name e)")
  case (Some b)
  then have "worker_step W i w = Some (Inr ((set_handler i h w)\<lparr>sh := s\<rparr>))"
    using assms lookup_spec[OF assms(1), of "file_name e"]
    by (simp add: worker_step_def insert_start_def req_insert_def deref_def)
  then show ?thesis by (intro exI[of _ "Suc 0"]) simp
next
  case None
  let ?a = "(hs w i)\<lparr>pc := P_add\<rparr>"
  note l = lookup_spec[OF assms(1), of "file_name e", unfolded None option.case]
  have w: "w\<lparr>sh := sh w\<rparr> = w" by simp
  have g: "worker_step W i w = Some (insert_go i w)"
    using assms(3-6) l by (simp add: worker_step_def insert_start_def deref_def)
  obtain x where ins: "insert_to_cache a (sh w) = Inr (x, s)" and h: "h = ?a"
    using assms(5,6,8) l by (auto simp: req_insert_def deref_def cache_insert_def bindR_eq_Inr)
  have nn: "file_name e \<notin> name_of (sh w) ` set (LRU_Policy (sh w))" using None cached_None by blast
  then have al: "a \<notin> set (LRU_Policy (sh w))" using assms(6) by (force simp: name_of_def)
  show ?thesis
  proof (cases "insert_attempt a (sh w)")
    case (Inl err)
    then show ?thesis using ins by (simp add: insert_to_cache_attempt)
  next
    case (Inr r)
    show ?thesis
    proof (cases r)
      case (Some y)
      with Inr ins have "insert_go i w = Inr ((set_handler i h w)\<lparr>sh := s\<rparr>)"
        using assms(3,5) by (simp add: insert_to_cache_attempt insert_go_def h)
      with g show ?thesis by (intro exI[of _ "Suc 0"]) simp
    next
      case None
      have "bytes e \<le> cMAX_SIZE (the_cache (sh w))" using insert_attempt_None[of a "sh w"] Inr None assms(6) by auto
      from evict_loop_spec[OF assms(1,2,7) this] obtain u where u: "evict_loop (bytes e) (sh w) = Inr u"
        "LRU_Policy u = make_room (size_of (sh w)) (cMAX_SIZE (the_cache (sh w))) (bytes e) (LRU_Policy (sh w))"
        "files u = (\<lambda>b. if b \<in> set (LRU_Policy (sh w)) - set (LRU_Policy u) then None else files (sh w) b)"
        "\<not> overfull (bytes e) u" by blast
      let ?w = "w\<lparr>evictor := Some (i, E_loop)\<rparr>"
      have 1: "worker_step W i w = Some (Inr ?w)"
        using g Inr None assms(5) by (simp add: insert_go_def)
      have "\<exists>k. run_schedule W (replicate k i) ?w = Some (Inr (?w\<lparr>sh := u\<rparr>))"
        by (rule evict_loop_alone[OF assms(1,2) _ _ _ assms(6) al refl assms(7) _ u(1)])
           (use assms(5) \<open>bytes e \<le> cMAX_SIZE (the_cache (sh w))\<close> in auto)
      then obtain k where 2: "run_schedule W (replicate k i) ?w = Some (Inr (?w\<lparr>sh := u\<rparr>))" by blast
      have ua: "files u a = Some e" using u(3) al assms(6) by simp
      have iu: "insert_to_cache a u = Inr (x, s)" using ins Inr None u(1) assms(6) by (simp add: insert_to_cache_attempt[of a "sh w"])
      then obtain z where z: "insert_attempt a u = Inr (Some z)"
        using insert_attempt_None[of a u] ua u(4)
        by (cases "insert_attempt a u"; cases "projr (insert_attempt a u)") (auto simp: insert_to_cache_attempt[of a u])
      with iu have zz: "z = (x, s)" by (simp add: insert_to_cache_attempt[of a u])
      have 3: "worker_step W i (?w\<lparr>sh := u\<rparr>) = Some (Inr ((set_handler i h w)\<lparr>sh := s\<rparr>))"
        using assms(3,5) ua u(4) z zz by (simp add: worker_step_def evict_step_def deref_def insert_go_def h)
      have "run_schedule W ([i] @ replicate k i @ [i]) w = Some (Inr ((set_handler i h w)\<lparr>sh := s\<rparr>))"
        using 1 2 3 by (simp add: run_schedule_append)
      moreover have "[i] @ replicate k i @ [i] = replicate (Suc (Suc k)) i" by (simp add: replicate_append_same)
      ultimately show ?thesis by metis
    qed
  qed
qed


section \<open>Reading and writing that succeed\<close>

lemma rio_write_sound: "rio_write b k = Some (True, k') \<Longrightarrow> stream k' = stream k @ b"
proof (induction b k rule: rio_write.induct)
  case (1 b k)
  show ?case
  proof (cases "b = []")
    case True
    with 1(3) show ?thesis by (simp add: rio_write.simps)
  next
    case False
    then obtain r u where u: "sys_write b k = Some (r, u)"
      using 1(3) by (cases "sys_write b k") (auto simp: rio_write.simps)
    show ?thesis
    proof (cases r)
      case R_intr
      with 1 False u show ?thesis by (simp add: rio_write.simps[of b k]) (auto simp: sys_write_def split: list.splits kevent.splits)
    next
      case R_err
      with 1(3) False u show ?thesis by (simp add: rio_write.simps[of b k])
    next
      case (R_bytes bs)
      then have "stream u = stream k @ bs" "bs = take (length bs) b"
        using u by (auto simp: sys_write_def min_def split: list.splits kevent.splits)
      moreover have "stream k' = stream u @ drop (length bs) b"
        using 1(2)[OF False u _ R_bytes] 1(3) False u R_bytes by (simp add: rio_write.simps[of b k])
      ultimately show ?thesis by (metis append_assoc append_take_drop_id)
    qed
  qed
qed

lemma Rio_write_sound: "Rio_write b k = Some (Inr k') \<Longrightarrow> stream k' = stream k @ b"
  by (auto simp: Rio_write_def split: option.splits if_splits dest: rio_write_sound)

lemma request_sendfile_sound:
  assumes "request_sendfile name content (size32 content) k = Some (Inr k')" and "length content < 2 ^ 31"
  shows "stream k' = stream k @ ok_response name content"
  using assms(1) sint_size32[OF assms(2)]
  by (auto simp: request_sendfile_def ok_response_def Let_def bindO_eq_Inr dest!: Rio_write_sound split: if_splits)

text \<open>The disk: the files the server may read are of at most \<open>2 ^ 31 - 1\<close> bytes and can be read.\<close>

definition disk_ok :: "world \<Rightarrow> bool" where
  "disk_ok W \<longleftrightarrow> (\<forall>name sb. stats W name = Some sb \<longrightarrow> S_ISREG sb \<longrightarrow> S_IRUSR sb \<longrightarrow>
     (\<exists>src. disks W name = Some src \<and> st_size sb = int (length (stream src)) \<and> st_size sb < 2 ^ 31 \<and>
       enough (Suc (length (stream src))) src))"

abbreviation in_disk :: "world \<Rightarrow> string \<Rightarrow> string \<Rightarrow> bool" where
  "in_disk W \<equiv> on_disk (stats W) (disks W)"

abbreviation good_entry :: "world \<Rightarrow> file_data \<Rightarrow> bool" where
  "good_entry W \<equiv> entry_ok (stats W) (disks W)"

lemma readfile_sound:
  assumes "disk_ok W" and r: "request_readfile (stats W) (disks W) name k = Some (Inr (Some (buf, n), k'))"
  shows "k' = k \<and> in_disk W name buf \<and> n = size32 buf"
proof -
  obtain sb where sb: "servable name" "k' = k" "stats W name = Some sb" "S_ISREG sb" "S_IRUSR sb"
    using readfile_safe[OF r] by blast
  with assms(1) obtain src where src: "disks W name = Some src" "st_size sb = int (length (stream src))"
    "st_size sb < 2 ^ 31" "enough (Suc (length (stream src))) src" unfolding disk_ok_def by blast
  from readfile_serves[where stat_of = "stats W" and ?file = "disks W" and k = k, OF sb(1,3-5) src(1,4,2)] src(3) r
  have "buf = stream src" "n = size32 (stream src)" using src(2) by auto
  with sb src show ?thesis by (simp add: on_disk_def)
qed

section \<open>The invariant\<close>

text \<open>The file that the holder of \<open>cache_access\<close> has taken from the LRU list is in the hash table still;
  with it the cache is consistent.\<close>

definition held :: "workers \<Rightarrow> addr list" where
  "held w = (case evictor w of Some (_, E_wait a) \<Rightarrow> [a] | Some (_, E_free a) \<Rightarrow> [a] | _ \<Rightarrow> [])"

definition view :: "workers \<Rightarrow> shared" where
  "view w = (sh w)\<lparr>LRU_Policy := held w @ LRU_Policy (sh w)\<rparr>"

text \<open>What request \<open>i\<close> asks for, and that the right response has been written.\<close>

definition wants :: "world \<Rightarrow> nat \<Rightarrow> string \<Rightarrow> bool" where
  "wants W i name \<longleftrightarrow> (\<exists>ki ko. request_init (sockfd W i) (kin (peer W i)) (kout (peer W i)) = Some (Inr (Some name, ki, ko)))"

definition responded :: "world \<Rightarrow> nat \<Rightarrow> handler \<Rightarrow> bool" where
  "responded W i h \<longleftrightarrow> (\<exists>name content. wants W i name \<and> in_disk W name content \<and>
     stream (kout (conn h)) = stream (kout (peer W i)) @ ok_response name content)"

definition refused :: "world \<Rightarrow> nat \<Rightarrow> handler \<Rightarrow> bool" where
  "refused W i h \<longleftrightarrow> (\<exists>ki. request_init (sockfd W i) (kin (peer W i)) (kout (peer W i)) = Some (Inr (None, ki, kout (conn h))))"

text \<open>A handler with a file structure of its own, and one that sends a file which others may use too.\<close>

definition owns :: "world \<Rightarrow> shared \<Rightarrow> nat \<Rightarrow> handler \<Rightarrow> bool" where
  "owns W s i h \<longleftrightarrow> data h = Some (mem W i) \<and> (\<exists>r. rq h = Some r \<and> rq_data r = Some (mem W i)) \<and>
     (\<exists>e. files s (mem W i) = Some e \<and> wants W i (file_name e))"

definition sends :: "world \<Rightarrow> shared \<Rightarrow> nat \<Rightarrow> handler \<Rightarrow> bool" where
  "sends W s i h \<longleftrightarrow> (\<exists>a r. data h = Some a \<and> rq h = Some r \<and> rq_data r = Some a \<and>
     (\<forall>e. files s a = Some e \<longrightarrow> wants W i (file_name e) \<and> good_entry W e))"

abbreviation unsent :: "world \<Rightarrow> nat \<Rightarrow> handler \<Rightarrow> bool" where
  "unsent W i h \<equiv> kout (conn h) = kout (peer W i)"

fun handler_ok :: "world \<Rightarrow> shared \<Rightarrow> nat \<Rightarrow> handler \<Rightarrow> phase \<Rightarrow> bool" where
  "handler_ok W s i h P_init = (conn h = peer W i)"
| "handler_ok W s i h P_short = False"
| "handler_ok W s i h P_lookup = (owns W s i h \<and> unsent W i h)"
| "handler_ok W s i h P_read = (owns W s i h \<and> unsent W i h)"
| "handler_ok W s i h P_insert = (owns W s i h \<and> unsent W i h \<and> good_entry W (the (files s (mem W i))))"
| "handler_ok W s i h P_add = (sends W s i h \<and> unsent W i h)"
| "handler_ok W s i h P_send = (sends W s i h \<and> unsent W i h)"
| "handler_ok W s i h P_remove = (sends W s i h \<and> responded W i h)"
| "handler_ok W s i h P_out = owns W s i h"
| "handler_ok W s i h P_done = (rq h = None \<or> responded W i h)"
| "handler_ok W s i h P_return = (\<not> is_open (conn h) \<and> (responded W i h \<or> refused W i h))"

abbreviation private_phases :: "phase set" where
  "private_phases \<equiv> {P_init, P_lookup, P_read, P_insert, P_out}"

abbreviation sending_phases :: "phase set" where
  "sending_phases \<equiv> {P_add, P_send, P_remove}"

definition shared_addrs :: "world \<Rightarrow> workers \<Rightarrow> addr set" where
  "shared_addrs W w = set (LRU_Policy (view w)) \<union>
     {a. \<exists>k < njobs W. pc (hs w k) \<in> sending_phases \<and> data (hs w k) = Some a}"

definition cache_good :: "world \<Rightarrow> shared \<Rightarrow> bool" where
  "cache_good W s \<longleftrightarrow> cache_inv s \<and> (\<forall>a\<in>set (LRU_Policy s). good_entry W (the (files s a)))"

definition conc_inv :: "world \<Rightarrow> workers \<Rightarrow> bool" where
  "conc_inv W w \<longleftrightarrow> cache_good W (view w) \<and>
     (\<forall>i < njobs W. handler_ok W (sh w) i (hs w i) (pc (hs w i)) \<and>
        (pc (hs w i) \<in> private_phases \<longrightarrow> mem W i \<notin> shared_addrs W w)) \<and>
     (\<forall>i g. evictor w = Some (i, g) \<longrightarrow> pc (hs w i) = P_insert)"

text \<open>What a step of one handler leaves to the others.\<close>

lemma handler_ok_frame:
  assumes "handler_ok W s i h p" and "p = pc h"
    and "p \<in> private_phases \<Longrightarrow> files s' (mem W i) = files s (mem W i)"
    and "\<And>a. p \<in> sending_phases \<Longrightarrow> data h = Some a \<Longrightarrow> files s' a = files s a \<or> files s' a = None"
  shows "handler_ok W s' i h p"
  using assms by (cases p) (auto simp: owns_def sends_def)

lemma conc_inv_step:
  assumes "conc_inv W w" and "j < njobs W" and "inj_on (mem W) {..<njobs W}" and "hs w' = (hs w)(j := h)"
    and "cache_good W (view w')"
    and ev: "\<And>i g. evictor w' = Some (i, g) \<Longrightarrow> pc (hs w' i) = P_insert"
    and other: "\<And>a. a \<noteq> mem W j \<Longrightarrow> files (sh w') a = files (sh w) a \<or>
        files (sh w') a = None \<and> a \<in> set (LRU_Policy (view w))"
    and own: "pc (hs w j) \<notin> private_phases \<Longrightarrow> files (sh w') (mem W j) = files (sh w) (mem W j) \<or> files (sh w') (mem W j) = None"
    and lru: "set (LRU_Policy (view w')) \<subseteq> shared_addrs W w \<union> (if pc h \<in> private_phases then {} else {mem W j})"
    and sent: "\<And>a. pc h \<in> sending_phases \<Longrightarrow> data h = Some a \<Longrightarrow> a \<in> shared_addrs W w \<union> {mem W j}"
    and mine: "handler_ok W (sh w') j h (pc h)" and priv: "pc h \<in> private_phases \<Longrightarrow> pc (hs w j) \<in> private_phases"
  shows "conc_inv W w'"
proof -
  have sub: "shared_addrs W w' \<subseteq> shared_addrs W w \<union> (if pc h \<in> private_phases then {} else {mem W j})"
  proof
    fix a assume "a \<in> shared_addrs W w'"
    then consider "a \<in> set (LRU_Policy (view w'))"
      | k where "k < njobs W" "pc (hs w' k) \<in> sending_phases" "data (hs w' k) = Some a"
      by (auto simp: shared_addrs_def)
    then show "a \<in> shared_addrs W w \<union> (if pc h \<in> private_phases then {} else {mem W j})"
    proof cases
      case 1
      with lru show ?thesis by blast
    next
      case (2 k)
      then show ?thesis using sent[of a] assms(4) by (cases "k = j") (auto simp: shared_addrs_def)
    qed
  qed
  have sub': "shared_addrs W w' \<subseteq> insert (mem W j) (shared_addrs W w)"
    by (rule subset_trans[OF sub]) auto
  have "handler_ok W (sh w') i (hs w' i) (pc (hs w' i)) \<and>
      (pc (hs w' i) \<in> private_phases \<longrightarrow> mem W i \<notin> shared_addrs W w')" if i: "i < njobs W" for i
  proof (cases "i = j")
    case True
    have "mem W j \<notin> shared_addrs W w" if "pc h \<in> private_phases"
      using assms(1,2) priv[OF that] by (auto simp: conc_inv_def)
    with True mine sub assms(4) show ?thesis by auto
  next
    case False
    then have ij: "hs w' i = hs w i" "mem W i \<noteq> mem W j"
      using i assms(2-4) by (auto simp: inj_on_def)
    have I: "handler_ok W (sh w) i (hs w i) (pc (hs w i))"
      "pc (hs w i) \<in> private_phases \<Longrightarrow> mem W i \<notin> shared_addrs W w"
      using assms(1) i by (auto simp: conc_inv_def)
    have J: "pc (hs w j) \<in> private_phases \<Longrightarrow> mem W j \<notin> shared_addrs W w"
      using assms(1,2) by (auto simp: conc_inv_def)
    have "handler_ok W (sh w') i (hs w i) (pc (hs w i))"
    proof (rule handler_ok_frame[OF I(1) refl])
      assume "pc (hs w i) \<in> private_phases"
      with I(2) have "mem W i \<notin> set (LRU_Policy (view w))" by (auto simp: shared_addrs_def)
      with other[of "mem W i"] ij(2) show "files (sh w') (mem W i) = files (sh w) (mem W i)" by blast
    next
      fix a assume a: "pc (hs w i) \<in> sending_phases" "data (hs w i) = Some a"
      then have "a \<in> shared_addrs W w" using i by (auto simp: shared_addrs_def)
      then have "a = mem W j \<Longrightarrow> pc (hs w j) \<notin> private_phases" using J by blast
      with other[of a] own show "files (sh w') a = files (sh w) a \<or> files (sh w') a = None"
        by (metis (no_types, lifting))
    qed
    moreover have "pc (hs w i) \<in> private_phases \<longrightarrow> mem W i \<notin> shared_addrs W w'" using sub' I(2) ij(2) by blast
    ultimately show ?thesis using ij(1) by simp
  qed
  with assms(5) ev show ?thesis by (auto simp: conc_inv_def)
qed


section \<open>The steps keep the invariant\<close>

lemma view_simps [simp]:
  "files (view w) = files (sh w)" "fileCache (view w) = fileCache (sh w)" "inflight_q (view w) = inflight_q (sh w)"
  "LRU_Policy (view w) = held w @ LRU_Policy (sh w)" "held (w\<lparr>hs := f\<rparr>) = held w" "held (w\<lparr>sh := s\<rparr>) = held w"
  by (simp_all add: view_def held_def)

lemma cache_good_cong:
  assumes "cache_good W s" and "files s' = files s" "fileCache s' = fileCache s" "LRU_Policy s' = LRU_Policy s"
  shows "cache_good W s'"
proof -
  have n: "name_of s' = name_of s" "size_of s' = size_of s" using assms(2) by (auto simp: name_of_def size_of_def)
  then have b: "total_bytes s' = total_bytes s" unfolding total_bytes_def by simp
  show ?thesis using assms(1) unfolding cache_good_def cache_inv_def n b assms(2-4) .
qed

lemma cache_good_set_file:
  "cache_good W s \<Longrightarrow> d \<notin> set (LRU_Policy s) \<Longrightarrow> cache_good W (set_file d x s)"
  using cache_inv_set_file[of s d x] by (auto simp: cache_good_def)

lemma conc_invD:
  assumes "conc_inv W w" and "i < njobs W"
  shows "cache_good W (view w)" "handler_ok W (sh w) i (hs w i) (pc (hs w i))"
    "pc (hs w i) \<in> private_phases \<Longrightarrow> mem W i \<notin> shared_addrs W w"
    "pc (hs w i) \<in> sending_phases \<Longrightarrow> data (hs w i) = Some a \<Longrightarrow> a \<in> shared_addrs W w"
    "evictor w = Some (j, g) \<Longrightarrow> pc (hs w j) = P_insert"
  using assms by (auto simp: conc_inv_def shared_addrs_def)

text \<open>A handler changes its own structure only.\<close>

lemma private_step:
  assumes "conc_inv W w" and "i < njobs W" and "inj_on (mem W) {..<njobs W}" and "pc (hs w i) \<in> private_phases"
    and "pc (hs w i) \<noteq> P_insert" and "s' = set_file (mem W i) x (sh w)"
    and "handler_ok W s' i h (pc h)" and "pc h \<notin> sending_phases"
  shows "conc_inv W ((set_handler i h w)\<lparr>sh := s'\<rparr>)"
proof (rule conc_inv_step[OF assms(1-3)])
  note I = conc_invD[OF assms(1,2)]
  have d: "mem W i \<notin> set (LRU_Policy (view w))" using I(3)[OF assms(4)] by (auto simp: shared_addrs_def)
  show "cache_good W (view ((set_handler i h w)\<lparr>sh := s'\<rparr>))"
    by (rule cache_good_cong[OF cache_good_set_file[OF I(1) d, of x]]) (simp_all add: assms(6))
  show "pc (hs ((set_handler i h w)\<lparr>sh := s'\<rparr>) j) = P_insert" if "evictor ((set_handler i h w)\<lparr>sh := s'\<rparr>) = Some (j, g)" for j g
    using that I(5)[of j g] assms(5) by auto
qed (use assms in \<open>auto simp: shared_addrs_def\<close>)

text \<open>A handler changes neither the cache nor a file.\<close>

lemma quiet_step:
  assumes "conc_inv W w" and "i < njobs W" and "inj_on (mem W) {..<njobs W}" and "pc (hs w i) \<noteq> P_insert"
    and "files s' = files (sh w)" "fileCache s' = fileCache (sh w)" "LRU_Policy s' = LRU_Policy (sh w)"
    and "handler_ok W s' i h (pc h)" and "data h = data (hs w i)"
    and "pc h \<in> sending_phases \<Longrightarrow> pc (hs w i) \<in> sending_phases" and "pc h \<notin> private_phases"
  shows "conc_inv W ((set_handler i h w)\<lparr>sh := s'\<rparr>)"
proof (rule conc_inv_step[OF assms(1-3)])
  note I = conc_invD[OF assms(1,2)]
  show "cache_good W (view ((set_handler i h w)\<lparr>sh := s'\<rparr>))"
    by (rule cache_good_cong[OF I(1)]) (simp_all add: assms(5-7))
  show "pc (hs ((set_handler i h w)\<lparr>sh := s'\<rparr>) j) = P_insert" if "evictor ((set_handler i h w)\<lparr>sh := s'\<rparr>) = Some (j, g)" for j g
    using that I(5)[of j g] assms(4) by auto
  show "a \<in> shared_addrs W w \<union> {mem W i}" if "pc h \<in> sending_phases" "data h = Some a" for a
    using I(4)[of a] that assms(9,10) by simp
qed (use assms in \<open>auto simp: shared_addrs_def\<close>)

lemma init_step:
  assumes "conc_inv W w" and "i < njobs W" and "inj_on (mem W) {..<njobs W}" and "pc (hs w i) = P_init"
    and "req_init (sockfd W i) (mem W i) (hs w i) (sh w) = Some (Inr (h, s'))"
  shows "conc_inv W ((set_handler i h w)\<lparr>sh := s'\<rparr>)"
proof -
  note I = conc_invD[OF assms(1,2)]
  have c: "conn (hs w i) = peer W i" using I(2) assms(4) by simp
  have fc: "fileCache (sh w) \<noteq> None" using I(1) by (auto simp: cache_good_def elim!: cache_invD)
  let ?r = "request_init (sockfd W i) (kin (peer W i)) (kout (peer W i))"
  obtain name ki ko where r: "?r = Some (Inr (name, ki, ko))"
    using assms(5) by (auto simp: req_init_def request_open_def bindO_eq_Inr c)
  show ?thesis
  proof (cases name)
    case None
    have "s' = set_file (mem W i) None (sh w)" "pc h = P_return" "\<not> is_open (conn h)" "kout (conn h) = ko"
      using assms(5) r None c
      by (auto simp: req_init_def request_open_def bindO_eq_Inr Let_def request_destroy_def file_data_init_def
          file_data_free_def split: if_splits)
    then show ?thesis using r None assms(4)
      by (intro private_step[OF assms(1-3)]) (auto simp: refused_def)
  next
    case (Some n)
    have h: "h = started (sockfd W i) (mem W i) ki (peer W i) (sh w)" and s': "s' = named (mem W i) n (sh w)"
      using assms(4,5) r Some c request_init_GET_out[of _ _ _ n ki ko] fc
      by (auto simp: req_init_def request_open_def Let_def file_data_init_def)
    have "owns W s' i h" using r Some by (auto simp: owns_def h s' wants_def)
    then show ?thesis using assms(4) fc
      by (intro private_step[OF assms(1-3) _ _ s']) (auto simp: h)
  qed
qed

lemma read_step:
  assumes "conc_inv W w" and "i < njobs W" and "inj_on (mem W) {..<njobs W}" and "pc (hs w i) = P_read"
    and "disk_ok W" and "req_read (stats W) (disks W) (hs w i) (sh w) = Some (Inr (h, s'))"
  shows "conc_inv W ((set_handler i h w)\<lparr>sh := s'\<rparr>)"
proof -
  have "owns W (sh w) i (hs w i)" and u: "unsent W i (hs w i)" using conc_invD(2)[OF assms(1,2)] assms(4) by auto
  then obtain r e where o: "data (hs w i) = Some (mem W i)" "rq (hs w i) = Some r" "rq_data r = Some (mem W i)"
    "files (sh w) (mem W i) = Some e" "wants W i (file_name e)" by (auto simp: owns_def)
  then obtain x ko where x: "request_readfile (stats W) (disks W) (file_name e) (kout (conn (hs w i))) = Some (Inr (x, ko))"
    using assms(6) by (auto simp: req_read_def readfile_def bindO_eq_Inr)
  show ?thesis
  proof (cases x)
    case None
    then have "h = (hs w i)\<lparr>pc := P_out, conn := (conn (hs w i))\<lparr>kout := ko\<rparr>\<rparr>" "s' = set_file (mem W i) (Some e) (sh w)"
      using assms(6) o x by (auto simp: req_read_def readfile_def map_upd_triv)
    then show ?thesis using o assms(4) by (intro private_step[OF assms(1-3)]) (auto simp: owns_def)
  next
    case (Some bn)
    then obtain buf n where bn: "x = Some (buf, n)" by (cases bn) simp
    from readfile_sound[OF assms(5) x[unfolded bn]] have
      d: "ko = kout (conn (hs w i))" "in_disk W (file_name e) buf" "n = size32 buf" by auto
    have "h = (hs w i)\<lparr>pc := P_insert\<rparr>" "s' = set_file (mem W i) (Some (e\<lparr>file_buf := buf, file_size := n\<rparr>)) (sh w)"
      using assms(6) o x bn d(1) by (auto simp: req_read_def readfile_def)
    then show ?thesis using o assms(4) d u by (intro private_step[OF assms(1-3)]) (auto simp: owns_def entry_ok_def)
  qed
qed


lemma add_step:
  assumes "conc_inv W w" and "i < njobs W" and "inj_on (mem W) {..<njobs W}" and "pc (hs w i) = P_add"
    and "req_add (hs w i) (sh w) = Inr (h, s')"
  shows "conc_inv W ((set_handler i h w)\<lparr>sh := s'\<rparr>)"
proof -
  have "h = (hs w i)\<lparr>pc := P_send\<rparr>" "s' = inflight_add (the (data (hs w i))) (sh w)"
    using assms(5) by (auto simp: req_add_def bindR_eq_Inr)
  then show ?thesis using assms(4) conc_invD(2)[OF assms(1,2)]
    by (intro quiet_step[OF assms(1-3)]) (auto simp: inflight_add_def sends_def)
qed

lemma send_step:
  assumes "conc_inv W w" and "i < njobs W" and "inj_on (mem W) {..<njobs W}" and "pc (hs w i) = P_send"
    and "req_send (hs w i) (sh w) = Some (Inr (h, s'))"
  shows "conc_inv W ((set_handler i h w)\<lparr>sh := s'\<rparr>)"
proof -
  have "sends W (sh w) i (hs w i)" and u: "unsent W i (hs w i)" using conc_invD(2)[OF assms(1,2)] assms(4) by auto
  then obtain a r where s: "data (hs w i) = Some a" "rq (hs w i) = Some r" "rq_data r = Some a"
    "\<And>e. files (sh w) a = Some e \<Longrightarrow> wants W i (file_name e) \<and> good_entry W e" by (auto simp: sends_def)
  then obtain e k where e: "files (sh w) a = Some e"
    "request_sendfile (file_name e) (file_buf e) (file_size e) (kout (conn (hs w i))) = Some (Inr k)"
    and h: "h = (hs w i)\<lparr>pc := P_remove, conn := (conn (hs w i))\<lparr>kout := k\<rparr>\<rparr>" "s' = sh w"
    using assms(5) by (auto simp: req_send_def sendfile_def bindO_eq_Inr readR_eq_Inr)
  have g: "in_disk W (file_name e) (file_buf e)" "file_size e = size32 (file_buf e)" "length (file_buf e) < 2 ^ 31"
    using s(4)[OF e(1)] by (auto simp: entry_ok_def on_disk_def)
  have "stream k = stream (kout (conn (hs w i))) @ ok_response (file_name e) (file_buf e)"
    by (rule request_sendfile_sound[OF _ g(3)]) (use e(2) g(2) in simp)
  then have "responded W i h" using s(4)[OF e(1)] g(1) u by (auto simp: responded_def h(1))
  then show ?thesis using assms(4) s h by (intro quiet_step[OF assms(1-3)]) (auto simp: sends_def)
qed

lemma remove_step:
  assumes "conc_inv W w" and "i < njobs W" and "inj_on (mem W) {..<njobs W}" and "pc (hs w i) = P_remove"
    and "req_remove (hs w i) (sh w) = Inr (h, s')"
  shows "conc_inv W ((set_handler i h w)\<lparr>sh := s'\<rparr>)"
proof -
  have "h = (hs w i)\<lparr>pc := P_done\<rparr>" "files s' = files (sh w)" "fileCache s' = fileCache (sh w)" "LRU_Policy s' = LRU_Policy (sh w)"
    using assms(5) by (auto simp: req_remove_def inflight_remove_def bindR_eq_Inr split: if_splits option.splits)
  then show ?thesis using assms(4) conc_invD(2)[OF assms(1,2)]
    by (intro quiet_step[OF assms(1-3)]) (auto simp: responded_def)
qed

lemma done_step:
  assumes "conc_inv W w" and "i < njobs W" and "inj_on (mem W) {..<njobs W}" and "pc (hs w i) = P_done"
    and "req_done (hs w i) (sh w) = Inr (h, s')"
  shows "conc_inv W ((set_handler i h w)\<lparr>sh := s'\<rparr>)"
proof -
  have "rq (hs w i) \<noteq> None" "h = (hs w i)\<lparr>pc := P_return, rq := None, conn := (conn (hs w i))\<lparr>is_open := False\<rparr>\<rparr>" "s' = sh w"
    using assms(5) by (auto simp: req_done_def request_destroy_def bindR_eq_Inr split: if_splits option.splits)
  then show ?thesis using assms(4) conc_invD(2)[OF assms(1,2)]
    by (intro quiet_step[OF assms(1-3)]) (auto simp: responded_def)
qed

lemma out_step:
  assumes "conc_inv W w" and "i < njobs W" and "inj_on (mem W) {..<njobs W}" and "pc (hs w i) = P_out"
    and "req_out (hs w i) (sh w) = Inr (h, s')"
  shows "conc_inv W ((set_handler i h w)\<lparr>sh := s'\<rparr>)"
proof -
  have "data (hs w i) = Some (mem W i)" using conc_invD(2)[OF assms(1,2)] assms(4) by (auto simp: owns_def)
  then have "pc h = P_done" "rq h = None" "s' = set_file (mem W i) None (sh w)"
    using assms(5) by (auto simp: req_out_def file_data_free_def bindR_eq_Inr)
  then show ?thesis using assms(4) by (intro private_step[OF assms(1-3)]) auto
qed

text \<open>A hit, before or after the file has been read.\<close>

lemma cache_good_move:
  assumes "cache_good W s" and "a \<in> set (LRU_Policy s)"
  shows "cache_good W (s\<lparr>LRU_Policy := remove1 a (LRU_Policy s) @ [a]\<rparr>)"
proof -
  have "distinct (LRU_Policy s)" using assms(1) cache_inv_LRU(1) by (simp add: cache_good_def)
  then have "set (remove1 a (LRU_Policy s) @ [a]) = set (LRU_Policy s)" using assms(2) by (auto simp: set_remove1_eq)
  with assms cache_inv_move[of s a] show ?thesis by (auto simp: cache_good_def)
qed

lemma hit_step:
  assumes "conc_inv W w" and "i < njobs W" and "inj_on (mem W) {..<njobs W}" and "pc (hs w i) \<in> {P_lookup, P_insert}"
    and "evictor w = None" and "files (sh w) (mem W i) = Some e" and "cached (sh w) (file_name e) = Some a"
    and u: "use_cached (file_name e) (hs w i) ((sh w)\<lparr>LRU_Policy := remove1 a (LRU_Policy (sh w)) @ [a]\<rparr>) = Inr (h, s')"
  shows "conc_inv W ((set_handler i h w)\<lparr>sh := s'\<rparr>)"
proof -
  let ?m = "(sh w)\<lparr>LRU_Policy := remove1 a (LRU_Policy (sh w)) @ [a]\<rparr>"
  note I = conc_invD[OF assms(1,2)]
  have hw: "held w = []" using assms(5) by (simp add: held_def)
  have g: "cache_good W (sh w)" by (rule cache_good_cong[OF I(1)]) (simp_all add: hw)
  have a: "a \<in> set (LRU_Policy (sh w))" "name_of (sh w) a = file_name e" using cached_Some[OF assms(7)] by auto
  have gm: "cache_good W ?m" by (rule cache_good_move[OF g a(1)])
  then have "getCachedFile (file_name e) ?m = Inr (Some a)"
    using getCachedFile_spec[of ?m] cached_unique[of ?m a] a(2) by (simp add: cache_good_def name_of_def)
  moreover have "owns W (sh w) i (hs w i)" "unsent W i (hs w i)" using I(2) assms(4) by auto
  ultimately obtain r where h: "h = (hs w i)\<lparr>pc := P_add, rq := Some (r\<lparr>rq_data := Some a\<rparr>), data := Some a\<rparr>"
    "s' = set_file (mem W i) None ?m" and o: "wants W i (file_name e)" "unsent W i (hs w i)"
    using u assms(6) by (auto simp: use_cached_def owns_def request_set_data_def)
  have d: "mem W i \<notin> set (LRU_Policy (sh w))" using I(3) assms(4) hw by (auto simp: shared_addrs_def)
  have L: "set (LRU_Policy ?m) = set (LRU_Policy (sh w))"
    using a(1) cache_inv_LRU(1)[of "sh w"] g by (auto simp: set_remove1_eq cache_good_def)
  have "good_entry W (the (files (sh w) a))" using g a(1) by (simp add: cache_good_def)
  then have ok: "handler_ok W s' i h P_add" using o a d by (auto simp: h sends_def name_of_def)
  show ?thesis
  proof (rule conc_inv_step[OF assms(1-3)])
    have "cache_good W s'" unfolding h(2) by (rule cache_good_set_file[OF gm]) (use L d in simp)
    then show "cache_good W (view ((set_handler i h w)\<lparr>sh := s'\<rparr>))" by (rule cache_good_cong) (simp_all add: hw)
    show "set (LRU_Policy (view ((set_handler i h w)\<lparr>sh := s'\<rparr>))) \<subseteq> shared_addrs W w \<union> (if pc h \<in> private_phases then {} else {mem W i})"
      using L by (auto simp: h hw shared_addrs_def)
    show "handler_ok W (sh ((set_handler i h w)\<lparr>sh := s'\<rparr>)) i h (pc h)" using ok by (simp add: h(1))
  qed (use assms(4,5) a(1) in \<open>auto simp: h shared_addrs_def\<close>)
qed

lemma lookup_step:
  assumes "conc_inv W w" and "i < njobs W" and "inj_on (mem W) {..<njobs W}" and "pc (hs w i) = P_lookup"
    and "evictor w = None" and "req_lookup (hs w i) (sh w) = Inr (h, s')"
  shows "conc_inv W ((set_handler i h w)\<lparr>sh := s'\<rparr>)"
proof -
  note I = conc_invD[OF assms(1,2)]
  have "cache_good W (sh w)" by (rule cache_good_cong[OF I(1)]) (simp_all add: held_def assms(5))
  then have c: "cache_inv (sh w)" by (simp add: cache_good_def)
  obtain e where o: "owns W (sh w) i (hs w i)" "unsent W i (hs w i)" "data (hs w i) = Some (mem W i)"
    "files (sh w) (mem W i) = Some e" using I(2) assms(4) by (auto simp: owns_def)
  show ?thesis
  proof (cases "cached (sh w) (file_name e)")
    case None
    then have "h = (hs w i)\<lparr>pc := P_read\<rparr>" "s' = set_file (mem W i) (Some e) (sh w)"
      using assms(6) o lookup_spec[OF c, of "file_name e"] by (auto simp: req_lookup_def deref_def map_upd_triv)
    then show ?thesis using o assms(4) by (intro private_step[OF assms(1-3)]) (auto simp: owns_def)
  next
    case (Some a)
    then show ?thesis using assms(4,6) o lookup_spec[OF c, of "file_name e"]
      by (intro hit_step[OF assms(1-3) _ assms(5) o(4) Some]) (auto simp: req_lookup_def deref_def)
  qed
qed


text \<open>Inserting the file that was read.\<close>

lemma insert_attempt_Some:
  assumes "insert_attempt a s = Inr (Some (b, s'))" and "cache_inv s" and "files s a = Some e" and "0 \<le> bytes e"
  shows "s' = s \<or> cache_inv s' \<and> LRU_Policy s' = LRU_Policy s @ [a] \<and> files s' = files s \<and> inflight_q s' = inflight_q s"
proof (cases "s' = s")
  case False
  obtain wc where wc: "fileCache s = Some wc" using cache_invD[OF assms(2)] by metis
  obtain h where h: "hash_index (file_name e) wc = Inr h" "h < length (mapping wc)"
    "find_file (files s) (file_name e) (mapping wc ! h) = Inr None" "bytes e \<le> cMAX_SIZE wc" "\<not> overfull (bytes e) s"
    using assms(1,3) False wc
    by (auto simp: insert_attempt_def chain_def bindR_eq_Inr split: if_splits)
  have "cached s (file_name e) = None" using find_chain[OF assms(2) wc h(1,2)] h(3) by simp
  then have "file_name e \<notin> name_of s ` set (LRU_Policy s)" using cached_None by blast
  then have "insertable a s" using assms(3,4) h(4) wc by (simp add: insertable_def name_of_def size_of_def)
  moreover have "size_of s a = bytes e" using assms(3) by (simp add: size_of_def)
  ultimately show ?thesis using insert_room[of s a] assms(1,2) h(5) by (auto simp: insert_to_cache_attempt)
qed simp

lemma go_step:
  assumes "conc_inv W w" and "i < njobs W" and "inj_on (mem W) {..<njobs W}" and "pc (hs w i) = P_insert"
    and "evictor w = None \<or> evictor w = Some (i, E_loop)" and "insert_go i w = Inr w'"
  shows "conc_inv W w'"
proof -
  note I = conc_invD[OF assms(1,2)]
  have hw: "held w = []" using assms(5) by (auto simp: held_def)
  have g: "cache_good W (sh w)" by (rule cache_good_cong[OF I(1)]) (simp_all add: hw)
  obtain r e where o: "data (hs w i) = Some (mem W i)" "rq (hs w i) = Some r" "rq_data r = Some (mem W i)"
    "files (sh w) (mem W i) = Some e" "wants W i (file_name e)" "good_entry W e" "unsent W i (hs w i)"
    using I(2) assms(4) by (auto simp: owns_def)
  have z: "0 \<le> bytes e" using o(6) sint_size32[of "file_buf e"] by (auto simp: entry_ok_def on_disk_def)
  have d: "mem W i \<notin> set (LRU_Policy (sh w))" using I(3) assms(4) by (auto simp: shared_addrs_def)
  obtain x where x: "insert_attempt (mem W i) (sh w) = Inr x"
    using assms(6) o(1) by (auto simp: insert_go_def bindR_eq_Inr)
  show ?thesis
  proof (cases x)
    case None
    then have w': "w' = w\<lparr>evictor := Some (i, E_loop)\<rparr>" using assms(6) x o(1) by (simp add: insert_go_def)
    show ?thesis unfolding w'
    proof (rule conc_inv_step[OF assms(1-3), where h = "hs w i"])
      show "cache_good W (view (w\<lparr>evictor := Some (i, E_loop)\<rparr>))"
        by (rule cache_good_cong[OF g]) (simp_all add: held_def)
    qed (use assms(4) I(2) in \<open>auto simp: held_def shared_addrs_def\<close>)
  next
    case (Some y)
    then obtain b s where y: "x = Some (b, s)" by (cases y) simp
    let ?h = "(hs w i)\<lparr>pc := P_add\<rparr>"
    have w': "w' = (set_handler i ?h w)\<lparr>evictor := None, sh := s\<rparr>"
      using assms(6) x y o(1) by (simp add: insert_go_def)
    have s: "cache_inv s" "files s = files (sh w)" "LRU_Policy s = LRU_Policy (sh w) \<or> LRU_Policy s = LRU_Policy (sh w) @ [mem W i]"
      using insert_attempt_Some[OF x[unfolded y] _ o(4) z] g by (auto simp: cache_good_def)
    have gs: "cache_good W s" using s g o(4,6) by (auto simp: cache_good_def)
    show ?thesis unfolding w'
    proof (rule conc_inv_step[OF assms(1-3), where h = ?h])
      show "cache_good W (view ((set_handler i ?h w)\<lparr>evictor := None, sh := s\<rparr>))"
        by (rule cache_good_cong[OF gs]) (simp_all add: held_def)
      show "handler_ok W (sh ((set_handler i ?h w)\<lparr>evictor := None, sh := s\<rparr>)) i ?h (pc ?h)"
        using o s(2) by (simp add: sends_def)
      show "set (LRU_Policy (view ((set_handler i ?h w)\<lparr>evictor := None, sh := s\<rparr>)))
          \<subseteq> shared_addrs W w \<union> (if pc ?h \<in> private_phases then {} else {mem W i})"
        using s(3) by (auto simp: held_def shared_addrs_def)
    qed (use o s in auto)
  qed
qed

lemma insert_step:
  assumes "conc_inv W w" and "i < njobs W" and "inj_on (mem W) {..<njobs W}" and "pc (hs w i) = P_insert"
    and "evictor w = None" and "insert_start i w = Inr w'"
  shows "conc_inv W w'"
proof -
  note I = conc_invD[OF assms(1,2)]
  have "cache_good W (sh w)" by (rule cache_good_cong[OF I(1)]) (simp_all add: held_def assms(5))
  then have c: "cache_inv (sh w)" by (simp add: cache_good_def)
  obtain e where o: "data (hs w i) = Some (mem W i)" "files (sh w) (mem W i) = Some e"
    using I(2) assms(4) by (auto simp: owns_def)
  note l = lookup_spec[OF c, of "file_name e"]
  show ?thesis
  proof (cases "cached (sh w) (file_name e)")
    case None
    then have "insert_go i w = Inr w'" using assms(6) o l by (simp add: insert_start_def deref_def)
    with go_step[OF assms(1-4)] assms(5) show ?thesis by blast
  next
    case (Some a)
    let ?m = "(sh w)\<lparr>LRU_Policy := remove1 a (LRU_Policy (sh w)) @ [a]\<rparr>"
    obtain h s' where "use_cached (file_name e) (hs w i) ?m = Inr (h, s')" "w' = (set_handler i h w)\<lparr>sh := s'\<rparr>"
      using assms(6) o l Some by (auto simp: insert_start_def deref_def bindR_eq_Inr)
    with hit_step[OF assms(1-3) _ assms(5) o(2) Some] assms(4) show ?thesis by blast
  qed
qed

text \<open>Making room.\<close>

lemma evictor_step:
  assumes "conc_inv W w" and "i < njobs W" and "inj_on (mem W) {..<njobs W}"
    and "w' = w\<lparr>evictor := Some (i, g), sh := s'\<rparr>" and "evictor w = Some (i, g')" and "cache_good W (view w')"
    and "\<And>a. files s' a = files (sh w) a \<or> files s' a = None \<and> a \<in> set (LRU_Policy (view w))"
    and "set (LRU_Policy (view w')) \<subseteq> set (LRU_Policy (view w))"
  shows "conc_inv W w'"
proof -
  note I = conc_invD[OF assms(1,2)]
  have p: "pc (hs w i) = P_insert" using I(5) assms(5) by blast
  have "mem W i \<notin> set (LRU_Policy (view w))" using I(3) p by (auto simp: shared_addrs_def)
  then have "files s' (mem W i) = files (sh w) (mem W i)" using assms(7) by blast
  then have ok: "handler_ok W s' i (hs w i) (pc (hs w i))" using I(2) p by (simp add: owns_def)
  show ?thesis
  proof (rule conc_inv_step[OF assms(1-3), where h = "hs w i"])
    show "hs w' = (hs w)(i := hs w i)" using assms(4) by simp
    show "pc (hs w' j) = P_insert" if "evictor w' = Some (j, g)" for j g using that p assms(4) by simp
    show "set (LRU_Policy (view w')) \<subseteq> shared_addrs W w \<union> (if pc (hs w i) \<in> private_phases then {} else {mem W i})"
      using assms(8) by (auto simp: shared_addrs_def)
  qed (use assms(4,6,7) ok p in auto)
qed

lemma make_room_step:
  assumes "conc_inv W w" and "i < njobs W" and "inj_on (mem W) {..<njobs W}" and ev: "evictor w = Some (i, g)"
    and step: "evict_step i g w = Inr w'"
  shows "conc_inv W w'"
proof (cases g)
  case E_loop
  show ?thesis
  proof (cases "insert_go i w = Inr w'")
    case True
    with go_step[OF assms(1-3)] conc_invD(5)[OF assms(1,2) ev] ev E_loop show ?thesis by blast
  next
    case False
    then obtain a as where a: "LRU_Policy (sh w) = a # as"
      "w' = w\<lparr>evictor := Some (i, E_wait a), sh := (sh w)\<lparr>LRU_Policy := as\<rparr>\<rparr>"
      using step E_loop by (auto simp: evict_step_def removeLRUFile_def bindR_eq_Inr split: if_splits list.splits)
    have L: "LRU_Policy (view w') = LRU_Policy (view w)" using a ev E_loop by (simp add: held_def)
    have "cache_good W (view w')" by (rule cache_good_cong[OF conc_invD(1)[OF assms(1,2)]]) (use a L in simp_all)
    then show ?thesis by (rule evictor_step[OF assms(1-3) a(2) ev]) (simp, simp only: L)
  qed
next
  case (E_wait a)
  then have w': "w' = w\<lparr>evictor := Some (i, E_free a), sh := sh w\<rparr>"
    using step by (auto simp: evict_step_def bindR_eq_Inr split: if_splits)
  have L: "LRU_Policy (view w') = LRU_Policy (view w)" using w' ev E_wait by (simp add: held_def)
  have "cache_good W (view w')" by (rule cache_good_cong[OF conc_invD(1)[OF assms(1,2)]]) (use w' L in simp_all)
  then show ?thesis by (rule evictor_step[OF assms(1-3) w' ev]) (simp, simp only: L)
next
  case (E_free a)
  have hw: "held w = [a]" using ev E_free by (simp add: held_def)
  then have v: "LRU_Policy (view w) = a # LRU_Policy (sh w)" by simp
  have g: "cache_good W (view w)" by (rule conc_invD(1)[OF assms(1,2)])
  then have c: "cache_inv (view w)" by (simp add: cache_good_def)
  have vs: "(view w)\<lparr>LRU_Policy := LRU_Policy (sh w)\<rparr> = sh w" by (simp add: view_def)
  obtain h s' where h: "hash_index (name_of (view w) a) (the_cache (view w)) = Inr h"
    and e: "remove_entry h (name_of (view w) a) ((view w)\<lparr>LRU_Policy := LRU_Policy (sh w)\<rparr>) = Inr (True, s')"
    and s': "cache_inv s'" "LRU_Policy s' = LRU_Policy (sh w)" "files s' = (files (view w))(a := None)"
    using remove_entry_spec[OF c v] by blast
  have w': "w' = w\<lparr>evictor := Some (i, E_loop), sh := s'\<rparr>"
    using step E_free h e[unfolded vs] by (auto simp: evict_step_def bindR_eq_Inr readR_eq_Inr name_of_def)
  have "a \<notin> set (LRU_Policy (sh w))" using cache_inv_LRU(1)[OF c] v by simp
  then have "cache_good W s'" using s' g v by (auto simp: cache_good_def)
  then have "cache_good W (view w')" by (rule cache_good_cong) (simp_all add: w' held_def)
  moreover have "held w' = []" by (simp add: w' held_def)
  ultimately show ?thesis by (intro evictor_step[OF assms(1-3) w' ev]) (use s'(2,3) hw in \<open>auto simp: w'\<close>)
qed

lemma worker_step_inv:
  assumes "conc_inv W w" and "i < njobs W" and "inj_on (mem W) {..<njobs W}" and "disk_ok W"
    and step: "worker_step W i w = Some (Inr w')"
  shows "conc_inv W w'"
proof (cases "\<exists>g. evictor w = Some (i, g)")
  case True
  with make_room_step[OF assms(1-3)] step show ?thesis by (auto simp: worker_step_def)
next
  case False
  show ?thesis
  proof (cases "pc (hs w i) = P_insert")
    case True
    with insert_step[OF assms(1-3)] step False show ?thesis
      by (cases "evictor w") (auto simp: worker_step_def split: if_splits)
  next
    case ni: False
    have el: "evictor w = None" if "pc (hs w i) = P_lookup"
      using step False that by (cases "evictor w") (auto simp: worker_step_def)
    obtain h s' where h: "req_step (stats W) (disks W) (sockfd W i) (mem W i) (hs w i) (sh w) = Some (Inr (h, s'))"
      and w': "w' = (set_handler i h w)\<lparr>sh := s'\<rparr>"
      using step False ni by (cases "evictor w") (auto simp: worker_step_def bindO_eq_Inr Let_def split: if_splits)
    note S = init_step[OF assms(1-3)] read_step[OF assms(1-3) _ assms(4)] add_step[OF assms(1-3)] send_step[OF assms(1-3)]
      remove_step[OF assms(1-3)] done_step[OF assms(1-3)] out_step[OF assms(1-3)] lookup_step[OF assms(1-3)]
    show ?thesis
    proof (cases "pc (hs w i)")
      case P_return
      then have "h = hs w i" "s' = sh w" using h by (simp_all add: req_step_def)
      then show ?thesis unfolding w' using conc_invD(2)[OF assms(1,2)] P_return
        by (intro quiet_step[OF assms(1-3)]) auto
    next
      case P_short
      then show ?thesis using conc_invD(2)[OF assms(1,2)] by simp
    next
      case P_insert
      with ni show ?thesis by simp
    qed (use h el S in \<open>auto simp: req_step_def w'\<close>)
  qed
qed

lemma conc_inv_start:
  assumes "4096 \<le> maxSize" and "maxSize < 2 ^ 30"
  shows "conc_inv W (workers_start W maxSize)"
proof -
  have "view (workers_start W maxSize) = cache_start Map.empty maxSize"
    by (simp add: view_def held_def workers_start_def cache_start_def)
  moreover have "LRU_Policy (cache_start Map.empty maxSize) = []" by (simp add: cache_start_def)
  ultimately show ?thesis using cache_start_inv[OF assms, of Map.empty]
    by (simp add: conc_inv_def cache_good_def shared_addrs_def) (simp add: workers_start_def)
qed

lemma reach_inv:
  assumes "reach W maxSize w" and "4096 \<le> maxSize" and "maxSize < 2 ^ 30" and "inj_on (mem W) {..<njobs W}" and "disk_ok W"
  shows "conc_inv W w"
  using assms by (induction rule: reach.induct) (auto intro: conc_inv_start worker_step_inv)

end
