(* ===== verification/ServerFits.thy ===== *)
theory ServerFits
  imports ServerConc
begin

text \<open>
  What concurrent request handlers achieve: when the files they serve fit the cache together, every
  interleaving serves every request; where room has to be made the cache stays consistent and no wrong
  response is written, but a handler can use a file that another one frees.
\<close>

section \<open>Requests whose files fit the cache\<close>

text \<open>Every request is for a file on the disk and its connection takes the response; together the files
  are no larger than the cache.\<close>

definition file_bytes :: "world \<Rightarrow> string \<Rightarrow> int" where
  "file_bytes W name = (case stats W name of None \<Rightarrow> 0 | Some sb \<Rightarrow> st_size sb)"

definition servable_job :: "world \<Rightarrow> nat \<Rightarrow> bool" where
  "servable_job W i \<longleftrightarrow> is_open (peer W i) \<and>
     (\<exists>name content. wants W i name \<and> in_disk W name content \<and> enough (length (ok_response name content)) (kout (peer W i)))"

definition requested :: "world \<Rightarrow> string set" where
  "requested W = {name. \<exists>i < njobs W. wants W i name}"

definition fits :: "world \<Rightarrow> int \<Rightarrow> bool" where
  "fits W maxSize \<longleftrightarrow> (\<forall>i < njobs W. servable_job W i) \<and> (\<Sum>name\<in>requested W. file_bytes W name) \<le> maxSize"

text \<open>The list of files being sent has a file as often as there are handlers that send it.\<close>

definition senders :: "world \<Rightarrow> workers \<Rightarrow> addr \<Rightarrow> nat set" where
  "senders W w a = {i. i < njobs W \<and> pc (hs w i) \<in> {P_send, P_remove} \<and> data (hs w i) = Some a}"

definition calm_handler :: "shared \<Rightarrow> handler \<Rightarrow> bool" where
  "calm_handler s h \<longleftrightarrow> pc h \<noteq> P_out \<and> (pc h \<noteq> P_return \<longrightarrow> is_open (conn h)) \<and> (pc h = P_done \<longrightarrow> rq h \<noteq> None) \<and>
     (pc h \<in> sending_phases \<longrightarrow> the (data h) \<in> set (LRU_Policy s))"

definition calm :: "world \<Rightarrow> int \<Rightarrow> workers \<Rightarrow> bool" where
  "calm W maxSize w \<longleftrightarrow> evictor w = None \<and> cMAX_SIZE (the_cache (sh w)) = maxSize \<and>
     name_of (sh w) ` set (LRU_Policy (sh w)) \<subseteq> requested W \<and>
     set (inflight_q (sh w)) \<subseteq> set (LRU_Policy (sh w)) \<and>
     (\<forall>i < njobs W. calm_handler (sh w) (hs w i)) \<and>
     (\<forall>a. count_list (inflight_q (sh w)) a = card (senders W w a))"

lemma calm_handler_mono:
  "calm_handler s h \<Longrightarrow> set (LRU_Policy s) \<subseteq> set (LRU_Policy s') \<Longrightarrow> calm_handler s' h"
  unfolding calm_handler_def by blast

lemma calm_quiet:
  assumes "calm W maxSize w" and "cMAX_SIZE (the_cache s') = cMAX_SIZE (the_cache (sh w))"
    and "inflight_q s' = inflight_q (sh w)" and "set (LRU_Policy (sh w)) \<subseteq> set (LRU_Policy s')"
    and "name_of s' ` set (LRU_Policy s') \<subseteq> requested W" and "calm_handler s' h"
    and "pc h \<in> {P_send, P_remove} \<longleftrightarrow> pc (hs w i) \<in> {P_send, P_remove}"
    and "pc h \<in> {P_send, P_remove} \<Longrightarrow> data h = data (hs w i)"
  shows "calm W maxSize ((set_handler i h w)\<lparr>sh := s'\<rparr>)"
proof -
  have "senders W ((set_handler i h w)\<lparr>sh := s'\<rparr>) a = senders W w a" for a
    using assms(7,8) by (auto simp: senders_def)
  moreover have "calm_handler s' (((hs w)(i := h)) k)" if "k < njobs W" for k
    using that assms(1,4,6) calm_handler_mono[of "sh w" "hs w k" s'] by (simp add: calm_def)
  moreover have "set (inflight_q s') \<subseteq> set (LRU_Policy s')" using assms(1,3,4) unfolding calm_def by auto
  ultimately show ?thesis using assms(1-3,5) by (simp add: calm_def)
qed

lemma wants_unique: "wants W i n \<Longrightarrow> wants W i m \<Longrightarrow> n = m"
  by (auto simp: wants_def)

lemma finite_requested: "finite (requested W)"
proof -
  have "requested W = (\<Union>i<njobs W. {n. wants W i n})" by (auto simp: requested_def)
  moreover have "finite {n. wants W i n}" for i
  proof (cases "\<exists>m. wants W i m")
    case True
    then obtain m where "{n. wants W i n} = {m}" using wants_unique[of W i] by blast
    then show ?thesis by simp
  qed simp
  ultimately show ?thesis by simp
qed

lemma fits_requested:
  assumes "fits W maxSize" and "n \<in> requested W"
  shows "\<exists>content. in_disk W n content"
proof -
  from assms(2) obtain i where i: "i < njobs W" "wants W i n" by (auto simp: requested_def)
  with assms(1) obtain m content where "wants W i m" "in_disk W m content" unfolding fits_def servable_job_def by blast
  with i(2) wants_unique show ?thesis by blast
qed

lemma good_entry_size: "good_entry W e \<Longrightarrow> bytes e = file_bytes W (file_name e) \<and> 0 \<le> bytes e"
  using sint_size32[of "file_buf e"] by (auto simp: entry_ok_def on_disk_def file_bytes_def split: option.splits)

text \<open>There is always room for one more of the requested files.\<close>

lemma room_for_requested:
  assumes "cache_good W s" and "fits W (cMAX_SIZE (the_cache s))" and "name_of s ` set (LRU_Policy s) \<subseteq> requested W"
    and "files s d = Some e" and "good_entry W e" and "file_name e \<in> requested W" and "cached s (file_name e) = None"
  shows "insertable d s \<and> \<not> overfull (size_of s d) s"
proof -
  have c: "cache_inv s" using assms(1) by (simp add: cache_good_def)
  note L = cache_inv_LRU[OF c]
  let ?N = "name_of s ` set (LRU_Policy s)"
  have nn: "file_name e \<notin> ?N" using assms(7) cached_None by blast
  have p: "0 \<le> file_bytes W n" if "n \<in> requested W" for n
    using fits_requested[OF assms(2) that] by (auto simp: on_disk_def file_bytes_def split: option.splits)
  have "size_of s a = file_bytes W (name_of s a)" if "a \<in> set (LRU_Policy s)" for a
    using good_entry_size[of W "the (files s a)"] assms(1) that by (simp add: cache_good_def size_of_def name_of_def)
  then have "total_bytes s (LRU_Policy s) = (\<Sum>a\<in>set (LRU_Policy s). file_bytes W (name_of s a))"
    using L(1) by (simp add: total_bytes_def sum_list_distinct_conv_sum_set)
  also have "\<dots> = (\<Sum>n\<in>?N. file_bytes W n)" using L(2) by (simp add: sum.reindex)
  finally have t: "total_bytes s (LRU_Policy s) = (\<Sum>n\<in>?N. file_bytes W n)" .
  have z: "size_of s d = file_bytes W (file_name e)" "0 \<le> size_of s d" "name_of s d = file_name e"
    using good_entry_size[OF assms(5)] assms(4) by (simp_all add: size_of_def name_of_def)
  have "(\<Sum>n\<in>insert (file_name e) ?N. file_bytes W n) \<le> (\<Sum>n\<in>requested W. file_bytes W n)"
    using assms(3,6) p finite_requested by (intro sum_mono2) auto
  then have b: "total_bytes s (LRU_Policy s) + size_of s d \<le> cMAX_SIZE (the_cache s)"
    using nn t z assms(2) by (simp add: fits_def)
  have "0 \<le> total_bytes s (LRU_Policy s)" using L(4) by (intro total_nonneg) auto
  then have m: "size_of s d \<le> cMAX_SIZE (the_cache s)" using b by simp
  with b z nn assms(4) overfull_eq(1)[OF c z(2) m] show ?thesis by (simp add: insertable_def)
qed


text \<open>A step that is taken, ends in a calm state, and brings the handler closer to its end.\<close>

definition good_step :: "world \<Rightarrow> int \<Rightarrow> nat \<Rightarrow> workers \<Rightarrow> bool" where
  "good_step W maxSize i w \<longleftrightarrow> (\<exists>h s. worker_step W i w = Some (Inr ((set_handler i h w)\<lparr>sh := s\<rparr>)) \<and>
     calm W maxSize ((set_handler i h w)\<lparr>sh := s\<rparr>) \<and> phase_rank (pc h) \<le> phase_rank (pc (hs w i)) - 1)"

lemma calmD:
  assumes "conc_inv W w" and "calm W maxSize w" and "i < njobs W"
  shows "evictor w = None" "cache_good W (sh w)" "cache_inv (sh w)" "cMAX_SIZE (the_cache (sh w)) = maxSize"
    "name_of (sh w) ` set (LRU_Policy (sh w)) \<subseteq> requested W" "calm_handler (sh w) (hs w i)"
    "pc (hs w i) \<in> private_phases \<Longrightarrow> mem W i \<notin> set (LRU_Policy (sh w))"
proof -
  show e: "evictor w = None" "cMAX_SIZE (the_cache (sh w)) = maxSize" "calm_handler (sh w) (hs w i)"
    "name_of (sh w) ` set (LRU_Policy (sh w)) \<subseteq> requested W"
    using assms(2,3) by (simp_all add: calm_def)
  show "cache_good W (sh w)" by (rule cache_good_cong[OF conc_invD(1)[OF assms(1,3)]]) (simp_all add: held_def e)
  then show "cache_inv (sh w)" by (simp add: cache_good_def)
  show "pc (hs w i) \<in> private_phases \<Longrightarrow> mem W i \<notin> set (LRU_Policy (sh w))"
    using conc_invD(3)[OF assms(1,3)] by (auto simp: shared_addrs_def)
qed

lemma calm_own:
  assumes "conc_inv W w" and "calm W maxSize w" and "i < njobs W" and "pc (hs w i) \<in> private_phases"
    and "worker_step W i w = Some (Inr ((set_handler i h w)\<lparr>sh := set_file (mem W i) x (sh w)\<rparr>))"
    and "calm_handler (set_file (mem W i) x (sh w)) h" and "pc h \<notin> {P_send, P_remove}"
    and "phase_rank (pc h) \<le> phase_rank (pc (hs w i)) - 1"
  shows "good_step W maxSize i w"
  unfolding good_step_def
proof (intro exI conjI)
  note C = calmD[OF assms(1-3)]
  show "calm W maxSize ((set_handler i h w)\<lparr>sh := set_file (mem W i) x (sh w)\<rparr>)"
    using set_file_LRU_names[OF C(7)[OF assms(4)]] C(5) assms(4,6,7) by (intro calm_quiet[OF assms(2)]) auto
qed (use assms in auto)

lemma calm_init:
  assumes "conc_inv W w" and "calm W maxSize w" and "i < njobs W" and "pc (hs w i) = P_init" and "servable_job W i"
  shows "good_step W maxSize i w"
proof -
  note C = calmD[OF assms(1-3)]
  obtain name ki ko where r: "request_init (sockfd W i) (kin (peer W i)) (kout (peer W i)) = Some (Inr (Some name, ki, ko))"
    using assms(5) by (auto simp: servable_job_def wants_def)
  have c: "conn (hs w i) = peer W i" using conc_invD(2)[OF assms(1,3)] assms(4) by simp
  obtain wc where fc: "fileCache (sh w) = Some wc" using cache_invD[OF C(3)] by metis
  have st: "worker_step W i w = Some (Inr ((set_handler i ((hs w i)\<lparr>pc := P_lookup,
        rq := Some \<lparr>rq_fd = sockfd W i, rq_data = Some (mem W i)\<rparr>, data := Some (mem W i), conn := (peer W i)\<lparr>kin := ki\<rparr>\<rparr>) w)
      \<lparr>sh := named (mem W i) name (sh w)\<rparr>))"
    using assms(4) r c fc request_init_GET_out[OF r] C(1)
    by (simp add: worker_step_def req_step_def req_init_def request_open_def file_data_init_def Let_def)
  show ?thesis by (rule calm_own[OF assms(1-3) _ st]) (use assms(4,5) fc in \<open>auto simp: calm_handler_def servable_job_def\<close>)
qed

lemma calm_read:
  assumes "conc_inv W w" and "calm W maxSize w" and "i < njobs W" and "pc (hs w i) = P_read" and "servable_job W i"
  shows "good_step W maxSize i w"
proof -
  note C = calmD[OF assms(1-3)]
  have "owns W (sh w) i (hs w i)" using conc_invD(2)[OF assms(1,3)] assms(4) by simp
  then obtain r e where o: "data (hs w i) = Some (mem W i)" "rq (hs w i) = Some r" "rq_data r = Some (mem W i)"
    "files (sh w) (mem W i) = Some e" "wants W i (file_name e)" by (auto simp: owns_def)
  obtain content where "in_disk W (file_name e) content"
    using assms(5) o(5) wants_unique[of W i] unfolding servable_job_def by blast
  note rd = on_disk_readfile[OF this, of "kout (conn (hs w i))"]
  have st: "worker_step W i w = Some (Inr ((set_handler i ((hs w i)\<lparr>pc := P_insert\<rparr>) w)
      \<lparr>sh := set_file (mem W i) (Some (e\<lparr>file_buf := content, file_size := size32 content\<rparr>)) (sh w)\<rparr>))"
    using assms(4) o rd C(1) by (simp add: worker_step_def req_step_def req_read_def readfile_def)
  show ?thesis by (rule calm_own[OF assms(1-3) _ st]) (use assms(4) C(6) in \<open>auto simp: calm_handler_def\<close>)
qed

lemma calm_hit:
  assumes "conc_inv W w" and "calm W maxSize w" and "i < njobs W" and "pc (hs w i) \<in> {P_lookup, P_insert}"
    and "files (sh w) (mem W i) = Some e" and "cached (sh w) (file_name e) = Some a"
  shows "good_step W maxSize i w"
proof -
  let ?m = "(sh w)\<lparr>LRU_Policy := remove1 a (LRU_Policy (sh w)) @ [a]\<rparr>"
  let ?s = "set_file (mem W i) None ?m"
  note C = calmD[OF assms(1-3)]
  have "owns W (sh w) i (hs w i)" using conc_invD(2)[OF assms(1,3)] assms(4) by auto
  then obtain r where o: "data (hs w i) = Some (mem W i)" "rq (hs w i) = Some r" by (auto simp: owns_def)
  have a: "a \<in> set (LRU_Policy (sh w))" "name_of (sh w) a = file_name e" using cached_Some[OF assms(6)] by auto
  have m: "cache_inv ?m" by (rule cache_inv_move[OF C(3) a(1)])
  have "cached ?m (file_name e) = Some a"
    using cached_unique[OF m, of a] a(2) by (simp add: name_of_def)
  then have g: "getCachedFile (file_name e) ?m = Inr (Some a)" using getCachedFile_spec[OF m] by simp
  let ?h = "(hs w i)\<lparr>pc := P_add, rq := Some (r\<lparr>rq_data := Some a\<rparr>), data := Some a\<rparr>"
  have u: "use_cached (file_name e) (hs w i) ?m = Inr (?h, ?s)"
    using o g assms(5) by (simp add: use_cached_def request_set_data_def)
  have "worker_step W i w = Some (Inr ((set_handler i ?h w)\<lparr>sh := ?s\<rparr>))"
    using assms(4) u o assms(5,6) C(1) lookup_spec[OF C(3), of "file_name e"]
    by (auto simp: worker_step_def req_step_def req_lookup_def insert_start_def deref_def)
  moreover have L: "set (LRU_Policy ?s) = set (LRU_Policy (sh w))"
    using a(1) cache_inv_LRU(1)[OF C(3)] by (auto simp: set_remove1_eq)
  have d: "mem W i \<notin> set (LRU_Policy (sh w))" using C(7) assms(4) by blast
  have "name_of ?s ` set (LRU_Policy ?s) = name_of (sh w) ` set (LRU_Policy (sh w))"
    unfolding L by (intro image_cong refl) (use d in \<open>auto simp: name_of_def\<close>)
  then have n: "name_of ?s ` set (LRU_Policy ?s) \<subseteq> requested W" using C(5) by (simp only:)
  have "a \<in> set (LRU_Policy ?s)" unfolding L by (rule a(1))
  then have ch: "calm_handler ?s ?h" using C(6) assms(4) by (auto simp: calm_handler_def)
  have "calm W maxSize ((set_handler i ?h w)\<lparr>sh := ?s\<rparr>)"
    by (rule calm_quiet[OF assms(2) _ _ equalityD2[OF L] n ch]) (use assms(4) in auto)
  ultimately show ?thesis using assms(4) unfolding good_step_def by (intro exI[of _ ?h] exI[of _ ?s]) auto
qed

lemma calm_lookup:
  assumes "conc_inv W w" and "calm W maxSize w" and "i < njobs W" and "pc (hs w i) = P_lookup"
  shows "good_step W maxSize i w"
proof -
  note C = calmD[OF assms(1-3)]
  obtain e where o: "data (hs w i) = Some (mem W i)" "files (sh w) (mem W i) = Some e"
    using conc_invD(2)[OF assms(1,3)] assms(4) by (auto simp: owns_def)
  show ?thesis
  proof (cases "cached (sh w) (file_name e)")
    case None
    then have st: "worker_step W i w = Some (Inr ((set_handler i ((hs w i)\<lparr>pc := P_read\<rparr>) w)
        \<lparr>sh := set_file (mem W i) (Some e) (sh w)\<rparr>))"
      using assms(4) o C(1) lookup_spec[OF C(3), of "file_name e"]
      by (simp add: worker_step_def req_step_def req_lookup_def deref_def map_upd_triv)
    show ?thesis by (rule calm_own[OF assms(1-3) _ st]) (use assms(4) C(6) in \<open>auto simp: calm_handler_def\<close>)
  next
    case (Some a)
    with calm_hit[OF assms(1-3) _ o(2)] assms(4) show ?thesis by blast
  qed
qed

lemma calm_insert:
  assumes "conc_inv W w" and "calm W maxSize w" and "i < njobs W" and "pc (hs w i) = P_insert" and "fits W maxSize"
  shows "good_step W maxSize i w"
proof -
  note C = calmD[OF assms(1-3)]
  obtain e where o: "data (hs w i) = Some (mem W i)" "files (sh w) (mem W i) = Some e" "good_entry W e"
    "wants W i (file_name e)"
    using conc_invD(2)[OF assms(1,3)] assms(4) by (auto simp: owns_def)
  show ?thesis
  proof (cases "cached (sh w) (file_name e)")
    case (Some a)
    with calm_hit[OF assms(1-3) _ o(2)] assms(4) show ?thesis by blast
  next
    case None
    have q: "file_name e \<in> requested W" using o(4) assms(3) by (auto simp: requested_def)
    from room_for_requested[OF C(2) _ C(5) o(2,3) q None] assms(5) C(4)
    have r: "insertable (mem W i) (sh w)" "\<not> overfull (size_of (sh w) (mem W i)) (sh w)" by simp_all
    from insert_room[OF C(3) r] obtain s where s: "insert_to_cache (mem W i) (sh w) = Inr (True, s)"
      "LRU_Policy s = LRU_Policy (sh w) @ [mem W i]" "files s = files (sh w)" "inflight_q s = inflight_q (sh w)"
      "cMAX_SIZE (the_cache s) = cMAX_SIZE (the_cache (sh w))" by blast
    have "insert_attempt (mem W i) (sh w) = Inr (Some (True, s))"
    proof (cases "insert_attempt (mem W i) (sh w)")
      case (Inr x)
      have "x \<noteq> None" using insert_attempt_None[of "mem W i" "sh w"] Inr r(2) o(2) by (cases x) (auto simp: size_of_def)
      with Inr s(1) show ?thesis by (auto simp: insert_to_cache_attempt)
    qed (use s(1) in \<open>simp add: insert_to_cache_attempt\<close>)
    then have st: "worker_step W i w = Some (Inr ((set_handler i ((hs w i)\<lparr>pc := P_add\<rparr>) w)\<lparr>sh := s\<rparr>))"
      using assms(4) C(1) o None lookup_spec[OF C(3), of "file_name e"]
      by (simp add: worker_step_def insert_start_def insert_go_def deref_def)
    have "name_of s = name_of (sh w)" "name_of (sh w) (mem W i) = file_name e" using s(3) o(2) by (auto simp: name_of_def)
    then have "name_of s ` set (LRU_Policy s) \<subseteq> requested W" using C(5) q s(2) by simp
    then have "calm W maxSize ((set_handler i ((hs w i)\<lparr>pc := P_add\<rparr>) w)\<lparr>sh := s\<rparr>)"
      using assms(4) s C(6) o(1) by (intro calm_quiet[OF assms(2)]) (auto simp: calm_handler_def)
    with st assms(4) show ?thesis unfolding good_step_def by (intro exI[of _ "(hs w i)\<lparr>pc := P_add\<rparr>"] exI[of _ s]) auto
  qed
qed


lemma calm_add:
  assumes "conc_inv W w" and "calm W maxSize w" and "i < njobs W" and "pc (hs w i) = P_add"
  shows "good_step W maxSize i w"
proof -
  note C = calmD[OF assms(1-3)]
  obtain a where a: "data (hs w i) = Some a" "a \<in> set (LRU_Policy (sh w))"
    using conc_invD(2)[OF assms(1,3)] assms(4) C(6) by (auto simp: sends_def calm_handler_def)
  let ?h = "(hs w i)\<lparr>pc := P_send\<rparr>"
  let ?s = "inflight_add a (sh w)"
  let ?w = "(set_handler i ?h w)\<lparr>sh := ?s\<rparr>"
  have st: "worker_step W i w = Some (Inr ?w)"
    using assms(4) a C(1) cache_inv_LRU(3)[OF C(3) a(2)]
    by (auto simp: worker_step_def req_step_def req_add_def deref_def)
  have s: "LRU_Policy ?s = LRU_Policy (sh w)" "name_of ?s = name_of (sh w)" "the_cache ?s = the_cache (sh w)"
    by (simp_all add: inflight_add_def name_of_def fun_eq_iff)
  have "senders W ?w b = (if b = a then insert i (senders W w b) else senders W w b)" "i \<notin> senders W w b" for b
    using assms(3,4) a(1) by (auto simp: senders_def)
  moreover have "finite (senders W w b)" for b by (simp add: senders_def)
  ultimately have "card (senders W ?w b) = count_list (inflight_q ?s) b" for b
    using assms(2) by (simp add: calm_def inflight_add_def)
  moreover have "calm_handler ?s (((hs w)(i := ?h)) k)" if "k < njobs W" for k
    using that assms(2) a s(1) C(6) assms(4) by (auto simp: calm_def calm_handler_def)
  moreover have "set (inflight_q ?s) \<subseteq> set (LRU_Policy ?s)" using assms(2) a(2) s(1) by (simp add: calm_def inflight_add_def)
  ultimately have "calm W maxSize ?w" using assms(2) s by (simp add: calm_def)
  with st assms(4) show ?thesis unfolding good_step_def by (intro exI[of _ ?h] exI[of _ ?s]) auto
qed

lemma calm_send:
  assumes "conc_inv W w" and "calm W maxSize w" and "i < njobs W" and "pc (hs w i) = P_send" and "servable_job W i"
  shows "good_step W maxSize i w"
proof -
  note C = calmD[OF assms(1-3)]
  obtain a r where a: "data (hs w i) = Some a" "a \<in> set (LRU_Policy (sh w))" "rq (hs w i) = Some r" "rq_data r = Some a"
    "\<And>e. files (sh w) a = Some e \<Longrightarrow> wants W i (file_name e) \<and> good_entry W e" and u: "unsent W i (hs w i)"
    using conc_invD(2)[OF assms(1,3)] assms(4) C(6) by (auto simp: sends_def calm_handler_def)
  obtain e where e: "files (sh w) a = Some e" using cache_inv_LRU(3)[OF C(3) a(2)] by auto
  then have g: "wants W i (file_name e)" "in_disk W (file_name e) (file_buf e)" "file_size e = size32 (file_buf e)"
    "length (file_buf e) < 2 ^ 31" using a(5) by (auto simp: entry_ok_def on_disk_def)
  then have "enough (length (ok_response (file_name e) (file_buf e))) (kout (conn (hs w i)))"
    using assms(5) wants_unique[OF g(1)] on_disk_unique[OF g(2)] u unfolding servable_job_def by metis
  from request_sendfile_ok[OF g(4) this] obtain k where
    k: "request_sendfile (file_name e) (file_buf e) (file_size e) (kout (conn (hs w i))) = Some (Inr k)"
    using g(3) by auto
  let ?h = "(hs w i)\<lparr>pc := P_remove, conn := (conn (hs w i))\<lparr>kout := k\<rparr>\<rparr>"
  have "worker_step W i w = Some (Inr ((set_handler i ?h w)\<lparr>sh := sh w\<rparr>))"
    using assms(4) a e k C(1) by (simp add: worker_step_def req_step_def req_send_def sendfile_def)
  moreover have "calm W maxSize ((set_handler i ?h w)\<lparr>sh := sh w\<rparr>)"
    by (rule calm_quiet[OF assms(2)]) (use assms(4) C(5,6) in \<open>auto simp: calm_handler_def\<close>)
  ultimately show ?thesis using assms(4) unfolding good_step_def by (intro exI[of _ ?h] exI[of _ "sh w"]) auto
qed

lemma calm_remove:
  assumes "conc_inv W w" and "calm W maxSize w" and "i < njobs W" and "pc (hs w i) = P_remove"
  shows "good_step W maxSize i w"
proof -
  note C = calmD[OF assms(1-3)]
  note L = cache_inv_LRU[OF C(3)]
  obtain a r where a: "data (hs w i) = Some a" "a \<in> set (LRU_Policy (sh w))" "rq (hs w i) = Some r"
    using conc_invD(2)[OF assms(1,3)] assms(4) C(6) by (auto simp: sends_def calm_handler_def)
  obtain e where e: "files (sh w) a = Some e" "file_name e = name_of (sh w) a"
    using L(3)[OF a(2)] by (auto simp: name_of_def)
  have q: "set (inflight_q (sh w)) \<subseteq> set (LRU_Policy (sh w))"
    "count_list (inflight_q (sh w)) b = card (senders W w b)" for b using assms(2) by (simp_all add: calm_def)
  have fin: "finite (senders W w b)" and i: "i \<in> senders W w a" for b
    using assms(3,4) a(1) by (simp_all add: senders_def)
  then have "0 < count_list (inflight_q (sh w)) a" using q(2)[of a] by (simp add: card_gt_0_iff) blast
  then have ai: "a \<in> set (inflight_q (sh w))" by (metis count_notin less_irrefl)
  have "\<forall>b\<in>set (inflight_q (sh w)). files (sh w) b \<noteq> None" using q(1) L(3) by blast
  then have "find_file (files (sh w)) (name_of (sh w) a) (inflight_q (sh w)) = Inr (Some a)"
    using find_file_eq find_unique[OF ai inj_on_subset[OF L(2) q(1)]] by fastforce
  then have rm: "inflight_remove (file_name e) (sh w) = Inr (Some a, (sh w)\<lparr>inflight_q := remove1 a (inflight_q (sh w))\<rparr>)"
    by (simp add: inflight_remove_def e(2))
  let ?h = "(hs w i)\<lparr>pc := P_done\<rparr>"
  let ?s = "(sh w)\<lparr>inflight_q := remove1 a (inflight_q (sh w))\<rparr>"
  let ?w = "(set_handler i ?h w)\<lparr>sh := ?s\<rparr>"
  have st: "worker_step W i w = Some (Inr ?w)"
    using assms(4) a e rm C(1) by (simp add: worker_step_def req_step_def req_remove_def deref_def)
  have "senders W ?w b = senders W w b - {i}" "i \<in> senders W w b \<longleftrightarrow> b = a" for b
    using assms(3,4) a(1) by (auto simp: senders_def)
  then have "card (senders W ?w b) = count_list (inflight_q ?s) b" for b
    using q(2)[of b] fin[of b] ai by (auto simp: count_list_remove1)
  moreover have "name_of ?s = name_of (sh w)" by (simp add: name_of_def fun_eq_iff)
  moreover have "calm_handler ?s (((hs w)(i := ?h)) k)" if "k < njobs W" for k
    using that assms(2,4) a C(6) by (auto simp: calm_def calm_handler_def)
  moreover have "set (inflight_q ?s) \<subseteq> set (LRU_Policy ?s)" using q(1) set_remove1_subset[of a "inflight_q (sh w)"] by simp
  ultimately have "calm W maxSize ?w" using assms(2) by (simp add: calm_def)
  with st assms(4) show ?thesis unfolding good_step_def by (intro exI[of _ ?h] exI[of _ ?s]) auto
qed


lemma calm_progress:
  assumes "conc_inv W w" and "calm W maxSize w" and "i < njobs W" and "fits W maxSize"
  shows "good_step W maxSize i w"
proof -
  note C = calmD[OF assms(1-3)]
  have sj: "servable_job W i" using assms(3,4) by (simp add: fits_def)
  show ?thesis
  proof (cases "pc (hs w i)")
    case P_done
    let ?h = "(hs w i)\<lparr>pc := P_return, rq := None, conn := (conn (hs w i))\<lparr>is_open := False\<rparr>\<rparr>"
    have "worker_step W i w = Some (Inr ((set_handler i ?h w)\<lparr>sh := sh w\<rparr>))"
      using P_done C(1,6) by (auto simp: worker_step_def req_step_def req_done_def request_destroy_def calm_handler_def)
    moreover have "calm W maxSize ((set_handler i ?h w)\<lparr>sh := sh w\<rparr>)"
      by (rule calm_quiet[OF assms(2)]) (use P_done C(5) in \<open>auto simp: calm_handler_def\<close>)
    ultimately show ?thesis using P_done unfolding good_step_def by (intro exI[of _ ?h] exI[of _ "sh w"]) auto
  next
    case P_return
    have "worker_step W i w = Some (Inr ((set_handler i (hs w i) w)\<lparr>sh := sh w\<rparr>))"
      using P_return C(1) by (simp add: worker_step_def req_step_def)
    with assms(2) P_return show ?thesis unfolding good_step_def by (intro exI[of _ "hs w i"] exI[of _ "sh w"]) auto
  next
    case P_short
    then show ?thesis using conc_invD(2)[OF assms(1,3)] by simp
  next
    case P_out
    then show ?thesis using C(6) by (simp add: calm_handler_def)
  qed (simp_all add: calm_init[OF assms(1-3) _ sj] calm_lookup[OF assms(1-3)] calm_read[OF assms(1-3) _ sj]
      calm_insert[OF assms(1-3) _ assms(4)] calm_add[OF assms(1-3)] calm_send[OF assms(1-3) _ sj] calm_remove[OF assms(1-3)])
qed

lemma calm_start: "fits W maxSize \<Longrightarrow> calm W maxSize (workers_start W maxSize)"
  by (simp add: fits_def servable_job_def calm_def workers_start_def cache_start_def init_cache_def calm_handler_def senders_def Let_def)

lemma run_schedule_calm:
  assumes "inj_on (mem W) {..<njobs W}" and "disk_ok W" and "fits W maxSize"
  shows "conc_inv W w \<Longrightarrow> calm W maxSize w \<Longrightarrow> set is \<subseteq> {..<njobs W} \<Longrightarrow>
    \<exists>w'. run_schedule W is w = Some (Inr w') \<and> conc_inv W w' \<and> calm W maxSize w' \<and>
      (\<forall>k. phase_rank (pc (hs w' k)) \<le> phase_rank (pc (hs w k)) - count_list is k)"
proof (induction "is" arbitrary: w)
  case (Cons i "is")
  then have i: "i < njobs W" by simp
  from calm_progress[OF Cons.prems(1,2) i assms(3)] obtain h s where
    st: "worker_step W i w = Some (Inr ((set_handler i h w)\<lparr>sh := s\<rparr>))"
    "calm W maxSize ((set_handler i h w)\<lparr>sh := s\<rparr>)" "phase_rank (pc h) \<le> phase_rank (pc (hs w i)) - 1"
    by (auto simp: good_step_def)
  let ?w = "(set_handler i h w)\<lparr>sh := s\<rparr>"
  have "conc_inv W ?w" by (rule worker_step_inv[OF Cons.prems(1) i assms(1,2) st(1)])
  from Cons.IH[OF this st(2)] Cons.prems(3) obtain w' where w': "run_schedule W is ?w = Some (Inr w')"
    "conc_inv W w'" "calm W maxSize w'" and k: "\<And>k. phase_rank (pc (hs w' k)) \<le> phase_rank (pc (hs ?w k)) - count_list is k"
    by auto
  have "phase_rank (pc (hs w' k)) \<le> phase_rank (pc (hs w k)) - count_list (i # is) k" for k
    using k[of k] st(3) by (cases "k = i") auto
  with w' st(1) show ?case by auto
qed simp

text \<open>
  Where room has to be made the handlers can fail: a file is freed in a step after the test that it is
  not being sent. A handler that has found the file in the cache can mark it as being sent in between,
  and then sends a freed file.
\<close>

lemma free_after_test:
  assumes "evictor w = Some (j, E_free a)" and "i \<noteq> j" and "pc (hs w i) = P_add" and "data (hs w i) = Some a"
    and "rq (hs w i) = Some r" and "rq_data r = Some a" and "cache_inv (view w)"
  shows "\<exists>w'. run_schedule W [i, j] w = Some (Inr w') \<and> a \<in> set (inflight_q (sh w')) \<and> files (sh w') a = None \<and>
    worker_step W i w' = Some (Inl Use_after_free)"
proof -
  have v: "LRU_Policy (view w) = a # LRU_Policy (sh w)" using assms(1) by (simp add: held_def)
  obtain e where e: "files (sh w) a = Some e" "file_name e = name_of (view w) a"
    using cache_inv_LRU(3)[OF assms(7), of a] v by (auto simp: name_of_def)
  have vs: "(view w)\<lparr>LRU_Policy := LRU_Policy (sh w)\<rparr> = sh w" by (simp add: view_def)
  obtain h s where h: "hash_index (name_of (view w) a) (the_cache (view w)) = Inr h"
    and r: "remove_entry h (name_of (view w) a) ((view w)\<lparr>LRU_Policy := LRU_Policy (sh w)\<rparr>) = Inr (True, s)"
    and s: "files s = (files (view w))(a := None)" "inflight_q s = inflight_q (view w)"
    using remove_entry_spec[OF assms(7) v] by blast
  let ?s = "inflight_add a (sh w)"
  let ?w = "(set_handler i ((hs w i)\<lparr>pc := P_send\<rparr>) w)\<lparr>sh := ?s\<rparr>"
  have 1: "worker_step W i w = Some (Inr ?w)"
    using assms(1-4) e(1) by (simp add: worker_step_def req_step_def req_add_def deref_def)
  have "remove_entry h n (inflight_add a u) = bindR (remove_entry h n u) (\<lambda>(b, t). Inr (b, inflight_add a t))"
    if "inflight_q u = inflight_q (sh w)" for n u
    by (auto simp: remove_entry_def inflight_add_def bindR_def upd_cache_def split: sum.splits option.splits)
  with r vs have "remove_entry h (file_name e) ?s = Inr (True, inflight_add a s)" by (simp add: e(2))
  then have 2: "worker_step W j ?w = Some (Inr (?w\<lparr>evictor := Some (j, E_loop), sh := inflight_add a s\<rparr>))"
    using assms(1,2) e h by (simp add: worker_step_def evict_step_def inflight_add_def)
  show ?thesis
    using 1 2 s assms(1,2,4-6)
    by (intro exI[of _ "?w\<lparr>evictor := Some (j, E_loop), sh := inflight_add a s\<rparr>"])
       (simp add: inflight_add_def worker_step_def req_step_def req_send_def sendfile_def readR_def)
qed


section \<open>Properties\<close>

lemma run_schedule_reach:
  "reach W maxSize w \<Longrightarrow> set is \<subseteq> {..<njobs W} \<Longrightarrow> run_schedule W is w = Some (Inr w') \<Longrightarrow> reach W maxSize w'"
  by (induction "is" arbitrary: w) (auto simp: bindO_eq_Inr intro: reach_step)

lemma schedule_serves:
  assumes "4096 \<le> maxSize" and "maxSize < 2 ^ 30" and "inj_on (mem W) {..<njobs W}" and "disk_ok W" and "fits W maxSize"
    and "set is \<subseteq> {..<njobs W}"
  shows "\<exists>w. run_schedule W is (workers_start W maxSize) = Some (Inr w) \<and> reach W maxSize w \<and> evictor w = None \<and> conc_inv W w \<and>
    calm W maxSize w \<and> (\<forall>i < njobs W. 8 \<le> count_list is i \<longrightarrow> pc (hs w i) = P_return)"
proof -
  from run_schedule_calm[OF assms(3-5) conc_inv_start[OF assms(1,2)] calm_start[OF assms(5)] assms(6)] obtain w where
    w: "run_schedule W is (workers_start W maxSize) = Some (Inr w)" "conc_inv W w" "calm W maxSize w"
    and k: "\<And>k. phase_rank (pc (hs w k)) \<le> phase_rank (pc (hs (workers_start W maxSize) k)) - count_list is k" by blast
  have "pc (hs w i) = P_return" if "8 \<le> count_list is i" for i
    using k[of i] that by (cases "pc (hs w i)") (auto simp: workers_start_def)
  moreover have "reach W maxSize w" using run_schedule_reach[OF reach_start assms(6) w(1)] .
  ultimately show ?thesis using w by (auto simp: calm_def)
qed

lemma returned_answered:
  assumes "conc_inv W w" and "fits W maxSize" and "i < njobs W" and "pc (hs w i) = P_return"
  shows "\<not> is_open (conn (hs w i)) \<and> responded W i (hs w i)"
proof -
  have "\<not> refused W i (hs w i)" using assms(2,3) by (auto simp: fits_def servable_job_def refused_def wants_def)
  with conc_invD(2)[OF assms(1,3)] assms(4) show ?thesis by simp
qed

lemma all_returned_idle:
  assumes "calm W maxSize w" and "\<And>i. i < njobs W \<Longrightarrow> pc (hs w i) = P_return"
  shows "inflight_q (sh w) = []"
proof -
  have "senders W w x = {}" for x using assms(2) by (auto simp: senders_def)
  then have "count_list (inflight_q (sh w)) x = 0" for x using assms(1) by (simp add: calm_def)
  then show ?thesis by (simp add: count_list_0_iff) (metis ex_in_conv set_empty)
qed

lemma calm_cache_inv: "conc_inv W w \<Longrightarrow> calm W maxSize w \<Longrightarrow> cache_inv (sh w)"
  by (simp add: calm_def conc_inv_def cache_good_def view_def held_def)

text \<open>
  C20. Concurrent requests whose files fit the cache. Let any number of handlers run \<open>do_server_request\<close> on
  one cache, each for a file on the disk, the same or different ones, and let the files together be no
  larger than the cache. Then no interleaving of their steps blocks or faults: along every schedule the
  run goes on, the cache stays consistent, and a handler that has been scheduled eight times has returned,
  closed its connection, and written to it the file it was asked for, as it is on the disk. When all have
  returned, no file is marked as being sent.
\<close>

theorem concurrent_requests_served:
  assumes "4096 \<le> maxSize" and "maxSize < 2 ^ 30" and "inj_on (mem W) {..<njobs W}" and "disk_ok W" and "fits W maxSize"
    and "set is \<subseteq> {..<njobs W}"
  shows "\<exists>w. run_schedule W is (workers_start W maxSize) = Some (Inr w) \<and> cache_inv (sh w) \<and>
    (\<forall>i < njobs W. 8 \<le> count_list is i \<longrightarrow>
       pc (hs w i) = P_return \<and> \<not> is_open (conn (hs w i)) \<and> responded W i (hs w i)) \<and>
    ((\<forall>i < njobs W. 8 \<le> count_list is i) \<longrightarrow> inflight_q (sh w) = [])"
proof -
  from schedule_serves[OF assms] obtain w where w: "run_schedule W is (workers_start W maxSize) = Some (Inr w)"
    "evictor w = None" "conc_inv W w" "calm W maxSize w"
    "\<And>i. i < njobs W \<Longrightarrow> 8 \<le> count_list is i \<Longrightarrow> pc (hs w i) = P_return" by blast
  have c: "cache_inv (sh w)" by (rule calm_cache_inv[OF w(3,4)])
  have r: "\<not> is_open (conn (hs w i)) \<and> responded W i (hs w i)" if i: "i < njobs W" "8 \<le> count_list is i" for i
    by (rule returned_answered[OF w(3) assms(5) i(1) w(5)[OF i]])
  have "inflight_q (sh w) = []" if "\<forall>i < njobs W. 8 \<le> count_list is i"
    by (rule all_returned_idle[OF w(4)]) (use w(5) that in blast)
  with w(1,5) c r show ?thesis by blast
qed

definition two_requests :: world where
  "two_requests = \<lparr>stats = [''.//a.txt'' \<mapsto> \<lparr>S_ISREG = True, S_IRUSR = True, st_size = 3\<rparr>],
     disks = [''.//a.txt'' \<mapsto> \<lparr>stream = ''abc'', sched = replicate 4 (K_bytes 0)\<rparr>],
     njobs = 2, sockfd = (\<lambda>i. 4 + int i), mem = (\<lambda>i. i), peer = (\<lambda>_. get_conn)\<rparr>"

lemma two_requests_facts:
  "inj_on (mem two_requests) {..<njobs two_requests}" "disk_ok two_requests" "fits two_requests 8192" "njobs two_requests = 2"
proof -
  have w: "wants two_requests i name \<longleftrightarrow> name = ''.//a.txt''" for i name
    using get_conn_init[of "4 + int i"] by (auto simp: wants_def two_requests_def)
  have "servable ''.//a.txt''" by (simp add: servable_checks)
  then have d: "in_disk two_requests ''.//a.txt'' ''abc''" by (simp add: on_disk_def enough_def two_requests_def)
  have c: "size32 ''abc'' = 3" "fmt_u 3 = ''3''" "csum ''abc'' = 294" "fmt_u 294 = ''294''"
    "request_get_file_type ''.//a.txt'' = ''text/plain''"
    by (simp_all add: fmt_u.simps char_of_def bit_simps csum_def request_get_file_type_def)
  have e: "enough (length (ok_response ''.//a.txt'' ''abc'')) (kout get_conn)"
    by (simp add: ok_response_def ok_header_def enough_def fmt_d_def c get_conn_def)
  have "servable_job two_requests i" for i
    unfolding servable_job_def w using d e by (auto simp: two_requests_def get_conn_def)
  moreover have "requested two_requests = {''.//a.txt''}" unfolding requested_def w by (auto simp: two_requests_def intro!: exI[of _ 0])
  ultimately show "fits two_requests 8192" by (simp add: fits_def file_bytes_def) (simp add: two_requests_def)
qed (auto simp: two_requests_def disk_ok_def enough_def split: if_splits)

theorem concurrent_requests_served_witness:
  "\<exists>w. run_schedule two_requests [0, 1, 0, 1, 1, 0, 1, 0, 1, 1, 0, 0, 1, 1, 0, 0] (workers_start two_requests 8192) = Some (Inr w) \<and>
     (\<forall>i < 2. pc (hs w i) = P_return \<and> responded two_requests i (hs w i)) \<and> inflight_q (sh w) = []"
proof -
  let ?is = "[0, 1, 0, 1, 1, 0, 1, 0, 1, 1, 0, 0, 1, 1, 0, 0] :: nat list"
  note t = two_requests_facts
  have s: "set ?is \<subseteq> {..<njobs two_requests}" by (simp add: t(4))
  have n: "8 \<le> count_list ?is i" if "i < 2" for i using that by (cases "i = 0") (auto simp: less_Suc_eq numeral_2_eq_2)
  from concurrent_requests_served[OF _ _ t(1-3) s] obtain w where
    "run_schedule two_requests ?is (workers_start two_requests 8192) = Some (Inr w)"
    "\<forall>i < 2. 8 \<le> count_list ?is i \<longrightarrow> pc (hs w i) = P_return \<and> \<not> is_open (conn (hs w i)) \<and> responded two_requests i (hs w i)"
    "(\<forall>i < 2. 8 \<le> count_list ?is i) \<longrightarrow> inflight_q (sh w) = []" unfolding t(4) by (force simp del: count_list.simps)
  with n show ?thesis by (intro exI[of _ w]) blast
qed



end
