(* ===== verification/ServerAll.thy ===== *)
theory ServerAll
  imports Pool ServerFits
begin

text \<open>
  The multi-threaded server as a whole: the main thread and the worker threads of theory \<open>Pool\<close>, where
  a worker that has taken a connection runs the handler of theory \<open>ServerConc\<close> for it, all interleaved. A
  connection is named by its number in the order of arrival.
\<close>

section \<open>The machine\<close>

text \<open>How many connections the main thread has pushed and the workers have taken are counted along.\<close>

record server_state =
  pl :: pool
  wk :: "ServerConc.workers"
  pushed :: nat
  popped :: nat

definition server_start :: "world \<Rightarrow> int \<Rightarrow> nat \<Rightarrow> nat \<Rightarrow> server_state" where
  "server_start W maxSize n m = \<lparr>pl = server_init n m, wk = workers_start W maxSize, pushed = 0, popped = 0\<rparr>"

text \<open>
  The main thread calls \<open>server_request\<close> with the next connection and waits while the queue is full; a worker
  in the loop of \<open>do_server_t_request\<close> takes a connection or waits, then calls \<open>do_server_request\<close> with it,
  one step of the handler at a time, and goes back to the top of its loop when the handler has returned.
\<close>

inductive srv_step :: "world \<Rightarrow> server_state \<Rightarrow> server_state \<Rightarrow> bool" for W where
  srv_accept: "pushed s < njobs W \<Longrightarrow> pstep (pl s) (Accept (int (pushed s))) p \<Longrightarrow>
    srv_step W s (s\<lparr>pl := p, pushed := Suc (pushed s)\<rparr>)"
| srv_full: "pushed s < njobs W \<Longrightarrow> pstep (pl s) (Full (int (pushed s))) p \<Longrightarrow> srv_step W s (s\<lparr>pl := p\<rparr>)"
| srv_take: "pstep (pl s) (Take i fd) p \<Longrightarrow> srv_step W s (s\<lparr>pl := p, popped := Suc (popped s)\<rparr>)"
| srv_nothing: "pstep (pl s) (Nothing i) p \<Longrightarrow> srv_step W s (s\<lparr>pl := p\<rparr>)"
| srv_serve: "i < nr_threads (pl s) \<Longrightarrow> workers (pl s) i = W_Serving fd \<Longrightarrow> pc (hs (wk s) (nat fd)) \<noteq> P_return \<Longrightarrow>
    worker_step W (nat fd) (wk s) = Some (Inr w) \<Longrightarrow> srv_step W s (s\<lparr>wk := w\<rparr>)"
| srv_finish: "workers (pl s) i = W_Serving fd \<Longrightarrow> pc (hs (wk s) (nat fd)) = P_return \<Longrightarrow>
    pstep (pl s) (Finish i) p \<Longrightarrow> srv_step W s (s\<lparr>pl := p\<rparr>)"

inductive_cases pstep_AcceptE: "pstep s (Accept fd) s'"
inductive_cases pstep_FullE: "pstep s (Full fd) s'"
inductive_cases pstep_TakeE: "pstep s (Take i fd) s'"
inductive_cases pstep_NothingE: "pstep s (Nothing i) s'"
inductive_cases pstep_FinishE: "pstep s (Finish i) s'"

section \<open>What the steps of the pool change\<close>

lemma accept_effect:
  assumes "pstep s (Accept fd) s'"
  shows "main_th s' = M_Idle" "isServerExiting s' = isServerExiting s" "main_th s = M_Idle \<or> main_th s = M_Woken fd"
    "workers s' = workers s \<or> (\<exists>j<nr_threads s. workers s j = W_Waiting \<and> workers s' = (workers s)(j := W_Woken))"
  using assms
  by (auto elim!: pstep_AcceptE simp: server_request_def signal_work_def Let_def split: option.splits if_splits) blast+

lemma full_effect:
  assumes "pstep s (Full fd) s'"
  shows "main_th s' = M_Waiting fd" "isServerExiting s' = isServerExiting s" "workers s' = workers s"
    "main_th s = M_Idle \<or> main_th s = M_Woken fd"
  using assms by (auto elim!: pstep_FullE simp: server_request_def Let_def split: option.splits if_splits)

lemma worker_effect:
  assumes "do_server_t_request i woken s = Some (r, s')" and "\<not> isServerExiting s"
  shows "\<not> isServerExiting s'" "workers s' = (workers s)(i := (case r of None \<Rightarrow> W_Waiting | Some fd \<Rightarrow> W_Serving fd))"
    "main_th s' = main_th s \<or> (\<exists>fd. r = Some fd \<and> main_th s' = main_th (signal_main s))"
  using assms
  by (auto simp: do_server_t_request_def Let_def bind_eq_Some_conv signal_main_def split: if_splits main.splits)


lemma take_effect:
  assumes "pstep s (Take i fd) s'" and "\<not> isServerExiting s"
  shows "\<not> isServerExiting s'" "workers s' = (workers s)(i := W_Serving fd)" "i < nr_threads s"
    "workers s i \<in> {W_Top, W_Woken}" "main_th s' = main_th s \<or> main_th s' = main_th (signal_main s)"
  using assms worker_effect[OF _ assms(2), of i _ "Some fd" s']
  by (auto elim!: pstep_TakeE split: if_splits)

lemma nothing_effect:
  assumes "pstep s (Nothing i) s'" and "\<not> isServerExiting s"
  shows "\<not> isServerExiting s'" "workers s' = (workers s)(i := W_Waiting)" "i < nr_threads s"
    "workers s i \<in> {W_Top, W_Woken}" "main_th s' = main_th s"
  using assms worker_effect[OF _ assms(2), of i _ None s']
  by (auto elim!: pstep_NothingE split: if_splits)

lemma finish_effect:
  assumes "pstep s (Finish i) s'"
  shows "s' = s\<lparr>workers := (workers s)(i := W_Top)\<rparr>" "i < nr_threads s" "\<exists>fd. workers s i = W_Serving fd"
  using assms by (auto elim!: pstep_FinishE)

section \<open>The invariant\<close>

definition srv_inv :: "world \<Rightarrow> int \<Rightarrow> nat \<Rightarrow> nat \<Rightarrow> server_state \<Rightarrow> bool" where
  "srv_inv W maxSize n m s \<longleftrightarrow> pool_inv n m (pl s) (map int [popped s..<pushed s]) \<and>
     popped s \<le> pushed s \<and> pushed s \<le> njobs W \<and> \<not> isServerExiting (pl s) \<and>
     (\<forall>fd. main_th (pl s) = M_Waiting fd \<or> main_th (pl s) = M_Woken fd \<longrightarrow> pushed s < njobs W \<and> fd = int (pushed s)) \<and>
     conc_inv W (wk s) \<and> calm W maxSize (wk s) \<and>
     (\<forall>i<n. \<forall>fd. workers (pl s) i = W_Serving fd \<longrightarrow> 0 \<le> fd \<and> nat fd < popped s) \<and>
     (\<forall>k<popped s. pc (hs (wk s) k) = P_return \<or> (\<exists>i<n. workers (pl s) i = W_Serving (int k)))"

lemma srv_invD:
  assumes "srv_inv W maxSize n m s"
  shows "pool_inv n m (pl s) (map int [popped s..<pushed s])" "\<not> isServerExiting (pl s)" "nr_threads (pl s) = n"
    "popped s \<le> pushed s" "pushed s \<le> njobs W" "conc_inv W (wk s)" "calm W maxSize (wk s)"
proof -
  show p: "pool_inv n m (pl s) (map int [popped s..<pushed s])" using assms by (simp only: srv_inv_def)
  show "nr_threads (pl s) = n" using p by (simp only: pool_inv_def)
qed (use assms in \<open>simp_all only: srv_inv_def not_False_eq_True\<close>)

lemma srv_inv_start:
  assumes "m < 2 ^ 31" and "4096 \<le> maxSize" and "maxSize < 2 ^ 30" and "fits W maxSize"
  shows "srv_inv W maxSize n m (server_start W maxSize n m)"
  using pool_inv_init[OF assms(1), of n] conc_inv_start[OF assms(2,3)] calm_start[OF assms(4)]
  by (auto simp: srv_inv_def server_start_def server_init_def)

lemma srv_inv_step:
  assumes "srv_step W s s'" and I: "srv_inv W maxSize n m s"
    and W: "inj_on (mem W) {..<njobs W}" "disk_ok W" "fits W maxSize"
  shows "srv_inv W maxSize n m s'"
  using assms(1)
proof cases
  case (srv_accept p)
  let ?xs = "map int [popped s..<pushed s]"
  from pstep_inv[OF srv_accept(3) srv_invD(1)[OF I]] have p: "pool_inv n m p (?xs @ [int (pushed s)])" by auto
  note e = accept_effect[OF srv_accept(3)]
  have w: "workers p i = W_Serving fd \<longleftrightarrow> workers (pl s) i = W_Serving fd" for i fd using e(4) by (auto split: if_splits)
  have "map int [popped s..<Suc (pushed s)] = ?xs @ [int (pushed s)]" using I by (simp add: srv_inv_def)
  with p I e(1,2) srv_accept(2) show ?thesis unfolding srv_inv_def srv_accept(1) by (simp add: w)
next
  case (srv_full p)
  from pstep_inv[OF srv_full(3) srv_invD(1)[OF I]] have p: "pool_inv n m p (map int [popped s..<pushed s])" by auto
  with I full_effect[OF srv_full(3)] srv_full(2) show ?thesis unfolding srv_inv_def srv_full(1) by simp
next
  case (srv_take i fd p)
  let ?xs = "map int [popped s..<pushed s]"
  note x = srv_invD(1)[OF I] and ne = srv_invD(2)[OF I] and nt = srv_invD(3)[OF I]
  from pstep_inv[OF srv_take(2) x] obtain ys where ys: "pool_inv n m p ys" "?xs = fd # ys" by auto
  then have lt: "popped s < pushed s" by (cases "popped s < pushed s") auto
  then have "fd = int (popped s)" "ys = map int [Suc (popped s)..<pushed s]" using ys(2) by (simp_all add: upt_conv_Cons)
  note e = take_effect[OF srv_take(2) ne]
  have mt: "main_th p = M_Waiting f \<or> main_th p = M_Woken f \<Longrightarrow> main_th (pl s) = M_Waiting f \<or> main_th (pl s) = M_Woken f" for f
    using e(5) by (auto simp: signal_main_def split: main.splits)
  have sv: "\<forall>j<n. \<forall>f. workers p j = W_Serving f \<longrightarrow> 0 \<le> f \<and> nat f < Suc (popped s)"
  proof (intro allI impI)
    fix j f assume j: "j < n" "workers p j = W_Serving f"
    have "\<forall>fd. workers (pl s) j = W_Serving fd \<longrightarrow> 0 \<le> fd \<and> nat fd < popped s" using I j(1) by (simp add: srv_inv_def)
    with j(2) e(2) \<open>fd = int (popped s)\<close> show "0 \<le> f \<and> nat f < Suc (popped s)" by (cases "j = i") auto
  qed
  have "pc (hs (wk s) k) = P_return \<or> (\<exists>j<n. workers p j = W_Serving (int k))" if "k < Suc (popped s)" for k
  proof (cases "k = popped s")
    case True
    with e(2,3) nt \<open>fd = int (popped s)\<close> show ?thesis by auto
  next
    case False
    with that I have "pc (hs (wk s) k) = P_return \<or> (\<exists>j<n. workers (pl s) j = W_Serving (int k))" by (auto simp: srv_inv_def)
    then show ?thesis using e(2,4) by (metis fun_upd_apply insert_iff singletonD worker.distinct(5) worker.distinct(15))
  qed
  with sv mt ys(1) I e(1) lt show ?thesis unfolding srv_inv_def srv_take(1) \<open>ys = _\<close> by auto
next
  case (srv_nothing i p)
  note x = srv_invD(1)[OF I] and ne = srv_invD(2)[OF I] and nt = srv_invD(3)[OF I]
  from pstep_inv[OF srv_nothing(2) x] have p: "pool_inv n m p (map int [popped s..<pushed s])" by auto
  note e = nothing_effect[OF srv_nothing(2) ne]
  have w: "workers p j = W_Serving fd \<longleftrightarrow> workers (pl s) j = W_Serving fd" for j fd using e(2,4) by (auto split: if_splits)
  from p I e(1,5) show ?thesis unfolding srv_inv_def srv_nothing(1) by (simp add: w)
next
  case (srv_serve i fd w)
  note nt = srv_invD(3)[OF I]
  then have k: "nat fd < njobs W" using I srv_serve(2,3) by (fastforce simp: srv_inv_def)
  note c = srv_invD(6,7)[OF I]
  from calm_progress[OF c k W(3)] srv_serve(5) obtain h u where
    u: "w = (set_handler (nat fd) h (wk s))\<lparr>sh := u\<rparr>" "calm W maxSize w" by (auto simp: good_step_def)
  have "conc_inv W w" by (rule worker_step_inv[OF c(1) k W(1,2) srv_serve(5)])
  moreover have "pc (hs (wk s) j) = P_return \<Longrightarrow> pc (hs w j) = P_return" for j using u(1) srv_serve(4) by auto
  ultimately show ?thesis using I u(2) unfolding srv_inv_def srv_serve(1) by auto
next
  case (srv_finish i fd p)
  note x = srv_invD(1)[OF I] and ne = srv_invD(2)[OF I]
  from pstep_inv[OF srv_finish(4) x] have p: "pool_inv n m p (map int [popped s..<pushed s])" by auto
  note e = finish_effect[OF srv_finish(4)]
  have "pc (hs (wk s) k) = P_return \<or> (\<exists>j<n. workers p j = W_Serving (int k))" if "k < popped s" for k
  proof (cases "int k = fd")
    case True
    then show ?thesis using srv_finish(3) by auto
  next
    case False
    have "pc (hs (wk s) k) = P_return \<or> (\<exists>j<n. workers (pl s) j = W_Serving (int k))" using that I by (auto simp: srv_inv_def)
    then show ?thesis
    proof
      assume "\<exists>j<n. workers (pl s) j = W_Serving (int k)"
      then obtain j where j: "j < n" "workers (pl s) j = W_Serving (int k)" by blast
      then have "workers p j = W_Serving (int k)" using False e(1) srv_finish(2) by auto
      with j(1) show ?thesis by blast
    qed simp
  qed
  with p I e(1) show ?thesis unfolding srv_inv_def srv_finish(1) by auto
qed


section \<open>The server comes to an end\<close>

fun worker_weight :: "worker \<Rightarrow> nat" where
  "worker_weight W_Waiting = 0"
| "worker_weight W_Done = 0"
| "worker_weight (W_Serving _) = 2"
| "worker_weight _ = 1"

fun main_weight :: "main \<Rightarrow> nat" where
  "main_weight (M_Waiting _) = 0"
| "main_weight _ = 1"

definition work_left :: "world \<Rightarrow> nat \<Rightarrow> server_state \<Rightarrow> nat" where
  "work_left W n s = 10 * (njobs W - pushed s) + 6 * (pushed s - popped s) +
     (\<Sum>k<njobs W. phase_rank (pc (hs (wk s) k))) + (\<Sum>i<n. worker_weight (workers (pl s) i)) + main_weight (main_th (pl s))"

lemma sum_fun_upd:
  fixes f :: "'a \<Rightarrow> nat" and g :: "nat \<Rightarrow> 'a"
  assumes "j < n"
  shows "(\<Sum>i<n. f ((g(j := x)) i)) + f (g j) = (\<Sum>i<n. f (g i)) + f x"
proof -
  have "(\<Sum>i\<in>{..<n} - {j}. f ((g(j := x)) i)) = (\<Sum>i\<in>{..<n} - {j}. f (g i))" by (intro sum.cong) auto
  moreover have "(\<Sum>i<n. h i) = h j + (\<Sum>i\<in>{..<n} - {j}. h i)" for h :: "nat \<Rightarrow> nat"
    using assms by (intro sum.remove) auto
  ultimately show ?thesis by (simp only: fun_upd_same)
qed

lemma work_left_step:
  assumes "srv_step W s s'" and I: "srv_inv W maxSize n m s" and "fits W maxSize"
  shows "work_left W n s' < work_left W n s"
  using assms(1)
proof cases
  case (srv_accept p)
  note e = accept_effect[OF srv_accept(3)]
  note nt = srv_invD(3)[OF I] and le = srv_invD(4)[OF I]
  have "(\<Sum>i<n. worker_weight (workers p i)) \<le> Suc (\<Sum>i<n. worker_weight (workers (pl s) i))"
    using e(4)
  proof (elim disjE exE conjE)
    fix j assume "j < nr_threads (pl s)" "workers (pl s) j = W_Waiting" "workers p = (workers (pl s))(j := W_Woken)"
    then show ?thesis using sum_fun_upd[of j n worker_weight "workers (pl s)" W_Woken] nt by simp
  qed simp
  moreover have "main_weight (main_th p) \<le> Suc (main_weight (main_th (pl s)))" using e(1) by simp
  ultimately show ?thesis using srv_accept(1,2) le by (simp add: work_left_def)
next
  case (srv_full p)
  note e = full_effect[OF srv_full(3)]
  have "main_weight (main_th p) < main_weight (main_th (pl s))" using e(1,4) by auto
  then show ?thesis using srv_full(1) e(3) by (simp add: work_left_def)
next
  case (srv_take i fd p)
  note ne = srv_invD(2)[OF I] and nt = srv_invD(3)[OF I] and x = srv_invD(1)[OF I]
  from pstep_inv[OF srv_take(2) x] obtain ys where "map int [popped s..<pushed s] = fd # ys" by auto
  then have lt: "popped s < pushed s" by (cases "popped s < pushed s") auto
  note e = take_effect[OF srv_take(2) ne]
  have "worker_weight (workers (pl s) i) = 1" using e(4) by auto
  then have "(\<Sum>j<n. worker_weight (workers p j)) = Suc (\<Sum>j<n. worker_weight (workers (pl s) j))"
    using sum_fun_upd[of i n worker_weight "workers (pl s)" "W_Serving fd"] e(2,3) nt by simp
  moreover have "main_weight (main_th p) \<le> 1" by (cases "main_th p") auto
  ultimately show ?thesis using srv_take(1) lt by (simp add: work_left_def)
next
  case (srv_nothing i p)
  note ne = srv_invD(2)[OF I] and nt = srv_invD(3)[OF I]
  note e = nothing_effect[OF srv_nothing(2) ne]
  have "worker_weight (workers (pl s) i) = 1" using e(4) by auto
  then have "(\<Sum>j<n. worker_weight (workers p j)) < (\<Sum>j<n. worker_weight (workers (pl s) j))"
    using sum_fun_upd[of i n worker_weight "workers (pl s)" W_Waiting] e(2,3) nt by simp
  then show ?thesis using srv_nothing(1) e(5) by (simp add: work_left_def)
next
  case (srv_serve i fd w)
  note nt = srv_invD(3)[OF I]
  then have k: "nat fd < njobs W" using I srv_serve(2,3) by (fastforce simp: srv_inv_def)
  from calm_progress[OF srv_invD(6,7)[OF I] k assms(3)] srv_serve(5) obtain h u where
    u: "w = (set_handler (nat fd) h (wk s))\<lparr>sh := u\<rparr>" "phase_rank (pc h) \<le> phase_rank (pc (hs (wk s) (nat fd))) - 1"
    by (auto simp: good_step_def)
  have "0 < phase_rank (pc (hs (wk s) (nat fd)))" using srv_serve(4) by (cases "pc (hs (wk s) (nat fd))") auto
  then have "phase_rank (pc h) < phase_rank (pc (hs (wk s) (nat fd)))" using u(2) by simp
  then have "(\<Sum>k<njobs W. phase_rank (pc (hs w k))) < (\<Sum>k<njobs W. phase_rank (pc (hs (wk s) k)))"
    using sum_fun_upd[OF k, of "\<lambda>h. phase_rank (pc h)" "hs (wk s)" h] u(1) by simp
  then show ?thesis using srv_serve(1) by (simp add: work_left_def)
next
  case (srv_finish i fd p)
  note nt = srv_invD(3)[OF I]
  note e = finish_effect[OF srv_finish(4)]
  have "(\<Sum>j<n. worker_weight (workers p j)) < (\<Sum>j<n. worker_weight (workers (pl s) j))"
    using sum_fun_upd[of i n worker_weight "workers (pl s)" W_Top] e srv_finish(2) nt by simp
  then show ?thesis using srv_finish(1) e(1) by (simp add: work_left_def)
qed

section \<open>The server does not stop early\<close>

lemma main_enabled:
  assumes "pool_inv n m s xs" and "main_th s = M_Idle \<or> main_th s = M_Woken fd"
  shows "\<exists>s'. pstep s (Accept fd) s' \<or> pstep s (Full fd) s'"
proof -
  let ?w = "if \<exists>j<nr_threads s. workers s j = W_Waiting then Some (SOME j. j < nr_threads s \<and> workers s j = W_Waiting) else None"
  obtain k where k: "conn_abs m k (connection_requests s) xs" using assms(1) by (auto simp: pool_inv_def)
  from pushConnection_abs[OF k, of fd] obtain q where "pushConnection (connection_requests s) fd = Some (length xs < m, q)"
    by blast
  moreover have "signal_work ?w u \<noteq> None" if "workers u = workers s" "nr_threads u = nr_threads s" for u
    using someI_ex[of "\<lambda>j. j < nr_threads s \<and> workers s j = W_Waiting"] that by (auto simp: signal_work_def)
  ultimately have "server_request fd ?w s \<noteq> None" by (auto simp: server_request_def Let_def)
  then obtain r where r: "server_request fd ?w s = Some r" by blast
  with server_request_inv(1)[OF assms, of ?w] obtain b s' where "r = Inr (b, s')" by (cases r) auto
  with r have "server_request fd ?w s = Some (Inr (b, s'))" by simp
  with pstep.accept[OF assms(2), of ?w s'] pstep.full[OF assms(2), of ?w s'] show ?thesis by (cases b) auto
qed

lemma awake_enabled:
  assumes I: "srv_inv W maxSize n m s" and "fits W maxSize" and i: "i < n" "workers (pl s) i \<noteq> W_Waiting"
  shows "\<exists>s'. srv_step W s s'"
proof -
  note x = srv_invD(1)[OF I] and nt = srv_invD(3)[OF I]
  have nd: "workers (pl s) i \<noteq> W_Done" using I x i(1) by (auto simp: srv_inv_def pool_inv_def)
  show ?thesis
  proof (cases "\<exists>fd. workers (pl s) i = W_Serving fd")
    case True
    then obtain fd where fd: "workers (pl s) i = W_Serving fd" by blast
    show ?thesis
    proof (cases "pc (hs (wk s) (nat fd)) = P_return")
      case True
      have "pstep (pl s) (Finish i) ((pl s)\<lparr>workers := (workers (pl s))(i := W_Top)\<rparr>)"
        using pstep.finish[OF _ fd] i(1) nt by simp
      with srv_finish[OF fd True] show ?thesis by blast
    next
      case False
      have k: "nat fd < njobs W" using I i(1) fd by (fastforce simp: srv_inv_def)
      from calm_progress[OF srv_invD(6,7)[OF I] k assms(2)] obtain w where "worker_step W (nat fd) (wk s) = Some (Inr w)"
        by (auto simp: good_step_def)
      with srv_serve[OF _ fd False] i(1) nt show ?thesis by blast
    qed
  next
    case False
    from worker_enabled[OF x i nd] obtain l p where p: "pstep (pl s) l p" "l \<in> {Nothing i, Finish i} \<union> range (Take i)" by blast
    have "l \<noteq> Finish i" using p(1) False finish_effect(3) by blast
    with p srv_nothing srv_take show ?thesis by blast
  qed
qed

lemma stuck_answered:
  assumes I: "srv_inv W maxSize n m s" and "fits W maxSize" and "0 < n" and "0 < m" and stuck: "\<And>s'. \<not> srv_step W s s'"
  shows "pushed s = njobs W \<and> popped s = njobs W \<and> (\<forall>k<njobs W. pc (hs (wk s) k) = P_return)"
proof -
  note x = srv_invD(1)[OF I] and ne = srv_invD(2)[OF I] and le = srv_invD(4,5)[OF I]
  have w: "workers (pl s) i = W_Waiting" if "i < n" for i using awake_enabled[OF I assms(2) that] stuck by blast
  then have q: "map int [popped s..<pushed s] = []" using x assms(3) by (auto simp: pool_inv_def)
  then have eq: "popped s = pushed s" using le(1) by auto
  have full: "pushed s = njobs W"
  proof (rule ccontr)
    assume "pushed s \<noteq> njobs W"
    then have lt: "pushed s < njobs W" using le(2) by simp
    have "main_th (pl s) \<noteq> M_Waiting fd" for fd using x q assms(4) by (auto simp: pool_inv_def)
    moreover have "main_th (pl s) \<notin> insert M_Exited (range M_Joining)" using x ne by (simp add: pool_inv_def)
    ultimately have "main_th (pl s) = M_Idle \<or> main_th (pl s) = M_Woken (int (pushed s))"
      using I by (cases "main_th (pl s)") (auto simp: srv_inv_def)
    from main_enabled[OF x this] srv_accept[OF lt] srv_full[OF lt] stuck show False by blast
  qed
  moreover have "pc (hs (wk s) k) = P_return" if "k < njobs W" for k
    using I that eq full w by (fastforce simp: srv_inv_def)
  ultimately show ?thesis using eq by simp
qed

section \<open>Properties\<close>

lemma srv_inv_reach:
  assumes "inj_on (mem W) {..<njobs W}" "disk_ok W" "fits W maxSize"
  shows "(srv_step W ^^ k) s s' \<Longrightarrow> srv_inv W maxSize n m s \<Longrightarrow>
    srv_inv W maxSize n m s' \<and> k + work_left W n s' \<le> work_left W n s"
proof (induction k arbitrary: s')
  case (Suc k)
  then obtain u where u: "(srv_step W ^^ k) s u" "srv_step W u s'" by auto
  with Suc have i: "srv_inv W maxSize n m u" "k + work_left W n u \<le> work_left W n s" by blast+
  with srv_inv_step[OF u(2) i(1) assms] work_left_step[OF u(2) i(1) assms(3)] show ?case by simp
qed simp

lemma work_left_start: "work_left W n (server_start W maxSize n m) = 18 * njobs W + n + 1"
  by (simp add: work_left_def server_start_def server_init_def workers_start_def)

lemma srv_runs_to_end:
  assumes "srv_inv W maxSize n m s" and W: "inj_on (mem W) {..<njobs W}" "disk_ok W" "fits W maxSize"
  shows "\<exists>k s'. (srv_step W ^^ k) s s' \<and> (\<nexists>s''. srv_step W s' s'')"
  using assms(1)
proof (induction "work_left W n s" arbitrary: s rule: less_induct)
  case less
  show ?case
  proof (cases "\<exists>s'. srv_step W s s'")
    case True
    then obtain u where u: "srv_step W s u" by blast
    from less.hyps[OF work_left_step[OF u less.prems W(3)] srv_inv_step[OF u less.prems W]]
    obtain k s' where "(srv_step W ^^ k) u s'" "\<nexists>s''. srv_step W s' s''" by blast
    with relpowp_Suc_I2[of "srv_step W", OF u] show ?thesis by blast
  next
    case False
    then show ?thesis by (intro exI[of _ 0] exI[of _ s]) simp
  qed
qed



end
