(* ===== verification/EvictWait.thy ===== *)
theory EvictWait
  imports Main
begin

text \<open>
  How \<open>remove_from_cache\<close> waits for a file that is being sent, and how a handler that has sent the file
  wakes it up (webserver/server_thread.c). Every entry of the list of files being sent has a mutex and
  a condition variable of its own. The evicting thread looks an entry up under \<open>inflight_access\<close> and then
  waits under the mutex of the entry; a sending thread takes an entry off the list under
  \<open>inflight_access\<close> and then signals under the mutex of the entry. The steps here are the sections under
  one mutex.
\<close>

section \<open>The protocol\<close>

type_synonym entry = nat

text \<open>The evicting thread looks for the file, has found an entry, waits on it, or may free the file; a
  sending thread sends the file, has taken an entry off the list, or has signalled.\<close>

datatype evictor_pc = W_test | W_found entry | W_asleep entry | W_free

datatype sender_pc = S_sending | S_removed entry | S_done

record wait_state =
  flights :: "(entry \<times> string) list"
  evictor_at :: evictor_pc
  senders_at :: "nat \<Rightarrow> sender_pc"

definition first_flight :: "string \<Rightarrow> (entry \<times> string) list \<Rightarrow> entry option" where
  "first_flight name q = map_option fst (List.find (\<lambda>x. snd x = name) q)"

text \<open>The file \<open>f\<close> is to be evicted while \<open>n\<close> handlers send it. A signal wakes the thread that waits on
  the entry; one on which no thread waits has no effect. A thread that wakes up looks for the file again.\<close>

inductive wait_step :: "nat \<Rightarrow> string \<Rightarrow> wait_state \<Rightarrow> wait_state \<Rightarrow> bool" for n f where
  test_none: "evictor_at s = W_test \<Longrightarrow> first_flight f (flights s) = None \<Longrightarrow>
    wait_step n f s (s\<lparr>evictor_at := W_free\<rparr>)"
| test_found: "evictor_at s = W_test \<Longrightarrow> first_flight f (flights s) = Some x \<Longrightarrow>
    wait_step n f s (s\<lparr>evictor_at := W_found x\<rparr>)"
| fall_asleep: "evictor_at s = W_found x \<Longrightarrow> wait_step n f s (s\<lparr>evictor_at := W_asleep x\<rparr>)"
| take_off: "i < n \<Longrightarrow> senders_at s i = S_sending \<Longrightarrow> first_flight f (flights s) = Some x \<Longrightarrow>
    wait_step n f s (s\<lparr>flights := filter (\<lambda>y. fst y \<noteq> x) (flights s), senders_at := (senders_at s)(i := S_removed x)\<rparr>)"
| signal: "i < n \<Longrightarrow> senders_at s i = S_removed x \<Longrightarrow>
    wait_step n f s (s\<lparr>senders_at := (senders_at s)(i := S_done),
      evictor_at := if evictor_at s = W_asleep x then W_test else evictor_at s\<rparr>)"

definition wait_start :: "nat \<Rightarrow> string \<Rightarrow> wait_state" where
  "wait_start n f = \<lparr>flights = map (\<lambda>i. (i, f)) [0..<n], evictor_at = W_test, senders_at = (\<lambda>_. S_sending)\<rparr>"

inductive_cases wait_stepE: "wait_step n f s s'"

section \<open>What can go wrong, and what cannot\<close>

text \<open>
  The signal can come between the test and the wait: then the evicting thread, which holds
  \<open>cache_access\<close>, waits for ever on an entry that nobody will signal again, although the file is not
  being sent any more.
\<close>

lemma wakeup_lost:
  "\<exists>s. (wait_step 1 f)\<^sup>*\<^sup>* (wait_start 1 f) s \<and> evictor_at s = W_asleep 0 \<and> flights s = [] \<and> \<not> (\<exists>s'. wait_step 1 f s s')"
proof -
  let ?s0 = "wait_start 1 f"
  let ?s1 = "?s0\<lparr>evictor_at := W_found 0\<rparr>"
  let ?s2 = "?s1\<lparr>flights := [], senders_at := (senders_at ?s1)(0 := S_removed 0)\<rparr>"
  let ?s3 = "?s2\<lparr>senders_at := (senders_at ?s2)(0 := S_done)\<rparr>"
  let ?s4 = "?s3\<lparr>evictor_at := W_asleep 0\<rparr>"
  have ff: "first_flight f (flights ?s0) = Some 0" by (simp add: wait_start_def first_flight_def)
  have 1: "wait_step 1 f ?s0 ?s1" using test_found[OF _ ff] by (simp add: wait_start_def)
  have "wait_step 1 f ?s1 (?s1\<lparr>flights := filter (\<lambda>y. fst y \<noteq> 0) (flights ?s1), senders_at := (senders_at ?s1)(0 := S_removed 0)\<rparr>)"
    using take_off[of 0 1 ?s1 f 0] ff by (simp add: wait_start_def)
  then have 2: "wait_step 1 f ?s1 ?s2" by (simp add: wait_start_def)
  have 3: "wait_step 1 f ?s2 ?s3" using signal[of 0 1 ?s2 0 f] by (simp add: wait_start_def)
  have 4: "wait_step 1 f ?s3 ?s4" by (rule fall_asleep) simp
  have "(wait_step 1 f)\<^sup>*\<^sup>* ?s0 ?s4" using 1 2 3 4 by (meson converse_rtranclp_into_rtranclp rtranclp.rtrancl_refl)
  moreover have "\<not> (\<exists>s'. wait_step 1 f ?s4 s')" by (auto elim!: wait_stepE)
  ultimately show ?thesis by (intro exI[of _ ?s4]) simp
qed

text \<open>
  When the thread waits before its entry is taken off the list, it is woken: it is not left
  asleep when all handlers have signalled.
\<close>

definition unsignalled :: "nat \<Rightarrow> wait_state \<Rightarrow> entry set" where
  "unsignalled n s = fst ` set (flights s) \<union> {x. \<exists>i<n. senders_at s i = S_removed x}"

lemma unsignalled_step:
  assumes "wait_step n f s s'" and "x \<in> unsignalled n s" and "evictor_at s = W_asleep x"
  shows "evictor_at s' = W_test \<or> evictor_at s' = W_asleep x \<and> x \<in> unsignalled n s'"
  using assms
proof (cases rule: wait_step.cases)
  case (take_off i y)
  have "x \<in> unsignalled n s'"
  proof (cases "x = y")
    case True
    then show ?thesis using take_off(1,2) by (auto simp: unsignalled_def)
  next
    case False
    from assms(2) consider "x \<in> fst ` set (flights s)" | k where "k < n" "k \<noteq> i" "senders_at s k = S_removed x"
      using take_off(3) by (force simp: unsignalled_def)
    then show ?thesis
    proof cases
      case 1
      then show ?thesis using False by (force simp: unsignalled_def take_off(1))
    qed (auto simp: unsignalled_def take_off(1))
  qed
  then show ?thesis using assms(3) take_off(1) by simp
next
  case (signal i y)
  show ?thesis
  proof (cases "y = x")
    case False
    from assms(2) consider "x \<in> fst ` set (flights s)" | k where "k < n" "k \<noteq> i" "senders_at s k = S_removed x"
      using signal(3) False by (force simp: unsignalled_def)
    then have "x \<in> unsignalled n s'" by cases (auto simp: unsignalled_def signal(1))
    then show ?thesis using assms(3) False signal(1) by simp
  qed (use assms(3) signal(1) in simp)
qed (use assms(3) in auto)

lemma asleep_in_time:
  assumes "(wait_step n f)\<^sup>*\<^sup>* s s'" and "evictor_at s = W_asleep x" and "x \<in> fst ` set (flights s)"
    and "\<And>i. i < n \<Longrightarrow> senders_at s' i = S_done" and "x \<notin> fst ` set (flights s')"
  shows "\<exists>t. (wait_step n f)\<^sup>*\<^sup>* s t \<and> (wait_step n f)\<^sup>*\<^sup>* t s' \<and> evictor_at t = W_test"
proof -
  have "x \<in> unsignalled n s" using assms(3) by (simp add: unsignalled_def)
  with assms(1,2) have "(evictor_at s' = W_asleep x \<and> x \<in> unsignalled n s') \<or>
      (\<exists>t. (wait_step n f)\<^sup>*\<^sup>* s t \<and> (wait_step n f)\<^sup>*\<^sup>* t s' \<and> evictor_at t = W_test)"
  proof (induction rule: rtranclp_induct)
    case (step t u)
    show ?case
    proof (cases "evictor_at t = W_asleep x \<and> x \<in> unsignalled n t")
      case True
      with unsignalled_step[OF step(2)] step(1,2) show ?thesis
        by (meson rtranclp.rtrancl_into_rtrancl rtranclp.rtrancl_refl)
    next
      case False
      with step show ?thesis by (meson rtranclp.rtrancl_into_rtrancl)
    qed
  qed simp
  moreover have "x \<notin> unsignalled n s'" using assms(4,5) by (auto simp: unsignalled_def)
  ultimately show ?thesis by blast
qed

end
