(* ===== verification/FileSet.thy ===== *)
theory FileSet
  imports Client
begin

text \<open>
  The program webserver/fileset.c, which creates the files the clients request and the index
  \<open>init_fileset\<close> of client.c reads. The options parsed by popt, the sizes \<open>rand_pareto\<close> gives
  (\<open>sizes i\<close> for file \<open>i\<close>), the numbers \<open>random\<close> gives for the bytes of a file (\<open>rnd i j\<close>),
  the answers of the kernel to the writes (\<open>out i\<close>) and the state of the directory are arguments.
\<close>

section \<open>Creating the files\<close>

definition fmt_05d :: "nat \<Rightarrow> string" where
  "fmt_05d n = replicate (5 - length (fmt_u n)) CHR ''0'' @ fmt_u n"

definition rand_char :: "nat \<Rightarrow> char" where
  "rand_char r = char_of (r mod (0x73 - 0x20) + 0x20)"

text \<open>The loop over the blocks of a file: \<open>pos\<close> bytes were written, \<open>remaining\<close> are left.\<close>

function file_loop :: "(nat \<Rightarrow> nat) \<Rightarrow> nat \<Rightarrow> nat \<Rightarrow> 32 word \<Rightarrow> kern \<Rightarrow> (32 word \<times> kern) io" where
  "file_loop rnd pos remaining cs k =
     (if remaining = 0 then Some (Inr (cs, k))
      else let sz = min remaining 4096; buf = map (\<lambda>j. rand_char (rnd (pos + j))) [0..<sz]
           in bindO (Rio_write buf k) (\<lambda>k. file_loop rnd (pos + sz) (remaining - sz) (cs + csum buf) k))"
  by pat_completeness auto
termination by (relation "measure (\<lambda>(rnd, pos, remaining, cs, k). remaining)") auto

declare file_loop.simps [simp del]

text \<open>The variables of \<open>main\<close>; \<open>created\<close> are the files with what was written to them.\<close>

record gen_state =
  nr_files :: nat
  current_fileset_sz :: int
  cur_size :: int
  idx_buffer :: string
  created :: "(string \<times> string) list"

definition index_line :: "string \<Rightarrow> 32 word \<Rightarrow> int \<Rightarrow> string" where
  "index_line filename cs file_sz = filename @ '' '' @ fmt_u (unat cs) @ '' '' @ fmt_d file_sz @ [CHR 0x0A]"

text \<open>A pass through the loop that creates the files. The name is put together in an array of 10
  bytes, the path in one of 1024 and the index line in one of 4096.\<close>

definition gen_file :: "(nat \<Rightarrow> int) \<Rightarrow> (nat \<Rightarrow> nat \<Rightarrow> nat) \<Rightarrow> (nat \<Rightarrow> kern) \<Rightarrow> string \<Rightarrow> gen_state \<Rightarrow> gen_state io" where
  "gen_file sizes rnd out dir st =
     (let i = nr_files st; name = ''/'' @ fmt_05d i; filename = dir @ name; file_sz = sizes i
      in if 10 \<le> length name \<or> 1024 \<le> length filename then Some (Inl Out_of_bounds)
         else bindO (file_loop (rnd i) 0 (nat file_sz) 0 (out i)) (\<lambda>(cs, k).
                let line = index_line filename cs file_sz; cur = wrap32 (cur_size st + int (length line))
                in if 4096 \<le> length line then Some (Inl Out_of_bounds)
                   else Some (assertR (cur < 4096 * 256 - 1)
                          (Inr \<lparr>nr_files = Suc i, current_fileset_sz = wrap32 (current_fileset_sz st + file_sz),
                                cur_size = cur, idx_buffer = idx_buffer st @ line,
                                created = created st @ [(filename, stream k)]\<rparr>))))"

partial_function (option) gen_loop :: "(nat \<Rightarrow> int) \<Rightarrow> (nat \<Rightarrow> nat \<Rightarrow> nat) \<Rightarrow> (nat \<Rightarrow> kern) \<Rightarrow> string \<Rightarrow> int \<Rightarrow>
    gen_state \<Rightarrow> gen_state io" where
  "gen_loop sizes rnd out dir tot st =
     (if current_fileset_sz st < tot
      then Option.bind (gen_file sizes rnd out dir st) (\<lambda>x.
             case x of Inl e \<Rightarrow> Some (Inl e) | Inr st \<Rightarrow> gen_loop sizes rnd out dir tot st)
      else Some (Inr st))"

text \<open>
  \<open>main\<close>: the directory is cleared of regular files, or created. \<open>entries\<close> is what \<open>readdir\<close>
  lists, with whether \<open>stat\<close> finds a regular file, \<open>None\<close> if the directory cannot be opened;
  \<open>mkdir_ok\<close> says whether \<open>mkdir\<close> succeeds. The result has the names that were removed, the
  final state and the contents of the index file.
\<close>

definition clear_dir :: "string \<Rightarrow> (string \<times> bool) list option \<Rightarrow> bool \<Rightarrow> string list res" where
  "clear_dir dir entries mkdir_ok =
     (case entries of
        Some es \<Rightarrow>
          if \<exists>(nm, _)\<in>set es. 4096 \<le> length (dir @ ''/'' @ nm) then Inl Out_of_bounds
          else Inr (map (\<lambda>(nm, _). dir @ ''/'' @ nm) (filter snd es))
      | None \<Rightarrow> if mkdir_ok then Inr [] else Inl Exit_1)"

definition start_state :: gen_state where
  "start_state = \<lparr>nr_files = 0, current_fileset_sz = 0, cur_size = 0, idx_buffer = [], created = []\<rparr>"

definition fileset_main :: "(nat \<Rightarrow> int) \<Rightarrow> (nat \<Rightarrow> nat \<Rightarrow> nat) \<Rightarrow> (nat \<Rightarrow> kern) \<Rightarrow> kern \<Rightarrow> (string \<times> bool) list option \<Rightarrow> bool \<Rightarrow>
    int \<Rightarrow> int \<Rightarrow> string \<Rightarrow> (string list \<times> gen_state \<times> string) io" where
  "fileset_main sizes rnd out kidx entries mkdir_ok default_file_sz default_nr_files dir =
     (if default_file_sz \<le> 1 \<or> default_nr_files < 1 \<or> 99999 < default_nr_files \<or> 1000 < length dir then Some (Inl Exit_1)
      else case clear_dir dir entries mkdir_ok of
             Inl e \<Rightarrow> Some (Inl e)
           | Inr removed \<Rightarrow>
               let tot = wrap32 (wrap32 (default_file_sz * 4096) * default_nr_files)
               in bindO (gen_loop sizes rnd out dir tot start_state) (\<lambda>st.
                  bindO (Rio_write (fmt_u (nr_files st) @ [CHR 0x0A]) kidx) (\<lambda>k.
                  bindO (Rio_write (idx_buffer st) k) (\<lambda>k. Some (Inr (removed, st, stream k))))))"

section \<open>What is created\<close>

lemma wrap32_small: "- 2147483648 \<le> x \<Longrightarrow> x < 2147483648 \<Longrightarrow> wrap32 x = x"
  by (rule wrap32_id) simp_all

definition file_bytes :: "(nat \<Rightarrow> nat) \<Rightarrow> nat \<Rightarrow> string" where
  "file_bytes rnd n = map (\<lambda>j. rand_char (rnd j)) [0..<n]"

lemma file_loop_spec:
  "enough remaining k \<Longrightarrow>
   \<exists>k'. file_loop rnd pos remaining cs k =
      Some (Inr (cs + csum (map (\<lambda>j. rand_char (rnd j)) [pos..<pos + remaining]), k')) \<and>
     stream k' = stream k @ map (\<lambda>j. rand_char (rnd j)) [pos..<pos + remaining]"
proof (induction rnd pos remaining cs k rule: file_loop.induct)
  case (1 rnd pos remaining cs k)
  show ?case
  proof (cases "remaining = 0")
    case True
    then show ?thesis by (subst file_loop.simps) (simp add: csum_def)
  next
    case False
    define sz where "sz = min remaining 4096"
    let ?f = "\<lambda>j. rand_char (rnd j)"
    define buf where "buf = map (\<lambda>j. rand_char (rnd (pos + j))) [0..<sz]"
    have b: "buf = map ?f [pos..<pos + sz]" unfolding buf_def by (rule nth_equalityI) auto
    have "enough ((remaining - sz) + length buf) k" using "1.prems" by (simp add: buf_def sz_def)
    from Rio_write_ok[OF this] obtain k1 where 2: "Rio_write buf k = Some (Inr k1)" "stream k1 = stream k @ buf" "enough (remaining - sz) k1"
      by blast
    have u: "file_loop rnd pos remaining cs k = file_loop rnd (pos + sz) (remaining - sz) (cs + csum buf) k1"
      using False 2(1) by (subst file_loop.simps) (simp add: sz_def[symmetric] buf_def[symmetric] Let_def)
    have s: "pos + sz + (remaining - sz) = pos + remaining" by (simp add: sz_def)
    then have m: "map ?f [pos..<pos + remaining] = buf @ map ?f [pos + sz..<pos + remaining]"
      unfolding b by (metis add.assoc map_append upt_add_eq_append le_add1)
    from "1.IH"[OF False sz_def buf_def 2(1,3)] obtain k2 where
      "file_loop rnd (pos + sz) (remaining - sz) (cs + csum buf) k1 =
        Some (Inr (cs + csum buf + csum (map ?f [pos + sz..<pos + remaining]), k2))"
      "stream k2 = stream k1 @ map ?f [pos + sz..<pos + remaining]" unfolding s by blast
    then show ?thesis unfolding u m csum_append using 2(2) by (simp add: add.assoc)
  qed
qed


definition set_path :: "string \<Rightarrow> nat \<Rightarrow> string" where
  "set_path dir i = dir @ ''/'' @ fmt_05d i"

definition set_line :: "(nat \<Rightarrow> int) \<Rightarrow> (nat \<Rightarrow> nat \<Rightarrow> nat) \<Rightarrow> string \<Rightarrow> nat \<Rightarrow> string" where
  "set_line sizes rnd dir i = index_line (set_path dir i) (csum (file_bytes (rnd i) (nat (sizes i)))) (sizes i)"

text \<open>The state when \<open>n\<close> files have been created.\<close>

definition gen_after :: "(nat \<Rightarrow> int) \<Rightarrow> (nat \<Rightarrow> nat \<Rightarrow> nat) \<Rightarrow> string \<Rightarrow> nat \<Rightarrow> gen_state" where
  "gen_after sizes rnd dir n =
     \<lparr>nr_files = n, current_fileset_sz = (\<Sum>i<n. sizes i), cur_size = int (\<Sum>i<n. length (set_line sizes rnd dir i)),
      idx_buffer = concat (map (set_line sizes rnd dir) [0..<n]),
      created = map (\<lambda>i. (set_path dir i, file_bytes (rnd i) (nat (sizes i)))) [0..<n]\<rparr>"

lemma fmt_05d_length: "i < 100000 \<Longrightarrow> length (fmt_05d i) = 5"
  using fmt_u_length[of 5 i] by (simp add: fmt_05d_def)

lemma set_line_length:
  assumes "i < 100000" and "0 \<le> sizes i" and "sizes i < 2 ^ 31"
  shows "length (set_line sizes rnd dir i) \<le> length dir + 29"
proof -
  have "length (fmt_d (sizes i)) \<le> 10" using assms(2,3) by (auto simp: fmt_d_def intro!: fmt_u_length)
  then show ?thesis using fmt_u_word[of "csum (file_bytes (rnd i) (nat (sizes i)))"] fmt_05d_length[OF assms(1)]
    by (simp add: set_line_def index_line_def set_path_def)
qed

text \<open>
  The conditions under which the program runs through: sizes as \<open>rand_pareto\<close> gives them, no
  overflow of the sizes, room in the index buffer, and writes that succeed. \<open>N\<close> blocks of 4096
  bytes are asked for.
\<close>

definition gen_ok :: "(nat \<Rightarrow> int) \<Rightarrow> (nat \<Rightarrow> kern) \<Rightarrow> string \<Rightarrow> nat \<Rightarrow> bool" where
  "gen_ok sizes out dir N \<longleftrightarrow>
     N * (length dir + 29) < 4096 * 256 - 1 \<and> length dir \<le> 1000 \<and>
     (\<forall>i<N. 4096 \<le> sizes i \<and> sizes i < 2 ^ 31 - 4096 * int N \<and> stream (out i) = [] \<and> enough (nat (sizes i)) (out i))"

lemma gen_ok_bounds:
  assumes "gen_ok sizes out dir N"
  shows "N < 100000" and "n \<le> N \<Longrightarrow> (\<Sum>i<n. length (set_line sizes rnd dir i)) \<le> n * (length dir + 29)"
    and "n \<le> N \<Longrightarrow> 4096 * int n \<le> (\<Sum>i<n. sizes i)"
proof -
  have "N * 29 \<le> N * (length dir + 29)" by (rule mult_le_mono2) simp
  moreover have "N * (length dir + 29) < 4096 * 256 - 1" using assms by (simp add: gen_ok_def)
  ultimately show N: "N < 100000" by linarith
  show "(\<Sum>i<n. length (set_line sizes rnd dir i)) \<le> n * (length dir + 29)" if "n \<le> N"
  proof -
    have "length (set_line sizes rnd dir i) \<le> length dir + 29" if "i < n" for i
    proof -
      from that \<open>n \<le> N\<close> have "i < N" by simp
      with assms have "4096 \<le> sizes i" "sizes i < 2 ^ 31 - 4096 * int N" by (simp_all add: gen_ok_def)
      with set_line_length[of i sizes rnd dir] N \<open>i < N\<close> show ?thesis by simp
    qed
    then show ?thesis using sum_bounded_above[of "{..<n}" "\<lambda>i. length (set_line sizes rnd dir i)" "length dir + 29"] by simp
  qed
  show "4096 * int n \<le> (\<Sum>i<n. sizes i)" if "n \<le> N"
    using sum_bounded_below[of "{..<n}" 4096 sizes] assms that by (auto simp: gen_ok_def mult.commute)
qed

lemma gen_file_step:
  assumes "gen_ok sizes out dir N" and "n < N" and "(\<Sum>i<n. sizes i) < 4096 * int N"
  shows "gen_file sizes rnd out dir (gen_after sizes rnd dir n) = Some (Inr (gen_after sizes rnd dir (Suc n)))"
proof -
  note b = gen_ok_bounds[OF assms(1)]
  have o: "4096 \<le> sizes n" "sizes n < 2 ^ 31 - 4096 * int N" "stream (out n) = []" "enough (nat (sizes n)) (out n)" "length dir \<le> 1000"
    using assms(1,2) by (simp_all add: gen_ok_def)
  have n: "n < 100000" using assms(2) b(1) by simp
  let ?l = "set_line sizes rnd dir"
  from file_loop_spec[OF o(4), of "rnd n" 0 0] o(3) obtain k where
    k: "file_loop (rnd n) 0 (nat (sizes n)) 0 (out n) = Some (Inr (csum (file_bytes (rnd n) (nat (sizes n))), k))"
      "stream k = file_bytes (rnd n) (nat (sizes n))" by (auto simp: file_bytes_def)
  have ll: "length (?l n) < 4096" using set_line_length[OF n, of sizes rnd dir] o by simp
  have "(\<Sum>i<Suc n. length (?l i)) \<le> Suc n * (length dir + 29)" using b(2)[of "Suc n" rnd] assms(2) by simp
  also have "\<dots> \<le> N * (length dir + 29)" using assms(2) by (intro mult_le_mono1) simp
  finally have c: "(\<Sum>i<Suc n. length (?l i)) < 4096 * 256 - 1" using assms(1) by (simp add: gen_ok_def)
  then have "int (\<Sum>i<Suc n. length (?l i)) < int (4096 * 256 - 1)" by (subst of_nat_less_iff)
  then have c': "int (\<Sum>i<n. length (?l i)) + int (length (?l n)) < 4096 * 256 - 1" by simp
  then have w: "wrap32 (int (\<Sum>i<n. length (?l i)) + int (length (?l n))) = int (\<Sum>i<n. length (?l i)) + int (length (?l n))"
    by (intro wrap32_small) linarith+
  have "0 \<le> (\<Sum>i<n. sizes i)" using b(3)[of n] assms(2) by simp
  then have v: "wrap32 ((\<Sum>i<n. sizes i) + sizes n) = (\<Sum>i<n. sizes i) + sizes n"
    using o(1,2) assms(3) by (intro wrap32_id) simp_all
  have f: "length (''/'' @ fmt_05d n) = 6" "length (dir @ ''/'' @ fmt_05d n) < 1024" using fmt_05d_length[OF n] o(5) by simp_all
  have l: "index_line (dir @ ''/'' @ fmt_05d n) (csum (file_bytes (rnd n) (nat (sizes n)))) (sizes n) = ?l n"
    by (simp add: set_line_def set_path_def)
  have "gen_file sizes rnd out dir (gen_after sizes rnd dir n) =
     Some (assertR (int (\<Sum>i<n. length (?l i)) + int (length (?l n)) < 4096 * 256 - 1)
        (Inr \<lparr>nr_files = Suc n, current_fileset_sz = (\<Sum>i<n. sizes i) + sizes n,
          cur_size = int (\<Sum>i<n. length (?l i)) + int (length (?l n)), idx_buffer = concat (map ?l [0..<n]) @ ?l n,
          created = map (\<lambda>i. (set_path dir i, file_bytes (rnd i) (nat (sizes i)))) [0..<n] @ [(dir @ ''/'' @ fmt_05d n, stream k)]\<rparr>))"
    using f ll unfolding gen_file_def gen_after_def Let_def gen_state.select_convs k bindO_simps prod.case l w v
    by simp
  also have "\<dots> = Some (Inr (gen_after sizes rnd dir (Suc n)))"
    using c' k(2) by (simp add: gen_after_def set_path_def)
  finally show ?thesis .
qed


lemma gen_loop_spec:
  "gen_ok sizes out dir N \<Longrightarrow> n \<le> N \<Longrightarrow> \<forall>m<n. (\<Sum>i<m. sizes i) < 4096 * int N \<Longrightarrow>
   \<exists>n'\<le>N. gen_loop sizes rnd out dir (4096 * int N) (gen_after sizes rnd dir n) = Some (Inr (gen_after sizes rnd dir n')) \<and>
     4096 * int N \<le> (\<Sum>i<n'. sizes i) \<and> (\<forall>m<n'. (\<Sum>i<m. sizes i) < 4096 * int N)"
proof (induction "N - n" arbitrary: n)
  case 0
  then have "n = N" by simp
  with gen_ok_bounds(3)[OF "0.prems"(1), of N] have "4096 * int N \<le> (\<Sum>i<n. sizes i)" by simp
  with "0.prems" show ?case by (subst gen_loop.simps) (auto simp: gen_after_def)
next
  case (Suc x)
  show ?case
  proof (cases "(\<Sum>i<n. sizes i) < 4096 * int N")
    case True
    have n: "n < N" "x = N - Suc n" using Suc.hyps(2) by simp_all
    have "\<forall>m<Suc n. (\<Sum>i<m. sizes i) < 4096 * int N" using Suc.prems(3) True by (auto simp: less_Suc_eq)
    from Suc.hyps(1)[OF n(2) Suc.prems(1) _ this] n(1) gen_file_step[OF Suc.prems(1) n(1) True, of rnd] True show ?thesis
      by (subst gen_loop.simps) (simp add: gen_after_def[of sizes rnd dir n])
  next
    case False
    with Suc.prems show ?thesis by (subst gen_loop.simps) (auto simp: gen_after_def)
  qed
qed

text \<open>The whole program.\<close>

lemma fileset_main_spec:
  assumes "1 < sz" and "1 \<le> nr" and "nr \<le> 99999" and "gen_ok sizes out dir (nat (sz * nr))"
    and "clear_dir dir entries mkdir_ok = Inr removed" and "stream kidx = []" and "enough (4096 * 257) kidx"
  shows "\<exists>n. fileset_main sizes rnd out kidx entries mkdir_ok sz nr dir =
      Some (Inr (removed, gen_after sizes rnd dir n, fmt_u n @ [CHR 0x0A] @ concat (map (set_line sizes rnd dir) [0..<n]))) \<and>
    0 < n \<and> n \<le> nat (sz * nr) \<and> sz * nr * 4096 \<le> (\<Sum>i<n. sizes i) \<and> (\<forall>m<n. (\<Sum>i<m. sizes i) < sz * nr * 4096)"
proof -
  let ?N = "nat (sz * nr)" and ?l = "set_line sizes rnd dir"
  note b = gen_ok_bounds[OF assms(4)]
  have pos: "0 < sz * nr" using assms(1,2) by simp
  have "sz * 1 \<le> sz * nr" using assms(1,2) by (intro mult_left_mono) simp_all
  moreover have p: "sz * nr < 100000" using b(1) pos by simp
  ultimately have s: "sz < 100000" by linarith
  have w: "wrap32 (wrap32 (sz * 4096) * nr) = 4096 * int ?N"
  proof -
    have "wrap32 (sz * 4096) = sz * 4096" using s assms(1) by (intro wrap32_id) simp_all
    moreover have "wrap32 (sz * nr * 4096) = sz * nr * 4096" using p pos by (intro wrap32_small) linarith+
    ultimately show ?thesis using pos by (simp add: ac_simps)
  qed
  have st: "start_state = gen_after sizes rnd dir 0" by (simp add: start_state_def gen_after_def)
  from gen_loop_spec[OF assms(4), of 0 rnd] obtain n where
    n: "n \<le> ?N" "gen_loop sizes rnd out dir (4096 * int ?N) (gen_after sizes rnd dir 0) = Some (Inr (gen_after sizes rnd dir n))"
      "4096 * int ?N \<le> (\<Sum>i<n. sizes i)" "\<forall>m<n. (\<Sum>i<m. sizes i) < 4096 * int ?N" by auto
  have n0: "0 < n" using n(3) pos by (cases n) (simp_all add: mult.commute)
  have "n * (length dir + 29) \<le> ?N * (length dir + 29)" using n(1) by (rule mult_le_mono1)
  moreover have "?N * (length dir + 29) < 4096 * 256 - 1" using assms(4) by (simp add: gen_ok_def)
  ultimately have i: "(\<Sum>i<n. length (?l i)) < 4096 * 256" using b(2)[OF n(1), of rnd] by linarith
  have il: "length (concat (map ?l [0..<n])) = (\<Sum>i<n. length (?l i))"
    by (simp add: length_concat interv_sum_list_conv_sum_set_nat atLeast0LessThan comp_def)
  have "length (fmt_u n) \<le> 5" using n(1) b(1) by (intro fmt_u_length) simp_all
  with assms(7) i have e: "enough (length (concat (map ?l [0..<n])) + length (fmt_u n @ [CHR 0x0A])) kidx"
    unfolding il by (simp add: enough_def)
  from Rio_write_ok[OF e] obtain k1 where
    1: "Rio_write (fmt_u n @ [CHR 0x0A]) kidx = Some (Inr k1)" "stream k1 = stream kidx @ fmt_u n @ [CHR 0x0A]"
      "enough (0 + length (concat (map ?l [0..<n]))) k1" by auto
  from Rio_write_ok[OF 1(3)] obtain k2 where
    2: "Rio_write (concat (map ?l [0..<n])) k1 = Some (Inr k2)" "stream k2 = stream k1 @ concat (map ?l [0..<n])" by blast
  have d: "length dir \<le> 1000" using assms(4) by (simp add: gen_ok_def)
  have a: "nr_files (gen_after sizes rnd dir n) = n" "idx_buffer (gen_after sizes rnd dir n) = concat (map ?l [0..<n])"
    by (simp_all add: gen_after_def)
  have "fileset_main sizes rnd out kidx entries mkdir_ok sz nr dir =
      Some (Inr (removed, gen_after sizes rnd dir n, fmt_u n @ [CHR 0x0A] @ concat (map ?l [0..<n])))"
    using assms(1-3,5,6) d 1(1,2) 2 n(2) a w st by (simp add: fileset_main_def Let_def)
  with n n0 pos show ?thesis by (auto simp: mult.commute)
qed


section \<open>Reading the index\<close>

lemma fmt_d_nat: "0 \<le> i \<Longrightarrow> fmt_d i = fmt_u (nat i)"
  by (simp add: fmt_d_def)

lemma atoi_fmt: "n < 2 ^ 31 \<Longrightarrow> atoi (fmt_u n @ [CHR 0x0A]) = int n"
proof -
  assume n: "n < 2 ^ 31"
  have "scan_num ([] @ fmt_u n @ [CHR 0x0A]) = Some (int n, [CHR 0x0A])"
    by (rule scan_num_fmt) (simp_all add: isdigit_def)
  then have "atoi (fmt_u n @ [CHR 0x0A]) = wrap32 (int n)"
    using n by (auto simp: scan_num_def atoi_def Let_def split: if_splits)
  then show ?thesis using n by (simp add: wrap32_id)
qed

lemma scan_index_line:
  assumes "plain_name nm" and "0 \<le> n" and "n < 2 ^ 31"
  shows "scan_fileinfo (index_line nm cs n) = \<lparr>fi_name = Some nm, fi_csum = Some cs, fi_len = Some n\<rparr>"
proof -
  let ?r2 = "'' '' @ fmt_u (nat n) @ [CHR 0x0A]" and ?r1 = "'' '' @ fmt_u (unat cs) @ '' '' @ fmt_u (nat n) @ [CHR 0x0A]"
  have nm: "nm \<noteq> []" "\<forall>c\<in>set nm. \<not> isspace c" "CHR 0x00 \<notin> set nm" using assms(1) by (auto simp: plain_name_def)
  have sp: "isspace (CHR '' '')" by (simp add: isspace_def)
  have l: "index_line nm cs n = nm @ ?r1" by (simp add: index_line_def fmt_d_nat assms(2))
  have c: "cstr (index_line nm cs n) = nm @ ?r1"
    unfolding l using nm(3) digits_no_ctrl[of "CHR 0x00"] by (intro cstr_id) auto
  have w: "dropWhile isspace (nm @ ?r1) = nm @ ?r1" "takeWhile (\<lambda>c. \<not> isspace c) (nm @ ?r1) = nm"
    "dropWhile (\<lambda>c. \<not> isspace c) (nm @ ?r1) = ?r1"
    using dropWhile_space_word[OF nm(1,2)] takeWhile_word[OF nm(2) sp] by simp_all
  have u: "scan_u ?r1 = Some (cs, ?r2)" using scan_u_fmt[of ?r2 "'' ''" cs] sp by (simp add: isdigit_def)
  have "nat n < 2 ^ 31" using assms(3) by simp
  from scan_d_fmt[OF this, of "[CHR 0x0A]" "'' ''"] sp assms(2) have d: "scan_d ?r2 = Some (n, [CHR 0x0A])"
    by (simp add: isdigit_def)
  show ?thesis unfolding scan_fileinfo_def c Let_def w u using nm(1) d by simp
qed

lemma fileset_loop_lines:
  "header_lines ls \<Longrightarrow> enough (m + Suc (length ls) * Suc MAXLINE) k \<Longrightarrow> pending rp k = concat ls \<Longrightarrow>
   0 < nr \<Longrightarrow> length fs + length ls = nat nr \<Longrightarrow>
   fileset_loop nr fs rp k = Some (Inr (nr, fs @ map scan_fileinfo ls))"
proof (induction ls arbitrary: fs rp k)
  case Nil
  from readline_step[of m k rp] Nil obtain rp' k' where "Rio_readlineb rp k = Some (Inr (None, rp', k'))" by auto
  with Nil show ?case by (subst fileset_loop.simps) simp
next
  case (Cons l ls)
  have l: "length l < MAXLINE" "l \<noteq> []" "last l = CHR 0x0A" "CHR 0x0A \<notin> set (butlast l)" "header_lines ls"
    using Cons.prems(1) by (simp_all add: header_lines_def)
  have "\<exists>rp' k'. Rio_readlineb rp k = Some (Inr (Some l, rp', k')) \<and> pending rp' k' = concat ls \<and>
      enough (m + Suc (length ls) * Suc MAXLINE) k'"
    using Cons.prems l by (intro Rio_readlineb_ok) (auto simp: algebra_simps)
  then obtain rp1 k1 where 1: "Rio_readlineb rp k = Some (Inr (Some l, rp1, k1))" "pending rp1 k1 = concat ls"
    "enough (m + Suc (length ls) * Suc MAXLINE) k1" by blast
  have "fileset_loop nr (fs @ [scan_fileinfo l]) rp1 k1 = Some (Inr (nr, (fs @ [scan_fileinfo l]) @ map scan_fileinfo ls))"
    using Cons.prems by (intro Cons.IH[OF l(5) 1(3,2)]) simp_all
  with 1(1) Cons.prems(4,5) show ?case by (subst fileset_loop.simps) simp
qed

lemma init_fileset_lines:
  assumes "stream k = fmt_u n @ [CHR 0x0A] @ concat ls" and "length ls = n" and "0 < n" and "n < 100000"
    and "header_lines ls" and "enough (Suc (Suc n) * Suc MAXLINE) k"
  shows "init_fileset fd k = Some (Inr (int n, map scan_fileinfo ls))"
proof -
  let ?l = "fmt_u n @ [CHR 0x0A]"
  have f: "length (fmt_u n) \<le> 5" using assms(4) by (intro fmt_u_length) simp_all
  have nl: "CHR 0x0A \<notin> set (fmt_u n)" "CHR 0x00 \<notin> set (fmt_u n)" using digits_no_ctrl by blast+
  have "\<exists>rp' k'. Rio_readlineb (rio_init fd) k = Some (Inr (Some ?l, rp', k')) \<and> pending rp' k' = concat ls \<and>
      enough (0 + Suc (length ls) * Suc MAXLINE) k'"
    using assms f nl by (intro Rio_readlineb_ok) (auto simp: pending_def rio_init_def MAXLINE_def butlast_append)
  then obtain rp1 k1 where 1: "Rio_readlineb (rio_init fd) k = Some (Inr (Some ?l, rp1, k1))" "pending rp1 k1 = concat ls"
    "enough (0 + Suc (length ls) * Suc MAXLINE) k1" by blast
  have "cstr ?l = ?l" using nl by (intro cstr_id) auto
  then have a: "atoi (cstr ?l) = int n" using atoi_fmt[of n] assms(4) by simp
  have "fileset_loop (int n) [] rp1 k1 = Some (Inr (int n, [] @ map scan_fileinfo ls))"
    using assms(2,3) by (intro fileset_loop_lines[OF assms(5) 1(3,2)]) simp_all
  with 1(1) a assms(3) show ?thesis unfolding init_fileset_def by (subst fileset_loop.simps) simp
qed

lemma set_line_header:
  assumes "i < 100000" and "0 \<le> sizes i" and "sizes i < 2 ^ 31" and "CHR 0x0A \<notin> set dir" and "length dir \<le> 1000"
  shows "header_lines [set_line sizes rnd dir i]"
proof -
  have "CHR 0x0A \<notin> set (set_path dir i)"
    using assms(4) digits_no_ctrl by (auto simp: set_path_def fmt_05d_def)
  moreover have "CHR 0x0A \<notin> set (fmt_u j)" for j using digits_no_ctrl by blast
  ultimately show ?thesis
    using set_line_length[of i sizes rnd dir] assms fmt_u_ne
    by (auto simp: header_lines_def set_line_def index_line_def butlast_append fmt_d_nat MAXLINE_def set_path_def)
qed


text \<open>The file set in memory: what the client knows of the files that were created.\<close>

definition set_info :: "string \<times> string \<Rightarrow> fileinfo" where
  "set_info = (\<lambda>(nm, content). \<lparr>fi_name = Some nm, fi_csum = Some (csum content), fi_len = Some (int (length content))\<rparr>)"

lemma set_path_plain: "plain_name dir \<Longrightarrow> plain_name (set_path dir i)"
proof -
  assume d: "plain_name dir"
  have "\<not> isspace c \<and> c \<noteq> CHR 0x00" if "c \<in> set (fmt_05d i)" for c
    using that digit_chars[of c] isdigit_fmt_u[of c i] digits_no_ctrl[of c i]
    by (auto simp: fmt_05d_def isspace_def split: if_splits)
  with d show ?thesis by (auto simp: plain_name_def set_path_def isspace_def)
qed

lemma scan_set_line:
  assumes "plain_name dir" and "0 \<le> sizes i" and "sizes i < 2 ^ 31"
  shows "scan_fileinfo (set_line sizes rnd dir i) = set_info (set_path dir i, file_bytes (rnd i) (nat (sizes i)))"
  using scan_index_line[OF set_path_plain[OF assms(1)] assms(2,3)] assms(2)
  by (simp add: set_line_def set_info_def file_bytes_def)

text \<open>
  C24. Generating a file set and reading its index. With a directory name without blanks and sizes
  that do not overflow, \<open>fileset\<close> ends; the files it created together are at least as long as was
  asked for, without the last one they are not; and \<open>init_fileset\<close> of the client, on the index that was
  written, passes all its assertions and has for every file, in order, its path, its length and the
  checksum of its bytes.
\<close>

theorem fileset_index_roundtrip:
  assumes "1 < sz" and "1 \<le> nr" and "nr \<le> 99999" and "gen_ok sizes out dir (nat (sz * nr))" and "plain_name dir"
    and "clear_dir dir entries mkdir_ok = Inr removed" and "stream kidx = []" and "enough (4096 * 257) kidx"
  shows "\<exists>st idx. fileset_main sizes rnd out kidx entries mkdir_ok sz nr dir = Some (Inr (removed, st, idx)) \<and>
    sz * nr * 4096 \<le> (\<Sum>(nm, content)\<leftarrow>created st. int (length content)) \<and>
    (\<Sum>(nm, content)\<leftarrow>butlast (created st). int (length content)) < sz * nr * 4096 \<and>
    map fst (created st) = map (set_path dir) [0..<nr_files st] \<and>
    (\<forall>k. stream k = idx \<longrightarrow> enough (Suc (Suc (nr_files st)) * Suc MAXLINE) k \<longrightarrow>
       init_fileset fd k = Some (Inr (int (nr_files st), map set_info (created st))))"
proof -
  let ?l = "set_line sizes rnd dir" and ?g = "gen_after sizes rnd dir"
  from fileset_main_spec[OF assms(1-4,6-8)] obtain n where
    n: "fileset_main sizes rnd out kidx entries mkdir_ok sz nr dir = Some (Inr (removed, ?g n, fmt_u n @ [CHR 0x0A] @ concat (map ?l [0..<n])))"
      "0 < n" "n \<le> nat (sz * nr)" "sz * nr * 4096 \<le> (\<Sum>i<n. sizes i)" "\<forall>m<n. (\<Sum>i<m. sizes i) < sz * nr * 4096" by blast
  have n5: "n < 100000" using n(3) gen_ok_bounds(1)[OF assms(4)] by simp
  have sz: "0 \<le> sizes i \<and> sizes i < 2 ^ 31" if "i < n" for i
  proof -
    from that n(3) have "i < nat (sz * nr)" by simp
    with assms(4) have "4096 \<le> sizes i" "sizes i < 2 ^ 31 - 4096 * int (nat (sz * nr))" unfolding gen_ok_def by blast+
    moreover have "0 \<le> int (nat (sz * nr))" by simp
    ultimately show ?thesis by linarith
  qed
  have len: "(\<Sum>(nm, content)\<leftarrow>created (?g m). int (length content)) = (\<Sum>i<m. sizes i)" if "m \<le> n" for m
  proof -
    have "(\<Sum>(nm, content)\<leftarrow>created (?g m). int (length content)) = (\<Sum>i\<leftarrow>[0..<m]. int (nat (sizes i)))"
      by (simp add: gen_after_def file_bytes_def comp_def)
    also have "\<dots> = (\<Sum>i<m. int (nat (sizes i)))" by (simp add: interv_sum_list_conv_sum_set_nat atLeast0LessThan)
    also have "\<dots> = (\<Sum>i<m. sizes i)" using sz that by (intro sum.cong) auto
    finally show ?thesis .
  qed
  have b: "butlast (created (?g n)) = created (?g (n - 1))" using n(2) by (cases n) (simp_all add: gen_after_def)
  have "isspace (CHR 0x0A)" by (simp add: isspace_def)
  then have d: "CHR 0x0A \<notin> set dir" using assms(5) unfolding plain_name_def by blast
  have d': "length dir \<le> 1000" using assms(4) unfolding gen_ok_def by blast
  have "header_lines [?l i]" if "i < n" for i
    using set_line_header[of i sizes dir rnd] sz[OF that] that n5 d d' by simp
  then have hl: "header_lines (map ?l [0..<n])" by (simp add: header_lines_def)
  have "map scan_fileinfo (map ?l [0..<n]) = map set_info (created (?g n))"
    using scan_set_line[OF assms(5), of sizes _ rnd] sz by (simp add: gen_after_def)
  with init_fileset_lines[OF _ _ n(2) n5 hl] have r: "init_fileset fd k = Some (Inr (int n, map set_info (created (?g n))))"
    if "stream k = fmt_u n @ [CHR 0x0A] @ concat (map ?l [0..<n])" "enough (Suc (Suc n) * Suc MAXLINE) k" for k
    using that by simp
  show ?thesis
  proof (intro exI conjI)
    show "fileset_main sizes rnd out kidx entries mkdir_ok sz nr dir = Some (Inr (removed, ?g n, fmt_u n @ [CHR 0x0A] @ concat (map ?l [0..<n])))"
      using n(1) .
    show "(\<Sum>(nm, content)\<leftarrow>butlast (created (?g n)). int (length content)) < sz * nr * 4096"
      unfolding b using len[of "n - 1"] n(2,5) by simp
  qed (use n len[of n] r in \<open>auto simp: gen_after_def\<close>)
qed


theorem fileset_index_roundtrip_witness:
  "\<exists>st idx. fileset_main (\<lambda>i. 5000) (\<lambda>i j. j) (\<lambda>i. \<lparr>stream = [], sched = replicate 5000 (K_bytes 0)\<rparr>)
       \<lparr>stream = [], sched = replicate 1052672 (K_bytes 0)\<rparr> (Some [(''old'', True), (''sub'', False)]) False 2 1 ''d'' =
     Some (Inr ([''d/old''], st, idx)) \<and> 8192 \<le> (\<Sum>(nm, content)\<leftarrow>created st. int (length content))"
proof -
  have g: "gen_ok (\<lambda>i. 5000) (\<lambda>i. \<lparr>stream = [], sched = replicate 5000 (K_bytes 0)\<rparr>) ''d'' (nat (2 * 1))"
    by (simp add: gen_ok_def enough_def)
  have p: "plain_name ''d''" by (simp add: plain_name_def isspace_def)
  have c: "clear_dir ''d'' (Some [(''old'', True), (''sub'', False)]) False = Inr [''d/old'']" by (simp add: clear_dir_def)
  from fileset_index_roundtrip[OF _ _ _ g p c, of "\<lparr>stream = [], sched = replicate 1052672 (K_bytes 0)\<rparr>" "\<lambda>i j. j"]
  show ?thesis by (simp add: enough_def) blast
qed

section \<open>File sets the client cannot use\<close>

text \<open>The bytes of a file are printable, so a file has no line ends; the client cannot read one of
  8192 or more bytes within its buffer.\<close>

lemma rand_char_printable: "of_char (rand_char r) \<in> {0x20..<0x73 :: nat}"
  using mod_less_divisor[of 83 r] by (simp add: rand_char_def)

lemma line_of_no_newline: "CHR 0x0A \<notin> set p \<Longrightarrow> line_of m p = take m p"
  by (induction m p rule: line_of.induct) auto

lemma generated_files_fit: "lines_fit (file_bytes rnd n) \<longleftrightarrow> n < MAXLINE"
proof
  show "n < MAXLINE \<Longrightarrow> lines_fit (file_bytes rnd n)" by (rule lines_fit_short) (simp add: file_bytes_def)
  have "rand_char r \<noteq> CHR 0x0A" for r using rand_char_printable[of r] by auto
  then have "CHR 0x0A \<notin> set (file_bytes rnd n)" unfolding file_bytes_def set_map by fastforce
  from line_of_no_newline[OF this] show "lines_fit (file_bytes rnd n) \<Longrightarrow> n < MAXLINE"
    by (subst (asm) lines_fit.simps) (auto simp: file_bytes_def min_def MAXLINE_def split: if_splits)
qed

lemma client_overflows_on_generated:
  assumes "MAXLINE \<le> n" and "n < 2 ^ 31" and "stream k = ok_response name (file_bytes rnd n)"
    and "enough (reads_for (file_bytes rnd n)) k"
  shows "client_print cs len print fd k = Some (Inl Out_of_bounds)"
proof -
  have l: "length (file_bytes rnd n) < 2 ^ 31" using assms(2) by (simp add: file_bytes_def)
  show ?thesis using client_print_response[OF assms(3) l assms(4), of cs len print fd] assms(1)
    unfolding generated_files_fit by simp
qed

text \<open>When the size asked for overflows, no file is created, and the client refuses the index.\<close>

lemma fileset_overflow:
  assumes "1 < sz" and "1 \<le> nr" and "nr \<le> 99999" and "length dir \<le> 1000" and "wrap32 (wrap32 (sz * 4096) * nr) \<le> 0"
    and "clear_dir dir entries mkdir_ok = Inr removed" and "stream kidx = []" and "enough 2 kidx"
  shows "fileset_main sizes rnd out kidx entries mkdir_ok sz nr dir = Some (Inr (removed, start_state, ''0'' @ [CHR 0x0A]))"
proof -
  have "gen_loop sizes rnd out dir (wrap32 (wrap32 (sz * 4096) * nr)) start_state = Some (Inr start_state)"
    using assms(5) by (subst gen_loop.simps) (simp add: start_state_def)
  moreover have f: "fmt_u 0 = ''0''" by (simp add: fmt_u.simps char_of_def bit_simps)
  moreover obtain k1 where "Rio_write (''0'' @ [CHR 0x0A]) kidx = Some (Inr k1)" "stream k1 = ''0'' @ [CHR 0x0A]" "enough 0 k1"
    using Rio_write_ok[of 0 "''0'' @ [CHR 0x0A]" kidx] assms(7,8) by (auto simp: numeral_2_eq_2)
  moreover obtain k2 where "Rio_write [] k1 = Some (Inr k2)" "stream k2 = stream k1"
    using Rio_write_ok[of 0 "[]" k1] \<open>enough 0 k1\<close> by auto
  ultimately show ?thesis using assms(1-4,6) by (simp add: fileset_main_def Let_def start_state_def)
qed

lemma fileset_overflow_example: "wrap32 (wrap32 (6 * 4096) * 99999) < 0"
  by code_simp

lemma empty_index_refused:
  assumes "stream k = ''0'' @ [CHR 0x0A]" and "enough (Suc MAXLINE) k"
  shows "init_fileset fd k = Some (Inl Assert_failed)"
proof -
  have "\<exists>rp' k'. Rio_readlineb (rio_init fd) k = Some (Inr (Some (''0'' @ [CHR 0x0A]), rp', k')) \<and> pending rp' k' = [] \<and> enough 0 k'"
    using assms by (intro Rio_readlineb_ok) (auto simp: pending_def rio_init_def MAXLINE_def)
  then obtain rp' k' where "Rio_readlineb (rio_init fd) k = Some (Inr (Some (''0'' @ [CHR 0x0A]), rp', k'))" by blast
  moreover have "atoi (cstr (''0'' @ [CHR 0x0A])) = 0" by code_simp
  ultimately show ?thesis unfolding init_fileset_def by (subst fileset_loop.simps) (simp add: Let_def)
qed

text \<open>A blank in the name of the directory ends the name the client reads.\<close>

lemma blank_in_directory: "fi_name (scan_fileinfo (index_line ''my dir/00000'' 5 3)) = Some ''my''"
  by code_simp

end
