(* ===== verification/Double.thy ===== *)
theory Double
  imports Complex_Main
begin

text \<open>
  The C type \<open>double\<close>: the numbers of 53 binary digits with exponents down to \<open>-1074\<close>, the infinities
  and the value that is no number, with the operations of IEEE 754 rounded to the nearest number, ties
  to the even one. The two zeros are one number here: the sign of a zero matters only to a division by
  it, and the routines modelled on this theory divide by no zero they computed with a minus sign.
\<close>

section \<open>Rounding\<close>

definition round_even :: "real \<Rightarrow> int" where
  "round_even x =
     (let n = \<lfloor>x\<rfloor>; d = x - of_int n
      in if d < 1 / 2 then n else if 1 / 2 < d then n + 1 else if even n then n else n + 1)"

text \<open>The exponent of the last digit of the numbers next to \<open>x\<close>.\<close>

definition last_digit :: "real \<Rightarrow> int" where
  "last_digit x = max (- 1074) (\<lfloor>log 2 \<bar>x\<bar>\<rfloor> - 52)"

definition rnd :: "real \<Rightarrow> real" where
  "rnd x = (if x = 0 then 0 else of_int (round_even (x / 2 powi last_digit x)) * 2 powi last_digit x)"

lemma round_even_of_int [simp]: "round_even (of_int n) = n"
  by (simp add: round_even_def)

lemma round_even_bounds: "\<lfloor>x\<rfloor> \<le> round_even x \<and> round_even x \<le> \<lfloor>x\<rfloor> + 1"
  by (simp add: round_even_def Let_def)

lemma round_even_mono: "x \<le> y \<Longrightarrow> round_even x \<le> round_even y"
proof (cases "\<lfloor>x\<rfloor> = \<lfloor>y\<rfloor>")
  case False
  assume "x \<le> y"
  then have "\<lfloor>x\<rfloor> + 1 \<le> \<lfloor>y\<rfloor>" using False floor_mono[of x y] by linarith
  with round_even_bounds[of x] round_even_bounds[of y] show ?thesis by linarith
qed (auto simp: round_even_def Let_def)

lemma round_even_le: "x \<le> of_int n \<Longrightarrow> round_even x \<le> n"
  using round_even_mono[of x "of_int n"] by simp

lemma round_even_ge: "of_int n \<le> x \<Longrightarrow> n \<le> round_even x"
  using round_even_mono[of "of_int n" x] by simp

lemma round_even_minus: "round_even (- x) = - round_even x"
proof (cases "x = of_int \<lfloor>x\<rfloor>")
  case True
  then have "- x = of_int (- \<lfloor>x\<rfloor>)" by simp
  with True show ?thesis by (metis round_even_of_int)
next
  case False
  then have "of_int \<lfloor>x\<rfloor> < x" using of_int_floor_le[of x] by linarith
  then have "\<lfloor>- x\<rfloor> = - \<lfloor>x\<rfloor> - 1" by (intro floor_unique) (simp_all, linarith)
  then show ?thesis by (auto simp: round_even_def Let_def)
qed

lemma log_2_powi [simp]: "log 2 (2 powi k) = of_int k"
  by (simp add: powr_real_of_int' [symmetric])

lemma powr_powi: "(2::real) powr of_int k = 2 powi k"
  by (simp add: powr_real_of_int')

lemma powi_shift: "d \<le> k \<Longrightarrow> of_int n * 2 powi k / 2 powi d = real_of_int (n * 2 ^ nat (k - d))"
proof -
  assume "d \<le> k"
  have "of_int n * 2 powi k / 2 powi d = real_of_int n * (2 powi (k - d))" by (simp add: power_int_diff)
  also have "(2::real) powi (k - d) = 2 ^ nat (k - d)" using \<open>d \<le> k\<close> by (simp add: power_int_def)
  finally show ?thesis by simp
qed

lemma last_digit_minus [simp]: "last_digit (- x) = last_digit x"
  by (simp add: last_digit_def)

lemma rnd_0 [simp]: "rnd 0 = 0"
  by (simp add: rnd_def)

lemma rnd_minus [simp]: "rnd (- x) = - rnd x"
  by (simp add: rnd_def round_even_minus)

text \<open>A number of at most 53 digits is not changed.\<close>

lemma rnd_exact:
  assumes "\<bar>n\<bar> < 2 ^ 53" and "- 1074 \<le> k" and "x = of_int n * 2 powi k"
  shows "rnd x = x"
proof (cases "n = 0")
  case False
  have "log 2 \<bar>x\<bar> = log 2 \<bar>of_int n\<bar> + of_int k"
    using False assms(3) by (simp add: abs_mult log_mult log_2_powi)
  moreover have "log 2 \<bar>of_int n\<bar> < 53"
    using False assms(1) by (simp add: log_less_iff) 
  ultimately have "\<lfloor>log 2 \<bar>x\<bar>\<rfloor> \<le> 52 + k" by linarith
  then have d: "last_digit x \<le> k" using assms(2) by (simp add: last_digit_def)
  let ?d = "last_digit x"
  have "x / 2 powi ?d = of_int (n * 2 ^ nat (k - ?d))" unfolding assms(3)[symmetric] using powi_shift[OF d, of n] assms(3) by simp
  then have "of_int (round_even (x / 2 powi ?d)) = x / 2 powi ?d" by (metis round_even_of_int)
  then show ?thesis by (simp add: rnd_def)
qed (use assms in simp)


lemma rnd_of_int: "\<bar>n\<bar> < 2 ^ 53 \<Longrightarrow> rnd (of_int n) = of_int n"
  by (rule rnd_exact[of n 0]) simp_all

text \<open>Rounding keeps the order.\<close>

lemma last_digit_mono: "0 < x \<Longrightarrow> x \<le> y \<Longrightarrow> last_digit x \<le> last_digit y"
proof -
  assume "0 < x" "x \<le> y"
  then have "log 2 \<bar>x\<bar> \<le> log 2 \<bar>y\<bar>" by simp
  then show ?thesis unfolding last_digit_def using floor_mono[of "log 2 \<bar>x\<bar>" "log 2 \<bar>y\<bar>"] by linarith
qed

lemma rnd_below:
  assumes "0 < x" and "x \<le> of_int n * 2 powi k" and "last_digit x \<le> k"
  shows "rnd x \<le> of_int n * 2 powi k"
proof -
  let ?d = "last_digit x"
  have p: "(0::real) < 2 powi ?d" by simp
  have e: "of_int n * 2 powi k / 2 powi ?d = real_of_int (n * 2 ^ nat (k - ?d))"
    by (rule powi_shift[OF assms(3)])
  have "x / 2 powi ?d \<le> of_int n * 2 powi k / 2 powi ?d" using assms(2) p by (intro divide_right_mono) auto
  then have "round_even (x / 2 powi ?d) \<le> n * 2 ^ nat (k - ?d)" unfolding e by (rule round_even_le)
  then have "real_of_int (round_even (x / 2 powi ?d)) \<le> of_int n * 2 powi k / 2 powi ?d" unfolding e using of_int_le_iff by blast
  then show ?thesis using assms(1) p by (simp add: rnd_def pos_le_divide_eq)
qed

lemma rnd_above:
  assumes "0 < x" and "of_int n * 2 powi k \<le> x" and "last_digit x \<le> k"
  shows "of_int n * 2 powi k \<le> rnd x"
proof -
  let ?d = "last_digit x"
  have p: "(0::real) < 2 powi ?d" by simp
  have e: "of_int n * 2 powi k / 2 powi ?d = real_of_int (n * 2 ^ nat (k - ?d))"
    by (rule powi_shift[OF assms(3)])
  have "of_int n * 2 powi k / 2 powi ?d \<le> x / 2 powi ?d" using assms(2) p by (intro divide_right_mono) auto
  then have "n * 2 ^ nat (k - ?d) \<le> round_even (x / 2 powi ?d)" unfolding e by (rule round_even_ge)
  then have "of_int n * 2 powi k / 2 powi ?d \<le> real_of_int (round_even (x / 2 powi ?d))" unfolding e using of_int_le_iff by blast
  then show ?thesis using assms(1) p by (simp add: rnd_def pos_divide_le_eq)
qed

lemma rnd_nonneg: "0 \<le> x \<Longrightarrow> 0 \<le> rnd x"
proof (cases "x = 0")
  case False
  assume "0 \<le> x"
  with rnd_above[of x 0 "last_digit x"] False show ?thesis by simp
qed simp

lemma rnd_mono_pos:
  assumes "0 < x" and "x \<le> y"
  shows "rnd x \<le> rnd y"
proof (cases "last_digit x = last_digit y")
  case True
  have "x / 2 powi last_digit x \<le> y / 2 powi last_digit x" using assms by (intro divide_right_mono) auto
  then have "round_even (x / 2 powi last_digit x) \<le> round_even (y / 2 powi last_digit x)" by (rule round_even_mono)
  then show ?thesis using True assms by (simp add: rnd_def mult_right_mono)
next
  case False
  then have l: "last_digit x < last_digit y" using last_digit_mono[OF assms] by simp
  define k where "k = \<lfloor>log 2 y\<rfloor>"
  have y: "last_digit y = k - 52" and x: "\<lfloor>log 2 x\<rfloor> < k" using l assms by (auto simp: last_digit_def k_def)
  have "log 2 x < of_int k" using x by linarith
  then have xb: "x \<le> of_int 1 * 2 powi k" 
    using assms(1) by (simp add: log_less_iff powr_powi)
  have "of_int k \<le> log 2 y" by (simp add: k_def)
  then have yb: "of_int 1 * 2 powi k \<le> y" 
    using assms by (simp add: le_log_iff powr_powi)
  have "rnd x \<le> of_int 1 * 2 powi k" by (rule rnd_below[OF assms(1) xb]) (use l y in simp)
  also have "\<dots> \<le> rnd y" by (rule rnd_above[OF _ yb]) (use assms y in simp_all)
  finally show ?thesis .
qed

lemma rnd_mono: "x \<le> y \<Longrightarrow> rnd x \<le> rnd y"
proof -
  assume a: "x \<le> y"
  consider "0 < x" | "x \<le> 0" "0 \<le> y" | "y < 0" using a by linarith
  then show ?thesis
  proof cases
    case 2
    then show ?thesis using rnd_nonneg[of "- x"] rnd_nonneg[of y] by simp
  next
    case 3
    then show ?thesis using rnd_mono_pos[of "- y" "- x"] a by simp
  qed (use a rnd_mono_pos in auto)
qed


lemma rnd_le: "x \<le> y \<Longrightarrow> rnd y = y \<Longrightarrow> rnd x \<le> y"
  and rnd_ge: "y \<le> x \<Longrightarrow> rnd y = y \<Longrightarrow> y \<le> rnd x"
  using rnd_mono[of x y] rnd_mono[of y x] by auto

section \<open>Numbers, infinities and operations\<close>

text \<open>\<open>Inf s\<close> is negative when \<open>s\<close> is. A result that does not fit the largest exponent is infinite.\<close>

datatype double = Num real | Inf bool | NaN

definition too_large :: real where
  "too_large = 2 ^ 1024"

definition dbl :: "real \<Rightarrow> double" where
  "dbl x = (if \<bar>rnd x\<bar> < too_large then Num (rnd x) else Inf (x < 0))"

fun dneg :: "double \<Rightarrow> double" where
  "dneg (Num x) = Num (- x)"
| "dneg (Inf s) = Inf (\<not> s)"
| "dneg NaN = NaN"

fun dadd :: "double \<Rightarrow> double \<Rightarrow> double" where
  "dadd (Num x) (Num y) = dbl (x + y)"
| "dadd (Num x) (Inf t) = Inf t"
| "dadd (Inf s) (Num y) = Inf s"
| "dadd (Inf s) (Inf t) = (if s = t then Inf s else NaN)"
| "dadd _ _ = NaN"

definition dsub :: "double \<Rightarrow> double \<Rightarrow> double" where
  "dsub x y = dadd x (dneg y)"

fun dmul :: "double \<Rightarrow> double \<Rightarrow> double" where
  "dmul (Num x) (Num y) = dbl (x * y)"
| "dmul (Num x) (Inf t) = (if x = 0 then NaN else Inf ((x < 0) \<noteq> t))"
| "dmul (Inf s) (Num y) = (if y = 0 then NaN else Inf (s \<noteq> (y < 0)))"
| "dmul (Inf s) (Inf t) = Inf (s \<noteq> t)"
| "dmul _ _ = NaN"

fun ddiv :: "double \<Rightarrow> double \<Rightarrow> double" where
  "ddiv (Num x) (Num y) = (if y = 0 then if x = 0 then NaN else Inf (x < 0) else dbl (x / y))"
| "ddiv (Num x) (Inf t) = Num 0"
| "ddiv (Inf s) (Num y) = Inf (s \<noteq> (y < 0))"
| "ddiv _ _ = NaN"

fun dsqrt :: "double \<Rightarrow> double" where
  "dsqrt (Num x) = (if x < 0 then NaN else dbl (sqrt x))"
| "dsqrt (Inf s) = (if s then NaN else Inf False)"
| "dsqrt NaN = NaN"

text \<open>Comparisons are false when an operand is no number.\<close>

fun dless :: "double \<Rightarrow> double \<Rightarrow> bool" where
  "dless (Num x) (Num y) = (x < y)"
| "dless (Num x) (Inf t) = (\<not> t)"
| "dless (Inf s) (Num y) = s"
| "dless (Inf s) (Inf t) = (s \<and> \<not> t)"
| "dless _ _ = False"

definition deq :: "double \<Rightarrow> double \<Rightarrow> bool" where
  "deq x y \<longleftrightarrow> x \<noteq> NaN \<and> x = y"

definition dle :: "double \<Rightarrow> double \<Rightarrow> bool" where
  "dle x y \<longleftrightarrow> dless x y \<or> deq x y"

text \<open>The conversion of an \<open>int\<close> is exact.\<close>

definition of_i :: "int \<Rightarrow> double" where
  "of_i n = Num (of_int n)"

lemma too_large_bound: "k \<le> 1024 \<Longrightarrow> 2 ^ k \<le> too_large"
  unfolding too_large_def by (intro power_increasing) simp_all

lemma dbl_not_NaN [simp]: "dbl x \<noteq> NaN"
  by (simp add: dbl_def)

lemma dbl_exact: "rnd x = x \<Longrightarrow> \<bar>x\<bar> < too_large \<Longrightarrow> dbl x = Num x"
  by (simp add: dbl_def)

lemma dbl_of_int: "\<bar>n\<bar> < 2 ^ 53 \<Longrightarrow> dbl (of_int n) = of_i n"
proof -
  assume n: "\<bar>n\<bar> < 2 ^ 53"
  then have "\<bar>real_of_int n\<bar> < 2 ^ 53" by simp
  also have "(2::real) ^ 53 \<le> too_large" by (rule too_large_bound) simp
  finally show ?thesis using rnd_of_int[OF n] by (simp add: dbl_exact of_i_def)
qed

lemma dbl_bounded:
  assumes "a \<le> x" "x \<le> b" "rnd a = a" "rnd b = b" "\<bar>a\<bar> < too_large" "\<bar>b\<bar> < too_large"
  shows "\<exists>y. dbl x = Num y \<and> a \<le> y \<and> y \<le> b"
proof -
  have "a \<le> rnd x" "rnd x \<le> b" using assms rnd_le rnd_ge by auto
  with assms(5,6) show ?thesis by (auto simp: dbl_def)
qed

lemma dless_linear: "x \<noteq> NaN \<Longrightarrow> y \<noteq> NaN \<Longrightarrow> dless x y \<or> x = y \<or> dless y x"
  by (cases x; cases y) auto

lemma dless_asym: "dless x y \<Longrightarrow> \<not> dless y x" and dless_irrefl [simp]: "\<not> dless x x"
  by (cases x; cases y; auto) (cases x; auto)

lemma dless_trans: "dless x y \<Longrightarrow> dless y z \<Longrightarrow> dless x z"
  by (cases x; cases y; cases z) auto

lemma dbl_nonneg: "0 \<le> x \<Longrightarrow> dle (Num 0) (dbl x)"
  using rnd_nonneg[of x] by (auto simp: dbl_def dle_def deq_def)

lemma dbl_minus: "x \<noteq> 0 \<Longrightarrow> dbl (- x) = dneg (dbl x)"
  by (auto simp: dbl_def)


text \<open>The error of a rounding.\<close>

lemma round_even_error: "\<bar>of_int (round_even x) - x\<bar> \<le> 1 / 2"
  using of_int_floor_le[of x] real_of_int_floor_add_one_gt[of x] by (auto simp: round_even_def Let_def)

lemma rnd_error:
  assumes "\<bar>x\<bar> < 2 ^ k"
  shows "\<bar>rnd x - x\<bar> \<le> 2 ^ k / 2 ^ 53"
proof (cases "x = 0")
  case False
  let ?d = "last_digit x"
  have "log 2 \<bar>x\<bar> < of_nat k" using assms False by (simp add: log_less_iff powr_realpow)
  then have "\<lfloor>log 2 \<bar>x\<bar>\<rfloor> \<le> int k - 1" by linarith
  then have "?d \<le> int k - 53" by (simp add: last_digit_def)
  then have d: "(2::real) powi ?d \<le> 2 powi (int k - 53)" by (intro power_int_increasing) simp_all
  have "(2::real) powi (int k - 53) = 2 ^ k / 2 ^ 53" by (simp add: power_int_diff)
  with d have d: "(2::real) powi ?d \<le> 2 ^ k / 2 ^ 53" by simp
  have "rnd x - x = (of_int (round_even (x / 2 powi ?d)) - x / 2 powi ?d) * 2 powi ?d"
    using False by (simp add: rnd_def left_diff_distrib)
  then have "\<bar>rnd x - x\<bar> = \<bar>of_int (round_even (x / 2 powi ?d)) - x / 2 powi ?d\<bar> * 2 powi ?d" by (simp add: abs_mult)
  also have "\<dots> \<le> 1 * 2 powi ?d" using round_even_error[of "x / 2 powi ?d"] by (intro mult_right_mono) auto
  finally show ?thesis using d by simp
qed simp

end
