(* ===== verification/Rand.thy ===== *)
theory Rand
  imports Double Prelude "HOL-Library.Sublist"
begin

text \<open>
  The random numbers of webserver/common.c, in the arithmetic of theory \<open>Double\<close>. What \<open>random\<close> returns
  is an argument, a number or a list of numbers in the order of the calls. The functions \<open>pow\<close> and
  \<open>log\<close> of the mathematical library are arguments too; the library promises an error of less than one
  unit in the last place.
\<close>

section \<open>The routines\<close>

definition RAND_MAX :: int where "RAND_MAX = 2147483647"

definition RAND :: "int \<Rightarrow> double" where
  "RAND n = ddiv (of_i n) (of_i RAND_MAX)"

text \<open>\<open>init_random\<close>: what \<open>open\<close> and \<open>read\<close> return, and the seed read. The result of \<open>read\<close> is compared
  with a \<open>size_t\<close>, as an unsigned number.\<close>

definition init_random :: "int \<Rightarrow> int \<Rightarrow> int \<Rightarrow> int res" where
  "init_random fd nread seed =
     (if fd < 0 then Inl Exit_1
      else if uint (word_of_int nread :: 64 word) < 4 then Inl Exit_1
      else if nread = 4 then Inr seed else Inl Uninit)"

text \<open>\<open>ceil\<close> and \<open>round\<close>, and the conversion to \<open>int\<close>, which gives the smallest \<open>int\<close> for values that
  do not fit.\<close>

fun dceil :: "double \<Rightarrow> double" where
  "dceil (Num x) = Num (of_int \<lceil>x\<rceil>)"
| "dceil x = x"

fun dround :: "double \<Rightarrow> double" where
  "dround (Num x) = Num (of_int (if 0 \<le> x then \<lfloor>x + 1 / 2\<rfloor> else - \<lfloor>- x + 1 / 2\<rfloor>))"
| "dround x = x"

fun to_i :: "double \<Rightarrow> int" where
  "to_i (Num x) =
     (let n = (if 0 \<le> x then \<lfloor>x\<rfloor> else \<lceil>x\<rceil>)
      in if - (2 ^ 31) \<le> n \<and> n < 2 ^ 31 then n else - (2 ^ 31))"
| "to_i _ = - (2 ^ 31)"

definition rand_int :: "int \<Rightarrow> int \<Rightarrow> int res" where
  "rand_int high n =
     (let r = RAND n; ret = to_i (dceil (dmul (of_i high) r))
      in assertR (1 \<le> ret \<and> ret \<le> high) (Inr ret))"

text \<open>The loop of \<open>rand_pareto\<close>; \<open>None\<close> when the results of \<open>random\<close> are used up.\<close>

fun pareto_loop :: "int list \<Rightarrow> (double \<times> int list) option" where
  "pareto_loop [] = None"
| "pareto_loop (n # ns) =
     (let r = RAND n
      in if dle r (of_i 0) then pareto_loop ns
         else if dle (of_i 1) r then pareto_loop ns
         else Some (r, ns))"

definition rand_pareto :: "(double \<Rightarrow> double \<Rightarrow> double) \<Rightarrow> double \<Rightarrow> double \<Rightarrow> int list \<Rightarrow> (double \<times> int list) option" where
  "rand_pareto pow m a ns =
     (case pareto_loop ns of
        None \<Rightarrow> None
      | Some (r, ns) \<Rightarrow> Some (dmul m (pow r (ddiv (of_i (- 1)) a)), ns))"

definition rand_pareto_int :: "(double \<Rightarrow> double \<Rightarrow> double) \<Rightarrow> double \<Rightarrow> double \<Rightarrow> int list \<Rightarrow> (int \<times> int list) option" where
  "rand_pareto_int pow m a ns =
     (case rand_pareto pow m a ns of None \<Rightarrow> None | Some (x, ns) \<Rightarrow> Some (to_i (dround x), ns))"

fun similar_loop :: "int list \<Rightarrow> (double \<times> int list) option" where
  "similar_loop [] = None"
| "similar_loop (n # ns) = (let r = RAND n in if dle r (of_i 0) then similar_loop ns else Some (r, ns))"

definition rand_self_similar :: "(double \<Rightarrow> double) \<Rightarrow> (double \<Rightarrow> double \<Rightarrow> double) \<Rightarrow> double \<Rightarrow> int list \<Rightarrow>
    (double \<times> int list) io" where
  "rand_self_similar lg pow a ns =
     (if \<not> (dless (of_i 0) a \<and> dless a (of_i 1)) then Some (Inl Assert_failed)
      else case similar_loop ns of
             None \<Rightarrow> None
           | Some (r, ns) \<Rightarrow>
               let e = ddiv (lg a) (lg (dsub (of_i 1) a)); ret = pow r e
               in Some (assertR (dless (of_i 0) ret \<and> dle ret (of_i 1)) (Inr (ret, ns))))"

definition rand_self_similar_int :: "(double \<Rightarrow> double) \<Rightarrow> (double \<Rightarrow> double \<Rightarrow> double) \<Rightarrow> double \<Rightarrow> int \<Rightarrow> int list \<Rightarrow>
    (int \<times> int list) io" where
  "rand_self_similar_int lg pow a high ns =
     bindO (rand_self_similar lg pow a ns) (\<lambda>(x, ns).
       let ret = to_i (dceil (dmul (of_i high) x))
       in Some (assertR (1 \<le> ret \<and> ret \<le> high) (Inr (ret, ns))))"

section \<open>The fraction\<close>

lemma powi_31: "(2::real) powi (- 31) = 1 / 2147483648"
  by (simp add: power_int_def power_one_over)

lemma to_i_of_int: "- (2 ^ 31) \<le> k \<Longrightarrow> k < 2 ^ 31 \<Longrightarrow> to_i (Num (of_int k)) = k"
  by simp

lemma rnd_31: "\<bar>n\<bar> < 2 ^ 53 \<Longrightarrow> rnd (of_int n / 2147483648) = of_int n / 2147483648"
  by (rule rnd_exact[of n "- 31"]) (simp_all add: powi_31)

lemma one_small: "(1::real) < too_large" "x \<le> 2147483648 \<Longrightarrow> 0 \<le> x \<Longrightarrow> \<bar>x\<bar> < too_large"
  using too_large_bound[of 32] by auto

lemma RAND_range:
  assumes "0 \<le> n" and "n \<le> RAND_MAX"
  obtains r where "RAND n = Num r" "0 \<le> r" "r \<le> 1" "n = 0 \<Longrightarrow> r = 0" "0 < n \<Longrightarrow> 1 / 2147483648 \<le> r"
    "n = RAND_MAX \<Longrightarrow> r = 1" "n < RAND_MAX \<Longrightarrow> r \<le> 2147483647 / 2147483648"
proof -
  define x where "x = real_of_int n / 2147483647"
  have R: "RAND n = dbl x" by (simp add: RAND_def of_i_def RAND_MAX_def x_def)
  have r1: "rnd 1 = 1" using rnd_of_int[of 1] by simp
  have x01: "0 \<le> x" "x \<le> 1" using assms by (auto simp: x_def RAND_MAX_def)
  have b: "0 \<le> rnd x" "rnd x \<le> 1" using rnd_nonneg x01 rnd_le[OF x01(2) r1] by auto
  then have "RAND n = Num (rnd x)" using R one_small by (simp add: dbl_def)
  moreover have "rnd x = 0" if "n = 0" using that by (simp add: x_def)
  moreover have "rnd x = 1" if "n = RAND_MAX" using that r1 by (simp add: x_def RAND_MAX_def)
  moreover have "1 / 2147483648 \<le> rnd x" if "0 < n"
  proof (rule rnd_ge)
    have "(1::real) \<le> of_int n" using that by linarith
    then show "1 / 2147483648 \<le> x" by (simp add: x_def)
  qed (use rnd_31[of 1] in simp)
  moreover have "rnd x \<le> 2147483647 / 2147483648" if "n < RAND_MAX"
  proof (rule rnd_le)
    have "real_of_int n \<le> 2147483646" using that by (simp add: RAND_MAX_def)
    then show "x \<le> 2147483647 / 2147483648" by (simp add: x_def)
  qed (use rnd_31[of 2147483647] in simp)
  ultimately show ?thesis using that b by blast
qed


lemma RAND_mono: "m \<le> n \<Longrightarrow> RAND m = Num r \<Longrightarrow> RAND n = Num q \<Longrightarrow> r \<le> q"
proof -
  assume "m \<le> n" "RAND m = Num r" "RAND n = Num q"
  moreover have "real_of_int m / 2147483647 \<le> real_of_int n / 2147483647" using \<open>m \<le> n\<close> by simp
  from rnd_mono[OF this] have "rnd (real_of_int m / 2147483647) \<le> rnd (real_of_int n / 2147483647)" .
  ultimately show ?thesis by (auto simp: RAND_def of_i_def RAND_MAX_def dbl_def split: if_splits)
qed

text \<open>A fraction of an \<open>int\<close>, rounded up.\<close>

lemma scaled_range:
  assumes "1 \<le> high" and "high < 2 ^ 31" and "1 / 2147483648 \<le> r" and "r \<le> 1"
  obtains y where "dmul (of_i high) (Num r) = Num y" "0 < y" "y \<le> of_int high"
    "to_i (dceil (dmul (of_i high) (Num r))) = \<lceil>y\<rceil>" "1 \<le> \<lceil>y\<rceil>" "\<lceil>y\<rceil> \<le> high"
proof -
  let ?x = "of_int high * r"
  have h: "1 \<le> real_of_int high" using assms(1) by simp
  have "1 * (1 / 2147483648) \<le> ?x" using assms(3) h by (intro mult_mono) auto
  then have l: "1 / 2147483648 \<le> rnd ?x" by (intro rnd_ge) (use rnd_31[of 1] in simp_all)
  have "?x \<le> of_int high * 1" using assms(4) h by (intro mult_left_mono) auto
  then have u: "rnd ?x \<le> of_int high" by (intro rnd_le) (use rnd_of_int[of high] assms(1,2) in simp_all)
  have "\<bar>rnd ?x\<bar> < too_large" using l u assms(2) by (intro one_small) auto
  then have d: "dmul (of_i high) (Num r) = Num (rnd ?x)" by (simp add: of_i_def dbl_def)
  have c: "1 \<le> \<lceil>rnd ?x\<rceil>" "\<lceil>rnd ?x\<rceil> \<le> high" using l u by (auto simp: one_le_ceiling ceiling_le_iff)
  then have "to_i (dceil (Num (rnd ?x))) = \<lceil>rnd ?x\<rceil>" unfolding dceil.simps using assms(2) by (intro to_i_of_int) linarith+
  with d c l u show ?thesis by (intro that[of "rnd ?x"]) auto
qed

lemma to_i_zero: "to_i (dceil (dmul (of_i high) (Num 0))) = 0"
  using one_small by (simp add: of_i_def dbl_def)

section \<open>Properties\<close>

text \<open>
  \<open>rand_int\<close>. For \<open>1 \<le> high\<close> the result is between 1 and \<open>high\<close>, does not decrease with what \<open>random\<close>
  returns, and is \<open>high\<close> for its largest value; rounding never leads out of the range. Only when \<open>random\<close>
  returns 0 the assertion fails.
\<close>

lemma rand_int_range:
  assumes "1 \<le> high" and "high < 2 ^ 31" and "0 \<le> n" and "n \<le> RAND_MAX"
  shows "if n = 0 then rand_int high n = Inl Assert_failed
    else \<exists>k. rand_int high n = Inr k \<and> 1 \<le> k \<and> k \<le> high \<and> (n = RAND_MAX \<longrightarrow> k = high) \<and>
      (\<forall>m. 0 < m \<and> m \<le> n \<longrightarrow> (\<exists>j. rand_int high m = Inr j \<and> j \<le> k))"
proof (cases "n = 0")
  case True
  obtain r where "RAND n = Num r" "r = 0" using RAND_range[OF assms(3,4)] True by metis
  then show ?thesis using True to_i_zero[of high] by (simp add: rand_int_def)
next
  case False
  then obtain r where r: "RAND n = Num r" "r \<le> 1" "1 / 2147483648 \<le> r" "n = RAND_MAX \<Longrightarrow> r = 1"
    using RAND_range[OF assms(3,4)] assms(3) by (metis order_le_less)
  obtain y where y: "dmul (of_i high) (Num r) = Num y" "to_i (dceil (dmul (of_i high) (Num r))) = \<lceil>y\<rceil>" "1 \<le> \<lceil>y\<rceil>" "\<lceil>y\<rceil> \<le> high"
    using scaled_range[OF assms(1,2) r(3,2)] by metis
  have k: "rand_int high n = Inr \<lceil>y\<rceil>" using r(1) y(2-4) by (simp add: rand_int_def)
  have yr: "y = rnd (of_int high * r)" using y(1) by (auto simp: of_i_def dbl_def split: if_splits)
  have top: "\<lceil>y\<rceil> = high" if "n = RAND_MAX"
    using r(4)[OF that] yr rnd_of_int[of high] assms(1,2) by simp
  have "\<exists>j. rand_int high m = Inr j \<and> j \<le> \<lceil>y\<rceil>" if m: "0 < m" "m \<le> n" for m
  proof -
    obtain q where q: "RAND m = Num q" "q \<le> 1" "1 / 2147483648 \<le> q"
      using RAND_range[of m] m assms(4) by (metis order_le_less order_trans)
    obtain z where z: "dmul (of_i high) (Num q) = Num z" "to_i (dceil (dmul (of_i high) (Num q))) = \<lceil>z\<rceil>" "1 \<le> \<lceil>z\<rceil>" "\<lceil>z\<rceil> \<le> high"
      using scaled_range[OF assms(1,2) q(3,2)] by metis
    have zq: "z = rnd (of_int high * q)" using z(1) by (auto simp: of_i_def dbl_def split: if_splits)
    have "of_int high * q \<le> of_int high * r" using RAND_mono[OF m(2) q(1) r(1)] assms(1) by (intro mult_left_mono) auto
    then have "\<lceil>z\<rceil> \<le> \<lceil>y\<rceil>" unfolding zq yr by (intro ceiling_mono rnd_mono)
    moreover have "rand_int high m = Inr \<lceil>z\<rceil>" using q(1) z(2-4) by (simp add: rand_int_def)
    ultimately show ?thesis by blast
  qed
  with False k y top show ?thesis by auto
qed

text \<open>
  The loop of \<open>rand_pareto\<close> takes the first result of \<open>random\<close> other than 0 and the largest one.
\<close>

lemma pareto_loop_eq:
  assumes "\<forall>n\<in>set ns. 0 \<le> n \<and> n \<le> RAND_MAX"
  shows "pareto_loop ns = (case dropWhile (\<lambda>n. n = 0 \<or> n = RAND_MAX) ns of [] \<Rightarrow> None | n # ns' \<Rightarrow> Some (RAND n, ns'))"
  using assms
proof (induction ns)
  case (Cons n ns)
  then have n: "0 \<le> n" "n \<le> RAND_MAX" by auto
  obtain r where r: "RAND n = Num r" "n = 0 \<Longrightarrow> r = 0" "0 < n \<Longrightarrow> 1 / 2147483648 \<le> r"
    "n = RAND_MAX \<Longrightarrow> r = 1" "n < RAND_MAX \<Longrightarrow> r \<le> 2147483647 / 2147483648"
    by (rule RAND_range[OF n]) blast
  have "r \<le> 0 \<longleftrightarrow> n = 0" using r(2,3) n(1) by (cases "n = 0") auto
  moreover have "1 \<le> r \<longleftrightarrow> n = RAND_MAX" using r(4,5) n(2) by (cases "n = RAND_MAX") auto
  ultimately have "dle (RAND n) (of_i 0) \<longleftrightarrow> n = 0" "dle (of_i 1) (RAND n) \<longleftrightarrow> n = RAND_MAX"
    unfolding r(1) by (auto simp: dle_def deq_def of_i_def)
  with Cons show ?case by (simp add: Let_def)
qed simp

text \<open>What the library promises of \<open>pow\<close>: the result is on the same side of every number as the exact
  value.\<close>

definition faithful_pow :: "(double \<Rightarrow> double \<Rightarrow> double) \<Rightarrow> bool" where
  "faithful_pow pow \<longleftrightarrow> (\<forall>x y v. 0 < x \<longrightarrow> rnd v = v \<longrightarrow> \<bar>v\<bar> < too_large \<longrightarrow>
     (v \<le> x powr y \<longrightarrow> dle (Num v) (pow (Num x) (Num y))) \<and> (x powr y \<le> v \<longrightarrow> dle (pow (Num x) (Num y)) (Num v)))"

fun pow_near :: "double \<Rightarrow> double \<Rightarrow> double" where
  "pow_near (Num x) (Num y) = dbl (x powr y)"
| "pow_near _ _ = NaN"

lemma dbl_side:
  assumes "rnd v = v" and "\<bar>v\<bar> < too_large"
  shows "v \<le> x \<Longrightarrow> dle (Num v) (dbl x)" and "x \<le> v \<Longrightarrow> dle (dbl x) (Num v)"
proof -
  show "dle (Num v) (dbl x)" if "v \<le> x"
    using rnd_ge[OF that assms(1)] assms(2) rnd_mono[of x 0]
    by (cases "0 \<le> x") (auto simp: dbl_def dle_def deq_def abs_if split: if_splits)
  show "dle (dbl x) (Num v)" if "x \<le> v"
    using rnd_le[OF that assms(1)] assms(2) rnd_nonneg[of x]
    by (cases "0 \<le> x") (auto simp: dbl_def dle_def deq_def abs_if split: if_splits)
qed

lemma pow_near_faithful: "faithful_pow pow_near"
  by (auto simp: faithful_pow_def dbl_side)

lemma rnd_tiny: "0 < x \<Longrightarrow> x < 2 powi (- 1075) \<Longrightarrow> rnd x = 0"
proof -
  assume x: "0 < x" "x < 2 powi (- 1075)"
  have "log 2 x < of_int (- 1075)" using x by (simp only: log_less_iff powr_powi)
  then have "\<lfloor>log 2 x\<rfloor> \<le> - 1075" by linarith
  then have d: "last_digit x = - 1074" using x(1) unfolding last_digit_def by simp linarith
  have "(2::real) powi (- 1075) = 2 powi (- 1074) / 2" by (simp add: power_int_diff[symmetric] power_int_add[symmetric] flip: power_int_1_right)
  then have z: "0 \<le> x / 2 powi (- 1074)" "x / 2 powi (- 1074) < 1 / 2" using x by (simp_all add: field_simps)
  then have "\<lfloor>x / 2 powi (- 1074)\<rfloor> = 0" by linarith
  then have "round_even (x / 2 powi (- 1074)) = 0" unfolding round_even_def Let_def using z by simp
  then show ?thesis using x(1) d by (simp add: rnd_def)
qed


text \<open>
  \<open>rand_pareto\<close>. It returns as soon as \<open>random\<close> gives a number other than 0 and the largest one, and what it
  returns is at least the minimum \<open>m\<close>: neither the power nor the product is rounded below it.
\<close>

lemma rand_pareto_minimum:
  assumes "faithful_pow pow" and "\<forall>n\<in>set ns. 0 \<le> n \<and> n \<le> RAND_MAX" and "0 < m" and "rnd m = m" and "m < too_large"
    and "ddiv (of_i (- 1)) a = Num e" and "e \<le> 0" and "\<exists>n\<in>set ns. n \<noteq> 0 \<and> n \<noteq> RAND_MAX"
  shows "\<exists>x ns'. rand_pareto pow (Num m) a ns = Some (x, ns') \<and> dle (Num m) x \<and> suffix ns' ns"
proof -
  let ?d = "dropWhile (\<lambda>n. n = 0 \<or> n = RAND_MAX) ns"
  obtain n ns' where d: "?d = n # ns'" using assms(8) by (cases ?d) auto
  have n: "n \<in> set ns" "n \<noteq> 0" "n \<noteq> RAND_MAX"
    using d set_dropWhileD[of n "\<lambda>n. n = 0 \<or> n = RAND_MAX" ns] hd_dropWhile[of "\<lambda>n. n = 0 \<or> n = RAND_MAX" ns] by auto
  then have nr: "0 \<le> n" "n \<le> RAND_MAX" "0 < n" "n < RAND_MAX" using assms(2) by (auto simp: less_le)
  obtain r where r: "RAND n = Num r" "1 / 2147483648 \<le> r" "r \<le> 2147483647 / 2147483648"
    by (rule RAND_range[OF nr(1,2)]) (use nr(3,4) in blast)
  have p: "1 \<le> r powr e" using r assms(7) powr_mono'[of e 0 r] by simp
  have one: "rnd 1 = 1" using rnd_of_int[of 1] by simp
  have "dle (Num 1) (pow (Num r) (Num e))"
    using assms(1) r(2) p one one_small(1) by (simp add: faithful_pow_def)
  then consider "pow (Num r) (Num e) = Inf False" | q where "pow (Num r) (Num e) = Num q" "1 \<le> q"
    by (cases "pow (Num r) (Num e)") (auto simp: dle_def deq_def)
  then have "dle (Num m) (dmul (Num m) (pow (Num r) (Num e)))"
  proof cases
    case 1
    then show ?thesis using assms(3) by (simp add: dle_def)
  next
    case (2 q)
    have "m * 1 \<le> m * q" using 2(2) assms(3) by (intro mult_left_mono) auto
    then show ?thesis using dbl_side(1)[OF assms(4), of "m * q"] assms(3,5) 2(1) by simp
  qed
  moreover have "suffix ns' ns"
    using d takeWhile_dropWhile_id[of "\<lambda>n. n = 0 \<or> n = RAND_MAX" ns] by (auto simp: suffix_def) (metis append.assoc append_Cons append_Nil)
  ultimately show ?thesis using d r(1) assms(6) by (simp add: rand_pareto_def pareto_loop_eq[OF assms(2)])
qed

text \<open>The sizes of the files that fileset.c creates: converted to \<open>int\<close>, at least the minimum, or the smallest
  \<open>int\<close> when the result does not fit.\<close>

lemma to_i_minimum: "dle (Num (of_int k)) x \<Longrightarrow> 0 \<le> k \<Longrightarrow> k < 2 ^ 31 \<Longrightarrow> k \<le> to_i x \<or> to_i x = - (2 ^ 31)"
  by (cases x) (auto simp: dle_def deq_def le_floor_iff Let_def)

text \<open>
  \<open>rand_self_similar\<close> asserts that the power is positive, but it underflows when \<open>a\<close> is small: the exponent
  \<open>log(a) / log(1 - a)\<close> grows beyond every bound. With an exponent of 40 or more, as for \<open>a = 0.06\<close>, the
  assertion fails when \<open>random\<close> returns 1 and \<open>pow\<close> rounds to nearest.
\<close>

lemma rand_self_similar_underflows:
  assumes "dless (of_i 0) a" and "dless a (of_i 1)"
    and "ddiv (lg a) (lg (dsub (of_i 1) a)) = Num e" and "40 \<le> e"
  shows "rand_self_similar lg pow_near a (1 # ns) = Some (Inl Assert_failed)"
proof -
  obtain r where r: "RAND 1 = Num r" "1 / 2147483648 \<le> r"
    by (rule RAND_range[of 1]) (auto simp: RAND_MAX_def)
  have "rnd (1 / 2147483647) \<le> 1 / 1073741824"
    by (rule rnd_le) (use rnd_31[of 2] in simp_all)
  then have u: "r \<le> 1 / 1073741824" using r(1) by (auto simp: RAND_def of_i_def RAND_MAX_def dbl_def split: if_splits)
  have "r powr e \<le> r powr 40" using r(2) u assms(4) by (intro powr_mono') auto
  also have "\<dots> \<le> (1 / 1073741824) powr 40" using r(2) u by (intro powr_mono2) auto
  also have "\<dots> = (1 / 1073741824) ^ 40" by (simp add: powr_numeral)
  also have "\<dots> = 1 / 2 ^ 1200" by (simp add: power_one_over flip: power_mult)
  also have "\<dots> < 2 powi (- 1075)" by (simp add: power_int_def power_one_over)
  finally have "rnd (r powr e) = 0" using r(2) by (intro rnd_tiny) auto
  then have "pow_near (Num r) (Num e) = Num 0" using one_small by (simp add: dbl_def)
  moreover have "\<not> dle (RAND 1) (of_i 0)" using r by (simp add: dle_def deq_def of_i_def)
  ultimately show ?thesis using assms(1-3) r(1) by (simp add: rand_self_similar_def of_i_def)
qed

text \<open>A read of the seed that fails passes the test of \<open>init_random\<close>: -1 is a large unsigned number.\<close>

lemma init_random_uninitialised: "0 \<le> fd \<Longrightarrow> init_random fd (- 1) seed = Inl Uninit"
  by (simp add: init_random_def unsigned_minus_1_eq_mask mask_eq_exp_minus_1)

end
