(* ===== verification/Bitmap.thy ===== *)
theory Bitmap
  imports Prelude
begin

unbundle bit_operations_syntax

text \<open>
  The allocation bitmaps of fs/bitmap.c: arrays of bits in 8-bit words, the bit count a 32-bit
  unsigned number. A bitmap is a set of indices; allocation takes the least free one. The interface
  the super block relies on is the locale \<open>freemap\<close>.
\<close>

section \<open>Operations\<close>

definition BITS_PER_WORD :: nat where "BITS_PER_WORD = 8"
definition WORD_ALLBITS :: "8 word" where "WORD_ALLBITS = 0xff"

record bitmap =
  nbits :: "32 word"
  bv :: "8 word list"

text \<open>\<open>DIVROUNDUP(nbits, BITS_PER_WORD)\<close>, in 32-bit arithmetic.\<close>

definition words_of :: "32 word \<Rightarrow> 32 word" where
  "words_of n = (n + 8 - 1) div 8"

text \<open>\<open>bitmap_create\<close>; \<open>m1\<close> and \<open>m2\<close> say whether the two allocations succeed. The result is 0
  and the bitmap, or \<open>-ENOMEM\<close>.\<close>

definition ENOMEM :: int where "ENOMEM = 12"
definition ENOSPC :: int where "ENOSPC = 28"

definition bitmap_create :: "bool \<Rightarrow> bool \<Rightarrow> 32 word \<Rightarrow> (int \<times> bitmap option) res" where
  "bitmap_create m1 m2 n =
     (let words = words_of n
      in if \<not> m1 \<or> \<not> m2 then Inr (- ENOMEM, None)
         else let v = replicate (unat words) 0
              in if n div 8 < words
                 then let ix = words - 1; overbits = n - ix * 8
                      in assertR (n div 8 = words - 1) (assertR (overbits > 0 \<and> overbits < 8)
                           (Inr (0, Some \<lparr>nbits = n,
                              bv = v[unat ix := foldl (\<lambda>w j. w OR push_bit j 1) (v ! unat ix) [unat overbits..<BITS_PER_WORD]]\<rparr>)))
                 else Inr (0, Some \<lparr>nbits = n, bv = v\<rparr>))"

text \<open>\<open>bitmap_alloc\<close>: the loop over the words from index \<open>ix\<close>, \<open>k\<close> words to go, and inside it
  the search for a clear bit. The result is the index, or \<open>None\<close> for \<open>-ENOSPC\<close>.\<close>

fun alloc_loop :: "bitmap \<Rightarrow> nat \<Rightarrow> nat \<Rightarrow> (nat option \<times> bitmap) res" where
  "alloc_loop b ix 0 = Inr (None, b)"
| "alloc_loop b ix (Suc k) =
     (if length (bv b) \<le> ix then Inl Out_of_bounds
      else if bv b ! ix \<noteq> WORD_ALLBITS
      then case List.find (\<lambda>offset. bv b ! ix AND push_bit offset 1 = 0) [0..<BITS_PER_WORD] of
             Some offset \<Rightarrow>
               let index = ix * BITS_PER_WORD + offset
               in assertR (index < unat (nbits b))
                    (Inr (Some index, b\<lparr>bv := (bv b)[ix := bv b ! ix OR push_bit offset 1]\<rparr>))
           | None \<Rightarrow> Inl Assert_failed
      else alloc_loop b (Suc ix) k)"

definition bitmap_alloc :: "bitmap \<Rightarrow> (nat option \<times> bitmap) res" where
  "bitmap_alloc b = alloc_loop b 0 (unat (words_of (nbits b)))"

definition bitmap_translate :: "nat \<Rightarrow> nat \<times> 8 word" where
  "bitmap_translate bitno = (bitno div BITS_PER_WORD, push_bit (bitno mod BITS_PER_WORD) 1)"

definition bitmap_word :: "bitmap \<Rightarrow> nat \<Rightarrow> 8 word res" where
  "bitmap_word b ix = (if ix < length (bv b) then Inr (bv b ! ix) else Inl Out_of_bounds)"

definition bitmap_mark :: "bitmap \<Rightarrow> nat \<Rightarrow> bitmap res" where
  "bitmap_mark b index =
     assertR (index < unat (nbits b))
       (let (ix, mask) = bitmap_translate index
        in bindR (bitmap_word b ix) (\<lambda>w.
             assertR (w AND mask = 0) (Inr (b\<lparr>bv := (bv b)[ix := w OR mask]\<rparr>))))"

definition bitmap_unmark :: "bitmap \<Rightarrow> nat \<Rightarrow> bitmap res" where
  "bitmap_unmark b index =
     assertR (index < unat (nbits b))
       (let (ix, mask) = bitmap_translate index
        in bindR (bitmap_word b ix) (\<lambda>w.
             assertR (w AND mask \<noteq> 0) (Inr (b\<lparr>bv := (bv b)[ix := w AND NOT mask]\<rparr>))))"

definition bitmap_isset :: "bitmap \<Rightarrow> nat \<Rightarrow> bool res" where
  "bitmap_isset b index =
     (let (ix, mask) = bitmap_translate index
      in bindR (bitmap_word b ix) (\<lambda>w. Inr (w AND mask \<noteq> 0)))"

fun nr_loop :: "bitmap \<Rightarrow> nat \<Rightarrow> nat \<Rightarrow> nat \<Rightarrow> nat res" where
  "nr_loop b i 0 nr = Inr nr"
| "nr_loop b i (Suc k) nr =
     bindR (bitmap_isset b i) (\<lambda>set. nr_loop b (Suc i) k (if set then Suc nr else nr))"

definition bitmap_nr_allocated :: "bitmap \<Rightarrow> nat res" where
  "bitmap_nr_allocated b = nr_loop b 0 (unat (nbits b)) 0"

section \<open>The set of indices in use\<close>

definition cap :: "bitmap \<Rightarrow> nat" where
  "cap b = unat (nbits b)"

definition bit_at :: "bitmap \<Rightarrow> nat \<Rightarrow> bool" where
  "bit_at b i \<longleftrightarrow> bit (bv b ! (i div 8)) (i mod 8)"

definition used :: "bitmap \<Rightarrow> nat set" where
  "used b = {i. i < cap b \<and> bit_at b i}"

text \<open>The array has the right size, and the bits behind the last index are set.\<close>

definition bm_ok :: "bitmap \<Rightarrow> bool" where
  "bm_ok b \<longleftrightarrow> cap b + 8 \<le> 2 ^ 32 \<and> length (bv b) = (cap b + 7) div 8 \<and>
     (\<forall>i. cap b \<le> i \<longrightarrow> i < 8 * length (bv b) \<longrightarrow> bit_at b i)"

lemma mask_zero: "n < 8 \<Longrightarrow> (w :: 8 word) AND push_bit n 1 = 0 \<longleftrightarrow> \<not> bit w n"
  by (simp add: and_exp_eq_0_iff_not_bit)

lemma all_bits: "(w :: 8 word) = WORD_ALLBITS \<longleftrightarrow> (\<forall>n<8. bit w n)"
proof -
  have "WORD_ALLBITS = - 1" by (simp add: WORD_ALLBITS_def)
  then show ?thesis by (auto simp: bit_eq_iff)
qed

lemma words_of_nat: "cap b + 8 \<le> 2 ^ 32 \<Longrightarrow> unat (words_of (nbits b)) = (cap b + 7) div 8"
proof -
  assume a: "cap b + 8 \<le> 2 ^ 32"
  have "nbits b + 8 - 1 = nbits b + 7" by simp
  moreover have "unat (nbits b + 7) = cap b + 7" using a by (subst unat_add_lem[THEN iffD1]) (auto simp: cap_def)
  moreover have "unat (8 :: 32 word) = 8" by simp
  ultimately show ?thesis by (simp only: words_of_def unat_div)
qed

lemma bm_ok_index: "bm_ok b \<Longrightarrow> i < cap b \<Longrightarrow> i div 8 < length (bv b)"
  by (auto simp: bm_ok_def)

lemma bit_at_update:
  "ix < length (bv b) \<Longrightarrow> bit_at (b\<lparr>bv := (bv b)[ix := w]\<rparr>) i \<longleftrightarrow> (if i div 8 = ix then bit w (i mod 8) else bit_at b i)"
  by (simp add: bit_at_def nth_list_update)

lemma bit_mask: "n < 8 \<Longrightarrow> bit (2 ^ n :: 8 word) m \<longleftrightarrow> m = n"
  by (auto simp: bit_exp_iff)

lemma div_mod_8: "i = j \<longleftrightarrow> i div 8 = j div 8 \<and> i mod 8 = (j mod 8 :: nat)"
  by (metis div_mod_decomp)

lemma set_bit_at:
  assumes "bm_ok b" and "i < cap b" and "ix = i div 8" and "w = bv b ! ix OR push_bit (i mod 8) 1"
  shows "bm_ok (b\<lparr>bv := (bv b)[ix := w]\<rparr>)" and "used (b\<lparr>bv := (bv b)[ix := w]\<rparr>) = insert i (used b)"
    and "cap (b\<lparr>bv := (bv b)[ix := w]\<rparr>) = cap b"
proof -
  let ?b = "b\<lparr>bv := (bv b)[ix := w]\<rparr>"
  show c: "cap ?b = cap b" by (simp add: cap_def)
  have b: "bit_at ?b j \<longleftrightarrow> j = i \<or> bit_at b j" for j
    using bm_ok_index[OF assms(1,2)] assms(3,4) bit_mask[of "i mod 8" "j mod 8"]
    by (subst bit_at_update) (auto simp: bit_or_iff bit_at_def div_mod_8[of j i])
  show "bm_ok ?b" using assms(1) b c by (auto simp: bm_ok_def)
  show "used ?b = insert i (used b)" using b c assms(2) by (auto simp: used_def)
qed

lemma clear_bit_at:
  assumes "bm_ok b" and "i < cap b" and "ix = i div 8" and "w = bv b ! ix AND NOT (push_bit (i mod 8) 1)"
  shows "bm_ok (b\<lparr>bv := (bv b)[ix := w]\<rparr>)" and "used (b\<lparr>bv := (bv b)[ix := w]\<rparr>) = used b - {i}"
    and "cap (b\<lparr>bv := (bv b)[ix := w]\<rparr>) = cap b"
proof -
  let ?b = "b\<lparr>bv := (bv b)[ix := w]\<rparr>"
  show c: "cap ?b = cap b" by (simp add: cap_def)
  have b: "bit_at ?b j \<longleftrightarrow> j \<noteq> i \<and> bit_at b j" for j
    using bm_ok_index[OF assms(1,2)] assms(3,4) bit_mask[of "i mod 8" "j mod 8"]
    by (subst bit_at_update) (auto simp: bit_and_iff bit_not_iff bit_at_def div_mod_8[of j i])
  show "bm_ok ?b" using assms(1,2) b c by (auto simp: bm_ok_def)
  show "used ?b = used b - {i}" using b c by (auto simp: used_def)
qed

lemma find_clear:
  assumes "(w :: 8 word) \<noteq> WORD_ALLBITS"
  shows "\<exists>n<8. List.find (\<lambda>offset. w AND push_bit offset 1 = 0) [0..<BITS_PER_WORD] = Some n \<and>
    \<not> bit w n \<and> (\<forall>m<n. bit w m)"
proof -
  obtain n where "n < 8" "\<not> bit w n" using assms all_bits by blast
  then have ne: "List.find (\<lambda>offset. w AND push_bit offset 1 = 0) [0..<8] \<noteq> None"
    by (auto simp: find_None_iff and_exp_eq_0_iff_not_bit)
  then obtain n where n: "List.find (\<lambda>offset. w AND push_bit offset 1 = 0) [0..<8] = Some n" by blast
  then have "n < 8 \<and> \<not> bit w n \<and> (\<forall>m<n. bit w m)" by (auto simp: find_Some_iff and_exp_eq_0_iff_not_bit)
  with n show ?thesis by (intro exI[of _ n]) (simp add: BITS_PER_WORD_def)
qed

lemma alloc_loop_spec:
  assumes "bm_ok b"
  shows "ix + k = length (bv b) \<Longrightarrow> (\<forall>j < 8 * ix. bit_at b j) \<Longrightarrow>
    (if used b = {..<cap b} then alloc_loop b ix k = Inr (None, b)
     else \<exists>i. i < cap b \<and> i \<notin> used b \<and> (\<forall>j<i. j \<in> used b) \<and>
       alloc_loop b ix k = Inr (Some i, b\<lparr>bv := (bv b)[i div 8 := bv b ! (i div 8) OR push_bit (i mod 8) 1]\<rparr>))"
proof (induction k arbitrary: ix)
  case 0
  have "cap b \<le> 8 * ix" using 0 assms by (simp add: bm_ok_def)
  then have "used b = {..<cap b}" using 0 by (auto simp: used_def)
  then show ?case by simp
next
  case (Suc k)
  show ?case
  proof (cases "bv b ! ix = WORD_ALLBITS")
    case True
    have "bit_at b j" if "j < 8 * Suc ix" for j
    proof (cases "j < 8 * ix")
      case False
      then have "j div 8 = ix" using that by auto
      then show ?thesis using True all_bits[of "bv b ! ix"] by (auto simp: bit_at_def)
    qed (use Suc.prems(2) in simp)
    then have a: "\<forall>j < 8 * Suc ix. bit_at b j" by blast
    have l: "Suc ix + k = length (bv b)" using Suc.prems(1) by simp
    have "alloc_loop b ix (Suc k) = alloc_loop b (Suc ix) k" using Suc.prems(1) True by simp
    then show ?thesis using Suc.IH[OF l a] by (simp only:)
  next
    case False
    then obtain n where n: "n < 8" "List.find (\<lambda>offset. bv b ! ix AND push_bit offset 1 = 0) [0..<BITS_PER_WORD] = Some n"
      "\<not> bit (bv b ! ix) n" "\<forall>m<n. bit (bv b ! ix) m" using find_clear by blast
    define i where "i = ix * 8 + n"
    have d: "i div 8 = ix" "i mod 8 = n" using n(1) by (simp_all add: i_def)
    have nb: "\<not> bit_at b i" using n(3) d by (simp add: bit_at_def)
    have "i < 8 * length (bv b)" using n(1) Suc.prems(1) by (simp add: i_def)
    then have ic: "i < cap b" using nb assms unfolding bm_ok_def by (meson not_less)
    have all: "bit_at b j" if "j < i" for j
    proof (cases "j < 8 * ix")
      case False
      then have d: "j div 8 = ix" using that n(1) by (auto simp: i_def)
      have "j mod 8 = j - 8 * ix" using minus_mult_div_eq_mod[of j 8] d by simp
      then have "j mod 8 < n" using that False by (simp add: i_def)
      then show ?thesis using n(4) d by (simp add: bit_at_def)
    qed (use Suc.prems(2) in simp)
    have u: "i \<notin> used b" "\<forall>j<i. j \<in> used b" using nb all ic by (auto simp: used_def)
    moreover have "used b \<noteq> {..<cap b}" using u(1) ic by auto
    moreover have "alloc_loop b ix (Suc k) = Inr (Some i, b\<lparr>bv := (bv b)[ix := bv b ! ix OR push_bit n 1]\<rparr>)"
      using False n(2) ic Suc.prems(1) by (simp add: i_def BITS_PER_WORD_def cap_def)
    ultimately show ?thesis using ic d by auto
  qed
qed

lemma bitmap_alloc_spec:
  assumes "bm_ok b"
  shows "if used b = {..<cap b} then bitmap_alloc b = Inr (None, b)
    else \<exists>i. i < cap b \<and> i \<notin> used b \<and> (\<forall>j<i. j \<in> used b) \<and>
      bitmap_alloc b = Inr (Some i, b\<lparr>bv := (bv b)[i div 8 := bv b ! (i div 8) OR push_bit (i mod 8) 1]\<rparr>)"
proof -
  have "unat (words_of (nbits b)) = length (bv b)" using assms words_of_nat[of b] by (simp add: bm_ok_def)
  moreover have "0 + length (bv b) = length (bv b)" "\<forall>j < 8 * 0. bit_at b j" by simp_all
  note alloc_loop_spec[OF assms this]
  ultimately show ?thesis by (simp only: bitmap_alloc_def)
qed

lemma bitmap_word_eq: "bm_ok b \<Longrightarrow> i < cap b \<Longrightarrow> bitmap_word b (i div 8) = Inr (bv b ! (i div 8))"
  using bm_ok_index by (simp add: bitmap_word_def)

lemma bitmap_isset_spec: "bm_ok b \<Longrightarrow> i < cap b \<Longrightarrow> bitmap_isset b i = Inr (i \<in> used b)"
  by (simp add: bitmap_isset_def bitmap_translate_def BITS_PER_WORD_def bitmap_word_eq and_exp_eq_0_iff_not_bit
      used_def bit_at_def)

lemma bitmap_unmark_spec:
  assumes "bm_ok b" and "i < cap b"
  shows "bitmap_unmark b i = (if i \<in> used b
    then Inr (b\<lparr>bv := (bv b)[i div 8 := bv b ! (i div 8) AND NOT (push_bit (i mod 8) 1)]\<rparr>) else Inl Assert_failed)"
  using assms by (simp add: bitmap_unmark_def bitmap_translate_def BITS_PER_WORD_def bitmap_word_eq and_exp_eq_0_iff_not_bit
      used_def bit_at_def cap_def assertR_def)

lemma bitmap_mark_spec:
  assumes "bm_ok b" and "i < cap b"
  shows "bitmap_mark b i = (if i \<in> used b then Inl Assert_failed
    else Inr (b\<lparr>bv := (bv b)[i div 8 := bv b ! (i div 8) OR push_bit (i mod 8) 1]\<rparr>))"
  using assms by (simp add: bitmap_mark_def bitmap_translate_def BITS_PER_WORD_def bitmap_word_eq and_exp_eq_0_iff_not_bit
      used_def bit_at_def cap_def assertR_def)

lemma nr_loop_spec:
  assumes "bm_ok b"
  shows "i + k = cap b \<Longrightarrow> nr_loop b i k nr = Inr (nr + card {j. i \<le> j \<and> j \<in> used b})"
proof (induction k arbitrary: i nr)
  case 0
  then have "{j. i \<le> j \<and> j \<in> used b} = {}" by (auto simp: used_def)
  then show ?case by (simp only: nr_loop.simps card.empty add_0_right)
next
  case (Suc k)
  have f: "finite {j. Suc i \<le> j \<and> j \<in> used b}"
    by (rule finite_subset[of _ "{..<cap b}"]) (auto simp: used_def)
  have "{j. i \<le> j \<and> j \<in> used b} = (if i \<in> used b then insert i {j. Suc i \<le> j \<and> j \<in> used b} else {j. Suc i \<le> j \<and> j \<in> used b})"
    by (auto simp: le_eq_less_or_eq)
  then have "card {j. i \<le> j \<and> j \<in> used b} = (if i \<in> used b then Suc (card {j. Suc i \<le> j \<and> j \<in> used b}) else card {j. Suc i \<le> j \<and> j \<in> used b})"
    using f by simp
  then show ?case using Suc.IH[of "Suc i"] Suc.prems bitmap_isset_spec[OF assms, of i] by auto
qed

lemma foldl_or_bits: "bit (foldl (\<lambda>w j. w OR push_bit j 1) (w :: 8 word) js) n \<longleftrightarrow> bit w n \<or> (n \<in> set js \<and> n < 8)"
  by (induction js arbitrary: w) (auto simp: bit_or_iff bit_exp_iff)

lemma divroundup: "(m :: nat) mod 8 \<noteq> 0 \<Longrightarrow> (m + 7) div 8 = Suc (m div 8)" "(m :: nat) mod 8 = 0 \<Longrightarrow> (m + 7) div 8 = m div 8"
proof -
  define q r where "q = m div 8" and "r = m mod 8"
  have m: "m = 8 * q + r" "r < 8" by (simp_all add: q_def r_def)
  have "(m + 7) div 8 = q + (r + 7) div 8" using m(1) by simp
  moreover have "0 < r \<Longrightarrow> (r + 7) div 8 = 1" using m(2) by (auto simp: div_nat_eqI)
  ultimately show "m mod 8 \<noteq> 0 \<Longrightarrow> (m + 7) div 8 = Suc (m div 8)" "m mod 8 = 0 \<Longrightarrow> (m + 7) div 8 = m div 8"
    unfolding r_def[symmetric] q_def[symmetric] by auto
qed

lemma create_parts:
  assumes "unat n + 8 \<le> 2 ^ 32"
  shows "unat (words_of n) = (unat n + 7) div 8" and "n div 8 < words_of n \<longleftrightarrow> unat n mod 8 \<noteq> 0"
    and "unat n mod 8 \<noteq> 0 \<Longrightarrow> n div 8 = words_of n - 1 \<and> unat (words_of n - 1) = unat n div 8 \<and>
      n - (words_of n - 1) * 8 = of_nat (unat n mod 8)"
proof -
  have w: "unat (words_of n) = (unat n + 7) div 8" using words_of_nat[of "\<lparr>nbits = n, bv = []\<rparr>"] assms by (simp add: cap_def)
  then show "unat (words_of n) = (unat n + 7) div 8" .
  have u8: "unat (8 :: 32 word) = 8" by simp
  have d: "unat (n div 8) = unat n div 8" unfolding unat_div u8 ..
  show "n div 8 < words_of n \<longleftrightarrow> unat n mod 8 \<noteq> 0"
    unfolding word_less_nat_alt w d using divroundup[of "unat n"] by (cases "unat n mod 8 = 0") auto
  assume m: "unat n mod 8 \<noteq> 0"
  then have "(unat n + 7) div 8 = Suc (unat n div 8)" by (rule divroundup)
  then have e: "words_of n = n div 8 + 1" using w d by (metis of_nat_Suc of_nat_unat add.commute ucast_id)
  have "n - (n div 8) * 8 = n mod 8" by (metis minus_div_mult_eq_mod)
  moreover have "n mod 8 = of_nat (unat n mod 8)"
  proof -
    have "unat (n mod 8) = unat n mod 8" unfolding unat_mod u8 ..
    then show ?thesis by (metis of_nat_unat ucast_id)
  qed
  ultimately show "n div 8 = words_of n - 1 \<and> unat (words_of n - 1) = unat n div 8 \<and>
      n - (words_of n - 1) * 8 = of_nat (unat n mod 8)" using e d by simp
qed

lemma bitmap_create_spec:
  assumes "unat n + 8 \<le> 2 ^ 32"
  shows "\<exists>b. bitmap_create True True n = Inr (0, Some b) \<and> bm_ok b \<and> used b = {} \<and> cap b = unat n"
proof (cases "unat n mod 8 = 0")
  case True
  define b where "b = \<lparr>nbits = n, bv = replicate (unat (words_of n)) (0 :: 8 word)\<rparr>"
  have "bitmap_create True True n = Inr (0, Some b)"
    using create_parts(2)[OF assms] True by (simp add: bitmap_create_def Let_def b_def)
  moreover have "length (bv b) = (cap b + 7) div 8" "8 * length (bv b) = cap b" "cap b = unat n"
    using create_parts(1)[OF assms] True by (auto simp: b_def cap_def)
  moreover have "\<not> bit_at b i" if "i < cap b" for i
    using that calculation(3) \<open>8 * length (bv b) = cap b\<close> by (auto simp: bit_at_def b_def)
  ultimately show ?thesis using assms by (intro exI[of _ b]) (auto simp: bm_ok_def used_def)
next
  case False
  note p = create_parts[OF assms]
  let ?ix = "unat n div 8"
  let ?w = "foldl (\<lambda>w j. w OR push_bit j 1) (0 :: 8 word) [unat n mod 8..<8]"
  define b where "b = \<lparr>nbits = n, bv = (replicate (unat (words_of n)) 0)[?ix := ?w]\<rparr>"
  have ix: "?ix < unat (words_of n)" "unat (words_of n) = Suc ?ix" using p(1) divroundup(1)[OF False] by simp_all
  have o: "unat (of_nat (unat n mod 8) :: 32 word) = unat n mod 8" by (simp add: unat_of_nat)
  then have "(of_nat (unat n mod 8) :: 32 word) > 0 \<and> (of_nat (unat n mod 8) :: 32 word) < 8"
    using False by (simp add: word_less_nat_alt)
  then have "bitmap_create True True n = Inr (0, Some b)"
    using p(2) p(3)[OF False] False o ix(1) by (simp add: bitmap_create_def Let_def b_def BITS_PER_WORD_def)
  moreover have l: "length (bv b) = (cap b + 7) div 8" "cap b = unat n" "length (bv b) = Suc ?ix"
    using p(1) ix by (auto simp: b_def cap_def)
  moreover have "bit_at b i \<longleftrightarrow> unat n \<le> i" if "i < 8 * length (bv b)" for i
  proof (cases "i div 8 = ?ix")
    case True
    then have "bv b ! (i div 8) = ?w" using ix(1) by (simp add: b_def)
    moreover have "unat n mod 8 \<le> i mod 8 \<longleftrightarrow> unat n \<le> i" using True by (metis div_mult_mod_eq nat_add_left_cancel_le)
    ultimately show ?thesis by (simp only: bit_at_def foldl_or_bits) auto
  next
    case ne: False
    have "i div 8 < length (bv b)" using that by (intro less_mult_imp_div_less) (simp add: mult.commute)
    then have "i div 8 < ?ix" using ne l(3) by simp
    moreover have "\<not> unat n \<le> i" using calculation by (meson div_le_mono leD)
    moreover have "bv b ! (i div 8) = replicate (unat (words_of n)) 0 ! (i div 8)"
      unfolding b_def bitmap.simps using ne by (intro nth_list_update_neq) simp
    moreover have "replicate (unat (words_of n)) 0 ! (i div 8) = (0 :: 8 word)"
      using calculation(1) ix(1) by (intro nth_replicate) simp
    ultimately show ?thesis by (simp only: bit_at_def bit_0_eq) simp
  qed
  ultimately show ?thesis using assms by (intro exI[of _ b]) (auto simp: bm_ok_def used_def)
qed

section \<open>The interface\<close>

text \<open>A pool of indices, as the super block uses it.\<close>

locale freemap =
  fixes ok :: "'b \<Rightarrow> bool"
    and inuse :: "'b \<Rightarrow> nat set"
    and size_of_map :: "'b \<Rightarrow> nat"
    and alloc :: "'b \<Rightarrow> (nat option \<times> 'b) res"
    and unmark :: "'b \<Rightarrow> nat \<Rightarrow> 'b res"
  assumes inuse_bound: "ok b \<Longrightarrow> inuse b \<subseteq> {..<size_of_map b}"
    and alloc_full: "ok b \<Longrightarrow> inuse b = {..<size_of_map b} \<Longrightarrow> alloc b = Inr (None, b)"
    and alloc_least: "ok b \<Longrightarrow> inuse b \<noteq> {..<size_of_map b} \<Longrightarrow>
      \<exists>i b'. alloc b = Inr (Some i, b') \<and> i < size_of_map b \<and> i \<notin> inuse b \<and> (\<forall>j<i. j \<in> inuse b) \<and>
        ok b' \<and> inuse b' = insert i (inuse b) \<and> size_of_map b' = size_of_map b"
    and unmark_used: "ok b \<Longrightarrow> i \<in> inuse b \<Longrightarrow>
      \<exists>b'. unmark b i = Inr b' \<and> ok b' \<and> inuse b' = inuse b - {i} \<and> size_of_map b' = size_of_map b"
    and unmark_free: "ok b \<Longrightarrow> i \<notin> inuse b \<Longrightarrow> unmark b i = Inl Assert_failed"
begin

lemma finite_inuse: "ok b \<Longrightarrow> finite (inuse b)"
  using inuse_bound finite_subset by blast

lemma card_inuse: "ok b \<Longrightarrow> card (inuse b) \<le> size_of_map b"
  using card_mono[OF finite_lessThan inuse_bound] by simp

lemma full_iff: "ok b \<Longrightarrow> inuse b = {..<size_of_map b} \<longleftrightarrow> card (inuse b) = size_of_map b"
  using card_subset_eq[OF finite_lessThan inuse_bound[of b]] by (metis card_lessThan)

lemma alloc_cases:
  assumes "ok b"
  obtains (full) "alloc b = Inr (None, b)" "card (inuse b) = size_of_map b"
  | (index) i b' where "alloc b = Inr (Some i, b')" "i < size_of_map b" "i \<notin> inuse b" "ok b'"
      "inuse b' = insert i (inuse b)" "size_of_map b' = size_of_map b" "card (inuse b') = Suc (card (inuse b))"
      "(\<forall>j<i. j \<in> inuse b)"
proof (cases "inuse b = {..<size_of_map b}")
  case True
  then show ?thesis using full alloc_full[OF assms] full_iff[OF assms] by blast
next
  case False
  then show ?thesis using index alloc_least[OF assms] finite_inuse[OF assms] by fastforce
qed

lemma unmark_cases:
  assumes "ok b"
  obtains (free) "unmark b i = Inl Assert_failed" "i \<notin> inuse b"
  | (used) b' where "unmark b i = Inr b'" "i \<in> inuse b" "ok b'" "inuse b' = inuse b - {i}"
      "size_of_map b' = size_of_map b" "Suc (card (inuse b')) = card (inuse b)"
proof (cases "i \<in> inuse b")
  case False
  then show ?thesis using free unmark_free[OF assms] by blast
next
  case True
  then have "Suc (card (inuse b - {i})) = card (inuse b)"
    using finite_inuse[OF assms] by (metis card_Suc_Diff1)
  then show ?thesis using used True unmark_used[OF assms True] by metis
qed

text \<open>Allocating and releasing gives the same pool back.\<close>

lemma alloc_unmark:
  assumes "ok b" and "alloc b = Inr (Some i, b')"
  shows "\<exists>b''. unmark b' i = Inr b'' \<and> ok b'' \<and> inuse b'' = inuse b"
proof (rule alloc_cases[OF assms(1)])
  fix j c assume a: "alloc b = Inr (Some j, c)" "ok c" "inuse c = insert j (inuse b)" "j \<notin> inuse b"
  then have "\<exists>b''. unmark c j = Inr b'' \<and> ok b'' \<and> inuse b'' = inuse c - {j}" using unmark_used by blast
  with a assms(2) show ?thesis by auto
qed (use assms(2) in auto)

end

interpretation bm: freemap bm_ok used cap bitmap_alloc bitmap_unmark
proof (unfold_locales, goal_cases)
  case (1 b)
  then show ?case by (auto simp: used_def)
next
  case (2 b)
  then show ?case using bitmap_alloc_spec by simp
next
  case (3 b)
  then obtain i where "i < cap b" "i \<notin> used b" "\<forall>j<i. j \<in> used b"
    "bitmap_alloc b = Inr (Some i, b\<lparr>bv := (bv b)[i div 8 := bv b ! (i div 8) OR push_bit (i mod 8) 1]\<rparr>)"
    using bitmap_alloc_spec[OF 3(1)] by (auto split: if_splits)
  then show ?case using set_bit_at[OF 3(1) _ refl refl, of i] by blast
next
  case (4 b i)
  then have "i < cap b" by (simp add: used_def)
  then show ?case using 4 bitmap_unmark_spec[OF 4(1)] clear_bit_at[OF 4(1) _ refl refl, of i] by auto
next
  case (5 b i)
  then show ?case
    using bitmap_unmark_spec[OF 5(1), of i] by (cases "i < cap b") (auto simp: bitmap_unmark_def cap_def assertR_def)
qed

section \<open>Properties\<close>

text \<open>
  C28. A bitmap of up to \<open>2 ^ 32 - 8\<close> bits implements a set of indices below its size. A new one is
  empty although the bits behind the last index are set; \<open>bitmap_alloc\<close> takes the least free index
  and fails only if all are in use, and its assertions never fail; \<open>bitmap_mark\<close> and
  \<open>bitmap_unmark\<close> insert and delete, and assert that the index was free or in use;
  \<open>bitmap_isset\<close> is membership and \<open>bitmap_nr_allocated\<close> the size of the set.
\<close>

theorem bitmap_refines_set:
  assumes "unat n + 8 \<le> 2 ^ 32" and "bm_ok b" and "i < cap b"
  shows "(\<exists>b0. bitmap_create True True n = Inr (0, Some b0) \<and> bm_ok b0 \<and> used b0 = {} \<and> cap b0 = unat n) \<and>
    (if used b = {..<cap b} then bitmap_alloc b = Inr (None, b)
     else \<exists>b'. bitmap_alloc b = Inr (Some (LEAST j. j \<notin> used b), b') \<and> bm_ok b' \<and> cap b' = cap b \<and>
       used b' = insert (LEAST j. j \<notin> used b) (used b)) \<and>
    (if i \<in> used b then bitmap_mark b i = Inl Assert_failed
     else \<exists>b'. bitmap_mark b i = Inr b' \<and> bm_ok b' \<and> cap b' = cap b \<and> used b' = insert i (used b)) \<and>
    (if i \<in> used b then \<exists>b'. bitmap_unmark b i = Inr b' \<and> bm_ok b' \<and> cap b' = cap b \<and> used b' = used b - {i}
     else bitmap_unmark b i = Inl Assert_failed) \<and>
    bitmap_isset b i = Inr (i \<in> used b) \<and> bitmap_nr_allocated b = Inr (card (used b))"
proof (intro conjI, goal_cases)
  case 1
  show ?case using bitmap_create_spec[OF assms(1)] .
next
  case 2
  have "(LEAST j. j \<notin> used b) = k" if "k \<notin> used b" "\<forall>j<k. j \<in> used b" for k
    using that by (intro Least_equality) (auto simp: not_le[symmetric])
  then show ?case
    using bm.alloc_full[OF assms(2)] bm.alloc_least[OF assms(2)] by (cases "used b = {..<cap b}") (simp, metis)
next
  case 3
  show ?case using bitmap_mark_spec[OF assms(2,3)] set_bit_at[OF assms(2,3) refl refl] by auto
next
  case 4
  show ?case using bm.unmark_used[OF assms(2), of i] bm.unmark_free[OF assms(2), of i] by (cases "i \<in> used b") auto
next
  case 5
  show ?case using bitmap_isset_spec[OF assms(2,3)] .
next
  case 6
  show ?case using nr_loop_spec[OF assms(2), of 0 "cap b" 0] by (simp add: bitmap_nr_allocated_def cap_def)
qed

theorem bitmap_refines_set_witness:
  "bitmap_alloc \<lparr>nbits = 10, bv = [0xff, 0xfd]\<rparr> = Inr (Some 9, \<lparr>nbits = 10, bv = [0xff, 0xff]\<rparr>) \<and>
   bitmap_nr_allocated \<lparr>nbits = 10, bv = [0xff, 0xfd]\<rparr> = Inr 9"
proof
  let ?b = "\<lparr>nbits = 10, bv = [0xff, 0xfd]\<rparr> :: bitmap"
  show "bitmap_alloc ?b = Inr (Some 9, \<lparr>nbits = 10, bv = [0xff, 0xff]\<rparr>)" by code_simp
  have c: "cap ?b = 10" by (simp add: cap_def)
  have "bit_at ?b i" if "10 \<le> i" "i < 16" for i
  proof -
    have "i \<in> {10, 11, 12, 13, 14, 15}" using that by auto
    then show ?thesis by (auto simp: bit_at_def)
  qed
  then have ok: "bm_ok ?b" using c by (auto simp: bm_ok_def)
  have "used ?b = set (filter (bit_at ?b) [0..<10])" using c by (auto simp: used_def)
  moreover have "filter (bit_at ?b) [0..<10] = [0..<9]" by code_simp
  ultimately have "card (used ?b) = 9" by (simp only: set_upt card_atLeastLessThan)
  then show "bitmap_nr_allocated ?b = Inr 9" using bitmap_refines_set[OF _ ok, of 16 0] c by simp
qed

end
