(* ===== verification/FsDisk.thy ===== *)
theory FsDisk
  imports Bitmap
begin

text \<open>
  The byte level of the file system in fs/: little-endian numbers, the structures on disk
  (fs/super.h, fs/inode.h, fs/dir.h) and the block device of fs/block.c. A device is the list of
  its blocks; seeking before its start, or reading behind its end, ends the program; writing
  behind its end leaves a hole of zeros.
\<close>

type_synonym byte = "8 word"

definition BLOCK_SIZE :: nat where "BLOCK_SIZE = 8192"

section \<open>Numbers\<close>

fun le_enc :: "nat \<Rightarrow> nat \<Rightarrow> byte list" where
  "le_enc 0 x = []"
| "le_enc (Suc k) x = of_nat (x mod 256) # le_enc k (x div 256)"

fun le_dec :: "byte list \<Rightarrow> nat" where
  "le_dec [] = 0"
| "le_dec (b # bs) = unat b + 256 * le_dec bs"

definition wrap64 :: "int \<Rightarrow> int" where
  "wrap64 x = sint (word_of_int x :: 64 word)"

definition enc_u32 :: "int \<Rightarrow> byte list" where "enc_u32 x = le_enc 4 (nat (x mod 2 ^ 32))"
definition dec_u32 :: "byte list \<Rightarrow> int" where "dec_u32 bs = int (le_dec (take 4 bs))"
definition dec_s32 :: "byte list \<Rightarrow> int" where "dec_s32 bs = wrap32 (int (le_dec (take 4 bs)))"
definition enc_u64 :: "int \<Rightarrow> byte list" where "enc_u64 x = le_enc 8 (nat (x mod 2 ^ 64))"
definition dec_u64 :: "byte list \<Rightarrow> int" where "dec_u64 bs = int (le_dec (take 8 bs))"
definition dec_s64 :: "byte list \<Rightarrow> int" where "dec_s64 bs = wrap64 (int (le_dec (take 8 bs)))"

lemma length_le_enc [simp]: "length (le_enc k x) = k"
  by (induction k arbitrary: x) auto

lemma le_dec_enc: "le_dec (le_enc k x) = x mod 256 ^ k"
proof (induction k arbitrary: x)
  case (Suc k)
  have "unat (of_nat (x mod 256) :: byte) = x mod 256" by (simp add: unat_of_nat)
  then show ?case using Suc by (simp add: mod_mult2_eq)
qed simp

lemma le_enc_dec: "length bs = k \<Longrightarrow> le_enc k (le_dec bs) = bs"
proof (induction bs arbitrary: k)
  case (Cons b bs)
  have "unat b < 256" using unsigned_less[of b, where ?'a = nat] by simp
  then have "(unat b + 256 * le_dec bs) mod 256 = unat b" "(unat b + 256 * le_dec bs) div 256 = le_dec bs" by simp_all
  then show ?case using Cons by (cases k) auto
qed simp

lemma length_enc [simp]: "length (enc_u32 x) = 4" "length (enc_u64 x) = 8"
  by (simp_all add: enc_u32_def enc_u64_def)

definition s32 :: "int \<Rightarrow> bool" where "s32 x \<longleftrightarrow> - (2 ^ 31) \<le> x \<and> x < 2 ^ 31"
definition u32 :: "int \<Rightarrow> bool" where "u32 x \<longleftrightarrow> 0 \<le> x \<and> x < 2 ^ 32"
definition s64 :: "int \<Rightarrow> bool" where "s64 x \<longleftrightarrow> - (2 ^ 63) \<le> x \<and> x < 2 ^ 63"
definition u64 :: "int \<Rightarrow> bool" where "u64 x \<longleftrightarrow> 0 \<le> x \<and> x < 2 ^ 64"

lemma wrap64_id: "s64 x \<Longrightarrow> wrap64 x = x"
  by (simp add: s64_def wrap64_def signed_of_int signed_take_bit_int_eq_self)

lemma wrap_mod: "wrap32 (x mod 2 ^ 32) = wrap32 x" "wrap64 (x mod 2 ^ 64) = wrap64 x"
  "wrap32 x mod 2 ^ 32 = x mod 2 ^ 32" "wrap64 x mod 2 ^ 64 = x mod 2 ^ 64"
  by (simp_all add: wrap32_def wrap64_def int_word_sint mod_add_left_eq mod_diff_left_eq)

lemma le_enc_mod:
  "int (le_dec (le_enc 4 (nat (x mod 2 ^ 32)))) = x mod 2 ^ 32" "int (le_dec (le_enc 8 (nat (x mod 2 ^ 64)))) = x mod 2 ^ 64"
proof -
  have "nat (x mod 2 ^ 32) < 256 ^ 4" "nat (x mod 2 ^ 64) < 256 ^ 8"
    using pos_mod_bound[of "2 ^ 32" x] pos_mod_bound[of "2 ^ 64" x] by (simp_all add: nat_less_iff)
  then show "int (le_dec (le_enc 4 (nat (x mod 2 ^ 32)))) = x mod 2 ^ 32"
    "int (le_dec (le_enc 8 (nat (x mod 2 ^ 64)))) = x mod 2 ^ 64" by (simp_all only: le_dec_enc mod_less) simp_all
qed

lemma dec_enc:
  "u32 x \<Longrightarrow> dec_u32 (enc_u32 x @ r) = x" "s32 x \<Longrightarrow> dec_s32 (enc_u32 x @ r) = x"
  "u64 x \<Longrightarrow> dec_u64 (enc_u64 x @ r) = x" "s64 x \<Longrightarrow> dec_s64 (enc_u64 x @ r) = x"
  unfolding dec_u32_def dec_s32_def dec_u64_def dec_s64_def enc_u32_def enc_u64_def
  by (simp_all only: append_eq_conv_conj take_append length_le_enc diff_self_eq_0 take_0 append_Nil2 take_all order_refl
      le_enc_mod wrap_mod(1,2))
     (simp_all add: u32_def s32_def u64_def wrap32_id wrap64_id)

lemma le_dec_bound: "le_dec bs < 256 ^ length bs"
proof (induction bs)
  case (Cons b bs)
  have "unat b < 256" using unsigned_less[of b, where ?'a = nat] by simp
  with Cons show ?case by simp
qed simp

lemma enc_dec:
  "4 \<le> length bs \<Longrightarrow> enc_u32 (dec_s32 bs) = take 4 bs" "4 \<le> length bs \<Longrightarrow> enc_u32 (dec_u32 bs) = take 4 bs"
  "8 \<le> length bs \<Longrightarrow> enc_u64 (dec_s64 bs) = take 8 bs" "8 \<le> length bs \<Longrightarrow> enc_u64 (dec_u64 bs) = take 8 bs"
proof -
  have 4: "int (le_dec (take 4 bs)) mod 2 ^ 32 = int (le_dec (take 4 bs))" if "4 \<le> length bs"
    using le_dec_bound[of "take 4 bs"] that by simp
  have 8: "int (le_dec (take 8 bs)) mod 2 ^ 64 = int (le_dec (take 8 bs))" if "8 \<le> length bs"
    using le_dec_bound[of "take 8 bs"] that by simp
  show "4 \<le> length bs \<Longrightarrow> enc_u32 (dec_s32 bs) = take 4 bs" "4 \<le> length bs \<Longrightarrow> enc_u32 (dec_u32 bs) = take 4 bs"
    unfolding enc_u32_def dec_s32_def dec_u32_def wrap_mod using 4 by (simp_all only: nat_int) (simp_all add: le_enc_dec)
  show "8 \<le> length bs \<Longrightarrow> enc_u64 (dec_s64 bs) = take 8 bs" "8 \<le> length bs \<Longrightarrow> enc_u64 (dec_u64 bs) = take 8 bs"
    unfolding enc_u64_def dec_s64_def dec_u64_def wrap_mod using 8 by (simp_all only: nat_int) (simp_all add: le_enc_dec)
qed

section \<open>Structures on disk\<close>

record dsuper_block =
  inode_freemap_start :: int
  block_freemap_start :: int
  inode_blocks_start :: int
  data_blocks_start :: int
  used_inode_count :: int
  used_block_count :: int
  max_fs_blocks :: int

definition enc_super :: "dsuper_block \<Rightarrow> byte list" where
  "enc_super d = enc_u32 (inode_freemap_start d) @ enc_u32 (block_freemap_start d) @ enc_u32 (inode_blocks_start d) @
     enc_u32 (data_blocks_start d) @ enc_u32 (used_inode_count d) @ enc_u32 (used_block_count d) @ enc_u64 (max_fs_blocks d)"

definition dec_super :: "byte list \<Rightarrow> dsuper_block" where
  "dec_super bs = \<lparr>inode_freemap_start = dec_u32 bs, block_freemap_start = dec_u32 (drop 4 bs),
     inode_blocks_start = dec_u32 (drop 8 bs), data_blocks_start = dec_u32 (drop 12 bs),
     used_inode_count = dec_u32 (drop 16 bs), used_block_count = dec_u32 (drop 20 bs), max_fs_blocks = dec_u64 (drop 24 bs)\<rparr>"

definition super_range :: "dsuper_block \<Rightarrow> bool" where
  "super_range d \<longleftrightarrow> u32 (inode_freemap_start d) \<and> u32 (block_freemap_start d) \<and> u32 (inode_blocks_start d) \<and>
     u32 (data_blocks_start d) \<and> u32 (used_inode_count d) \<and> u32 (used_block_count d) \<and> u64 (max_fs_blocks d)"

datatype inode_type = I_NONE | I_FILE | I_DIR

definition NR_DIRECT_BLOCKS :: int where "NR_DIRECT_BLOCKS = 10"
definition NR_INDIRECT_BLOCKS :: int where "NR_INDIRECT_BLOCKS = 2048"

record dinode =
  i_type :: int
  i_block_nr :: "int list"
  i_indirect :: int
  i_dindirect :: int
  block_count :: int
  i_size :: int

definition sizeof_dinode :: nat where "sizeof_dinode = 64"

definition enc_dinode :: "dinode \<Rightarrow> byte list" where
  "enc_dinode d = enc_u32 (i_type d) @ concat (map enc_u32 (i_block_nr d)) @ enc_u32 (i_indirect d) @
     enc_u32 (i_dindirect d) @ enc_u32 (block_count d) @ enc_u64 (i_size d)"

definition dec_dinode :: "byte list \<Rightarrow> dinode" where
  "dec_dinode bs = \<lparr>i_type = dec_s32 bs, i_block_nr = map (\<lambda>i. dec_s32 (drop (4 + 4 * i) bs)) [0..<10],
     i_indirect = dec_s32 (drop 44 bs), i_dindirect = dec_s32 (drop 48 bs), block_count = dec_s32 (drop 52 bs),
     i_size = dec_s64 (drop 56 bs)\<rparr>"

definition dinode_range :: "dinode \<Rightarrow> bool" where
  "dinode_range d \<longleftrightarrow> length (i_block_nr d) = 10 \<and> s32 (i_type d) \<and> (\<forall>b\<in>set (i_block_nr d). s32 b) \<and>
     s32 (i_indirect d) \<and> s32 (i_dindirect d) \<and> s32 (block_count d) \<and> s64 (i_size d)"

record dirent =
  d_name_len :: int
  d_inode_nr :: int

definition sizeof_dirent :: nat where "sizeof_dirent = 8"

definition enc_dirent :: "dirent \<Rightarrow> byte list" where
  "enc_dirent d = enc_u32 (d_name_len d) @ enc_u32 (d_inode_nr d)"

definition dec_dirent :: "byte list \<Rightarrow> dirent" where
  "dec_dirent bs = \<lparr>d_name_len = dec_s32 bs, d_inode_nr = dec_s32 (drop 4 bs)\<rparr>"

lemma length_enc_structs [simp]: "length (enc_super d) = 32" "length (enc_dirent e) = 8"
  by (simp_all add: enc_super_def enc_dirent_def)

lemma length_concat_enc [simp]: "length (concat (map enc_u32 xs)) = 4 * length xs"
  by (induction xs) auto

lemma length_enc_dinode [simp]: "length (i_block_nr d) = 10 \<Longrightarrow> length (enc_dinode d) = 64"
  by (simp add: enc_dinode_def)

lemma dec_concat_enc:
  "\<forall>x\<in>set xs. s32 x \<Longrightarrow> map (\<lambda>i. dec_s32 (drop (4 * i) (concat (map enc_u32 xs) @ r))) [0..<length xs] = xs"
proof (induction xs)
  case (Cons x xs)
  have "map (\<lambda>i. dec_s32 (drop (4 * i) (concat (map enc_u32 (x # xs)) @ r))) [0..<Suc (length xs)] =
      dec_s32 (enc_u32 x @ concat (map enc_u32 xs) @ r) # map (\<lambda>i. dec_s32 (drop (4 * i) (concat (map enc_u32 xs) @ r))) [0..<length xs]"
    by (subst upt_conv_Cons) (simp_all add: map_Suc_upt[symmetric] del: upt_Suc)
  then show ?case using Cons by (simp add: dec_enc)
qed simp

lemma dec_enc_super: "super_range d \<Longrightarrow> dec_super (enc_super d @ r) = d"
  by (simp add: super_range_def dec_super_def enc_super_def dec_enc)

lemma dec_enc_dinode: "dinode_range d \<Longrightarrow> dec_dinode (enc_dinode d @ r) = d"
  using dec_concat_enc[of "i_block_nr d" "enc_u32 (i_indirect d) @ enc_u32 (i_dindirect d) @ enc_u32 (block_count d) @ enc_u64 (i_size d) @ r"]
  by (simp add: dinode_range_def dec_dinode_def enc_dinode_def dec_enc)

lemma dec_enc_dirent: "s32 (d_name_len d) \<Longrightarrow> s32 (d_inode_nr d) \<Longrightarrow> dec_dirent (enc_dirent d @ r) = d"
  by (simp add: dec_dirent_def enc_dirent_def dec_enc)

lemma take_chain: "take m bs @ take n (drop m bs) @ r = take (m + n) bs @ r"
  by (simp add: take_add)

lemma enc_dec_super: "32 \<le> length bs \<Longrightarrow> enc_super (dec_super bs) = take 32 bs"
  by (simp add: enc_super_def dec_super_def enc_dec take_chain) (simp add: take_add[symmetric])

lemma concat_enc_dec: "4 * n + m \<le> length bs \<Longrightarrow>
  concat (map enc_u32 (map (\<lambda>i. dec_s32 (drop (m + 4 * i) bs)) [0..<n])) = take (4 * n) (drop m bs)"
proof (induction n)
  case (Suc n)
  have "take (4 * Suc n) (drop m bs) = take (4 * n) (drop m bs) @ take 4 (drop (m + 4 * n) bs)"
    using take_add[of "4 * n" 4 "drop m bs"] by (simp add: add.commute)
  with Suc show ?case by (simp add: enc_dec)
qed simp

lemma enc_dec_dinode: "64 \<le> length bs \<Longrightarrow> enc_dinode (dec_dinode bs) = take 64 bs"
  using concat_enc_dec[of 10 4 bs]
  by (simp add: enc_dinode_def dec_dinode_def enc_dec take_chain) (simp add: take_add[symmetric])

lemma wrap_range: "s32 (wrap32 x)" "s64 (wrap64 x)"
proof -
  show "s32 (wrap32 x)" using sint_greater_eq[of "word_of_int x :: 32 word"] sint_less[of "word_of_int x :: 32 word"]
    by (simp add: s32_def wrap32_def)
  show "s64 (wrap64 x)" using sint_greater_eq[of "word_of_int x :: 64 word"] sint_less[of "word_of_int x :: 64 word"]
    by (simp add: s64_def wrap64_def)
qed

lemma dec_dinode_range: "dinode_range (dec_dinode bs)"
  by (auto simp: dinode_range_def dec_dinode_def dec_s32_def dec_s64_def wrap_range)

section \<open>The block device\<close>

definition zero_block :: "byte list" where "zero_block = replicate BLOCK_SIZE 0"

definition put_block :: "byte list list \<Rightarrow> nat \<Rightarrow> byte list \<Rightarrow> byte list list" where
  "put_block dev n b = (if n < length dev then dev[n := b] else dev @ replicate (n - length dev) zero_block @ [b])"

fun put_blocks :: "byte list list \<Rightarrow> nat \<Rightarrow> nat \<Rightarrow> byte list \<Rightarrow> byte list list" where
  "put_blocks dev n 0 buf = dev"
| "put_blocks dev n (Suc k) buf = put_blocks (put_block dev n (take BLOCK_SIZE buf)) (Suc n) k (drop BLOCK_SIZE buf)"

text \<open>\<open>write_blocks\<close>: \<open>nr\<close> blocks from \<open>buf\<close>.\<close>

definition write_blocks :: "byte list \<Rightarrow> int \<Rightarrow> nat \<Rightarrow> byte list list \<Rightarrow> byte list list res" where
  "write_blocks buf start nr dev =
     (if start < 0 then Inl Exit_1
      else if length buf < nr * BLOCK_SIZE then Inl Out_of_bounds
      else Inr (put_blocks dev (nat start) nr buf))"

fun zero_blocks :: "int \<Rightarrow> nat \<Rightarrow> byte list list \<Rightarrow> byte list list res" where
  "zero_blocks start 0 dev = Inr dev"
| "zero_blocks start (Suc nr) dev = bindR (write_blocks zero_block start 1 dev) (zero_blocks (start + 1) nr)"

definition read_blocks :: "int \<Rightarrow> nat \<Rightarrow> byte list list \<Rightarrow> byte list res" where
  "read_blocks start nr dev =
     (if start < 0 \<or> length dev < nat start + nr then Inl Exit_1
      else Inr (concat (take nr (drop (nat start) dev))))"

text \<open>Every block has the size of a block.\<close>

definition dev_ok :: "byte list list \<Rightarrow> bool" where
  "dev_ok dev \<longleftrightarrow> (\<forall>b\<in>set dev. length b = BLOCK_SIZE)"

lemma length_zero_block [simp]: "length zero_block = BLOCK_SIZE"
  by (simp add: zero_block_def)

lemma length_put_block [simp]: "length (put_block dev n b) = max (length dev) (Suc n)"
  by (auto simp: put_block_def)

lemma put_block_nth:
  "i < max (length dev) (Suc n) \<Longrightarrow> put_block dev n b ! i = (if i = n then b else if i < length dev then dev ! i else zero_block)"
  by (auto simp: put_block_def nth_append nth_list_update)

lemma dev_ok_put: "dev_ok dev \<Longrightarrow> length b = BLOCK_SIZE \<Longrightarrow> dev_ok (put_block dev n b)"
  unfolding dev_ok_def put_block_def by (auto dest!: set_update_subset_insert[THEN subsetD])

lemma dev_ok_nth: "dev_ok dev \<Longrightarrow> i < length dev \<Longrightarrow> length (dev ! i) = BLOCK_SIZE"
  by (simp add: dev_ok_def)

lemma write_one:
  "length b = BLOCK_SIZE \<Longrightarrow> write_blocks b start (Suc 0) dev = (if start < 0 then Inl Exit_1 else Inr (put_block dev (nat start) b))"
  by (simp add: write_blocks_def)

lemma read_one:
  "read_blocks start (Suc 0) dev = (if start < 0 \<or> length dev \<le> nat start then Inl Exit_1 else Inr (dev ! nat start))"
  by (auto simp: read_blocks_def take_Suc_conv_app_nth hd_drop_conv_nth take_Suc)

text \<open>What is written is read again, and the other blocks are untouched.\<close>

lemma read_write_one:
  assumes "length b = BLOCK_SIZE" and "0 \<le> n" and "write_blocks b n (Suc 0) dev = Inr dev'"
  shows "read_blocks m (Suc 0) dev' = (if m = n then Inr b else if m < 0 \<or> length dev' \<le> nat m then Inl Exit_1
    else if nat m < length dev then read_blocks m (Suc 0) dev else Inr zero_block)"
  using assms by (auto simp: write_one read_one put_block_nth)

section \<open>Properties\<close>



end
