(* ===== verification/FsSuper.thy ===== *)
theory FsSuper
  imports FsDisk
begin

text \<open>
  The super block of fs/super.c: the layout of the device, the inode and the block bitmap in memory
  and on disk, and the counters. The state of the file system also holds the inodes in memory and
  their hash table (theory \<open>FsInode\<close>), since creating and closing a super block sets them up.
\<close>

section \<open>State\<close>

definition SUPER_BLOCK_SIZE :: int where "SUPER_BLOCK_SIZE = 1"
definition INODE_FREEMAP_SIZE :: nat where "INODE_FREEMAP_SIZE = 1"
definition BLOCK_FREEMAP_SIZE :: nat where "BLOCK_FREEMAP_SIZE = 16"
definition NR_INODE_BLOCKS :: nat where "NR_INODE_BLOCKS = 128"
definition INODES_PER_BLOCK :: nat where "INODES_PER_BLOCK = BLOCK_SIZE div sizeof_dinode"

text \<open>An inode in memory; \<open>i_flags\<close> is the dirty flag.\<close>

record inode =
  din :: dinode
  i_flags :: bool
  i_nr :: int
  i_count :: int

record super_block =
  dev :: "byte list list"
  dsb :: dsuper_block
  inode_freemap :: "bitmap option"
  block_freemap :: "bitmap option"
  inode_hash_table :: "addr list list option"
  inodes :: "addr \<Rightarrow> inode option"
  ibrk :: addr

definition upd_dev :: "byte list list res \<Rightarrow> super_block \<Rightarrow> super_block res" where
  "upd_dev r sb = bindR r (\<lambda>d. Inr (sb\<lparr>dev := d\<rparr>))"

definition bitmap_of :: "bitmap option \<Rightarrow> bitmap res" where
  "bitmap_of b = (case b of None \<Rightarrow> Inl Assert_failed | Some b \<Rightarrow> Inr b)"

section \<open>Writing the super block and the bitmaps\<close>

definition super_bytes :: "dsuper_block \<Rightarrow> byte list" where
  "super_bytes d = enc_super d @ replicate (BLOCK_SIZE - 32) 0"

definition testfs_write_super_block :: "super_block \<Rightarrow> super_block res" where
  "testfs_write_super_block sb = upd_dev (write_blocks (super_bytes (dsb sb)) 0 1 (dev sb)) sb"

definition testfs_write_inode_freemap :: "nat \<Rightarrow> super_block \<Rightarrow> super_block res" where
  "testfs_write_inode_freemap i sb =
     bindR (bitmap_of (inode_freemap sb)) (\<lambda>b.
       let nr = i div (BLOCK_SIZE * BITS_PER_WORD)
       in upd_dev (write_blocks (drop (nr * BLOCK_SIZE) (bv b)) (inode_freemap_start (dsb sb) + int nr) 1 (dev sb)) sb)"

definition testfs_write_block_freemap :: "nat \<Rightarrow> super_block \<Rightarrow> super_block res" where
  "testfs_write_block_freemap i sb =
     bindR (bitmap_of (block_freemap sb)) (\<lambda>b.
       let nr = i div (BLOCK_SIZE * BITS_PER_WORD)
       in upd_dev (write_blocks (drop (nr * BLOCK_SIZE) (bv b)) (block_freemap_start (dsb sb) + int nr) 1 (dev sb)) sb)"

definition testfs_get_block_freemap :: "super_block \<Rightarrow> (int \<times> super_block) res" where
  "testfs_get_block_freemap sb =
     bindR (bitmap_of (block_freemap sb)) (\<lambda>b.
       bindR (bitmap_alloc b) (\<lambda>(r, b).
         let sb = sb\<lparr>block_freemap := Some b\<rparr>
         in case r of
              None \<Rightarrow> Inr (- ENOSPC, sb)
            | Some index \<Rightarrow> bindR (testfs_write_block_freemap index sb) (\<lambda>sb. Inr (int index, sb))))"

definition testfs_put_block_freemap :: "int \<Rightarrow> super_block \<Rightarrow> super_block res" where
  "testfs_put_block_freemap nr sb =
     bindR (bitmap_of (block_freemap sb)) (\<lambda>b.
       bindR (bitmap_unmark b (nat (nr mod 2 ^ 32))) (\<lambda>b.
         testfs_write_block_freemap (nat nr) (sb\<lparr>block_freemap := Some b\<rparr>)))"

section \<open>Making, opening and closing a file system\<close>

definition inode_hash_size :: nat where "inode_hash_size = 2 ^ 8"

definition inode_hash_init :: "super_block \<Rightarrow> super_block" where
  "inode_hash_init sb = sb\<lparr>inode_hash_table := Some (replicate inode_hash_size [])\<rparr>"

definition inode_hash_destroy :: "super_block \<Rightarrow> super_block res" where
  "inode_hash_destroy sb =
     (case inode_hash_table sb of
        None \<Rightarrow> Inl Assert_failed
      | Some t \<Rightarrow> assertR (\<forall>c\<in>set t. c = []) (Inr (sb\<lparr>inode_hash_table := None\<rparr>)))"

text \<open>\<open>testfs_make_super_block\<close>: the device is created empty.\<close>

definition testfs_make_super_block :: "int \<Rightarrow> super_block res" where
  "testfs_make_super_block max_blocks =
     (let a = SUPER_BLOCK_SIZE; b = a + int INODE_FREEMAP_SIZE; c = b + int BLOCK_FREEMAP_SIZE; e = c + int NR_INODE_BLOCKS;
          d = \<lparr>inode_freemap_start = a, block_freemap_start = b, inode_blocks_start = c, data_blocks_start = e,
               used_inode_count = 0, used_block_count = 0, max_fs_blocks = max_blocks\<rparr>;
          sb = \<lparr>dev = [], dsb = d, inode_freemap = None, block_freemap = None, inode_hash_table = None,
                inodes = Map.empty, ibrk = 0\<rparr>
      in bindR (testfs_write_super_block sb) (\<lambda>sb. Inr (inode_hash_init sb)))"

definition testfs_make_inode_freemap :: "super_block \<Rightarrow> super_block res" where
  "testfs_make_inode_freemap sb = upd_dev (zero_blocks (inode_freemap_start (dsb sb)) INODE_FREEMAP_SIZE (dev sb)) sb"

definition testfs_make_block_freemap :: "super_block \<Rightarrow> super_block res" where
  "testfs_make_block_freemap sb = upd_dev (zero_blocks (block_freemap_start (dsb sb)) BLOCK_FREEMAP_SIZE (dev sb)) sb"

definition testfs_make_inode_blocks :: "super_block \<Rightarrow> super_block res" where
  "testfs_make_inode_blocks sb =
     (if BLOCK_SIZE * INODE_FREEMAP_SIZE * 8 < NR_INODE_BLOCKS * INODES_PER_BLOCK then Inl Exit_1
      else assertR (BLOCK_SIZE mod sizeof_dinode = 0)
             (upd_dev (zero_blocks (inode_blocks_start (dsb sb)) NR_INODE_BLOCKS (dev sb)) sb))"

text \<open>\<open>testfs_init_super_block\<close>: \<open>file\<close> is the device, or the error number of opening it, which is
  returned as it is, a positive number.\<close>

definition testfs_init_super_block :: "int + byte list list \<Rightarrow> (int \<times> super_block option) res" where
  "testfs_init_super_block f =
     (case f of
        Inl err \<Rightarrow> Inr (err, None)
      | Inr d \<Rightarrow>
          bindR (read_blocks 0 1 d) (\<lambda>block.
            let s = dec_super block
            in bindR (bitmap_create True True (of_nat (BLOCK_SIZE * INODE_FREEMAP_SIZE * BITS_PER_WORD))) (\<lambda>(_, ib).
               bindR (bitmap_of ib) (\<lambda>ib.
               bindR (read_blocks (inode_freemap_start s) INODE_FREEMAP_SIZE d) (\<lambda>idata.
               bindR (bitmap_create True True (of_nat (BLOCK_SIZE * BLOCK_FREEMAP_SIZE * BITS_PER_WORD))) (\<lambda>(_, bb).
               bindR (bitmap_of bb) (\<lambda>bb.
               bindR (read_blocks (block_freemap_start s) BLOCK_FREEMAP_SIZE d) (\<lambda>bdata.
                 Inr (0, Some (inode_hash_init
                   \<lparr>dev = d, dsb = s, inode_freemap = Some (ib\<lparr>bv := idata\<rparr>), block_freemap = Some (bb\<lparr>bv := bdata\<rparr>),
                    inode_hash_table = None, inodes = Map.empty, ibrk = 0\<rparr>))))))))))"

text \<open>\<open>testfs_close_super_block\<close>: what remains is the device.\<close>

definition testfs_close_super_block :: "super_block \<Rightarrow> byte list list res" where
  "testfs_close_super_block sb =
     bindR (testfs_write_super_block sb) (\<lambda>sb.
     bindR (inode_hash_destroy sb) (\<lambda>sb.
     bindR (case inode_freemap sb of None \<Rightarrow> Inr sb
            | Some b \<Rightarrow> upd_dev (write_blocks (bv b) (inode_freemap_start (dsb sb)) INODE_FREEMAP_SIZE (dev sb)) sb) (\<lambda>sb.
     bindR (case block_freemap sb of None \<Rightarrow> Inr sb
            | Some b \<Rightarrow> upd_dev (write_blocks (bv b) (block_freemap_start (dsb sb)) BLOCK_FREEMAP_SIZE (dev sb)) sb) (\<lambda>sb.
       Inr (dev sb)))))"

section \<open>Allocating inodes and blocks\<close>

definition testfs_get_inode_freemap :: "super_block \<Rightarrow> (int \<times> super_block) res" where
  "testfs_get_inode_freemap sb =
     bindR (bitmap_of (inode_freemap sb)) (\<lambda>b.
       bindR (bitmap_alloc b) (\<lambda>(r, b).
         let sb = sb\<lparr>inode_freemap := Some b\<rparr>
         in case r of
              None \<Rightarrow> Inr (- ENOSPC, sb)
            | Some index \<Rightarrow>
                bindR (testfs_write_inode_freemap index sb) (\<lambda>sb.
                  bindR (testfs_write_super_block
                      (sb\<lparr>dsb := (dsb sb)\<lparr>used_inode_count := (used_inode_count (dsb sb) + 1) mod 2 ^ 32\<rparr>\<rparr>)) (\<lambda>sb.
                    Inr (int index, sb)))))"

definition testfs_put_inode_freemap :: "int \<Rightarrow> super_block \<Rightarrow> super_block res" where
  "testfs_put_inode_freemap nr sb =
     bindR (bitmap_of (inode_freemap sb)) (\<lambda>b.
       bindR (bitmap_unmark b (nat (nr mod 2 ^ 32))) (\<lambda>b.
         bindR (testfs_write_inode_freemap (nat nr) (sb\<lparr>inode_freemap := Some b\<rparr>)) (\<lambda>sb.
           assertR (used_inode_count (dsb sb) > 0)
             (testfs_write_super_block (sb\<lparr>dsb := (dsb sb)\<lparr>used_inode_count := used_inode_count (dsb sb) - 1\<rparr>\<rparr>)))))"

definition testfs_alloc_block :: "super_block \<Rightarrow> (int \<times> super_block) res" where
  "testfs_alloc_block sb =
     (if used_block_count (dsb sb) \<ge> max_fs_blocks (dsb sb) then Inr (- ENOSPC, sb)
      else bindR (testfs_get_block_freemap sb) (\<lambda>(phy_block_nr, sb).
             if phy_block_nr < 0 then Inr (phy_block_nr, sb)
             else bindR (testfs_write_super_block
                    (sb\<lparr>dsb := (dsb sb)\<lparr>used_block_count := (used_block_count (dsb sb) + 1) mod 2 ^ 32\<rparr>\<rparr>)) (\<lambda>sb.
                    Inr (wrap32 (data_blocks_start (dsb sb) + phy_block_nr), sb))))"

definition testfs_free_block :: "int \<Rightarrow> super_block \<Rightarrow> super_block res" where
  "testfs_free_block block_nr sb =
     bindR (upd_dev (zero_blocks block_nr 1 (dev sb)) sb) (\<lambda>sb.
       let nr = wrap32 (block_nr - data_blocks_start (dsb sb))
       in assertR (nr \<ge> 0)
            (bindR (testfs_put_block_freemap nr sb) (\<lambda>sb.
               assertR (used_block_count (dsb sb) > 0)
                 (testfs_write_super_block (sb\<lparr>dsb := (dsb sb)\<lparr>used_block_count := used_block_count (dsb sb) - 1\<rparr>\<rparr>)))))"

definition EINVAL :: int where "EINVAL = 22"

definition cmd_fsstat :: "nat \<Rightarrow> super_block \<Rightarrow> int \<times> (int \<times> int) option" where
  "cmd_fsstat nargs sb =
     (if nargs \<noteq> 1 then (- EINVAL, None) else (0, Some (used_inode_count (dsb sb), used_block_count (dsb sb))))"

section \<open>Consistency\<close>

text \<open>The part of a bitmap that is stored in its \<open>j\<close>-th block.\<close>

definition chunk :: "byte list \<Rightarrow> nat \<Rightarrow> byte list" where
  "chunk v j = take BLOCK_SIZE (drop (j * BLOCK_SIZE) v)"

definition layout :: "dsuper_block \<Rightarrow> bool" where
  "layout d \<longleftrightarrow> inode_freemap_start d = 1 \<and> block_freemap_start d = 2 \<and> inode_blocks_start d = 18 \<and>
     data_blocks_start d = 146 \<and> 0 \<le> max_fs_blocks d \<and> max_fs_blocks d \<le> 2 ^ 20"

abbreviation ifree :: "super_block \<Rightarrow> bitmap" where "ifree sb \<equiv> the (inode_freemap sb)"
abbreviation bfree :: "super_block \<Rightarrow> bitmap" where "bfree sb \<equiv> the (block_freemap sb)"

text \<open>Both bitmaps are in memory and on disk with the same contents, the counters count them, the
  limit on blocks holds, and block 0 is the super block.\<close>

definition maps_ok :: "super_block \<Rightarrow> bool" where
  "maps_ok sb \<longleftrightarrow> inode_freemap sb \<noteq> None \<and> block_freemap sb \<noteq> None \<and> bm_ok (ifree sb) \<and> bm_ok (bfree sb) \<and>
     cap (ifree sb) = 65536 \<and> cap (bfree sb) = 1048576"

definition synced :: "super_block \<Rightarrow> bool" where
  "synced sb \<longleftrightarrow> dev sb ! 0 = super_bytes (dsb sb) \<and> dev sb ! 1 = bv (ifree sb) \<and>
     (\<forall>j<16. dev sb ! (2 + j) = chunk (bv (bfree sb)) j)"

definition sb_ok :: "super_block \<Rightarrow> bool" where
  "sb_ok sb \<longleftrightarrow> layout (dsb sb) \<and> dev_ok (dev sb) \<and> 146 \<le> length (dev sb) \<and> maps_ok sb \<and> synced sb \<and>
     used_inode_count (dsb sb) = int (card (used (ifree sb))) \<and>
     used_block_count (dsb sb) = int (card (used (bfree sb))) \<and> used_block_count (dsb sb) \<le> max_fs_blocks (dsb sb)"

lemma chunk_update: "k div BLOCK_SIZE \<noteq> j \<Longrightarrow> chunk (v[k := w]) j = chunk v j"
proof (rule nth_equalityI, goal_cases)
  case (2 i)
  then have "i < BLOCK_SIZE" "j * BLOCK_SIZE + i < length v" by (auto simp: chunk_def)
  moreover have "(j * BLOCK_SIZE + i) div BLOCK_SIZE = j" using calculation(1) by simp
  then have "j * BLOCK_SIZE + i \<noteq> k" using 2 by auto
  ultimately show ?case by (simp add: chunk_def)
qed (simp add: chunk_def)

lemma length_chunk: "Suc j * BLOCK_SIZE \<le> length v \<Longrightarrow> length (chunk v j) = BLOCK_SIZE"
  by (simp add: chunk_def)

lemma length_super_bytes [simp]: "length (super_bytes d) = BLOCK_SIZE"
  by (simp add: super_bytes_def BLOCK_SIZE_def)

lemma maps_ok_lengths: "maps_ok sb \<Longrightarrow> length (bv (ifree sb)) = BLOCK_SIZE \<and> length (bv (bfree sb)) = 16 * BLOCK_SIZE"
  by (simp add: maps_ok_def bm_ok_def BLOCK_SIZE_def)

lemma write_super:
  "0 < length (dev sb) \<Longrightarrow> testfs_write_super_block sb = Inr (sb\<lparr>dev := (dev sb)[0 := super_bytes (dsb sb)]\<rparr>)"
  by (simp add: testfs_write_super_block_def upd_dev_def write_one put_block_def)

lemma alloc_bytes: "bm_ok b \<Longrightarrow> bitmap_alloc b = Inr (Some i, b') \<Longrightarrow> \<exists>w. bv b' = (bv b)[i div 8 := w]"
  using bitmap_alloc_spec[of b] by (auto split: if_splits)

lemma unmark_bytes: "bitmap_unmark b i = Inr b' \<Longrightarrow> \<exists>w. bv b' = (bv b)[i div 8 := w]"
  by (auto simp: bitmap_unmark_def assertR_eq_Inr bitmap_translate_def BITS_PER_WORD_def bindR_eq_Inr)

lemma write_chunk:
  assumes "j < 16" and "length v = 16 * BLOCK_SIZE"
  shows "write_blocks (drop (j * BLOCK_SIZE) v) (2 + int j) (Suc 0) d = Inr (put_block d (2 + j) (chunk v j))"
proof -
  have "BLOCK_SIZE \<le> length (drop (j * BLOCK_SIZE) v)" using assms by (simp add: BLOCK_SIZE_def)
  then show ?thesis using assms by (simp add: write_blocks_def chunk_def nat_add_distrib)
qed

text \<open>Storing the block of the changed bit keeps the copy on disk equal.\<close>

lemma write_bmap:
  assumes "maps_ok sb" and "layout (dsb sb)" and "146 \<le> length (dev sb)" and "i < cap b"
    and "bm_ok b" and "cap b = 1048576" and "bv b = (bv (bfree sb))[i div 8 := w]"
    and "\<forall>j<16. dev sb ! (2 + j) = chunk (bv (bfree sb)) j"
  shows "testfs_write_block_freemap i (sb\<lparr>block_freemap := Some b\<rparr>) =
      Inr (sb\<lparr>block_freemap := Some b, dev := (dev sb)[2 + i div 65536 := chunk (bv b) (i div 65536)]\<rparr>)"
    and "\<forall>k<16. (dev sb)[2 + i div 65536 := chunk (bv b) (i div 65536)] ! (2 + k) = chunk (bv b) k"
proof -
  let ?j = "i div 65536"
  have j: "?j < 16" using assms(4,6) by simp
  have l: "length (bv b) = 16 * BLOCK_SIZE" using assms(5,6) by (simp add: bm_ok_def BLOCK_SIZE_def)
  show "testfs_write_block_freemap i (sb\<lparr>block_freemap := Some b\<rparr>) =
      Inr (sb\<lparr>block_freemap := Some b, dev := (dev sb)[2 + ?j := chunk (bv b) ?j]\<rparr>)"
    using assms(2,3) j write_chunk[OF j l]
    by (simp add: testfs_write_block_freemap_def bitmap_of_def upd_dev_def BITS_PER_WORD_def layout_def put_block_def)
       (simp add: BLOCK_SIZE_def Let_def)
  have "i div 8 div BLOCK_SIZE = ?j" by (simp add: BLOCK_SIZE_def div_mult2_eq[symmetric])
  then show "\<forall>k<16. (dev sb)[2 + ?j := chunk (bv b) ?j] ! (2 + k) = chunk (bv b) k"
    using assms(3,7,8) j chunk_update[of "i div 8" _ "bv (bfree sb)" w] by (auto simp: nth_list_update)
qed

text \<open>A change of the device that leaves the inode and data blocks alone.\<close>

definition meta_only :: "super_block \<Rightarrow> super_block \<Rightarrow> bool" where
  "meta_only sb sb' \<longleftrightarrow> length (dev sb') = length (dev sb) \<and> (\<forall>i\<ge>18. dev sb' ! i = dev sb ! i) \<and>
     inode_hash_table sb' = inode_hash_table sb \<and> inodes sb' = inodes sb \<and> ibrk sb' = ibrk sb"

lemma meta_only_refl [simp]: "meta_only sb sb"
  by (simp add: meta_only_def)

lemma dev_ok_upd: "dev_ok d \<Longrightarrow> length b = BLOCK_SIZE \<Longrightarrow> dev_ok (d[i := b])"
  unfolding dev_ok_def by (auto dest!: set_update_subset_insert[THEN subsetD])

text \<open>The block bitmap and its counter change together.\<close>

lemma update_blocks:
  assumes ok: "sb_ok sb" and b: "bm_ok b" "cap b = 1048576" "bv b = (bv (bfree sb))[i div 8 := w]" "i < 1048576"
    and n: "n = int (card (used b))" "n \<le> max_fs_blocks (dsb sb)"
  shows "\<exists>sb1 sb'. testfs_write_block_freemap i (sb\<lparr>block_freemap := Some b\<rparr>) = Inr sb1 \<and> dsb sb1 = dsb sb \<and>
    testfs_write_super_block (sb1\<lparr>dsb := (dsb sb)\<lparr>used_block_count := n\<rparr>\<rparr>) = Inr sb' \<and>
    sb_ok sb' \<and> block_freemap sb' = Some b \<and> inode_freemap sb' = inode_freemap sb \<and>
    dsb sb' = (dsb sb)\<lparr>used_block_count := n\<rparr> \<and> meta_only sb sb'"
proof -
  have o: "layout (dsb sb)" "dev_ok (dev sb)" "146 \<le> length (dev sb)" "maps_ok sb" "synced sb"
    "used_inode_count (dsb sb) = int (card (used (ifree sb)))" using ok by (auto simp: sb_ok_def)
  have c: "\<forall>j<16. dev sb ! (2 + j) = chunk (bv (bfree sb)) j" using o(5) by (simp add: synced_def)
  have i: "i < cap b" using b by simp
  note w = write_bmap[OF o(4,1,3) i b(1,2,3) c]
  let ?j = "i div 65536"
  have j: "?j < 16" using b(4) by simp
  let ?d1 = "(dev sb)[2 + ?j := chunk (bv b) ?j]"
  let ?sb1 = "sb\<lparr>block_freemap := Some b, dev := ?d1\<rparr>"
  let ?dsb = "(dsb sb)\<lparr>used_block_count := n\<rparr>"
  let ?sb' = "?sb1\<lparr>dsb := ?dsb, dev := ?d1[0 := super_bytes ?dsb]\<rparr>"
  have ws: "testfs_write_super_block (?sb1\<lparr>dsb := ?dsb\<rparr>) = Inr ?sb'"
    using write_super[of "?sb1\<lparr>dsb := ?dsb\<rparr>"] o(3) by (cases "dev sb") auto
  have l: "length (bv b) = 16 * BLOCK_SIZE" using b(1,2) by (simp add: bm_ok_def BLOCK_SIZE_def)
  have "length (chunk (bv b) ?j) = BLOCK_SIZE" using l j by (intro length_chunk) (simp add: BLOCK_SIZE_def)
  then have "dev_ok (dev ?sb')" using o(2) by (auto intro!: dev_ok_upd)
  moreover have "dev sb \<noteq> []" using o(3) by auto
  then have "synced ?sb'" using o(3,5) w(2) j by (auto simp: synced_def nth_list_update)
  moreover have "maps_ok ?sb'" using o(4) b by (simp add: maps_ok_def)
  ultimately have "sb_ok ?sb'" using o n by (simp add: sb_ok_def layout_def)
  moreover have "meta_only sb ?sb'" using j by (auto simp: meta_only_def nth_list_update)
  ultimately show ?thesis using w(1) ws by (intro exI[of _ ?sb1] exI[of _ ?sb']) simp
qed

lemma alloc_block_spec:
  assumes "sb_ok sb"
  shows "if used_block_count (dsb sb) = max_fs_blocks (dsb sb) then testfs_alloc_block sb = Inr (- ENOSPC, sb)
    else \<exists>n sb'. testfs_alloc_block sb = Inr (146 + int n, sb') \<and> n < 1048576 \<and> n \<notin> used (bfree sb) \<and>
      sb_ok sb' \<and> used (bfree sb') = insert n (used (bfree sb)) \<and> inode_freemap sb' = inode_freemap sb \<and>
      dsb sb' = (dsb sb)\<lparr>used_block_count := used_block_count (dsb sb) + 1\<rparr> \<and> meta_only sb sb'"
proof -
  have o: "maps_ok sb" "used_block_count (dsb sb) = int (card (used (bfree sb)))"
    "used_block_count (dsb sb) \<le> max_fs_blocks (dsb sb)" "max_fs_blocks (dsb sb) \<le> 1048576" "data_blocks_start (dsb sb) = 146"
    using assms by (auto simp: sb_ok_def layout_def)
  obtain bb where ok: "bm_ok bb" "cap bb = 1048576" "block_freemap sb = Some bb" using o(1) by (auto simp: maps_ok_def)
  then have bb: "bfree sb = bb" by simp
  show ?thesis
  proof (cases "used_block_count (dsb sb) = max_fs_blocks (dsb sb)")
    case True
    then show ?thesis by (simp add: testfs_alloc_block_def)
  next
    case False
    then have lt: "card (used bb) < 1048576" using o bb by simp
    show ?thesis
    proof (rule bm.alloc_cases[OF ok(1)])
      assume "card (used bb) = cap bb"
      then show ?thesis using lt ok(2) by simp
    next
      fix i b' assume a: "bitmap_alloc bb = Inr (Some i, b')" "i < cap bb" "i \<notin> used bb" "bm_ok b'"
        "used b' = insert i (used bb)" "cap b' = cap bb" "card (used b') = Suc (card (used bb))"
      obtain w where w: "bv b' = (bv (bfree sb))[i div 8 := w]" using alloc_bytes[OF ok(1) a(1)] bb by blast
      have n: "used_block_count (dsb sb) + 1 = int (card (used b'))" "used_block_count (dsb sb) + 1 \<le> max_fs_blocks (dsb sb)"
        using a(7) o False bb by auto
      have "cap b' = 1048576" "i < 1048576" using a(2,6) ok(2) by auto
      from update_blocks[OF assms a(4) this(1) w this(2) n] obtain sb1 sb' where
        u: "testfs_write_block_freemap i (sb\<lparr>block_freemap := Some b'\<rparr>) = Inr sb1" "dsb sb1 = dsb sb"
        "testfs_write_super_block (sb1\<lparr>dsb := (dsb sb)\<lparr>used_block_count := used_block_count (dsb sb) + 1\<rparr>\<rparr>) = Inr sb'"
        "sb_ok sb'" "block_freemap sb' = Some b'" "inode_freemap sb' = inode_freemap sb"
        "dsb sb' = (dsb sb)\<lparr>used_block_count := used_block_count (dsb sb) + 1\<rparr>" "meta_only sb sb'" by blast
      have m: "(used_block_count (dsb sb) + 1) mod 4294967296 = used_block_count (dsb sb) + 1" using o False by simp
      have "wrap32 (146 + int i) = 146 + int i" using a(2) ok(2) by (intro wrap32_id) auto
      then have "testfs_alloc_block sb = Inr (146 + int i, sb')"
        using False o(3) ok(3) a(1) u m o(5)
        by (simp add: testfs_alloc_block_def testfs_get_block_freemap_def bitmap_of_def)
      then show ?thesis using False u a ok(2) bb by auto
    qed
  qed
qed

text \<open>Blocks behind the bitmaps can be written freely.\<close>

lemma sb_ok_put:
  assumes "sb_ok sb" and "18 \<le> k" and "length b = BLOCK_SIZE"
  shows "sb_ok (sb\<lparr>dev := put_block (dev sb) k b\<rparr>)"
  using assms by (auto simp: sb_ok_def maps_ok_def synced_def put_block_nth dev_ok_put)

lemma zero_one: "0 \<le> k \<Longrightarrow> zero_blocks k (Suc 0) d = Inr (put_block d (nat k) zero_block)"
  by (simp add: write_one)

lemma free_block_spec:
  assumes "sb_ok sb" and "n < 1048576"
  shows "if n \<in> used (bfree sb)
    then \<exists>sb'. testfs_free_block (146 + int n) sb = Inr sb' \<and> sb_ok sb' \<and>
      used (bfree sb') = used (bfree sb) - {n} \<and> inode_freemap sb' = inode_freemap sb \<and>
      dsb sb' = (dsb sb)\<lparr>used_block_count := used_block_count (dsb sb) - 1\<rparr> \<and>
      meta_only (sb\<lparr>dev := put_block (dev sb) (146 + n) zero_block\<rparr>) sb'
    else testfs_free_block (146 + int n) sb = Inl Assert_failed"
proof -
  let ?sb = "sb\<lparr>dev := put_block (dev sb) (146 + n) zero_block\<rparr>"
  have ok: "sb_ok ?sb" using sb_ok_put[OF assms(1)] by simp
  have o: "maps_ok sb" "used_block_count (dsb sb) = int (card (used (bfree sb)))"
    "used_block_count (dsb sb) \<le> max_fs_blocks (dsb sb)" "data_blocks_start (dsb sb) = 146"
    using assms by (auto simp: sb_ok_def layout_def)
  obtain bb where bb: "bm_ok bb" "cap bb = 1048576" "block_freemap sb = Some bb" using o(1) by (auto simp: maps_ok_def)
  have w: "wrap32 (int n) = int n" "nat (146 + int n) = 146 + n" using assms(2) by (auto intro: wrap32_id)
  have m: "nat (int n mod 4294967296) = n" using assms(2) by simp
  have st: "testfs_free_block (146 + int n) sb =
      bindR (bindR (bitmap_unmark bb n) (\<lambda>b. testfs_write_block_freemap n (?sb\<lparr>block_freemap := Some b\<rparr>))) (\<lambda>sb.
        assertR (used_block_count (dsb sb) > 0)
          (testfs_write_super_block (sb\<lparr>dsb := (dsb sb)\<lparr>used_block_count := used_block_count (dsb sb) - 1\<rparr>\<rparr>)))"
    using bb(3) o(4) w m
    by (simp add: testfs_free_block_def upd_dev_def zero_one testfs_put_block_freemap_def bitmap_of_def del: zero_blocks.simps)
  show ?thesis
  proof (rule bm.unmark_cases[OF bb(1), of n])
    assume "bitmap_unmark bb n = Inl Assert_failed" "n \<notin> used bb"
    then show ?thesis using st bb(3) by simp
  next
    fix b' assume a: "bitmap_unmark bb n = Inr b'" "n \<in> used bb" "bm_ok b'" "used b' = used bb - {n}"
      "cap b' = cap bb" "Suc (card (used b')) = card (used bb)"
    obtain x where x: "bv b' = (bv (bfree ?sb))[n div 8 := x]" using unmark_bytes[OF a(1)] bb(3) by auto
    have c: "used_block_count (dsb ?sb) - 1 = int (card (used b'))" "used_block_count (dsb ?sb) - 1 \<le> max_fs_blocks (dsb ?sb)"
      using a(6) o bb(3) by auto
    have "cap b' = 1048576" using a(5) bb(2) by simp
    from update_blocks[OF ok a(3) this x assms(2) c] obtain sb1 sb' where
      u: "testfs_write_block_freemap n (?sb\<lparr>block_freemap := Some b'\<rparr>) = Inr sb1" "dsb sb1 = dsb sb"
      "testfs_write_super_block (sb1\<lparr>dsb := (dsb sb)\<lparr>used_block_count := used_block_count (dsb sb) - 1\<rparr>\<rparr>) = Inr sb'"
      "sb_ok sb'" "block_freemap sb' = Some b'" "inode_freemap sb' = inode_freemap sb"
      "dsb sb' = (dsb sb)\<lparr>used_block_count := used_block_count (dsb sb) - 1\<rparr>" "meta_only ?sb sb'" by auto
    have "used_block_count (dsb sb) > 0" using a(6) o(2) bb(3) by simp
    then have "testfs_free_block (146 + int n) sb = Inr sb'" using st a(1) u(1-3) by simp
    then show ?thesis using u a bb by auto
  qed
qed

section \<open>The inode bitmap\<close>

lemma update_inodes:
  assumes ok: "sb_ok sb" and b: "bm_ok b" "cap b = 65536" "i < 65536" and n: "n = int (card (used b))"
  shows "\<exists>sb1 sb'. testfs_write_inode_freemap i (sb\<lparr>inode_freemap := Some b\<rparr>) = Inr sb1 \<and> dsb sb1 = dsb sb \<and>
    testfs_write_super_block (sb1\<lparr>dsb := (dsb sb)\<lparr>used_inode_count := n\<rparr>\<rparr>) = Inr sb' \<and>
    sb_ok sb' \<and> inode_freemap sb' = Some b \<and> block_freemap sb' = block_freemap sb \<and>
    dsb sb' = (dsb sb)\<lparr>used_inode_count := n\<rparr> \<and> meta_only sb sb'"
proof -
  have o: "layout (dsb sb)" "dev_ok (dev sb)" "146 \<le> length (dev sb)" "maps_ok sb" "synced sb"
    using ok by (auto simp: sb_ok_def)
  have l: "length (bv b) = BLOCK_SIZE" using b(1,2) by (simp add: bm_ok_def BLOCK_SIZE_def)
  have z: "i div (BLOCK_SIZE * BITS_PER_WORD) = 0" using b(3) by (simp add: BLOCK_SIZE_def BITS_PER_WORD_def)
  let ?d1 = "(dev sb)[1 := bv b]"
  let ?sb1 = "sb\<lparr>inode_freemap := Some b, dev := ?d1\<rparr>"
  let ?dsb = "(dsb sb)\<lparr>used_inode_count := n\<rparr>"
  let ?sb' = "?sb1\<lparr>dsb := ?dsb, dev := ?d1[0 := super_bytes ?dsb]\<rparr>"
  have w: "testfs_write_inode_freemap i (sb\<lparr>inode_freemap := Some b\<rparr>) = Inr ?sb1"
    using o(1,3) l z by (simp add: testfs_write_inode_freemap_def bitmap_of_def upd_dev_def layout_def write_one put_block_def)
  have ws: "testfs_write_super_block (?sb1\<lparr>dsb := ?dsb\<rparr>) = Inr ?sb'"
    using write_super[of "?sb1\<lparr>dsb := ?dsb\<rparr>"] o(3) by (cases "dev sb") auto
  have "dev_ok (dev ?sb')" using o(2) l by (auto intro!: dev_ok_upd)
  moreover have "dev sb \<noteq> []" using o(3) by auto
  then have "synced ?sb'" using o(3,5) by (auto simp: synced_def nth_list_update)
  moreover have "maps_ok ?sb'" using o(4) b by (simp add: maps_ok_def)
  ultimately have "sb_ok ?sb'" using ok n o by (simp add: sb_ok_def layout_def)
  moreover have "meta_only sb ?sb'" by (auto simp: meta_only_def nth_list_update)
  ultimately show ?thesis using w ws by (intro exI[of _ ?sb1] exI[of _ ?sb']) simp
qed

lemma get_inode_freemap_spec:
  assumes "sb_ok sb"
  shows "if card (used (ifree sb)) = 65536 then testfs_get_inode_freemap sb = Inr (- ENOSPC, sb)
    else \<exists>n sb'. testfs_get_inode_freemap sb = Inr (int n, sb') \<and> n < 65536 \<and> n \<notin> used (ifree sb) \<and>
      (\<forall>j<n. j \<in> used (ifree sb)) \<and>
      sb_ok sb' \<and> used (ifree sb') = insert n (used (ifree sb)) \<and> block_freemap sb' = block_freemap sb \<and>
      dsb sb' = (dsb sb)\<lparr>used_inode_count := used_inode_count (dsb sb) + 1\<rparr> \<and> meta_only sb sb'"
proof -
  have o: "maps_ok sb" "used_inode_count (dsb sb) = int (card (used (ifree sb)))" using assms by (auto simp: sb_ok_def)
  obtain ib where ib: "bm_ok ib" "cap ib = 65536" "inode_freemap sb = Some ib" using o(1) by (auto simp: maps_ok_def)
  show ?thesis
  proof (rule bm.alloc_cases[OF ib(1)])
    assume "bitmap_alloc ib = Inr (None, ib)" "card (used ib) = cap ib"
    then show ?thesis using ib by (simp add: testfs_get_inode_freemap_def bitmap_of_def)
  next
    fix i b' assume a: "bitmap_alloc ib = Inr (Some i, b')" "i < cap ib" "i \<notin> used ib" "bm_ok b'"
      "used b' = insert i (used ib)" "cap b' = cap ib" "card (used b') = Suc (card (used ib))" "\<forall>j<i. j \<in> used ib"
    have c: "card (used b') \<le> 65536" using bm.card_inuse[OF a(4)] a(6) ib(2) by simp
    have n: "used_inode_count (dsb sb) + 1 = int (card (used b'))" using a(7) o(2) ib(3) by simp
    have "cap b' = 65536" "i < 65536" using a(2,6) ib(2) by auto
    from update_inodes[OF assms a(4) this n] obtain sb1 sb' where
      u: "testfs_write_inode_freemap i (sb\<lparr>inode_freemap := Some b'\<rparr>) = Inr sb1" "dsb sb1 = dsb sb"
      "testfs_write_super_block (sb1\<lparr>dsb := (dsb sb)\<lparr>used_inode_count := used_inode_count (dsb sb) + 1\<rparr>\<rparr>) = Inr sb'"
      "sb_ok sb'" "inode_freemap sb' = Some b'" "block_freemap sb' = block_freemap sb"
      "dsb sb' = (dsb sb)\<lparr>used_inode_count := used_inode_count (dsb sb) + 1\<rparr>" "meta_only sb sb'" by blast
    have m: "(used_inode_count (dsb sb) + 1) mod 4294967296 = used_inode_count (dsb sb) + 1" using n c by simp
    have "testfs_get_inode_freemap sb = Inr (int i, sb')"
      using ib(3) a(1) u m by (simp add: testfs_get_inode_freemap_def bitmap_of_def)
    then show ?thesis using u a ib c by auto
  qed
qed

lemma put_inode_freemap_spec:
  assumes "sb_ok sb" and "n \<in> used (ifree sb)"
  shows "\<exists>sb'. testfs_put_inode_freemap (int n) sb = Inr sb' \<and> sb_ok sb' \<and>
      used (ifree sb') = used (ifree sb) - {n} \<and> block_freemap sb' = block_freemap sb \<and>
      dsb sb' = (dsb sb)\<lparr>used_inode_count := used_inode_count (dsb sb) - 1\<rparr> \<and> meta_only sb sb'"
proof -
  have o: "maps_ok sb" "used_inode_count (dsb sb) = int (card (used (ifree sb)))" using assms by (auto simp: sb_ok_def)
  obtain ib where ib: "bm_ok ib" "cap ib = 65536" "inode_freemap sb = Some ib" using o(1) by (auto simp: maps_ok_def)
  have nb: "n < 65536" using bm.inuse_bound[OF ib(1)] assms(2) ib by auto
  show ?thesis
  proof (rule bm.unmark_cases[OF ib(1), of n])
    assume "n \<notin> used ib"
    then show ?thesis using assms(2) ib(3) by simp
  next
    fix b' assume a: "bitmap_unmark ib n = Inr b'" "n \<in> used ib" "bm_ok b'" "used b' = used ib - {n}"
      "cap b' = cap ib" "Suc (card (used b')) = card (used ib)"
    have c: "used_inode_count (dsb sb) - 1 = int (card (used b'))" "used_inode_count (dsb sb) > 0" using a(6) o(2) ib(3) by auto
    have "cap b' = 65536" using a(5) ib(2) by simp
    from update_inodes[OF assms(1) a(3) this nb c(1)] obtain sb1 sb' where
      u: "testfs_write_inode_freemap n (sb\<lparr>inode_freemap := Some b'\<rparr>) = Inr sb1" "dsb sb1 = dsb sb"
      "testfs_write_super_block (sb1\<lparr>dsb := (dsb sb)\<lparr>used_inode_count := used_inode_count (dsb sb) - 1\<rparr>\<rparr>) = Inr sb'"
      "sb_ok sb'" "inode_freemap sb' = Some b'" "block_freemap sb' = block_freemap sb"
      "dsb sb' = (dsb sb)\<lparr>used_inode_count := used_inode_count (dsb sb) - 1\<rparr>" "meta_only sb sb'" by blast
    have "nat (int n mod 4294967296) = n" using nb by simp
    then have "testfs_put_inode_freemap (int n) sb = Inr sb'"
      using ib(3) a(1) u c(2) by (simp add: testfs_put_inode_freemap_def bitmap_of_def)
    then show ?thesis using u a ib by auto
  qed
qed

section \<open>Opening a device\<close>

lemma concat_chunks: "length v = n * BLOCK_SIZE \<Longrightarrow> concat (map (chunk v) [0..<n]) = v"
proof -
  have "k \<le> n \<Longrightarrow> length v = n * BLOCK_SIZE \<Longrightarrow> concat (map (chunk v) [0..<k]) = take (k * BLOCK_SIZE) v" for k
  proof (induction k)
    case (Suc k)
    have "take (Suc k * BLOCK_SIZE) v = take (k * BLOCK_SIZE) v @ chunk v k"
      by (simp add: chunk_def take_add[symmetric] add.commute)
    then show ?case using Suc by simp
  qed simp
  from this[of n] show "length v = n * BLOCK_SIZE \<Longrightarrow> concat (map (chunk v) [0..<n]) = v" by simp
qed

lemma created: "\<exists>b. bitmap_create True True n = Inr (0, Some b) \<and> nbits b = n" if "unat n + 8 \<le> 2 ^ 32"
proof -
  from bitmap_create_spec[OF that] obtain b where "bitmap_create True True n = Inr (0, Some b)" "cap b = unat n" by blast
  then show ?thesis by (auto simp: cap_def word_unat_eq_iff)
qed

lemma init_eq:
  assumes "1 \<le> length d" and "inode_freemap_start (dec_super (d ! 0)) = 1" and "block_freemap_start (dec_super (d ! 0)) = 2"
    and "18 \<le> length d"
  shows "testfs_init_super_block (Inr d) = Inr (0, Some (inode_hash_init
    \<lparr>dev = d, dsb = dec_super (d ! 0), inode_freemap = Some \<lparr>nbits = 65536, bv = d ! 1\<rparr>,
     block_freemap = Some \<lparr>nbits = 1048576, bv = concat (take 16 (drop 2 d))\<rparr>,
     inode_hash_table = None, inodes = Map.empty, ibrk = 0\<rparr>))"
proof -
  obtain b1 where b1: "bitmap_create True True 65536 = Inr (0, Some b1)" "nbits b1 = 65536" using created[of 65536] by auto
  obtain b2 where b2: "bitmap_create True True 1048576 = Inr (0, Some b2)" "nbits b2 = 1048576" using created[of 1048576] by auto
  have sz: "BLOCK_SIZE * INODE_FREEMAP_SIZE * BITS_PER_WORD = 65536" "BLOCK_SIZE * BLOCK_FREEMAP_SIZE * BITS_PER_WORD = 1048576"
    by (simp_all add: BLOCK_SIZE_def INODE_FREEMAP_SIZE_def BLOCK_FREEMAP_SIZE_def BITS_PER_WORD_def)
  have r: "read_blocks 0 (Suc 0) d = Inr (d ! 0)" "read_blocks 1 (Suc 0) d = Inr (d ! 1)" using assms by (auto simp: read_one)
  have r16: "read_blocks 2 16 d = Inr (concat (take 16 (drop 2 d)))" using assms(4) by (simp add: read_blocks_def)
  have u: "b1\<lparr>bv := x\<rparr> = \<lparr>nbits = 65536, bv = x\<rparr>" "b2\<lparr>bv := x\<rparr> = \<lparr>nbits = 1048576, bv = x\<rparr>" for x
    using b1(2) b2(2) by (cases b1; cases b2; simp)+
  show ?thesis
    using r(1) r(2) r16 assms(2,3) b1(1) b2(1) u
    by (simp add: testfs_init_super_block_def sz bitmap_of_def) (simp add: INODE_FREEMAP_SIZE_def BLOCK_FREEMAP_SIZE_def)
qed

lemma bitmap_eqI: "cap b = cap c \<Longrightarrow> bv b = bv c \<Longrightarrow> b = (c :: bitmap)"
  by (cases b; cases c) (simp add: cap_def word_unat_eq_iff)

lemma reopen:
  assumes "sb_ok sb"
  shows "testfs_init_super_block (Inr (dev sb)) = Inr (0, Some (inode_hash_init
    \<lparr>dev = dev sb, dsb = dsb sb, inode_freemap = inode_freemap sb, block_freemap = block_freemap sb,
     inode_hash_table = None, inodes = Map.empty, ibrk = 0\<rparr>))"
proof -
  have o: "layout (dsb sb)" "146 \<le> length (dev sb)" "maps_ok sb" "synced sb" using assms by (auto simp: sb_ok_def)
  have c: "card (used (ifree sb)) \<le> 65536" using bm.card_inuse[of "ifree sb"] o(3) by (auto simp: maps_ok_def)
  have "super_range (dsb sb)"
    using assms c by (auto simp: sb_ok_def layout_def super_range_def u32_def u64_def)
  then have s: "dec_super (dev sb ! 0) = dsb sb"
    using o(4) dec_enc_super[of "dsb sb" "replicate (BLOCK_SIZE - 32) 0"] by (simp add: synced_def super_bytes_def)
  have l: "length (bv (bfree sb)) = 16 * BLOCK_SIZE" using maps_ok_lengths[OF o(3)] by simp
  have "take 16 (drop 2 (dev sb)) = map (chunk (bv (bfree sb))) [0..<16]"
    using o(2,4) by (intro nth_equalityI) (auto simp: synced_def)
  then have v: "concat (take 16 (drop 2 (dev sb))) = bv (bfree sb)" using concat_chunks[OF l] by simp
  have i: "\<lparr>nbits = 65536, bv = dev sb ! 1\<rparr> = ifree sb"
    using o(3,4) by (intro bitmap_eqI) (auto simp: maps_ok_def synced_def cap_def)
  have b: "\<lparr>nbits = 1048576, bv = bv (bfree sb)\<rparr> = bfree sb"
    using o(3) by (intro bitmap_eqI) (auto simp: maps_ok_def cap_def)
  have "inode_freemap sb = Some (ifree sb)" "block_freemap sb = Some (bfree sb)" using o(3) by (auto simp: maps_ok_def)
  moreover have "testfs_init_super_block (Inr (dev sb)) = Inr (0, Some (inode_hash_init
    \<lparr>dev = dev sb, dsb = dsb sb, inode_freemap = Some (ifree sb), block_freemap = Some (bfree sb),
     inode_hash_table = None, inodes = Map.empty, ibrk = 0\<rparr>))"
    using init_eq[of "dev sb"] o(1,2) unfolding s v i b by (simp add: layout_def)
  ultimately show ?thesis by (simp only:)
qed

section \<open>Making a file system\<close>

text \<open>The part of \<open>main\<close> in fs/mktestfs.c that formats the device and opens it.\<close>

definition format_device :: "int \<Rightarrow> (int \<times> super_block option) res" where
  "format_device max_blocks =
     bindR (testfs_make_super_block max_blocks) (\<lambda>sb.
     bindR (testfs_make_inode_freemap sb) (\<lambda>sb.
     bindR (testfs_make_block_freemap sb) (\<lambda>sb.
     bindR (testfs_make_inode_blocks sb) (\<lambda>sb.
     bindR (testfs_close_super_block sb) (\<lambda>d.
       testfs_init_super_block (Inr d))))))"

lemma zero_blocks_append: "k = int (length d) \<Longrightarrow> zero_blocks k n d = Inr (d @ replicate n zero_block)"
proof (induction n arbitrary: k d)
  case (Suc n)
  have "k + 1 = int (length (d @ [zero_block]))" using Suc.prems by simp
  from Suc.IH[OF this] Suc.prems show ?case by (simp add: write_one put_block_def)
qed simp

lemma concat_replicate_replicate: "concat (replicate n (replicate m x)) = replicate (n * m) x"
  by (induction n) (simp_all add: replicate_add)

lemma zero_bitmap:
  assumes "unat n = 8 * k" and "8 * k + 8 \<le> 2 ^ 32"
  shows "bm_ok \<lparr>nbits = n, bv = replicate k 0\<rparr>" and "used \<lparr>nbits = n, bv = replicate k 0\<rparr> = {}"
proof -
  have "\<not> bit_at \<lparr>nbits = n, bv = replicate k 0\<rparr> i" if "i < 8 * k" for i
    using that by (simp add: bit_at_def)
  then show "used \<lparr>nbits = n, bv = replicate k 0\<rparr> = {}" using assms by (auto simp: used_def cap_def)
  have "(8 * k + 7) div 8 = k" by simp
  then show "bm_ok \<lparr>nbits = n, bv = replicate k 0\<rparr>" using assms by (simp add: bm_ok_def cap_def)
qed

definition new_super :: "int \<Rightarrow> dsuper_block" where
  "new_super m = \<lparr>inode_freemap_start = 1, block_freemap_start = 2, inode_blocks_start = 18, data_blocks_start = 146,
     used_inode_count = 0, used_block_count = 0, max_fs_blocks = m\<rparr>"

lemma format_spec:
  assumes "0 \<le> m" and "m \<le> 2 ^ 20"
  shows "\<exists>sb. format_device m = Inr (0, Some sb) \<and> sb_ok sb \<and> used (ifree sb) = {} \<and> used (bfree sb) = {} \<and>
    dsb sb = new_super m \<and> dev sb = super_bytes (new_super m) # replicate 145 zero_block \<and>
    inode_hash_table sb = Some (replicate 256 []) \<and> inodes sb = Map.empty"
proof -
  let ?d = "super_bytes (new_super m) # replicate 145 zero_block"
  let ?sb = "\<lparr>dev = ?d, dsb = new_super m, inode_freemap = Some \<lparr>nbits = 65536, bv = zero_block\<rparr>,
      block_freemap = Some \<lparr>nbits = 1048576, bv = concat (replicate 16 zero_block)\<rparr>,
      inode_hash_table = Some (replicate 256 []), inodes = Map.empty, ibrk = 0\<rparr>"
  define s0 where "s0 = \<lparr>dev = [super_bytes (new_super m)], dsb = new_super m, inode_freemap = None, block_freemap = None,
      inode_hash_table = Some (replicate inode_hash_size []), inodes = Map.empty, ibrk = 0\<rparr>"
  have 1: "testfs_make_super_block m = Inr s0"
    by (simp add: testfs_make_super_block_def testfs_write_super_block_def upd_dev_def write_one put_block_def
        inode_hash_init_def SUPER_BLOCK_SIZE_def INODE_FREEMAP_SIZE_def BLOCK_FREEMAP_SIZE_def NR_INODE_BLOCKS_def
        new_super_def s0_def Let_def)
  have 2: "testfs_make_inode_freemap s0 = Inr (s0\<lparr>dev := dev s0 @ replicate 1 zero_block\<rparr>)"
    by (simp add: testfs_make_inode_freemap_def upd_dev_def zero_blocks_append s0_def new_super_def INODE_FREEMAP_SIZE_def
        del: zero_blocks.simps)
  have 3: "testfs_make_block_freemap (s0\<lparr>dev := dev s0 @ replicate 1 zero_block\<rparr>) = Inr (s0\<lparr>dev := dev s0 @ replicate 17 zero_block\<rparr>)"
    by (simp add: testfs_make_block_freemap_def upd_dev_def zero_blocks_append s0_def new_super_def BLOCK_FREEMAP_SIZE_def
        replicate_add[symmetric] del: zero_blocks.simps) (simp add: numeral_eq_Suc)
  have 4: "testfs_make_inode_blocks (s0\<lparr>dev := dev s0 @ replicate 17 zero_block\<rparr>) = Inr (s0\<lparr>dev := dev s0 @ replicate 145 zero_block\<rparr>)"
    using replicate_add[of 17 128 zero_block]
    by (simp add: testfs_make_inode_blocks_def upd_dev_def zero_blocks_append s0_def new_super_def NR_INODE_BLOCKS_def
        INODES_PER_BLOCK_def BLOCK_SIZE_def sizeof_dinode_def INODE_FREEMAP_SIZE_def del: zero_blocks.simps)
  have 5: "testfs_close_super_block (s0\<lparr>dev := dev s0 @ replicate 145 zero_block\<rparr>) = Inr ?d"
    by (simp add: testfs_close_super_block_def write_super inode_hash_destroy_def s0_def)
  have r: "super_range (new_super m)" using assms by (simp add: super_range_def new_super_def u32_def u64_def)
  then have dec: "dec_super (super_bytes (new_super m)) = new_super m" using dec_enc_super by (simp add: super_bytes_def)
  have 6: "testfs_init_super_block (Inr ?d) = Inr (0, Some ?sb)"
    using init_eq[of ?d] dec by (simp add: new_super_def inode_hash_init_def inode_hash_size_def)
  have f: "format_device m = Inr (0, Some ?sb)" using 1 2 3 4 5 6 by (simp add: format_device_def)
  have c: "concat (replicate 16 zero_block) = replicate 131072 0"
    unfolding zero_block_def concat_replicate_replicate by (simp add: BLOCK_SIZE_def)
  have z: "chunk (replicate 131072 0) j = zero_block" if "j < 16" for j
    using that by (simp add: chunk_def zero_block_def BLOCK_SIZE_def drop_replicate)
  have i: "bm_ok (ifree ?sb)" "used (ifree ?sb) = {}"
    using zero_bitmap[of 65536 8192] by (simp_all add: zero_block_def BLOCK_SIZE_def)
  have b: "bm_ok (bfree ?sb)" "used (bfree ?sb) = {}" unfolding c using zero_bitmap[of 1048576 131072] by simp_all
  have "maps_ok ?sb" using i b by (simp add: maps_ok_def cap_def)
  moreover have "synced ?sb" using z unfolding c by (simp add: synced_def)
  moreover have "dev_ok ?d" by (auto simp: dev_ok_def)
  ultimately have "sb_ok ?sb" using i(2) b(2) assms unfolding sb_ok_def by (simp add: layout_def new_super_def)
  then show ?thesis using f i b by (intro exI[of _ ?sb]) simp
qed

section \<open>Properties\<close>

text \<open>
  C30. Allocation is consistent, in memory and on disk. While the file system is within its limit,
  \<open>testfs_alloc_block\<close> returns a data block that was free and marks it; at the limit it returns
  \<open>-ENOSPC\<close> and changes nothing. \<open>testfs_free_block\<close> zeroes an allocated block and releases it,
  and stops at its assertion for a block that is not allocated. Both leave all other inode and data
  blocks alone and keep the invariant: counters equal the number of bits set, the copies of both
  bitmaps and of the super block on disk are current, so that opening the device at any moment gives
  the same super block and the same bitmaps.
\<close>

theorem block_allocation_consistent:
  assumes "sb_ok sb" and "n < 1048576"
  shows "(if used_block_count (dsb sb) = max_fs_blocks (dsb sb) then testfs_alloc_block sb = Inr (- ENOSPC, sb)
      else \<exists>m sb'. testfs_alloc_block sb = Inr (146 + int m, sb') \<and> m \<notin> used (bfree sb) \<and>
        used (bfree sb') = insert m (used (bfree sb)) \<and> sb_ok sb' \<and> (\<forall>i\<ge>18. dev sb' ! i = dev sb ! i)) \<and>
    (if n \<in> used (bfree sb)
     then \<exists>sb'. testfs_free_block (146 + int n) sb = Inr sb' \<and> used (bfree sb') = used (bfree sb) - {n} \<and> sb_ok sb' \<and>
       dev sb' ! (146 + n) = zero_block \<and> (\<forall>i\<ge>18. i < length (dev sb) \<longrightarrow> i \<noteq> 146 + n \<longrightarrow> dev sb' ! i = dev sb ! i)
     else testfs_free_block (146 + int n) sb = Inl Assert_failed) \<and>
    (\<exists>sb'. testfs_init_super_block (Inr (dev sb)) = Inr (0, Some sb') \<and> dsb sb' = dsb sb \<and> dev sb' = dev sb \<and>
      inode_freemap sb' = inode_freemap sb \<and> block_freemap sb' = block_freemap sb)"
proof (intro conjI, goal_cases)
  case 1
  show ?case using alloc_block_spec[OF assms(1)] by (auto simp: meta_only_def split: if_splits)
next
  case 2
  show ?case using free_block_spec[OF assms] by (auto simp: meta_only_def put_block_nth split: if_splits)
next
  case 3
  show ?case using reopen[OF assms(1)] by (simp add: inode_hash_init_def)
qed

theorem block_allocation_consistent_witness:
  "\<exists>sb m sb'. format_device 128 = Inr (0, Some sb) \<and> testfs_alloc_block sb = Inr (146 + int m, sb') \<and> sb_ok sb' \<and>
     used (bfree sb') = {m}"
proof -
  obtain sb where sb: "format_device 128 = Inr (0, Some sb)" "sb_ok sb" "used (bfree sb) = {}" "dsb sb = new_super 128"
    using format_spec[of 128] by auto
  from block_allocation_consistent[OF sb(2), of 0] sb show ?thesis by (auto simp: new_super_def)
qed

end
