(* ===== verification/FsInode.thy ===== *)
theory FsInode
  imports FsSuper
begin

unbundle bit_operations_syntax

text \<open>
  The inodes of fs/inode.c: the inodes in memory, reference counted and hashed by their number, and
  their place on disk; and the data blocks of an inode as fs/read_write.c reads, allocates, writes
  and frees them. The hash table is a list of chains of addresses (fs/list.h); an access through an
  address that was freed is a fault.
\<close>

section \<open>The hash table\<close>

definition hash_int :: "32 word \<Rightarrow> nat \<Rightarrow> 32 word" where
  "hash_int val bits = drop_bit (32 - bits) (val * 0x9e370001)"

definition inode_hashfn :: "int \<Rightarrow> nat" where
  "inode_hashfn nr = unat (hash_int (word_of_int nr) 8)"

definition the_table :: "super_block \<Rightarrow> addr list list res" where
  "the_table sb = (case inode_hash_table sb of None \<Rightarrow> Inl Null_deref | Some t \<Rightarrow> Inr t)"

definition bucket :: "addr list list \<Rightarrow> int \<Rightarrow> addr list res" where
  "bucket t nr = (if inode_hashfn nr < length t then Inr (t ! inode_hashfn nr) else Inl Out_of_bounds)"

fun find_inode :: "(addr \<Rightarrow> inode option) \<Rightarrow> int \<Rightarrow> addr list \<Rightarrow> addr option res" where
  "find_inode m nr [] = Inr None"
| "find_inode m nr (a # as) =
     bindR (readR m a) (\<lambda>ino. if i_nr ino = nr then Inr (Some a) else find_inode m nr as)"

definition inode_hash_find :: "int \<Rightarrow> super_block \<Rightarrow> addr option res" where
  "inode_hash_find nr sb =
     bindR (the_table sb) (\<lambda>t. bindR (bucket t nr) (find_inode (inodes sb) nr))"

text \<open>\<open>hlist_add_head\<close> and \<open>hlist_del\<close>.\<close>

definition inode_hash_insert :: "addr \<Rightarrow> super_block \<Rightarrow> super_block res" where
  "inode_hash_insert a sb =
     bindR (readR (inodes sb) a) (\<lambda>ino.
     bindR (the_table sb) (\<lambda>t. bindR (bucket t (i_nr ino)) (\<lambda>c.
       Inr (sb\<lparr>inode_hash_table := Some (t[inode_hashfn (i_nr ino) := a # c])\<rparr>))))"

definition inode_hash_remove :: "addr \<Rightarrow> super_block \<Rightarrow> super_block res" where
  "inode_hash_remove a sb =
     bindR (the_table sb) (\<lambda>t. Inr (sb\<lparr>inode_hash_table := Some (map (remove1 a) t)\<rparr>))"

section \<open>Inodes on disk and in memory\<close>

definition upd_inode :: "addr \<Rightarrow> (inode \<Rightarrow> inode) \<Rightarrow> super_block \<Rightarrow> super_block res" where
  "upd_inode a f sb = bindR (readR (inodes sb) a) (\<lambda>ino. Inr (sb\<lparr>inodes := (inodes sb)(a \<mapsto> f ino)\<rparr>))"

definition testfs_inode_to_block_nr :: "inode \<Rightarrow> int res" where
  "testfs_inode_to_block_nr ino =
     (let block_nr = (i_nr ino mod 2 ^ 32) div int INODES_PER_BLOCK
      in assertR (block_nr \<ge> 0) (assertR (block_nr < int NR_INODE_BLOCKS) (Inr block_nr)))"

definition testfs_inode_to_block_offset :: "inode \<Rightarrow> nat res" where
  "testfs_inode_to_block_offset ino =
     (let block_offset = nat ((i_nr ino mod 2 ^ 32) mod int INODES_PER_BLOCK) * sizeof_dinode
      in assertR (block_offset < BLOCK_SIZE) (Inr block_offset))"

definition testfs_read_inode_block :: "inode \<Rightarrow> super_block \<Rightarrow> byte list res" where
  "testfs_read_inode_block ino sb =
     bindR (testfs_inode_to_block_nr ino) (\<lambda>nr. read_blocks (inode_blocks_start (dsb sb) + nr) 1 (dev sb))"

definition testfs_write_inode_block :: "inode \<Rightarrow> byte list \<Rightarrow> super_block \<Rightarrow> super_block res" where
  "testfs_write_inode_block ino block sb =
     bindR (testfs_inode_to_block_nr ino) (\<lambda>nr.
       upd_dev (write_blocks block (inode_blocks_start (dsb sb) + nr) 1 (dev sb)) sb)"

text \<open>\<open>memcpy\<close> of \<open>s\<close> into a buffer at offset \<open>off\<close>.\<close>

definition memcpy_at :: "byte list \<Rightarrow> nat \<Rightarrow> byte list \<Rightarrow> byte list" where
  "memcpy_at b off s = take off b @ s @ drop (off + length s) b"

definition zero_dinode :: dinode where
  "zero_dinode = \<lparr>i_type = 0, i_block_nr = replicate 10 0, i_indirect = 0, i_dindirect = 0, block_count = 0, i_size = 0\<rparr>"

definition testfs_get_inode :: "int \<Rightarrow> super_block \<Rightarrow> (addr \<times> super_block) res" where
  "testfs_get_inode nr sb =
     bindR (inode_hash_find nr sb) (\<lambda>r.
       case r of
         Some a \<Rightarrow> bindR (upd_inode a (\<lambda>ino. ino\<lparr>i_count := i_count ino + 1\<rparr>) sb) (\<lambda>sb. Inr (a, sb))
       | None \<Rightarrow>
           let a = ibrk sb; ino = \<lparr>din = zero_dinode, i_flags = False, i_nr = nr, i_count = 1\<rparr>
           in bindR (testfs_read_inode_block ino sb) (\<lambda>block.
              bindR (testfs_inode_to_block_offset ino) (\<lambda>block_offset.
                let ino = ino\<lparr>din := dec_dinode (take sizeof_dinode (drop block_offset block))\<rparr>
                in bindR (inode_hash_insert a (sb\<lparr>inodes := (inodes sb)(a \<mapsto> ino), ibrk := Suc a\<rparr>)) (\<lambda>sb.
                     Inr (a, sb)))))"

definition testfs_sync_inode :: "addr \<Rightarrow> super_block \<Rightarrow> super_block res" where
  "testfs_sync_inode a sb =
     bindR (readR (inodes sb) a) (\<lambda>ino.
       if \<not> i_flags ino then Inr sb
       else bindR (testfs_read_inode_block ino sb) (\<lambda>block.
            bindR (testfs_inode_to_block_offset ino) (\<lambda>block_offset.
            bindR (testfs_write_inode_block ino (memcpy_at block block_offset (enc_dinode (din ino))) sb) (\<lambda>sb.
              upd_inode a (\<lambda>ino. ino\<lparr>i_flags := False\<rparr>) sb))))"

definition testfs_put_inode :: "addr \<Rightarrow> super_block \<Rightarrow> super_block res" where
  "testfs_put_inode a sb =
     bindR (readR (inodes sb) a) (\<lambda>ino.
       assertR (\<not> i_flags ino)
         (if i_count ino - 1 = 0
          then bindR (inode_hash_remove a sb) (\<lambda>sb. Inr (sb\<lparr>inodes := (inodes sb)(a := None)\<rparr>))
          else upd_inode a (\<lambda>ino. ino\<lparr>i_count := i_count ino - 1\<rparr>) sb))"

definition type_nr :: "inode_type \<Rightarrow> int" where
  "type_nr ty = (case ty of I_NONE \<Rightarrow> 0 | I_FILE \<Rightarrow> 1 | I_DIR \<Rightarrow> 2)"

text \<open>\<open>testfs_create_inode\<close>: the result, and the inode if it is 0.\<close>

definition testfs_create_inode :: "inode_type \<Rightarrow> super_block \<Rightarrow> (int \<times> addr option \<times> super_block) res" where
  "testfs_create_inode ty sb =
     bindR (testfs_get_inode_freemap sb) (\<lambda>(nr, sb).
       if nr < 0 then Inr (nr, None, sb)
       else if (nr mod 2 ^ 32) div int INODES_PER_BLOCK \<ge> int NR_INODE_BLOCKS
       then bindR (testfs_put_inode_freemap nr sb) (\<lambda>sb. Inr (- ENOSPC, None, sb))
       else bindR (testfs_get_inode nr sb) (\<lambda>(a, sb).
            bindR (upd_inode a (\<lambda>ino. ino\<lparr>din := (din ino)\<lparr>i_type := type_nr ty\<rparr>, i_flags := True\<rparr>) sb) (\<lambda>sb.
              Inr (0, Some a, sb))))"

definition testfs_alloc_block_for_inode :: "addr \<Rightarrow> super_block \<Rightarrow> (int \<times> super_block) res" where
  "testfs_alloc_block_for_inode a sb =
     bindR (testfs_alloc_block sb) (\<lambda>(phy, sb).
       if phy \<ge> 0
       then bindR (upd_inode a (\<lambda>ino. ino\<lparr>din := (din ino)\<lparr>block_count := wrap32 (block_count (din ino) + 1)\<rparr>, i_flags := True\<rparr>) sb)
              (\<lambda>sb. Inr (phy, sb))
       else Inr (phy, sb))"

definition testfs_free_block_from_inode :: "addr \<Rightarrow> int \<Rightarrow> super_block \<Rightarrow> super_block res" where
  "testfs_free_block_from_inode a phy sb =
     (if phy = 0 then Inr sb
      else bindR (testfs_free_block phy sb) (\<lambda>sb.
             upd_inode a (\<lambda>ino. ino\<lparr>din := (din ino)\<lparr>block_count := wrap32 (block_count (din ino) - 1)\<rparr>, i_flags := True\<rparr>) sb))"

section \<open>Data blocks\<close>

definition ENOSYS :: int where "ENOSYS = 38"

text \<open>The division and the remainder of C.\<close>

definition cdiv :: "int \<Rightarrow> int \<Rightarrow> int" where
  "cdiv a b = sgn a * sgn b * (\<bar>a\<bar> div \<bar>b\<bar>)"

text \<open>\<open>((int *)block)[k]\<close>.\<close>

definition get_int :: "byte list \<Rightarrow> int \<Rightarrow> int" where
  "get_int block k = dec_s32 (drop (4 * nat k) block)"

definition set_int :: "byte list \<Rightarrow> int \<Rightarrow> int \<Rightarrow> byte list" where
  "set_int block k x = memcpy_at block (4 * nat k) (enc_u32 x)"

text \<open>\<open>testfs_read_block\<close>: the physical block number, 0 or a negative number, and the block.\<close>

definition testfs_read_block :: "addr \<Rightarrow> int \<Rightarrow> super_block \<Rightarrow> (int \<times> byte list) res" where
  "testfs_read_block a log_block_nr sb =
     bindR (readR (inodes sb) a) (\<lambda>ino.
       assertR (log_block_nr \<ge> 0)
         (let fetch = (\<lambda>phy. if phy > 0 then bindR (read_blocks phy 1 (dev sb)) (\<lambda>block. Inr (phy, block))
                              else Inr (phy, zero_block))
          in if log_block_nr < NR_DIRECT_BLOCKS then fetch (i_block_nr (din ino) ! nat log_block_nr)
             else let log_block_nr = log_block_nr - NR_DIRECT_BLOCKS
                  in if log_block_nr \<ge> NR_INDIRECT_BLOCKS then Inr (- ENOSYS, [])
                     else if i_indirect (din ino) > 0
                     then bindR (read_blocks (i_indirect (din ino)) 1 (dev sb)) (\<lambda>block. fetch (get_int block log_block_nr))
                     else fetch 0))"

text \<open>
  \<open>testfs_read_data\<close>. \<open>start\<close> is an \<open>off_t\<close> and \<open>size\<close> a \<open>size_t\<close>; sums of them wrap in the type
  the code computes them in. The block number is passed on as an \<open>int\<close>. Copying past the end of
  the block is a fault.
\<close>

definition testfs_read_data :: "addr \<Rightarrow> int \<Rightarrow> int \<Rightarrow> super_block \<Rightarrow> (int \<times> byte list) res" where
  "testfs_read_data a start sz sb =
     bindR (readR (inodes sb) a) (\<lambda>ino.
       let block_nr = cdiv start (int BLOCK_SIZE);
           block_ix = crem start (int BLOCK_SIZE);
           sz = (if wrap64 (start + wrap64 sz) > i_size (din ino) then (i_size (din ino) - start) mod 2 ^ 64 else sz)
       in if (block_ix + sz) mod 2 ^ 64 > int BLOCK_SIZE then Inr (- ENOSYS, [])
          else bindR (testfs_read_block a (wrap32 block_nr) sb) (\<lambda>(ret, block).
                 if ret < 0 then Inr (ret, [])
                 else if block_ix < 0 \<or> block_ix + sz > int BLOCK_SIZE then Inl Out_of_bounds
                 else Inr (wrap32 sz, take (nat sz) (drop (nat block_ix) block))))"

definition set_din :: "addr \<Rightarrow> (dinode \<Rightarrow> dinode) \<Rightarrow> super_block \<Rightarrow> super_block res" where
  "set_din a f sb = upd_inode a (\<lambda>ino. ino\<lparr>din := f (din ino)\<rparr>) sb"

definition testfs_allocate_block :: "addr \<Rightarrow> int \<Rightarrow> super_block \<Rightarrow> (int \<times> byte list \<times> super_block) res" where
  "testfs_allocate_block a log_block_nr sb =
     assertR (log_block_nr \<ge> 0)
       (bindR (testfs_read_block a log_block_nr sb) (\<lambda>(phy, block).
          if phy \<noteq> 0 then Inr (phy, block, sb)
          else bindR (readR (inodes sb) a) (\<lambda>ino.
            if log_block_nr < NR_DIRECT_BLOCKS
            then assertR (i_block_nr (din ino) ! nat log_block_nr = 0)
                   (bindR (testfs_alloc_block_for_inode a sb) (\<lambda>(phy, sb).
                      if phy \<ge> 0
                      then bindR (set_din a (\<lambda>d. d\<lparr>i_block_nr := (i_block_nr d)[nat log_block_nr := phy]\<rparr>) sb)
                             (\<lambda>sb. Inr (phy, block, sb))
                      else Inr (phy, block, sb)))
            else let log_block_nr = log_block_nr - NR_DIRECT_BLOCKS
                 in if log_block_nr \<ge> NR_INDIRECT_BLOCKS then Inr (- ENOSYS, block, sb)
                    else bindR (if i_indirect (din ino) = 0
                                then bindR (testfs_alloc_block_for_inode a sb) (\<lambda>(phy, sb).
                                       if phy < 0 then Inr (Inl phy, sb)
                                       else bindR (set_din a (\<lambda>d. d\<lparr>i_indirect := phy\<rparr>) sb) (\<lambda>sb.
                                              Inr (Inr (zero_block, True), sb)))
                                else bindR (read_blocks (i_indirect (din ino)) 1 (dev sb)) (\<lambda>indirect.
                                       Inr (Inr (indirect, False), sb))) (\<lambda>(r, sb).
                         case r of
                           Inl phy \<Rightarrow> Inr (phy, block, sb)
                         | Inr (indirect, indirect_allocated) \<Rightarrow>
                             assertR (get_int indirect log_block_nr = 0)
                               (bindR (testfs_alloc_block_for_inode a sb) (\<lambda>(phy, sb).
                                bindR (readR (inodes sb) a) (\<lambda>ino.
                                  if phy \<ge> 0
                                  then bindR (upd_dev (write_blocks (set_int indirect log_block_nr phy)
                                                (i_indirect (din ino)) 1 (dev sb)) sb)
                                         (\<lambda>sb. Inr (phy, block, sb))
                                  else if indirect_allocated
                                  then bindR (testfs_free_block_from_inode a (i_indirect (din ino)) sb) (\<lambda>sb.
                                       bindR (set_din a (\<lambda>d. d\<lparr>i_indirect := 0\<rparr>) sb) (\<lambda>sb. Inr (phy, block, sb)))
                                  else Inr (phy, block, sb))))))))"

definition testfs_write_data :: "addr \<Rightarrow> byte list \<Rightarrow> int \<Rightarrow> super_block \<Rightarrow> (int \<times> super_block) res" where
  "testfs_write_data a buf start sb =
     (let block_nr = cdiv start (int BLOCK_SIZE);
          block_ix = crem start (int BLOCK_SIZE);
          sz = int (length buf)
      in if (block_ix + sz) mod 2 ^ 64 > int BLOCK_SIZE then Inr (- ENOSYS, sb)
         else bindR (testfs_allocate_block a (wrap32 block_nr) sb) (\<lambda>(ret, block, sb).
                if ret < 0 then Inr (ret, sb)
                else if block_ix < 0 \<or> block_ix + sz > int BLOCK_SIZE then Inl Out_of_bounds
                else bindR (upd_dev (write_blocks (memcpy_at block (nat block_ix) buf) ret 1 (dev sb)) sb) (\<lambda>sb.
                     bindR (upd_inode a (\<lambda>ino. ino\<lparr>din := (din ino)\<lparr>i_size :=
                              (if sz > 0 then max (i_size (din ino)) (wrap64 (start + sz)) else i_size (din ino))\<rparr>,
                              i_flags := True\<rparr>) sb) (\<lambda>sb.
                       Inr (wrap32 sz, sb)))))"

text \<open>The two loops of \<open>testfs_free_blocks\<close>, from index \<open>i\<close>, \<open>k\<close> iterations to go.\<close>

fun free_direct :: "addr \<Rightarrow> nat \<Rightarrow> nat \<Rightarrow> super_block \<Rightarrow> super_block res" where
  "free_direct a i 0 sb = Inr sb"
| "free_direct a i (Suc k) sb =
     bindR (readR (inodes sb) a) (\<lambda>ino.
       if i_block_nr (din ino) ! i = 0 then free_direct a (Suc i) k sb
       else bindR (testfs_free_block_from_inode a (i_block_nr (din ino) ! i) sb) (\<lambda>sb.
            bindR (set_din a (\<lambda>d. d\<lparr>i_block_nr := (i_block_nr d)[i := 0]\<rparr>) sb) (free_direct a (Suc i) k)))"

fun free_indirect :: "addr \<Rightarrow> byte list \<Rightarrow> nat \<Rightarrow> nat \<Rightarrow> super_block \<Rightarrow> super_block res" where
  "free_indirect a block i 0 sb = Inr sb"
| "free_indirect a block i (Suc k) sb =
     (if get_int block (int i) = 0 then free_indirect a block (Suc i) k sb
      else bindR (testfs_free_block_from_inode a (get_int block (int i)) sb)
             (free_indirect a (set_int block (int i) 0) (Suc i) k))"

definition testfs_free_blocks :: "addr \<Rightarrow> super_block \<Rightarrow> (int \<times> super_block) res" where
  "testfs_free_blocks a sb =
     bindR (readR (inodes sb) a) (\<lambda>ino.
       let e_block_nr = wrap32 (cdiv (wrap64 (i_size (din ino) + int BLOCK_SIZE - 1)) (int BLOCK_SIZE))
       in bindR (free_direct a 0 (nat (min e_block_nr NR_DIRECT_BLOCKS)) sb) (\<lambda>sb.
          let e_block_nr = wrap32 (e_block_nr - NR_DIRECT_BLOCKS)
          in bindR (readR (inodes sb) a) (\<lambda>ino.
             bindR (if i_indirect (din ino) > 0
                    then assertR (e_block_nr > 0)
                           (bindR (read_blocks (i_indirect (din ino)) 1 (dev sb)) (\<lambda>block.
                            bindR (free_indirect a block 0 (nat (min e_block_nr NR_INDIRECT_BLOCKS)) sb) (\<lambda>sb.
                            bindR (testfs_free_block_from_inode a (i_indirect (din ino)) sb) (\<lambda>sb.
                              set_din a (\<lambda>d. d\<lparr>i_indirect := 0\<rparr>) sb))))
                    else Inr sb) (\<lambda>sb.
               if wrap32 (e_block_nr - NR_INDIRECT_BLOCKS) > 0 then Inr (- ENOSYS, sb)
               else bindR (upd_inode a (\<lambda>ino. ino\<lparr>din := (din ino)\<lparr>i_size := 0\<rparr>, i_flags := True\<rparr>) sb) (\<lambda>sb.
                      Inr (0, sb))))))"

definition testfs_remove_inode :: "addr \<Rightarrow> super_block \<Rightarrow> super_block res" where
  "testfs_remove_inode a sb =
     bindR (testfs_free_blocks a sb) (\<lambda>(_, sb).
     bindR (readR (inodes sb) a) (\<lambda>ino.
       assertR (block_count (din ino) = 0)
         (bindR (upd_inode a (\<lambda>ino. ino\<lparr>din := zero_dinode, i_flags := True\<rparr>) sb) (\<lambda>sb.
          bindR (testfs_put_inode_freemap (i_nr ino) sb) (\<lambda>sb.
          bindR (testfs_sync_inode a sb) (\<lambda>sb.
            testfs_put_inode a sb))))))"

end
