(* ===== verification/FsFile.thy ===== *)
theory FsFile
  imports FsInode
begin

text \<open>
  Files as bytes: the contents of an inode as a function from positions to bytes, and what reading
  and writing do to it.
\<close>

section \<open>Words in a block\<close>

lemma length_memcpy_at: "off + length s \<le> length b \<Longrightarrow> length (memcpy_at b off s) = length b"
  by (simp add: memcpy_at_def)

lemma memcpy_at_nth:
  "off + length s \<le> length b \<Longrightarrow> i < length b \<Longrightarrow>
   memcpy_at b off s ! i = (if off \<le> i \<and> i < off + length s then s ! (i - off) else b ! i)"
  by (auto simp: memcpy_at_def nth_append)

lemma take_drop_memcpy_at:
  assumes "off + length s \<le> length b" and "n \<le> off \<and> n + m \<le> off \<or> off + length s \<le> n" and "n + m \<le> length b"
  shows "take m (drop n (memcpy_at b off s)) = take m (drop n b)"
  using assms by (intro nth_equalityI) (auto simp: length_memcpy_at memcpy_at_nth)

lemma take_drop_memcpy_at_same:
  assumes "off + length s \<le> length b"
  shows "take (length s) (drop off (memcpy_at b off s)) = s"
  using assms by (simp add: memcpy_at_def)

lemma length_set_int: "length b = BLOCK_SIZE \<Longrightarrow> 0 \<le> k \<Longrightarrow> k < 2048 \<Longrightarrow> length (set_int b k x) = BLOCK_SIZE"
  by (simp add: set_int_def length_memcpy_at BLOCK_SIZE_def)

lemma get_set_int:
  assumes "length b = BLOCK_SIZE" and "0 \<le> k" and "k < 2048" and "0 \<le> j" and "j < 2048" and "s32 x"
  shows "get_int (set_int b k x) j = (if j = k then x else get_int b j)"
proof -
  have l: "4 * nat k + length (enc_u32 x) \<le> length b" "4 * nat j + 4 \<le> length b" using assms by (auto simp: BLOCK_SIZE_def)
  show "get_int (set_int b k x) j = (if j = k then x else get_int b j)"
  proof (cases "j = k")
    case True
    have "dec_s32 (enc_u32 x @ []) = x" using dec_enc(2)[OF assms(6)] .
    then show ?thesis using True take_drop_memcpy_at_same[OF l(1)] by (simp add: get_int_def set_int_def dec_s32_def)
  next
    case False
    have "take 4 (drop (4 * nat j) (memcpy_at b (4 * nat k) (enc_u32 x))) = take 4 (drop (4 * nat j) b)"
      using l False assms(2,4) by (intro take_drop_memcpy_at) (auto simp: nat_le_iff)
    then show ?thesis using False by (simp add: get_int_def set_int_def dec_s32_def)
  qed
qed

lemma le_dec_zero: "le_dec (replicate n 0) = 0"
  by (induction n) auto

lemma get_int_zero: "get_int zero_block k = 0"
  by (simp add: get_int_def dec_s32_def zero_block_def le_dec_zero wrap32_id)

section \<open>The blocks of a file\<close>

definition phys :: "dinode \<Rightarrow> byte list list \<Rightarrow> nat \<Rightarrow> int" where
  "phys d dv lb = (if lb < 10 then i_block_nr d ! lb
     else if i_indirect d > 0 then get_int (dv ! nat (i_indirect d)) (int lb - 10) else 0)"

text \<open>The byte at a position; a block that is not allocated reads as zeros.\<close>

definition content :: "dinode \<Rightarrow> byte list list \<Rightarrow> nat \<Rightarrow> byte" where
  "content d dv pos = (let p = phys d dv (pos div BLOCK_SIZE) in if p > 0 then dv ! nat p ! (pos mod BLOCK_SIZE) else 0)"

definition owned :: "super_block \<Rightarrow> int \<Rightarrow> bool" where
  "owned sb p \<longleftrightarrow> (\<exists>n\<in>used (bfree sb). p = 146 + int n)"

definition stored :: "super_block \<Rightarrow> int \<Rightarrow> bool" where
  "stored sb p \<longleftrightarrow> owned sb p \<and> nat p < length (dev sb)"

text \<open>The blocks of a file are allocated, on the device, and all different.\<close>

definition file_ok :: "super_block \<Rightarrow> dinode \<Rightarrow> bool" where
  "file_ok sb d \<longleftrightarrow> length (i_block_nr d) = 10 \<and> (i_indirect d = 0 \<or> stored sb (i_indirect d)) \<and>
     (\<forall>lb<2058. phys d (dev sb) lb = 0 \<or> stored sb (phys d (dev sb) lb) \<and> phys d (dev sb) lb \<noteq> i_indirect d) \<and>
     (\<forall>lb<2058. \<forall>lb'<2058. phys d (dev sb) lb = phys d (dev sb) lb' \<and> phys d (dev sb) lb \<noteq> 0 \<longrightarrow> lb = lb')"

definition blocks_of :: "super_block \<Rightarrow> dinode \<Rightarrow> int set" where
  "blocks_of sb d = (({i_indirect d} \<union> phys d (dev sb) ` {..<2058}) - {0})"

lemma owned_range: "sb_ok sb \<Longrightarrow> owned sb p \<Longrightarrow> 146 \<le> p \<and> p < 146 + 1048576"
  using bm.inuse_bound[of "bfree sb"] by (fastforce simp: owned_def sb_ok_def maps_ok_def)

lemma owned_pos: "owned sb p \<Longrightarrow> 0 < p"
  by (auto simp: owned_def)

lemma stored_pos: "stored sb p \<Longrightarrow> 0 < p"
  by (auto simp: stored_def owned_def)

lemma file_okD:
  assumes "file_ok sb d"
  shows "length (i_block_nr d) = 10" and "0 \<le> i_indirect d" and "i_indirect d \<noteq> 0 \<Longrightarrow> stored sb (i_indirect d)"
    and "lb < 2058 \<Longrightarrow> phys d (dev sb) lb \<noteq> 0 \<Longrightarrow> stored sb (phys d (dev sb) lb) \<and> phys d (dev sb) lb \<noteq> i_indirect d"
    and "lb < 2058 \<Longrightarrow> 0 \<le> phys d (dev sb) lb"
  using assms stored_pos[of sb "i_indirect d"] stored_pos[of sb "phys d (dev sb) lb"] by (auto simp: file_ok_def)

lemma sb_ok_inodes [simp]: "sb_ok (sb\<lparr>inodes := m\<rparr>) = sb_ok sb"
  by (simp add: sb_ok_def maps_ok_def synced_def)

lemma read_block_spec:
  assumes "file_ok sb d" and "inodes sb a = Some ino" and "din ino = d" and "lb < 2058"
  shows "testfs_read_block a (int lb) sb =
    Inr (phys d (dev sb) lb, if phys d (dev sb) lb > 0 then dev sb ! nat (phys d (dev sb) lb) else zero_block)"
proof -
  note f = file_okD[OF assms(1)]
  have rd: "stored sb p \<Longrightarrow> read_blocks p (Suc 0) (dev sb) = Inr (dev sb ! nat p)" for p
    by (auto simp: stored_def owned_def read_one)
  show ?thesis
    using assms f(2,3) f(4)[OF assms(4)] f(5)[OF assms(4)]
    by (auto simp: testfs_read_block_def NR_DIRECT_BLOCKS_def NR_INDIRECT_BLOCKS_def phys_def rd Let_def)
qed

section \<open>Allocating a block of a file\<close>

abbreviation room :: "super_block \<Rightarrow> int" where
  "room sb \<equiv> max_fs_blocks (dsb sb) - used_block_count (dsb sb)"

definition counted :: "inode \<Rightarrow> inode" where
  "counted ino = ino\<lparr>din := (din ino)\<lparr>block_count := wrap32 (block_count (din ino) + 1)\<rparr>, i_flags := True\<rparr>"

lemma counted_simps [simp]:
  "i_block_nr (din (counted ino)) = i_block_nr (din ino)" "i_indirect (din (counted ino)) = i_indirect (din ino)"
  "i_size (din (counted ino)) = i_size (din ino)" "i_type (din (counted ino)) = i_type (din ino)"
  "i_nr (counted ino) = i_nr ino" "i_count (counted ino) = i_count ino" "i_flags (counted ino)"
  "i_dindirect (din (counted ino)) = i_dindirect (din ino)" "s32 (block_count (din (counted ino)))"
  by (simp_all add: counted_def wrap_range)

text \<open>The parts of the state that writing does not touch.\<close>

abbreviation same_tab :: "super_block \<Rightarrow> super_block \<Rightarrow> bool" where
  "same_tab sb sb' \<equiv> inode_hash_table sb' = inode_hash_table sb \<and> ibrk sb' = ibrk sb \<and> inode_freemap sb' = inode_freemap sb"

lemma alloc_for_inode_spec:
  assumes "sb_ok sb" and "inodes sb a = Some ino" and "0 < room sb"
  shows "\<exists>p sb'. testfs_alloc_block_for_inode a sb = Inr (p, sb') \<and> sb_ok sb' \<and> \<not> owned sb p \<and>
    (\<forall>q. owned sb' q \<longleftrightarrow> q = p \<or> owned sb q) \<and> room sb' = room sb - 1 \<and> length (dev sb') = length (dev sb) \<and>
    (\<forall>i\<ge>18. dev sb' ! i = dev sb ! i) \<and> inodes sb' = (inodes sb)(a \<mapsto> counted ino) \<and> same_tab sb sb'"
proof -
  obtain n sb1 where s: "testfs_alloc_block sb = Inr (146 + int n, sb1)" "n \<notin> used (bfree sb)" "sb_ok sb1"
    "used (bfree sb1) = insert n (used (bfree sb))" "dsb sb1 = (dsb sb)\<lparr>used_block_count := used_block_count (dsb sb) + 1\<rparr>"
    "meta_only sb sb1" "inode_freemap sb1 = inode_freemap sb" using alloc_block_spec[OF assms(1)] assms(3) by (auto split: if_splits)
  let ?sb = "sb1\<lparr>inodes := (inodes sb1)(a \<mapsto> counted ino)\<rparr>"
  have i: "inodes sb1 = inodes sb" using s(6) by (simp add: meta_only_def)
  have "testfs_alloc_block_for_inode a sb = Inr (146 + int n, ?sb)"
    using s(1) i assms(2) by (simp add: testfs_alloc_block_for_inode_def upd_inode_def counted_def)
  moreover have "\<not> owned sb (146 + int n)" "\<forall>q. owned ?sb q \<longleftrightarrow> q = 146 + int n \<or> owned sb q"
    using s(2,4) by (auto simp: owned_def)
  ultimately show ?thesis using s(3,5,6,7) i by (intro exI[of _ "146 + int n"] exI[of _ ?sb]) (simp add: meta_only_def)
qed

text \<open>What allocating the logical block \<open>lb\<close> has done: \<open>p\<close> is its physical block, the others are
  where they were, and at most the indirect block was changed.\<close>

definition allocated :: "super_block \<Rightarrow> addr \<Rightarrow> inode \<Rightarrow> nat \<Rightarrow> int \<Rightarrow> super_block \<Rightarrow> inode \<Rightarrow> bool" where
  "allocated sb a ino lb p sb' ino' \<longleftrightarrow>
     sb_ok sb' \<and> inodes sb' = (inodes sb)(a \<mapsto> ino') \<and> i_nr ino' = i_nr ino \<and> i_count ino' = i_count ino \<and>
     i_size (din ino') = i_size (din ino) \<and> i_type (din ino') = i_type (din ino) \<and> length (i_block_nr (din ino')) = 10 \<and>
     owned sb' p \<and> p \<noteq> i_indirect (din ino') \<and>
     (if phys (din ino) (dev sb) lb = 0 then \<not> owned sb p else p = phys (din ino) (dev sb) lb) \<and>
     (i_indirect (din ino') = i_indirect (din ino) \<or> \<not> owned sb (i_indirect (din ino')) \<and> i_indirect (din ino) = 0) \<and>
     (i_indirect (din ino') = 0 \<or> stored sb' (i_indirect (din ino'))) \<and>
     (\<forall>l<2058. phys (din ino') (dev sb') l = (if l = lb then p else phys (din ino) (dev sb) l)) \<and>
     (\<forall>q. owned sb q \<longrightarrow> owned sb' q) \<and> length (dev sb) \<le> length (dev sb') \<and>
     (\<forall>i\<ge>18. i < length (dev sb) \<longrightarrow> int i \<noteq> i_indirect (din ino) \<longrightarrow> i < 146 \<or> owned sb (int i) \<longrightarrow>
       dev sb' ! i = dev sb ! i) \<and>
     room sb - 2 \<le> room sb' \<and> same_tab sb sb' \<and> i_dindirect (din ino') = i_dindirect (din ino) \<and>
     (s32 (block_count (din ino)) \<longrightarrow> s32 (block_count (din ino')))"

lemma allocate_present:
  assumes "sb_ok sb" and "file_ok sb (din ino)" and "inodes sb a = Some ino" and "lb < 2058"
    and "phys (din ino) (dev sb) lb \<noteq> 0"
  shows "testfs_allocate_block a (int lb) sb =
      Inr (phys (din ino) (dev sb) lb, dev sb ! nat (phys (din ino) (dev sb) lb), sb)"
    and "allocated sb a ino lb (phys (din ino) (dev sb) lb) sb ino"
proof -
  note f = file_okD[OF assms(2)]
  have p: "stored sb (phys (din ino) (dev sb) lb)" "phys (din ino) (dev sb) lb \<noteq> i_indirect (din ino)" using f(4) assms(4,5) by auto
  show "testfs_allocate_block a (int lb) sb =
      Inr (phys (din ino) (dev sb) lb, dev sb ! nat (phys (din ino) (dev sb) lb), sb)"
    using read_block_spec[OF assms(2,3) refl assms(4)] assms(5) stored_pos[OF p(1)]
    by (simp add: testfs_allocate_block_def)
  show "allocated sb a ino lb (phys (din ino) (dev sb) lb) sb ino"
    using assms p f by (auto simp: allocated_def stored_def)
qed

lemma allocate_direct:
  assumes "sb_ok sb" and "file_ok sb (din ino)" and "inodes sb a = Some ino" and "lb < 10"
    and "phys (din ino) (dev sb) lb = 0" and "0 < room sb"
  shows "\<exists>p sb' ino'. testfs_allocate_block a (int lb) sb = Inr (p, zero_block, sb') \<and> allocated sb a ino lb p sb' ino'"
proof -
  note f = file_okD[OF assms(2)]
  obtain p sb1 where s: "testfs_alloc_block_for_inode a sb = Inr (p, sb1)" "sb_ok sb1" "\<not> owned sb p"
    "\<forall>q. owned sb1 q \<longleftrightarrow> q = p \<or> owned sb q" "room sb1 = room sb - 1" "length (dev sb1) = length (dev sb)"
    "\<forall>i\<ge>18. dev sb1 ! i = dev sb ! i" "inodes sb1 = (inodes sb)(a \<mapsto> counted ino)" "same_tab sb sb1"
    using alloc_for_inode_spec[OF assms(1,3,6)] by blast
  have p: "owned sb1 p" "0 < p" using s(4) owned_pos[of sb1 p] by auto
  let ?ino = "(counted ino)\<lparr>din := (din (counted ino))\<lparr>i_block_nr := (i_block_nr (din ino))[lb := p]\<rparr>\<rparr>"
  let ?sb = "sb1\<lparr>inodes := (inodes sb)(a \<mapsto> ?ino)\<rparr>"
  have i: "i_indirect (din ino) \<noteq> 0 \<Longrightarrow> owned sb (i_indirect (din ino)) \<and> nat (i_indirect (din ino)) < length (dev sb) \<and> 146 \<le> i_indirect (din ino)"
    using f(3) owned_range[OF assms(1)] by (auto simp: stored_def)
  have "testfs_allocate_block a (int lb) sb = Inr (p, zero_block, ?sb)"
    using read_block_spec[OF assms(2,3) refl, of lb] assms(3-5) s(1,8) p(2)
    by (simp add: testfs_allocate_block_def NR_DIRECT_BLOCKS_def phys_def set_din_def upd_inode_def)
  moreover have "phys (din ?ino) (dev ?sb) l = (if l = lb then p else phys (din ino) (dev sb) l)" if "l < 2058" for l
    using that assms(4) f(1) s(7) i by (auto simp: phys_def nth_list_update)
  then have "allocated sb a ino lb p ?sb ?ino"
    using s f(1) p i assms(5) unfolding allocated_def by (auto simp: stored_def owned_def)
  ultimately show ?thesis by blast
qed

lemma owned_s32: "sb_ok sb \<Longrightarrow> owned sb p \<Longrightarrow> s32 p"
  using owned_range by (fastforce simp: s32_def)

text \<open>The entry in an indirect block that is already there.\<close>

lemma allocate_indirect:
  assumes "sb_ok sb" and "file_ok sb (din ino)" and "inodes sb a = Some ino" and "10 \<le> lb" and "lb < 2058"
    and "phys (din ino) (dev sb) lb = 0" and "0 < room sb" and "i_indirect (din ino) \<noteq> 0"
  shows "\<exists>p sb' ino'. testfs_allocate_block a (int lb) sb = Inr (p, zero_block, sb') \<and> allocated sb a ino lb p sb' ino'"
proof -
  note f = file_okD[OF assms(2)]
  let ?x = "i_indirect (din ino)"
  have x: "stored sb ?x" "0 < ?x" "146 \<le> ?x" using f(3) assms(8) stored_pos owned_range[OF assms(1)] by (auto simp: stored_def)
  let ?ind = "dev sb ! nat ?x"
  have lx: "length ?ind = BLOCK_SIZE" using x(1) assms(1) by (auto simp: stored_def sb_ok_def intro: dev_ok_nth)
  have z: "get_int ?ind (int lb - 10) = 0" using assms(4,6) x(2) by (simp add: phys_def)
  obtain p sb1 where s: "testfs_alloc_block_for_inode a sb = Inr (p, sb1)" "sb_ok sb1" "\<not> owned sb p"
    "\<forall>q. owned sb1 q \<longleftrightarrow> q = p \<or> owned sb q" "room sb1 = room sb - 1" "length (dev sb1) = length (dev sb)"
    "\<forall>i\<ge>18. dev sb1 ! i = dev sb ! i" "inodes sb1 = (inodes sb)(a \<mapsto> counted ino)" "same_tab sb sb1"
    using alloc_for_inode_spec[OF assms(1,3,7)] by blast
  have p: "owned sb1 p" "0 < p" "p \<noteq> ?x" using s(3,4) owned_pos[of sb1 p] x(1) by (auto simp: stored_def)
  have p32: "s32 p" using owned_s32[OF s(2) p(1)] .
  let ?b = "set_int ?ind (int lb - 10) p"
  have b: "length ?b = BLOCK_SIZE" "\<And>j. 0 \<le> j \<Longrightarrow> j < 2048 \<Longrightarrow> get_int ?b j = (if j = int lb - 10 then p else get_int ?ind j)"
    using get_set_int[OF lx, of "int lb - 10" _ p] length_set_int[OF lx] assms(4,5) p32 by auto
  let ?sb = "sb1\<lparr>dev := put_block (dev sb1) (nat ?x) ?b\<rparr>"
  have ok: "sb_ok ?sb" using sb_ok_put[OF s(2) _ b(1)] x(3) by simp
  have xl: "nat ?x < length (dev sb)" using x(1) by (simp add: stored_def)
  have "testfs_allocate_block a (int lb) sb = Inr (p, zero_block, ?sb)"
    using read_block_spec[OF assms(2,3) refl assms(5)] assms(3-6) s(1,8) p(2) x xl z b(1)
    by (simp add: testfs_allocate_block_def NR_DIRECT_BLOCKS_def NR_INDIRECT_BLOCKS_def read_one upd_dev_def write_one)
  moreover have "phys (din (counted ino)) (dev ?sb) l = (if l = lb then p else phys (din ino) (dev sb) l)" if "l < 2058" for l
  proof (cases "l < 10")
    case False
    then have "get_int ?b (int l - 10) = (if l = lb then p else get_int ?ind (int l - 10))" using b(2)[of "int l - 10"] that assms(4) by auto
    then show ?thesis using False x(2) xl s(6) by (simp add: phys_def put_block_nth)
  qed (use assms(4) in \<open>auto simp: phys_def\<close>)
  then have "allocated sb a ino lb p ?sb (counted ino)"
    using s f(1) p x xl ok assms(6) unfolding allocated_def by (auto simp: stored_def owned_def put_block_nth)
  ultimately show ?thesis by blast
qed

text \<open>The first entry of a new indirect block.\<close>

lemma allocate_new_indirect:
  assumes "sb_ok sb" and "file_ok sb (din ino)" and "inodes sb a = Some ino" and "10 \<le> lb" and "lb < 2058"
    and "1 < room sb" and "i_indirect (din ino) = 0"
  shows "\<exists>p sb' ino'. testfs_allocate_block a (int lb) sb = Inr (p, zero_block, sb') \<and> allocated sb a ino lb p sb' ino'"
proof -
  note f = file_okD[OF assms(2)]
  have ph: "phys (din ino) (dev sb) l = 0" if "10 \<le> l" for l using that assms(7) by (simp add: phys_def)
  have "0 < room sb" using assms(6) by simp
  from alloc_for_inode_spec[OF assms(1,3) this] obtain x sb1 where
    s: "testfs_alloc_block_for_inode a sb = Inr (x, sb1)" "sb_ok sb1" "\<not> owned sb x"
    "\<forall>q. owned sb1 q \<longleftrightarrow> q = x \<or> owned sb q" "room sb1 = room sb - 1" "length (dev sb1) = length (dev sb)"
    "\<forall>i\<ge>18. dev sb1 ! i = dev sb ! i" "inodes sb1 = (inodes sb)(a \<mapsto> counted ino)" "same_tab sb sb1" by blast
  let ?ino1 = "(counted ino)\<lparr>din := (din (counted ino))\<lparr>i_indirect := x\<rparr>\<rparr>"
  let ?sb1 = "sb1\<lparr>inodes := (inodes sb)(a \<mapsto> ?ino1)\<rparr>"
  have s1: "sb_ok ?sb1" "inodes ?sb1 a = Some ?ino1" "0 < room ?sb1" using s(2,5) assms(6) by auto
  from alloc_for_inode_spec[OF s1] obtain p sb2 where
    r: "testfs_alloc_block_for_inode a ?sb1 = Inr (p, sb2)" "sb_ok sb2" "\<not> owned ?sb1 p"
    "\<forall>q. owned sb2 q \<longleftrightarrow> q = p \<or> owned ?sb1 q" "room sb2 = room ?sb1 - 1" "length (dev sb2) = length (dev sb1)"
    "\<forall>i\<ge>18. dev sb2 ! i = dev sb1 ! i" "inodes sb2 = (inodes ?sb1)(a \<mapsto> counted ?ino1)" "same_tab ?sb1 sb2" by auto
  have o1: "owned ?sb1 q = owned sb1 q" for q by (simp add: owned_def)
  have x: "0 < x" "owned sb2 x" "146 \<le> x" "x \<noteq> p" using s(4) r(3,4) o1 owned_pos[of sb1 x] owned_range[OF s(2), of x] by auto
  have p: "owned sb2 p" "0 < p" "\<not> owned sb p" "s32 p" using r(3,4) s(4) o1 owned_pos[of sb2 p] owned_s32[OF r(2)] by auto
  let ?b = "set_int zero_block (int lb - 10) p"
  have b: "length ?b = BLOCK_SIZE" "\<And>j. 0 \<le> j \<Longrightarrow> j < 2048 \<Longrightarrow> get_int ?b j = (if j = int lb - 10 then p else 0)"
    using get_set_int[OF length_zero_block, of "int lb - 10" _ p] length_set_int[OF length_zero_block] assms(4,5) p(4) by (auto simp: get_int_zero)
  let ?sb = "sb2\<lparr>dev := put_block (dev sb2) (nat x) ?b\<rparr>"
  have ok: "sb_ok ?sb" using sb_ok_put[OF r(2) _ b(1)] x(3) by simp
  have "testfs_allocate_block a (int lb) sb = Inr (p, zero_block, ?sb)"
    using read_block_spec[OF assms(2,3) refl assms(5)] assms(3-5,7) ph[OF assms(4)] s(1,8) r(1,8) p(2) x(1) b(1)
    by (simp add: testfs_allocate_block_def NR_DIRECT_BLOCKS_def NR_INDIRECT_BLOCKS_def upd_dev_def write_one
        set_din_def upd_inode_def get_int_zero)
  moreover have "phys (din (counted ?ino1)) (dev ?sb) l = (if l = lb then p else phys (din ino) (dev sb) l)" if "l < 2058" for l
  proof (cases "l < 10")
    case False
    then have "get_int ?b (int l - 10) = (if l = lb then p else 0)" using b(2)[of "int l - 10"] that assms(4) by auto
    then show ?thesis using False x(1) ph by (simp add: phys_def put_block_nth)
  qed (use assms(4) in \<open>auto simp: phys_def\<close>)
  then have "allocated sb a ino lb p ?sb (counted ?ino1)"
    using s r f(1) p x ok o1 assms(7) ph[OF assms(4)] unfolding allocated_def
    by (auto simp: stored_def owned_def put_block_nth)
  ultimately show ?thesis by blast
qed

lemma allocate_block_spec:
  assumes "sb_ok sb" and "file_ok sb (din ino)" and "inodes sb a = Some ino" and "lb < 2058"
    and "1 < room sb \<or> phys (din ino) (dev sb) lb \<noteq> 0"
  shows "\<exists>p sb' ino'. testfs_allocate_block a (int lb) sb =
      Inr (p, (let q = phys (din ino) (dev sb) lb in if q > 0 then dev sb ! nat q else zero_block), sb') \<and>
    allocated sb a ino lb p sb' ino'"
proof (cases "phys (din ino) (dev sb) lb = 0")
  case False
  then have "0 < phys (din ino) (dev sb) lb" using file_okD(5)[OF assms(2,4)] by simp
  then show ?thesis using allocate_present[OF assms(1-4) False] by (auto simp: Let_def)
next
  case True
  then have "1 < room sb" using assms(5) by simp
  then show ?thesis
    using True allocate_direct[OF assms(1-3) _ True] allocate_indirect[OF assms(1-3) _ assms(4) True]
      allocate_new_indirect[OF assms(1-3) _ assms(4)]
    by (cases "lb < 10"; cases "i_indirect (din ino) = 0") (auto simp: not_less)
qed

section \<open>Reading and writing\<close>

lemma block_position:
  "cdiv (int st) (int BLOCK_SIZE) = int (st div BLOCK_SIZE)" "crem (int st) (int BLOCK_SIZE) = int (st mod BLOCK_SIZE)"
  by (auto simp: cdiv_def crem_def BLOCK_SIZE_def zdiv_int zmod_int sgn_if)

text \<open>What writing \<open>buf\<close> at position \<open>st\<close> has done to the file and to the device; \<open>sz\<close> is the new size.\<close>

definition written :: "super_block \<Rightarrow> addr \<Rightarrow> inode \<Rightarrow> byte list \<Rightarrow> nat \<Rightarrow> int \<Rightarrow> super_block \<Rightarrow> inode \<Rightarrow> bool" where
  "written sb a ino buf st sz sb' ino' \<longleftrightarrow>
     sb_ok sb' \<and> file_ok sb' (din ino') \<and> inodes sb' = (inodes sb)(a \<mapsto> ino') \<and> i_nr ino' = i_nr ino \<and>
     i_count ino' = i_count ino \<and> i_flags ino' \<and> i_type (din ino') = i_type (din ino) \<and>
     i_size (din ino') = sz \<and>
     (\<forall>pos. pos div BLOCK_SIZE < 2058 \<longrightarrow> content (din ino') (dev sb') pos =
        (if st \<le> pos \<and> pos < st + length buf then buf ! (pos - st) else content (din ino) (dev sb) pos)) \<and>
     (\<forall>q. owned sb q \<longrightarrow> owned sb' q) \<and> length (dev sb) \<le> length (dev sb') \<and>
     (\<forall>i\<ge>18. i < length (dev sb) \<longrightarrow> int i \<notin> blocks_of sb (din ino) \<longrightarrow> i < 146 \<or> owned sb (int i) \<longrightarrow>
       dev sb' ! i = dev sb ! i) \<and> room sb - 2 \<le> room sb' \<and> same_tab sb sb' \<and>
     i_dindirect (din ino') = i_dindirect (din ino) \<and> (s32 (block_count (din ino)) \<longrightarrow> s32 (block_count (din ino')))"

lemma same_block:
  assumes "pos div BLOCK_SIZE = st div BLOCK_SIZE"
  shows "st \<le> pos \<and> pos < st + n \<longleftrightarrow> st mod BLOCK_SIZE \<le> pos mod BLOCK_SIZE \<and> pos mod BLOCK_SIZE < st mod BLOCK_SIZE + n"
    and "st \<le> pos \<Longrightarrow> pos - st = pos mod BLOCK_SIZE - st mod BLOCK_SIZE"
proof -
  have "pos = BLOCK_SIZE * (st div BLOCK_SIZE) + pos mod BLOCK_SIZE" "st = BLOCK_SIZE * (st div BLOCK_SIZE) + st mod BLOCK_SIZE"
    using assms mult_div_mod_eq[of BLOCK_SIZE pos] mult_div_mod_eq[of BLOCK_SIZE st] by simp_all
  then show "st \<le> pos \<and> pos < st + n \<longleftrightarrow> st mod BLOCK_SIZE \<le> pos mod BLOCK_SIZE \<and> pos mod BLOCK_SIZE < st mod BLOCK_SIZE + n"
    and "st \<le> pos \<Longrightarrow> pos - st = pos mod BLOCK_SIZE - st mod BLOCK_SIZE" by linarith+
qed

lemma other_block:
  assumes "pos div BLOCK_SIZE \<noteq> st div BLOCK_SIZE" and "st mod BLOCK_SIZE + n \<le> BLOCK_SIZE"
  shows "\<not> (st \<le> pos \<and> pos < st + n)"
proof
  assume a: "st \<le> pos \<and> pos < st + n"
  have "st + n \<le> BLOCK_SIZE * Suc (st div BLOCK_SIZE)" using assms(2) mult_div_mod_eq[of BLOCK_SIZE st]
    unfolding mult_Suc_right by linarith
  then have "pos < BLOCK_SIZE * Suc (st div BLOCK_SIZE)" using a by linarith
  then have "pos div BLOCK_SIZE < Suc (st div BLOCK_SIZE)" by (intro less_mult_imp_div_less) (simp add: mult.commute)
  moreover have "st div BLOCK_SIZE \<le> pos div BLOCK_SIZE" using a by (intro div_le_mono) simp
  ultimately show False using assms(1) by simp
qed

text \<open>Filling the block after it was allocated.\<close>

lemma fill_block:
  assumes sb: "sb_ok sb" "file_ok sb (din ino)"
    and st: "st div BLOCK_SIZE = lb" "lb < 2058" "st mod BLOCK_SIZE + length buf \<le> BLOCK_SIZE"
    and al: "allocated sb a ino lb p sb1 ino1"
    and bk: "blk = (let q = phys (din ino) (dev sb) lb in if q > 0 then dev sb ! nat q else zero_block)"
    and sb2: "sb2 = sb1\<lparr>dev := put_block (dev sb1) (nat p) (memcpy_at blk (st mod BLOCK_SIZE) buf), inodes := (inodes sb)(a \<mapsto> ino2)\<rparr>"
    and ino2: "ino2 = ino1\<lparr>din := (din ino1)\<lparr>i_size := sz\<rparr>, i_flags := True\<rparr>"
  shows "written sb a ino buf st sz sb2 ino2"
proof -
  let ?d = "din ino" and ?d1 = "din ino1" and ?d2 = "din ino2"
  note f = file_okD[OF sb(2)]
  have A: "sb_ok sb1" "length (i_block_nr ?d1) = 10" "owned sb1 p" "p \<noteq> i_indirect ?d1"
    "if phys ?d (dev sb) lb = 0 then \<not> owned sb p else p = phys ?d (dev sb) lb"
    "i_indirect ?d1 = 0 \<or> stored sb1 (i_indirect ?d1)" "i_indirect ?d1 = i_indirect ?d \<or> \<not> owned sb (i_indirect ?d1) \<and> i_indirect ?d = 0"
    "\<And>l. l < 2058 \<Longrightarrow> phys ?d1 (dev sb1) l = (if l = lb then p else phys ?d (dev sb) l)"
    "\<And>q. owned sb q \<Longrightarrow> owned sb1 q" "length (dev sb) \<le> length (dev sb1)"
    "\<And>i. 18 \<le> i \<Longrightarrow> i < length (dev sb) \<Longrightarrow> int i \<noteq> i_indirect ?d \<Longrightarrow> i < 146 \<or> owned sb (int i) \<Longrightarrow> dev sb1 ! i = dev sb ! i"
    using al by (auto simp: allocated_def)
  let ?nb = "memcpy_at blk (st mod BLOCK_SIZE) buf"
  have bl: "length blk = BLOCK_SIZE"
    using bk f(4)[OF st(2)] sb(1) by (auto simp: Let_def sb_ok_def stored_def intro: dev_ok_nth)
  then have nb: "length ?nb = BLOCK_SIZE" using length_memcpy_at st(3) by simp
  have p: "146 \<le> p" "0 < p" using owned_range[OF A(1,3)] by auto
  have pq: "phys ?d (dev sb) l \<noteq> p" if "l < 2058" "l \<noteq> lb" "phys ?d (dev sb) l \<noteq> 0" for l
  proof
    assume e: "phys ?d (dev sb) l = p"
    then have "owned sb p" using f(4)[OF that(1,3)] by (simp add: stored_def)
    then have "phys ?d (dev sb) lb = p" "phys ?d (dev sb) lb \<noteq> 0" using A(5) by (auto split: if_splits)
    then show False using sb(2) that st(2) e unfolding file_ok_def by metis
  qed
  have d2: "i_indirect ?d2 = i_indirect ?d1" "i_block_nr ?d2 = i_block_nr ?d1" using ino2 by simp_all
  have dv: "dev sb2 = put_block (dev sb1) (nat p) ?nb" using sb2 by simp
  have np: "dev sb2 ! nat p = ?nb" by (simp add: dv put_block_nth)
  have keep: "dev sb2 ! i = dev sb1 ! i" if "i < length (dev sb1)" "int i \<noteq> p" for i
    using that p(2) by (auto simp: dv put_block_nth)
  have len: "nat p < length (dev sb2)" "length (dev sb1) \<le> length (dev sb2)" by (simp_all add: dv)
  have ind: "i_indirect ?d1 > 0 \<Longrightarrow> dev sb2 ! nat (i_indirect ?d1) = dev sb1 ! nat (i_indirect ?d1)"
    using A(4,6) by (intro keep) (auto simp: stored_def)
  have ph: "phys ?d2 (dev sb2) l = (if l = lb then p else phys ?d (dev sb) l)" if "l < 2058" for l
    using A(8)[OF that] ind d2 by (auto simp: phys_def)
  have own: "owned sb2 q = owned sb1 q" for q using sb2 by (simp add: owned_def)
  have old: "stored sb2 (phys ?d (dev sb) l) \<and> phys ?d (dev sb) l \<noteq> i_indirect ?d2 \<and>
      dev sb2 ! nat (phys ?d (dev sb) l) = dev sb ! nat (phys ?d (dev sb) l)"
    if l: "l < 2058" "l \<noteq> lb" "phys ?d (dev sb) l \<noteq> 0" for l
  proof -
    let ?q = "phys ?d (dev sb) l"
    have q: "owned sb ?q" "nat ?q < length (dev sb)" "?q \<noteq> i_indirect ?d" "146 \<le> ?q"
      using f(4)[OF l(1,3)] owned_range[OF sb(1)] by (auto simp: stored_def)
    have "dev sb2 ! nat ?q = dev sb1 ! nat ?q" using q A(10) pq[OF l] by (intro keep) auto
    also have "\<dots> = dev sb ! nat ?q" using q by (intro A(11)) auto
    finally show ?thesis using q A(7,9,10) len own d2 by (auto simp: stored_def)
  qed
  have ok2: "sb_ok sb2" using sb_ok_put[OF A(1) _ nb, of "nat p"] p sb2 by simp
  have fok: "file_ok sb2 ?d2"
    unfolding file_ok_def
  proof (intro conjI allI impI, goal_cases)
    case 1
    show ?case using A(2) d2 by simp
  next
    case 2
    show ?case using A(6) len own d2 by (auto simp: stored_def)
  next
    case (3 l)
    show ?case using ph[OF 3] old[OF 3] A(3,4) d2 len own by (cases "l = lb") (auto simp: stored_def)
  next
    case (4 l l')
    then show ?case using ph[of l] ph[of l'] pq[of l] pq[of l'] sb(2)[unfolded file_ok_def] by (auto split: if_splits)
  qed
  have cont: "content ?d2 (dev sb2) pos =
      (if st \<le> pos \<and> pos < st + length buf then buf ! (pos - st) else content ?d (dev sb) pos)"
    if pos: "pos div BLOCK_SIZE < 2058" for pos
  proof (cases "pos div BLOCK_SIZE = lb")
    case True
    have "pos mod BLOCK_SIZE < BLOCK_SIZE" by (simp add: BLOCK_SIZE_def)
    then have n: "?nb ! (pos mod BLOCK_SIZE) = (if st mod BLOCK_SIZE \<le> pos mod BLOCK_SIZE \<and> pos mod BLOCK_SIZE < st mod BLOCK_SIZE + length buf
        then buf ! (pos mod BLOCK_SIZE - st mod BLOCK_SIZE) else blk ! (pos mod BLOCK_SIZE))"
      using memcpy_at_nth[of "st mod BLOCK_SIZE" buf blk] bl st(3) by simp
    have "blk ! (pos mod BLOCK_SIZE) = content ?d (dev sb) pos"
      using True bk by (simp add: content_def Let_def zero_block_def BLOCK_SIZE_def)
    then show ?thesis
      using n ph[OF pos] True p(2) np same_block(1)[of pos st "length buf"] same_block(2)[of pos st] st(1)
      by (cases "st \<le> pos \<and> pos < st + length buf") (auto simp: content_def Let_def)
  next
    case False
    then have "\<not> (st \<le> pos \<and> pos < st + length buf)" using other_block[of pos st] st by simp
    moreover have "content ?d2 (dev sb2) pos = content ?d (dev sb) pos"
      using ph[OF pos] False old[OF pos False] f(5)[OF pos] by (cases "phys ?d (dev sb) (pos div BLOCK_SIZE) = 0") (auto simp: content_def Let_def)
    ultimately show ?thesis by auto
  qed
  have fr: "dev sb2 ! i = dev sb ! i"
    if i: "18 \<le> i" "i < length (dev sb)" "int i \<notin> blocks_of sb ?d" "i < 146 \<or> owned sb (int i)" for i
  proof -
    have "phys ?d (dev sb) lb \<in> phys ?d (dev sb) ` {..<2058}" using st(2) by simp
    then have "int i \<noteq> i_indirect ?d" "phys ?d (dev sb) lb \<noteq> int i" using i(1,3) unfolding blocks_of_def by auto
    moreover have "int i \<noteq> p" using i(4) p(1) A(5) calculation(2) by (auto split: if_splits)
    ultimately show ?thesis using keep[of i] A(11)[of i] A(10) i by simp
  qed
  show ?thesis unfolding written_def
    using ok2 fok cont fr A(9,10) own len al ino2 sb2 by (auto simp: allocated_def)
qed

text \<open>A write at an offset whose block number, cut to an \<open>int\<close>, is \<open>lb\<close>.\<close>

lemma write_data_at:
  assumes "sb_ok sb" and "file_ok sb (din ino)" and "inodes sb a = Some ino" and "1 < room sb \<or> phys (din ino) (dev sb) lb \<noteq> 0"
    and "wrap32 (cdiv off (int BLOCK_SIZE)) = int lb" and "crem off (int BLOCK_SIZE) = int ix"
    and "lb < 2058" and "ix < BLOCK_SIZE" and "ix + length buf \<le> BLOCK_SIZE"
  shows "\<exists>sb' ino'. testfs_write_data a buf off sb = Inr (int (length buf), sb') \<and>
    written sb a ino buf (lb * BLOCK_SIZE + ix)
      (if buf = [] then i_size (din ino) else max (i_size (din ino)) (wrap64 (off + int (length buf)))) sb' ino'"
proof -
  let ?st = "lb * BLOCK_SIZE + ix"
  let ?sz = "if buf = [] then i_size (din ino) else max (i_size (din ino)) (wrap64 (off + int (length buf)))"
  have st: "?st div BLOCK_SIZE = lb" "?st mod BLOCK_SIZE = ix" using assms(8) by auto
  from allocate_block_spec[OF assms(1-3,7,4)] obtain p sb1 ino1 where
    al: "testfs_allocate_block a (int lb) sb =
      Inr (p, (let q = phys (din ino) (dev sb) lb in if q > 0 then dev sb ! nat q else zero_block), sb1)"
    "allocated sb a ino lb p sb1 ino1" by blast
  define blk where "blk = (let q = phys (din ino) (dev sb) lb in if q > 0 then dev sb ! nat q else zero_block)"
  define ino2 where "ino2 = ino1\<lparr>din := (din ino1)\<lparr>i_size := ?sz\<rparr>, i_flags := True\<rparr>"
  define sb2 where "sb2 = sb1\<lparr>dev := put_block (dev sb1) (nat p) (memcpy_at blk ix buf), inodes := (inodes sb)(a \<mapsto> ino2)\<rparr>"
  have w: "written sb a ino buf ?st ?sz sb2 ino2"
    using fill_block[OF assms(1,2) st(1) assms(7) _ al(2) blk_def _ ino2_def, of buf sb2] assms(9) unfolding st(2) sb2_def by simp
  have A: "inodes sb1 = (inodes sb)(a \<mapsto> ino1)" "i_size (din ino1) = i_size (din ino)" "0 < p"
    using al(2) owned_pos by (auto simp: allocated_def)
  have bl: "length blk = BLOCK_SIZE"
    using file_okD(4)[OF assms(2,7)] assms(1) by (auto simp: blk_def Let_def sb_ok_def stored_def intro: dev_ok_nth)
  have nb: "length (memcpy_at blk ix buf) = BLOCK_SIZE" using bl assms(9) by (simp add: length_memcpy_at)
  have s: "wrap32 (int (length buf)) = int (length buf)"
    "(int ix + int (length buf)) mod 18446744073709551616 = int ix + int (length buf)"
    using assms(9) by (auto intro!: wrap32_id simp: BLOCK_SIZE_def)
  have "testfs_write_data a buf off sb = Inr (int (length buf), sb2)"
    using al(1) A s nb assms(9)
    unfolding testfs_write_data_def assms(5,6) Let_def blk_def[unfolded Let_def, symmetric]
    by (simp add: upd_dev_def write_one upd_inode_def sb2_def ino2_def)
  then show ?thesis using w by blast
qed

lemma write_data_spec:
  assumes "sb_ok sb" and "file_ok sb (din ino)" and "inodes sb a = Some ino"
    and "1 < room sb \<or> phys (din ino) (dev sb) (st div BLOCK_SIZE) \<noteq> 0"
    and "st div BLOCK_SIZE < 2058" and "st mod BLOCK_SIZE + length buf \<le> BLOCK_SIZE"
  shows "\<exists>sb' ino'. testfs_write_data a buf (int st) sb = Inr (int (length buf), sb') \<and>
    written sb a ino buf st (if buf = [] then i_size (din ino) else max (i_size (din ino)) (int (st + length buf))) sb' ino'"
proof -
  have small: "st < 2058 * 8192" using assms(5) by (simp add: BLOCK_SIZE_def div_less_iff_less_mult)
  have s: "wrap32 (int (st div BLOCK_SIZE)) = int (st div BLOCK_SIZE)"
    "wrap64 (int st + int (length buf)) = int (st + length buf)"
    using assms(5,6) small by (auto intro!: wrap32_id wrap64_id simp: s64_def BLOCK_SIZE_def)
  have "st div BLOCK_SIZE * BLOCK_SIZE + st mod BLOCK_SIZE = st" "st mod BLOCK_SIZE < BLOCK_SIZE" by (auto simp: BLOCK_SIZE_def)
  then show ?thesis
    using write_data_at[OF assms(1-4), of "int st" "st mod BLOCK_SIZE" buf] assms(5,6) s
    unfolding block_position by (simp only: s simp_thms)
qed

lemma read_data_spec:
  assumes "sb_ok sb" and "file_ok sb (din ino)" and "inodes sb a = Some ino"
    and "st div BLOCK_SIZE < 2058" and "st mod BLOCK_SIZE + n \<le> BLOCK_SIZE" and "int (st + n) \<le> i_size (din ino)"
  shows "testfs_read_data a (int st) (int n) sb = Inr (int n, map (content (din ino) (dev sb)) [st..<st + n])"
proof -
  let ?lb = "st div BLOCK_SIZE" and ?d = "din ino"
  let ?blk = "if phys ?d (dev sb) ?lb > 0 then dev sb ! nat (phys ?d (dev sb) ?lb) else zero_block"
  have small: "st < 2058 * 8192" using assms(4) by (simp add: BLOCK_SIZE_def div_less_iff_less_mult)
  have s: "wrap32 (int ?lb) = int ?lb" "wrap32 (int n) = int n" "wrap64 (int n) = int n" "wrap64 (int st + int n) = int st + int n"
    using assms(4,5) small by (auto intro!: wrap32_id wrap64_id simp: s64_def BLOCK_SIZE_def)
  have m: "(int (st mod BLOCK_SIZE) + int n) mod 18446744073709551616 = int (st mod BLOCK_SIZE) + int n"
    using assms(5) by (simp add: BLOCK_SIZE_def)
  have r: "testfs_read_block a (int ?lb) sb = Inr (phys ?d (dev sb) ?lb, ?blk)" using read_block_spec[OF assms(2,3) refl assms(4)] .
  have bl: "length ?blk = BLOCK_SIZE"
    using file_okD(4)[OF assms(2,4)] assms(1) by (auto simp: sb_ok_def stored_def intro: dev_ok_nth)
  have "take n (drop (st mod BLOCK_SIZE) ?blk) = map (content ?d (dev sb)) [st..<st + n]"
  proof (rule nth_equalityI)
    show "length (take n (drop (st mod BLOCK_SIZE) ?blk)) = length (map (content ?d (dev sb)) [st..<st + n])"
      using bl assms(5) by simp
    fix i assume "i < length (take n (drop (st mod BLOCK_SIZE) ?blk))"
    then have i: "i < n" by simp
    have d: "(st + i) div BLOCK_SIZE = ?lb" using other_block[of "st + i" st n] assms(5) i by auto
    have "(st + i) mod BLOCK_SIZE = st mod BLOCK_SIZE + i"
      using mult_div_mod_eq[of BLOCK_SIZE st] mult_div_mod_eq[of BLOCK_SIZE "st + i"] unfolding d by linarith
    moreover have "(st + i) mod BLOCK_SIZE < BLOCK_SIZE" by (simp add: BLOCK_SIZE_def)
    ultimately show "take n (drop (st mod BLOCK_SIZE) ?blk) ! i = map (content ?d (dev sb)) [st..<st + n] ! i"
      using i d bl by (auto simp: content_def Let_def zero_block_def)
  qed
  then show ?thesis
    using assms(3,5,6) r s m file_okD(5)[OF assms(2,4)]
    unfolding testfs_read_data_def block_position by (simp add: Let_def)
qed

text \<open>A file that shares no block keeps its contents.\<close>

lemma other_file:
  assumes "sb_ok sb" and "written sb a ino buf st sz sb' ino'" and "file_ok sb d"
    and "blocks_of sb d \<inter> blocks_of sb (din ino) = {}"
  shows "file_ok sb' d \<and> (\<forall>pos. pos div BLOCK_SIZE < 2058 \<longrightarrow> content d (dev sb') pos = content d (dev sb) pos)"
proof -
  note f = file_okD[OF assms(3)]
  have fr: "dev sb' ! nat q = dev sb ! nat q" "stored sb' q" if "stored sb q" "q \<in> blocks_of sb d" for q
  proof -
    have "146 \<le> q" "owned sb q" using that(1) owned_range[OF assms(1)] by (auto simp: stored_def)
    then show "dev sb' ! nat q = dev sb ! nat q" "stored sb' q"
      using assms(2,4) that unfolding written_def stored_def by (auto simp: disjoint_iff)
  qed
  have ind: "i_indirect d \<noteq> 0 \<Longrightarrow> dev sb' ! nat (i_indirect d) = dev sb ! nat (i_indirect d) \<and> stored sb' (i_indirect d)"
    using f(3) fr[of "i_indirect d"] by (auto simp: blocks_of_def)
  have ph: "phys d (dev sb') l = phys d (dev sb) l" for l using ind by (auto simp: phys_def)
  have st: "l < 2058 \<Longrightarrow> phys d (dev sb) l \<noteq> 0 \<Longrightarrow> dev sb' ! nat (phys d (dev sb) l) = dev sb ! nat (phys d (dev sb) l) \<and> stored sb' (phys d (dev sb) l)" for l
    using f(4)[of l] fr[of "phys d (dev sb) l"] by (auto simp: blocks_of_def)
  have "file_ok sb' d" using assms(3) ind st f(4) unfolding file_ok_def ph by blast
  then show ?thesis using st ph by (auto simp: content_def Let_def)
qed

section \<open>Properties\<close>

text \<open>
  C31. Files are byte functions. Writing a buffer that lies within one block of the file, among the
  direct and the indirect blocks, succeeds while two blocks are free: afterwards the file has the
  new bytes in the range written and its old bytes, or zeros, everywhere else; its size is extended
  if needed; reading the range back gives the buffer; and no other file changes. A range across a
  block boundary is refused with \<open>-ENOSYS\<close> and nothing changes.
\<close>

theorem write_then_read:
  assumes "sb_ok sb" and "file_ok sb (din ino)" and "inodes sb a = Some ino" and "1 < room sb"
    and "file_ok sb d" and "blocks_of sb d \<inter> blocks_of sb (din ino) = {}"
    and "st div BLOCK_SIZE < 2058" and "buf \<noteq> []" and "length buf \<le> BLOCK_SIZE"
  shows "if st mod BLOCK_SIZE + length buf \<le> BLOCK_SIZE
    then \<exists>sb' ino'. testfs_write_data a buf (int st) sb = Inr (int (length buf), sb') \<and> inodes sb' = (inodes sb)(a \<mapsto> ino') \<and>
      sb_ok sb' \<and> file_ok sb' (din ino') \<and> i_size (din ino') = max (i_size (din ino)) (int (st + length buf)) \<and>
      (\<forall>pos < 2058 * BLOCK_SIZE. content (din ino') (dev sb') pos =
         (if st \<le> pos \<and> pos < st + length buf then buf ! (pos - st) else content (din ino) (dev sb) pos)) \<and>
      testfs_read_data a (int st) (int (length buf)) sb' = Inr (int (length buf), buf) \<and>
      file_ok sb' d \<and> (\<forall>pos < 2058 * BLOCK_SIZE. content d (dev sb') pos = content d (dev sb) pos)
    else testfs_write_data a buf (int st) sb = Inr (- ENOSYS, sb)"
proof (cases "st mod BLOCK_SIZE + length buf \<le> BLOCK_SIZE")
  case False
  have "st mod BLOCK_SIZE < BLOCK_SIZE" by (simp add: BLOCK_SIZE_def)
  then have "(int (st mod BLOCK_SIZE) + int (length buf)) mod 2 ^ 64 = int (st mod BLOCK_SIZE) + int (length buf)"
    using assms(9) by (simp add: BLOCK_SIZE_def)
  then show ?thesis using False unfolding testfs_write_data_def block_position Let_def by simp
next
  case True
  obtain sb' ino' where w: "testfs_write_data a buf (int st) sb = Inr (int (length buf), sb')" 
    "written sb a ino buf st (if buf = [] then i_size (din ino) else max (i_size (din ino)) (int (st + length buf))) sb' ino'"
    using write_data_spec[OF assms(1-3) _ assms(7) True] assms(4) by blast
  have W: "sb_ok sb'" "file_ok sb' (din ino')" "inodes sb' a = Some ino'" "inodes sb' = (inodes sb)(a \<mapsto> ino')"
    "int (st + length buf) \<le> i_size (din ino')" "i_size (din ino') = max (i_size (din ino)) (int (st + length buf))"
    "\<forall>pos. pos div BLOCK_SIZE < 2058 \<longrightarrow> content (din ino') (dev sb') pos =
        (if st \<le> pos \<and> pos < st + length buf then buf ! (pos - st) else content (din ino) (dev sb) pos)"
    using w(2) assms(8) by (auto simp: written_def)
  have pos: "pos < 2058 * BLOCK_SIZE \<longleftrightarrow> pos div BLOCK_SIZE < 2058" for pos
    by (simp add: BLOCK_SIZE_def div_less_iff_less_mult)
  have "map (content (din ino') (dev sb')) [st..<st + length buf] = buf"
  proof (rule nth_equalityI)
    fix i assume "i < length (map (content (din ino') (dev sb')) [st..<st + length buf])"
    then have i: "i < length buf" by simp
    have "(st + i) div BLOCK_SIZE = st div BLOCK_SIZE" using other_block[of "st + i" st "length buf"] True i by auto
    then have "content (din ino') (dev sb') (st + i) = buf ! i" using W(7)[rule_format, of "st + i"] assms(7) i by simp
    then show "map (content (din ino') (dev sb')) [st..<st + length buf] ! i = buf ! i" using i by simp
  qed simp
  then have "testfs_read_data a (int st) (int (length buf)) sb' = Inr (int (length buf), buf)"
    using read_data_spec[OF W(1-3) assms(7) True W(5)] by simp
  then show ?thesis using w W other_file[OF assms(1) w(2) assms(5,6)] True pos by (intro if_P[THEN iffD2]) auto
qed


lemma empty_file_ok: "length (dev sb) > 0 \<Longrightarrow> file_ok sb zero_dinode"
  by (auto simp: file_ok_def zero_dinode_def phys_def nth_Cons')

text \<open>A new file system with one empty file open, for the witnesses.\<close>

lemma new_file:
  obtains sb where "sb_ok sb" and "file_ok sb zero_dinode" and "room sb = 128" and "dev sb = super_bytes (new_super 128) # replicate 145 zero_block"
    and "inodes sb = [0 \<mapsto> \<lparr>din = zero_dinode, i_flags = False, i_nr = 0, i_count = 1\<rparr>]"
proof -
  obtain sb where sb: "sb_ok sb" "dsb sb = new_super 128" "dev sb = super_bytes (new_super 128) # replicate 145 zero_block"
    using format_spec[of 128] by auto
  let ?sb = "sb\<lparr>inodes := [0 \<mapsto> \<lparr>din = zero_dinode, i_flags = False, i_nr = 0, i_count = 1\<rparr>]\<rparr>"
  show thesis using that[of ?sb] sb empty_file_ok[of ?sb] by (simp add: new_super_def)
qed

theorem write_then_read_witness:
  "\<exists>sb sb'. testfs_write_data 0 [104, 105] 8190 sb = Inr (2, sb') \<and> testfs_read_data 0 8190 2 sb' = Inr (2, [104, 105]) \<and>
     testfs_write_data 0 [104, 105] 8191 sb = Inr (- ENOSYS, sb)"
proof -
  obtain sb where sb: "sb_ok sb" "file_ok sb zero_dinode" "room sb = 128"
    "inodes sb = [0 \<mapsto> \<lparr>din = zero_dinode, i_flags = False, i_nr = 0, i_count = 1\<rparr>]" by (rule new_file)
  let ?ino = "\<lparr>din = zero_dinode, i_flags = False, i_nr = 0, i_count = 1\<rparr>"
  have d: "blocks_of sb zero_dinode = {}" by (auto simp: blocks_of_def zero_dinode_def phys_def nth_Cons')
  have "testfs_write_data 0 [104, 105] 8191 sb = Inr (- ENOSYS, sb)"
    using write_then_read[of sb ?ino 0 zero_dinode 8191 "[104, 105]"] sb d by (simp add: BLOCK_SIZE_def)
  moreover obtain sb' where "testfs_write_data 0 [104, 105] 8190 sb = Inr (2, sb')" "testfs_read_data 0 8190 2 sb' = Inr (2, [104, 105])"
    using write_then_read[of sb ?ino 0 zero_dinode 8190 "[104, 105]"] sb d by (auto simp: BLOCK_SIZE_def)
  ultimately show ?thesis by blast
qed


end
