(* ===== verification/FsDir.thy ===== *)
theory FsDir
  imports FsFile
begin

text \<open>
  Directories (fs/dir.c): a directory is a file of entries, each a \<open>struct dirent\<close> followed by the
  name and its terminating zero. This theory has the operations on entries and shows that a
  directory behaves as a finite map from names to inode numbers. Names and other C strings are byte
  lists without their terminating zero; \<open>malloc\<close> of an entry succeeds.
\<close>

section \<open>Strings\<close>

text \<open>\<open>strcmp(p, s) == 0\<close> for the bytes at \<open>p\<close> and a string \<open>s\<close>; running past the bytes is a fault.\<close>

fun strcmp_eq :: "byte list \<Rightarrow> byte list \<Rightarrow> bool res" where
  "strcmp_eq [] s = Inl Out_of_bounds"
| "strcmp_eq (c # cs) [] = Inr (c = 0)"
| "strcmp_eq (c # cs) (x # s) = (if c = x then strcmp_eq cs s else Inr False)"

definition cstring :: "byte list \<Rightarrow> byte list res" where
  "cstring bs = (if 0 \<in> set bs then Inr (takeWhile (\<lambda>c. c \<noteq> 0) bs) else Inl Out_of_bounds)"

definition dot :: "byte list" where "dot = [46]"
definition dotdot :: "byte list" where "dotdot = [46, 46]"

definition ENOENT :: int where "ENOENT = 2"
definition EEXIST :: int where "EEXIST = 17"
definition ENOTEMPTY :: int where "ENOTEMPTY = 39"

section \<open>Reading entries\<close>

text \<open>
  \<open>testfs_next_dirent\<close>: the entry at an offset, the bytes of its name, and the offset of the next
  one. The sums cannot overflow: where they could, the block number of the offset, cut to an
  \<open>int\<close>, is negative and \<open>testfs_read_block\<close> stops at its assertion.
\<close>

definition testfs_next_dirent :: "addr \<Rightarrow> int \<Rightarrow> super_block \<Rightarrow> (dirent \<times> byte list \<times> int) option res" where
  "testfs_next_dirent dir offset sb =
     bindR (readR (inodes sb) dir) (\<lambda>ino.
       assertR (i_type (din ino) = type_nr I_DIR)
         (if offset \<ge> i_size (din ino) then Inr None
          else bindR (testfs_read_data dir offset (int sizeof_dirent) sb) (\<lambda>(ret, bytes).
                 if ret < 0 then Inr None
                 else if length bytes < sizeof_dirent then Inl Uninit
                 else let d = dec_dirent bytes; offset = offset + int sizeof_dirent
                      in assertR (d_name_len d > 0)
                           (bindR (testfs_read_data dir offset (d_name_len d) sb) (\<lambda>(ret, name).
                              if ret < 0 then Inr None
                              else Inr (Some (d, name, offset + d_name_len d)))))))"

lemma next_dirent_advances:
  "testfs_next_dirent dir offset sb = Inr (Some (d, nm, offset')) \<Longrightarrow>
   \<exists>ino. inodes sb dir = Some ino \<and> offset < i_size (din ino) \<and> offset < offset'"
  by (auto simp: testfs_next_dirent_def bindR_eq_Inr assertR_eq_Inr readR_eq_Inr Let_def sizeof_dirent_def split: if_splits)

text \<open>
  The loop over the entries from an offset that most operations have: it ends where the body breaks
  out of it, with the offset of that entry, or where there is no next entry.
\<close>

function dirent_loop :: "(dirent \<Rightarrow> byte list \<Rightarrow> 'r option res) \<Rightarrow> addr \<Rightarrow> int \<Rightarrow> super_block \<Rightarrow> (int \<times> 'r option) res" where
  "dirent_loop body dir offset sb =
     bindR (testfs_next_dirent dir offset sb) (\<lambda>n.
       case n of
         None \<Rightarrow> Inr (offset, None)
       | Some (d, name, offset') \<Rightarrow>
           bindR (body d name) (\<lambda>r.
             case r of Some x \<Rightarrow> Inr (offset, Some x) | None \<Rightarrow> dirent_loop body dir offset' sb))"
  by pat_completeness auto
termination
  by (relation "measure (\<lambda>(_, dir, offset, sb). case inodes sb dir of None \<Rightarrow> 0 | Some ino \<Rightarrow> nat (i_size (din ino) - offset))")
    (auto dest: next_dirent_advances)

declare dirent_loop.simps [simp del]

definition is_dir :: "addr \<Rightarrow> super_block \<Rightarrow> bool res" where
  "is_dir a sb = bindR (readR (inodes sb) a) (\<lambda>ino. Inr (i_type (din ino) = type_nr I_DIR))"

definition testfs_find_dirent :: "addr \<Rightarrow> int \<Rightarrow> super_block \<Rightarrow> (dirent \<times> byte list) option res" where
  "testfs_find_dirent dir nr sb =
     bindR (is_dir dir sb) (\<lambda>b. assertR b (assertR (nr \<ge> 0)
       (bindR (dirent_loop (\<lambda>d name. Inr (if d_inode_nr d = nr then Some (d, name) else None)) dir 0 sb) (\<lambda>(_, r). Inr r))))"

definition testfs_dir_name_to_inode_nr :: "addr \<Rightarrow> byte list \<Rightarrow> super_block \<Rightarrow> int res" where
  "testfs_dir_name_to_inode_nr dir name sb =
     bindR (is_dir dir sb) (\<lambda>b. assertR b
       (bindR (dirent_loop (\<lambda>d nm.
            if d_inode_nr d < 0 then Inr None
            else bindR (strcmp_eq nm name) (\<lambda>eq. Inr (if eq then Some (d_inode_nr d) else None))) dir 0 sb) (\<lambda>(_, r).
          Inr (case r of None \<Rightarrow> - ENOENT | Some nr \<Rightarrow> nr))))"

section \<open>Changing entries\<close>

definition testfs_write_dirent :: "addr \<Rightarrow> byte list \<Rightarrow> int \<Rightarrow> int \<Rightarrow> int \<Rightarrow> super_block \<Rightarrow> (int \<times> super_block) res" where
  "testfs_write_dirent dir name len nr offset sb =
     assertR (nr \<ge> 0)
       (if len < int (length name) + 1 then Inl Out_of_bounds
        else testfs_write_data dir (enc_dirent \<lparr>d_name_len = len, d_inode_nr = nr\<rparr> @ name @ [0]) offset sb)"

text \<open>The offset is a parameter of type \<open>int\<close>.\<close>

definition testfs_add_dirent :: "addr \<Rightarrow> byte list \<Rightarrow> int \<Rightarrow> super_block \<Rightarrow> (int \<times> super_block) res" where
  "testfs_add_dirent dir name nr sb =
     (let len = wrap32 (int (length name) + 1)
      in bindR (is_dir dir sb) (\<lambda>b. assertR b
           (bindR (dirent_loop (\<lambda>d nm.
                bindR (if d_inode_nr d \<ge> 0 then strcmp_eq nm name else Inr False) (\<lambda>eq.
                  if eq then Inr (Some (- EEXIST))
                  else if d_inode_nr d \<ge> 0 \<or> d_name_len d \<noteq> len then Inr None
                  else Inr (Some 0))) dir 0 sb) (\<lambda>(p_offset, r).
              if r = Some (- EEXIST) then Inr (- EEXIST, sb)
              else bindR (readR (inodes sb) dir) (\<lambda>ino.
                     assertR (r = Some 0 \<or> p_offset = i_size (din ino))
                       (testfs_write_dirent dir name len nr (wrap32 p_offset) sb))))))"

definition testfs_remove_dirent_allowed :: "int \<Rightarrow> super_block \<Rightarrow> (int \<times> super_block) res" where
  "testfs_remove_dirent_allowed nr sb =
     bindR (testfs_get_inode nr sb) (\<lambda>(dir, sb).
     bindR (is_dir dir sb) (\<lambda>b.
     bindR (if \<not> b then Inr 0
            else bindR (dirent_loop (\<lambda>d nm.
                   if d_inode_nr d < 0 then Inr None
                   else bindR (strcmp_eq nm dot) (\<lambda>e1.
                     if e1 then Inr None
                     else bindR (strcmp_eq nm dotdot) (\<lambda>e2. Inr (if e2 then None else Some (- ENOTEMPTY))))) dir 0 sb) (\<lambda>(_, r).
                   Inr (case r of None \<Rightarrow> 0 | Some e \<Rightarrow> e))) (\<lambda>ret.
     bindR (testfs_put_inode dir sb) (\<lambda>sb. Inr (ret, sb)))))"

definition INVALID_INODE_NR :: int where "INVALID_INODE_NR = - 1"

definition testfs_remove_dirent :: "addr \<Rightarrow> byte list \<Rightarrow> super_block \<Rightarrow> (int \<times> super_block) res" where
  "testfs_remove_dirent dir name sb =
     (if name = dot \<or> name = dotdot then Inr (- EINVAL, sb)
      else bindR (dirent_loop (\<lambda>d nm.
             if d_inode_nr d < 0 then Inr None
             else bindR (strcmp_eq nm name) (\<lambda>eq. Inr (if eq then Some (d, nm) else None))) dir 0 sb) (\<lambda>(p_offset, r).
             case r of
               None \<Rightarrow> Inr (- ENOENT, sb)
             | Some (d, nm) \<Rightarrow>
                 bindR (testfs_remove_dirent_allowed (d_inode_nr d) sb) (\<lambda>(ret, sb).
                   if ret < 0 then Inr (ret, sb)
                   else if length nm < nat (d_name_len d) then Inl Uninit
                   else bindR (testfs_write_data dir (enc_dirent (d\<lparr>d_inode_nr := INVALID_INODE_NR\<rparr>) @ nm) p_offset sb) (\<lambda>(ret, sb).
                          Inr (if ret \<ge> 0 then d_inode_nr d else ret, sb)))))"

definition testfs_create_empty_dir :: "int \<Rightarrow> addr \<Rightarrow> super_block \<Rightarrow> (int \<times> super_block) res" where
  "testfs_create_empty_dir p_inode_nr cdir sb =
     bindR (readR (inodes sb) cdir) (\<lambda>ino. assertR (i_type (din ino) = type_nr I_DIR)
       (bindR (testfs_add_dirent cdir dot (i_nr ino) sb) (\<lambda>(ret, sb).
          if ret < 0 then Inr (ret, sb)
          else bindR (testfs_add_dirent cdir dotdot p_inode_nr sb) (\<lambda>(ret, sb).
                 if ret < 0 then bindR (testfs_remove_dirent cdir dot sb) (\<lambda>(_, sb). Inr (ret, sb))
                 else Inr (0, sb)))))"

text \<open>\<open>testfs_create_file_or_dir\<close>: \<open>dir\<close> is NULL when the root directory is made.\<close>

definition testfs_create_file_or_dir :: "addr option \<Rightarrow> inode_type \<Rightarrow> byte list \<Rightarrow> super_block \<Rightarrow> (int \<times> super_block) res" where
  "testfs_create_file_or_dir dir ty name sb =
     bindR (case dir of None \<Rightarrow> Inr (- 1) | Some d \<Rightarrow> testfs_dir_name_to_inode_nr d name sb) (\<lambda>nr.
       if nr \<ge> 0 then Inr (- EEXIST, sb)
       else bindR (testfs_create_inode ty sb) (\<lambda>(ret, r, sb).
         case r of
           None \<Rightarrow> Inr (ret, sb)
         | Some a \<Rightarrow>
             bindR (readR (inodes sb) a) (\<lambda>ino.
             bindR (if ty = I_DIR
                    then bindR (case dir of None \<Rightarrow> Inr (i_nr ino)
                                | Some d \<Rightarrow> bindR (readR (inodes sb) d) (\<lambda>dino. Inr (i_nr dino))) (\<lambda>p_inode_nr.
                           testfs_create_empty_dir p_inode_nr a sb)
                    else Inr (0, sb)) (\<lambda>(ret, sb).
             bindR (if ret < 0 then Inr (ret, sb)
                    else case dir of
                           None \<Rightarrow> Inr (ret, sb)
                         | Some d \<Rightarrow> bindR (testfs_add_dirent d name (i_nr ino) sb) (\<lambda>(ret, sb).
                             if ret < 0 then Inr (ret, sb)
                             else bindR (testfs_sync_inode d sb) (\<lambda>sb. Inr (ret, sb)))) (\<lambda>(ret, sb).
               if ret < 0 then bindR (testfs_remove_inode a sb) (\<lambda>sb. Inr (ret, sb))
               else bindR (testfs_sync_inode a sb) (\<lambda>sb.
                    bindR (testfs_put_inode a sb) (\<lambda>sb. Inr (0, sb))))))))"

definition testfs_make_root_dir :: "super_block \<Rightarrow> (int \<times> super_block) res" where
  "testfs_make_root_dir sb = testfs_create_file_or_dir None I_DIR [] sb"


section \<open>A directory as a list of entries\<close>

type_synonym entry = "int \<times> byte list"

definition ent_bytes :: "entry \<Rightarrow> byte list" where
  "ent_bytes e = enc_dirent \<lparr>d_name_len = int (length (snd e)) + 1, d_inode_nr = fst e\<rparr> @ snd e @ [0]"

definition ent_ok :: "entry \<Rightarrow> bool" where
  "ent_ok e \<longleftrightarrow> 0 \<notin> set (snd e) \<and> - 1 \<le> fst e \<and> fst e < 2 ^ 31 \<and> length (snd e) + 9 \<le> BLOCK_SIZE"

abbreviation dir_bytes :: "entry list \<Rightarrow> byte list" where
  "dir_bytes es \<equiv> concat (map ent_bytes es)"

text \<open>No entry crosses a block boundary.\<close>

fun fits :: "nat \<Rightarrow> entry list \<Rightarrow> bool" where
  "fits off [] = True"
| "fits off (e # es) \<longleftrightarrow> off mod BLOCK_SIZE + length (ent_bytes e) \<le> BLOCK_SIZE \<and> fits (off + length (ent_bytes e)) es"

definition live :: "entry list \<Rightarrow> entry list" where
  "live es = filter (\<lambda>e. 0 \<le> fst e) es"

text \<open>The directory as a map.\<close>

definition dir_map :: "entry list \<Rightarrow> byte list \<Rightarrow> int option" where
  "dir_map es = map_of (map (\<lambda>(nr, name). (name, nr)) (live es))"

definition dir_rep :: "dinode \<Rightarrow> byte list list \<Rightarrow> entry list \<Rightarrow> bool" where
  "dir_rep d dv es \<longleftrightarrow> i_type d = type_nr I_DIR \<and> i_size d = int (length (dir_bytes es)) \<and>
     length (dir_bytes es) \<le> 2058 * BLOCK_SIZE \<and> (\<forall>e\<in>set es. ent_ok e) \<and> fits 0 es \<and> distinct (map snd (live es)) \<and>
     map (content d dv) [0..<length (dir_bytes es)] = dir_bytes es"

lemma length_ent_bytes [simp]: "length (ent_bytes e) = length (snd e) + 9"
  by (simp add: ent_bytes_def)

lemma fits_append: "fits off (xs @ ys) \<longleftrightarrow> fits off xs \<and> fits (off + length (dir_bytes xs)) ys"
  by (induction xs arbitrary: off) (auto simp: add.assoc)

lemma strcmp_eq_spec: "0 \<notin> set s \<Longrightarrow> 0 \<notin> set t \<Longrightarrow> strcmp_eq (t @ [0]) s = Inr (t = s)"
proof (induction t s rule: strcmp_eq.induct)
  case (1 s)
  then show ?case by (cases s) auto
qed auto

lemma dir_rep_slice:
  assumes "dir_rep d dv (pre @ e # post)" and "off = length (dir_bytes pre)"
  shows "map (content d dv) [off..<off + length (ent_bytes e)] = ent_bytes e"
proof -
  let ?all = "dir_bytes (pre @ e # post)" and ?n = "length (ent_bytes e)"
  have m: "map (content d dv) [0..<length ?all] = ?all" using assms(1) by (simp add: dir_rep_def)
  have "map (content d dv) [off..<off + ?n] = take ?n (drop off (map (content d dv) [0..<length ?all]))"
    by (simp add: take_map drop_map assms(2))
  then show ?thesis unfolding m by (simp add: assms(2))
qed

abbreviation header :: "entry \<Rightarrow> dirent" where
  "header e \<equiv> \<lparr>d_name_len = int (length (snd e)) + 1, d_inode_nr = fst e\<rparr>"

lemma next_dirent_spec:
  assumes "sb_ok sb" and "file_ok sb (din ino)" and "inodes sb a = Some ino"
    and "dir_rep (din ino) (dev sb) (pre @ e # post)" and "off = length (dir_bytes pre)"
  shows "testfs_next_dirent a (int off) sb = Inr (Some (header e, snd e @ [0], int off + int (length (ent_bytes e))))"
proof -
  let ?n = "length (ent_bytes e)" and ?c = "content (din ino) (dev sb)"
  have r: "i_type (din ino) = type_nr I_DIR" "int (off + ?n) \<le> i_size (din ino)" "off + ?n \<le> 2058 * BLOCK_SIZE" "ent_ok e"
    "off mod BLOCK_SIZE + ?n \<le> BLOCK_SIZE"
    using assms(4,5) by (auto simp: dir_rep_def fits_append)
  have B: "0 < BLOCK_SIZE" by (simp add: BLOCK_SIZE_def)
  have lb: "off div BLOCK_SIZE < 2058" using r(3) B by (simp add: div_less_iff_less_mult)
  have same: "(off + 8) div BLOCK_SIZE = off div BLOCK_SIZE"
    using other_block[of "off + 8" off ?n] r(5) by auto
  then have ix: "(off + 8) mod BLOCK_SIZE = off mod BLOCK_SIZE + 8"
    using mult_div_mod_eq[of BLOCK_SIZE off] mult_div_mod_eq[of BLOCK_SIZE "off + 8"] unfolding same by linarith
  have sl: "map ?c [off..<off + 8] @ map ?c [off + 8..<off + ?n] = ent_bytes e"
    using dir_rep_slice[OF assms(4,5)] upt_add_eq_append[of off "off + 8" "length (snd e) + 1"] by (simp add: add.commute add.left_commute)
  have sp: "map ?c [off..<off + 8] = enc_dirent (header e)" "map ?c [off + 8..<off + ?n] = snd e @ [0]"
    using append_eq_append_conv[THEN iffD1, OF _ sl[unfolded ent_bytes_def]] by (simp_all add: add.commute)
  have 1: "testfs_read_data a (int off) (int sizeof_dirent) sb = Inr (8, enc_dirent (header e))"
    using read_data_spec[OF assms(1-3) lb, of 8] r sp by (simp add: sizeof_dirent_def)
  have 2: "testfs_read_data a (int off + 8) (int (length (snd e)) + 1) sb = Inr (int (length (snd e)) + 1, snd e @ [0])"
    using read_data_spec[OF assms(1-3), of "off + 8" "length (snd e) + 1"] lb same ix r sp
    by (simp add: add.commute add.left_commute)
  have "s32 (int (length (snd e)) + 1)" "s32 (fst e)" using r(4) by (auto simp: ent_ok_def s32_def BLOCK_SIZE_def)
  then have "dec_dirent (enc_dirent (header e)) = header e" using dec_enc_dirent[of "header e" "[]"] by simp
  then show ?thesis
    using assms(3) r(1,2) 1 2 by (simp add: testfs_next_dirent_def sizeof_dirent_def Let_def)
qed

lemma next_dirent_end:
  assumes "inodes sb a = Some ino" and "dir_rep (din ino) (dev sb) es" and "off = length (dir_bytes es)"
  shows "testfs_next_dirent a (int off) sb = Inr None"
  using assms by (simp add: testfs_next_dirent_def dir_rep_def)

text \<open>The loop over the entries is a search through the list.\<close>

fun entry_loop :: "(dirent \<Rightarrow> byte list \<Rightarrow> 'r option res) \<Rightarrow> nat \<Rightarrow> entry list \<Rightarrow> (int \<times> 'r option) res" where
  "entry_loop body off [] = Inr (int off, None)"
| "entry_loop body off (e # es) =
     bindR (body (header e) (snd e @ [0])) (\<lambda>r.
       case r of Some x \<Rightarrow> Inr (int off, Some x) | None \<Rightarrow> entry_loop body (off + length (ent_bytes e)) es)"

lemma dirent_loop_suffix:
  assumes "sb_ok sb" and "file_ok sb (din ino)" and "inodes sb a = Some ino"
    and "dir_rep (din ino) (dev sb) (pre @ post)" and "off = length (dir_bytes pre)"
  shows "dirent_loop body a (int off) sb = entry_loop body off post"
  using assms(4,5)
proof (induction post arbitrary: pre off)
  case Nil
  then show ?case using next_dirent_end[OF assms(3), of pre off] by (subst dirent_loop.simps) simp
next
  case (Cons e post)
  have "testfs_next_dirent a (int off) sb = Inr (Some (header e, snd e @ [0], int (off + length (ent_bytes e))))"
    using next_dirent_spec[OF assms(1-3) Cons.prems] by simp
  moreover have "dirent_loop body a (int (off + length (ent_bytes e))) sb = entry_loop body (off + length (ent_bytes e)) post"
    using Cons.prems by (intro Cons.IH[of "pre @ [e]"]) auto
  ultimately show ?case by (subst dirent_loop.simps) (auto intro!: arg_cong[where f = "bindR _"] split: option.splits)
qed

lemmas dirent_loop_spec = dirent_loop_suffix[where pre = "[]" and off = 0, simplified]


section \<open>Looking up a name\<close>

lemma dir_map_Cons: "dir_map (e # es) name = (if 0 \<le> fst e \<and> snd e = name then Some (fst e) else dir_map es name)"
  by (cases e) (simp add: dir_map_def live_def)

lemma dir_map_Nil [simp]: "dir_map [] = Map.empty"
  by (simp add: dir_map_def live_def)

lemma dir_map_None: "dir_map es name = None \<longleftrightarrow> name \<notin> snd ` set (live es)"
  by (induction es) (auto simp: dir_map_Cons live_def)

lemma dir_map_SomeD: "dir_map es name = Some nr \<Longrightarrow> 0 \<le> nr \<and> (nr, name) \<in> set es"
  by (induction es) (auto simp: dir_map_Cons split: if_splits)

lemma lookup_loop:
  "\<forall>e\<in>set es. ent_ok e \<Longrightarrow> 0 \<notin> set name \<Longrightarrow>
   \<exists>p. entry_loop (\<lambda>d nm. if d_inode_nr d < 0 then Inr None
      else bindR (strcmp_eq nm name) (\<lambda>eq. Inr (if eq then Some (d_inode_nr d) else None))) off es = Inr (p, dir_map es name)"
  by (induction es arbitrary: off) (auto simp: dir_map_Cons strcmp_eq_spec ent_ok_def)

lemma name_to_inode_nr_spec:
  assumes "sb_ok sb" and "file_ok sb (din ino)" and "inodes sb a = Some ino" and "dir_rep (din ino) (dev sb) es" and "0 \<notin> set name"
  shows "testfs_dir_name_to_inode_nr a name sb = Inr (case dir_map es name of None \<Rightarrow> - ENOENT | Some nr \<Rightarrow> nr)"
proof -
  have "\<forall>e\<in>set es. ent_ok e" "i_type (din ino) = type_nr I_DIR" using assms(4) by (auto simp: dir_rep_def)
  from lookup_loop[OF this(1) assms(5), of 0] this(2) show ?thesis
    using assms(3) by (auto simp: testfs_dir_name_to_inode_nr_def is_dir_def dirent_loop_spec[OF assms(1-4)])
qed

section \<open>Overwriting an entry\<close>

lemma map_overwrite:
  assumes f': "\<And>pos. pos < n \<Longrightarrow> f' pos = (if k \<le> pos \<and> pos < k + length E then E ! (pos - k) else f pos)"
    and f: "map f [0..<length (A @ M @ C)] = A @ M @ C"
    and k: "k = length A" and M: "length M = length E \<or> M = [] \<and> C = []" and n: "length (A @ E @ C) \<le> n"
  shows "map f' [0..<length (A @ E @ C)] = A @ E @ C"
proof (rule nth_equalityI)
  fix i assume i: "i < length (map f' [0..<length (A @ E @ C)])"
  have old: "f j = (A @ M @ C) ! j" if "j < length (A @ M @ C)" for j
  proof -
    have "map f [0..<length (A @ M @ C)] ! j = f j" using that by (subst nth_map) auto
    then show ?thesis unfolding f by simp
  qed
  have "f' i = (A @ E @ C) ! i"
  proof (cases "length A \<le> i \<and> i < length A + length E")
    case True
    then show ?thesis using f'[of i] i n by (auto simp: k nth_append)
  next
    case False
    then have "f' i = (A @ M @ C) ! i" using f'[of i] old[of i] i n M k by auto
    then show ?thesis using False M i by (auto simp: nth_append)
  qed
  then show "map f' [0..<length (A @ E @ C)] ! i = (A @ E @ C) ! i" using i by simp
qed simp

lemma fits_same: "length (snd e) = length (snd e') \<Longrightarrow> fits off (pre @ e # post) = fits off (pre @ e' # post)"
  by (simp add: fits_append)

lemma live_append [simp]: "live (xs @ ys) = live xs @ live ys" "live (e # es) = (if 0 \<le> fst e then e # live es else live es)" "live [] = []"
  by (simp_all add: live_def)

text \<open>Writing the bytes of an entry over one with a name of the same length, or at the end.\<close>

lemma dir_rep_write:
  assumes "dir_rep (din ino) (dev sb) (pre @ old @ post)" and "written sb a ino (ent_bytes e') (length (dir_bytes pre)) sz sb' ino'"
    and "(\<exists>e. old = [e] \<and> length (snd e) = length (snd e')) \<or> old = [] \<and> post = [] \<and> length (dir_bytes pre) mod BLOCK_SIZE + length (ent_bytes e') \<le> BLOCK_SIZE"
    and "sz = max (i_size (din ino)) (int (length (dir_bytes pre) + length (ent_bytes e')))"
    and "length (dir_bytes (pre @ e' # post)) \<le> 2058 * BLOCK_SIZE" and "ent_ok e'" and "distinct (map snd (live (pre @ e' # post)))"
  shows "dir_rep (din ino') (dev sb') (pre @ e' # post)"
proof -
  have w: "i_type (din ino') = i_type (din ino)" "i_size (din ino') = sz"
    "\<And>pos. pos < 2058 * BLOCK_SIZE \<Longrightarrow> content (din ino') (dev sb') pos =
        (if length (dir_bytes pre) \<le> pos \<and> pos < length (dir_bytes pre) + length (ent_bytes e') then ent_bytes e' ! (pos - length (dir_bytes pre))
         else content (din ino) (dev sb) pos)"
    using assms(2) unfolding written_def by (auto simp: div_less_iff_less_mult BLOCK_SIZE_def)
  have r: "i_type (din ino) = type_nr I_DIR" "i_size (din ino) = int (length (dir_bytes (pre @ old @ post)))"
    "\<forall>e\<in>set (pre @ old @ post). ent_ok e" "fits 0 (pre @ old @ post)"
    "map (content (din ino) (dev sb)) [0..<length (dir_bytes (pre @ old @ post))] = dir_bytes (pre @ old @ post)"
    using assms(1) unfolding dir_rep_def by blast+
  have "map (content (din ino') (dev sb')) [0..<length (dir_bytes pre @ ent_bytes e' @ dir_bytes post)] =
      dir_bytes pre @ ent_bytes e' @ dir_bytes post"
  proof (rule map_overwrite[OF w(3) _ refl, where M = "dir_bytes old"])
    show "map (content (din ino) (dev sb)) [0..<length (dir_bytes pre @ dir_bytes old @ dir_bytes post)] = dir_bytes pre @ dir_bytes old @ dir_bytes post"
      using r(5) unfolding map_append concat_append .
    show "length (dir_bytes old) = length (ent_bytes e') \<or> dir_bytes old = [] \<and> dir_bytes post = []" using assms(3) by auto
    show "length (dir_bytes pre @ ent_bytes e' @ dir_bytes post) \<le> 2058 * BLOCK_SIZE" using assms(5) by simp
  qed
  moreover have "fits 0 (pre @ e' # post)" using assms(3) r(4) by (auto simp: fits_append)
  moreover have "sz = int (length (dir_bytes (pre @ e' # post)))" using assms(3,4) r(2) by auto
  ultimately show ?thesis using w(1,2) r(1,3) assms(5-7) by (auto simp: dir_rep_def)
qed


section \<open>Adding an entry\<close>

lemma dir_map_append: "dir_map (xs @ ys) name = (case dir_map xs name of None \<Rightarrow> dir_map ys name | Some nr \<Rightarrow> Some nr)"
  by (induction xs) (auto simp: dir_map_Cons)

abbreviation free_slot :: "nat \<Rightarrow> entry \<Rightarrow> bool" where
  "free_slot n e \<equiv> fst e < 0 \<and> length (snd e) = n"

abbreviation add_body :: "byte list \<Rightarrow> int \<Rightarrow> dirent \<Rightarrow> byte list \<Rightarrow> int option res" where
  "add_body name len d nm \<equiv>
     bindR (if d_inode_nr d \<ge> 0 then strcmp_eq nm name else Inr False) (\<lambda>eq.
       if eq then Inr (Some (- EEXIST)) else if d_inode_nr d \<ge> 0 \<or> d_name_len d \<noteq> len then Inr None else Inr (Some 0))"

lemma add_loop:
  assumes "\<forall>e\<in>set es. ent_ok e" and "0 \<notin> set name" and "dir_map es name = None"
  shows "if \<exists>e\<in>set es. free_slot (length name) e
    then \<exists>pre e post. es = pre @ e # post \<and> free_slot (length name) e \<and>
      entry_loop (add_body name (int (length name) + 1)) off es = Inr (int (off + length (dir_bytes pre)), Some 0)
    else entry_loop (add_body name (int (length name) + 1)) off es = Inr (int (off + length (dir_bytes es)), None)"
  using assms
proof (induction es arbitrary: off)
  case (Cons e es)
  note IH = Cons.IH[of "off + length (ent_bytes e)"]
  have ok: "0 \<notin> set (snd e)" using Cons.prems(1) by (simp add: ent_ok_def)
  show ?case
  proof (cases "free_slot (length name) e")
    case True
    then show ?thesis by (intro if_P[THEN iffD2] exI[of _ "[]"]) (auto split: if_splits)
  next
    case False
    have "dir_map es name = None" "fst e \<ge> 0 \<Longrightarrow> snd e \<noteq> name" using Cons.prems(3) by (auto simp: dir_map_Cons split: if_splits)
    then have step: "entry_loop (add_body name (int (length name) + 1)) off (e # es) =
        entry_loop (add_body name (int (length name) + 1)) (off + length (ent_bytes e)) es"
      using False ok Cons.prems(2) by (auto simp: strcmp_eq_spec)
    show ?thesis
    proof (cases "\<exists>e\<in>set es. free_slot (length name) e")
      case True
      then obtain pre f post where "es = pre @ f # post" "free_slot (length name) f"
        "entry_loop (add_body name (int (length name) + 1)) (off + length (ent_bytes e)) es = Inr (int (off + length (ent_bytes e) + length (dir_bytes pre)), Some 0)"
        using IH Cons.prems \<open>dir_map es name = None\<close> by auto
      then show ?thesis unfolding step using True by (cases f) (auto intro!: exI[of _ "e # pre"] simp: add.assoc)
    next
      case none: False
      then have all: "\<not> (\<exists>f\<in>set (e # es). free_slot (length name) f)" using False by simp
      have "\<forall>e\<in>set es. ent_ok e" using Cons.prems(1) by simp
      from IH[OF this Cons.prems(2) \<open>dir_map es name = None\<close>, unfolded if_not_P[OF none]]
      show ?thesis unfolding step if_not_P[OF all] by simp
    qed
  qed
qed simp

lemma dir_map_replace:
  assumes "dir_map (pre @ old @ post) name = None" and "\<forall>e\<in>set old. fst e < 0" and "0 \<le> nr"
  shows "dir_map (pre @ (nr, name) # post) = (dir_map (pre @ old @ post))(name \<mapsto> nr)"
proof -
  have "dir_map old x = None" for x using assms(2) by (induction old) (auto simp: dir_map_Cons)
  then show ?thesis using assms(1,3) by (auto simp: dir_map_append dir_map_Cons fun_eq_iff split: option.splits)
qed

lemma distinct_replace:
  assumes "distinct (map snd (live (pre @ old @ post)))" and "dir_map (pre @ old @ post) name = None"
    and "\<forall>e\<in>set old. fst e < 0"
  shows "distinct (map snd (live (pre @ (nr, name) # post)))"
proof -
  have "live old = []" using assms(3) by (induction old) auto
  then show ?thesis using assms(1,2) by (auto simp: dir_map_None)
qed

lemma add_dirent_spec:
  assumes "sb_ok sb" and "file_ok sb (din ino)" and "inodes sb a = Some ino" and "dir_rep (din ino) (dev sb) es"
    and "dir_map es name = None" and "ent_ok (nr, name)" and "0 \<le> nr" and "1 < room sb"
    and "length (dir_bytes es) + length name + 9 \<le> 2058 * BLOCK_SIZE"
  shows "if (\<exists>e\<in>set es. free_slot (length name) e) \<or> length (dir_bytes es) mod BLOCK_SIZE + length name + 9 \<le> BLOCK_SIZE
    then \<exists>sb' ino' es' off sz. testfs_add_dirent a name nr sb = Inr (int (length name) + 9, sb') \<and>
      written sb a ino (ent_bytes (nr, name)) off sz sb' ino' \<and> dir_rep (din ino') (dev sb') es' \<and>
      dir_map es' = (dir_map es)(name \<mapsto> nr) \<and> length (dir_bytes es') \<le> length (dir_bytes es) + length name + 9
    else testfs_add_dirent a name nr sb = Inr (- ENOSYS, sb)"
proof -
  have ok: "\<forall>e\<in>set es. ent_ok e" "i_type (din ino) = type_nr I_DIR" "distinct (map snd (live es))"
    "i_size (din ino) = int (length (dir_bytes es))" "fits 0 es"
    using assms(4) by (auto simp: dir_rep_def)
  have nm: "0 \<notin> set name" "length name + 9 \<le> BLOCK_SIZE" using assms(6) by (auto simp: ent_ok_def)
  have len: "wrap32 (int (length name) + 1) = int (length name) + 1" using nm(2) by (intro wrap32_id) (auto simp: BLOCK_SIZE_def)
  have e0: "enc_dirent \<lparr>d_name_len = int (length name) + 1, d_inode_nr = nr\<rparr> @ name @ [0] = ent_bytes (nr, name)"
    by (simp add: ent_bytes_def)
  have go: "testfs_add_dirent a name nr sb = testfs_write_data a (ent_bytes (nr, name)) (int off) sb"
    if "entry_loop (add_body name (int (length name) + 1)) 0 es = Inr (int off, r)" "r = Some 0 \<or> r = None \<and> off = length (dir_bytes es)"
      "off \<le> length (dir_bytes es)" for off r
  proof -
    have w: "wrap32 (int off) = int off" using that(3) assms(9) by (intro wrap32_id) (auto simp: BLOCK_SIZE_def)
    have "r \<noteq> Some (- EEXIST)" using that(2) by (auto simp: EEXIST_def)
    then show ?thesis
      using that w assms(3,7) ok(2,4) e0
      by (auto simp: testfs_add_dirent_def len is_dir_def dirent_loop_spec[OF assms(1-4)] testfs_write_dirent_def)
  qed
  have wr: "\<exists>sb' ino' es' off sz. testfs_add_dirent a name nr sb = Inr (int (length name) + 9, sb') \<and>
      written sb a ino (ent_bytes (nr, name)) off sz sb' ino' \<and> dir_rep (din ino') (dev sb') es' \<and> dir_map es' = (dir_map es)(name \<mapsto> nr) \<and>
      length (dir_bytes es') \<le> length (dir_bytes es) + length name + 9"
    if es: "es = pre @ old @ post" "\<forall>e\<in>set old. fst e < 0"
      "(\<exists>e. old = [e] \<and> length (snd e) = length name) \<or> old = [] \<and> post = []"
      "length (dir_bytes pre) mod BLOCK_SIZE + (length name + 9) \<le> BLOCK_SIZE"
      "testfs_add_dirent a name nr sb = testfs_write_data a (ent_bytes (nr, name)) (int (length (dir_bytes pre))) sb" for pre old post
  proof -
    let ?off = "length (dir_bytes pre)" and ?es = "pre @ (nr, name) # post"
    have l: "length (dir_bytes ?es) \<le> 2058 * BLOCK_SIZE" using assms(9) es(1,3) by auto
    have "?off div BLOCK_SIZE < 2058" using assms(9) es(1) by (simp add: BLOCK_SIZE_def div_less_iff_less_mult)
    with write_data_spec[OF assms(1-3), of ?off "ent_bytes (nr, name)"] assms(8) es(4) obtain sb' ino' where
      w: "testfs_write_data a (ent_bytes (nr, name)) (int ?off) sb = Inr (int (length name) + 9, sb')"
      "written sb a ino (ent_bytes (nr, name)) ?off (max (i_size (din ino)) (int (?off + length (ent_bytes (nr, name))))) sb' ino'"
      by (auto simp: ent_bytes_def)
    have "dir_rep (din ino') (dev sb') ?es"
      using dir_rep_write[OF assms(4)[unfolded es(1)] w(2) _ refl l assms(6) distinct_replace[OF ok(3)[unfolded es(1)] assms(5)[unfolded es(1)] es(2)]] es(3,4) by auto
    moreover have "length (dir_bytes ?es) \<le> length (dir_bytes es) + length name + 9" using es(1) by simp
    ultimately show ?thesis using w es(5) dir_map_replace[OF assms(5)[unfolded es(1)] es(2) assms(7)] es(1) by metis
  qed
  note loop = add_loop[OF ok(1) nm(1) assms(5), of 0]
  show ?thesis
  proof (cases "\<exists>e\<in>set es. free_slot (length name) e")
    case True
    then obtain pre e post where s: "es = pre @ [e] @ post" "free_slot (length name) e"
      "entry_loop (add_body name (int (length name) + 1)) 0 es = Inr (int (length (dir_bytes pre)), Some 0)" using loop by auto
    have "length (dir_bytes pre) mod BLOCK_SIZE + (length name + 9) \<le> BLOCK_SIZE" using ok(5) s(1,2) by (simp add: fits_append)
    then show ?thesis using wr[OF s(1)] go[OF s(3)] s(1,2) True by auto
  next
    case False
    then have s: "testfs_add_dirent a name nr sb = testfs_write_data a (ent_bytes (nr, name)) (int (length (dir_bytes es))) sb"
      using go loop by simp
    show ?thesis
    proof (cases "length (dir_bytes es) mod BLOCK_SIZE + length name + 9 \<le> BLOCK_SIZE")
      case True
      then show ?thesis using wr[of es "[]" "[]"] s by simp
    next
      case big: False
      have "length (dir_bytes es) mod BLOCK_SIZE < BLOCK_SIZE" by (simp add: BLOCK_SIZE_def)
      then have "(int (length (dir_bytes es) mod BLOCK_SIZE) + (int (length name) + 9)) mod 18446744073709551616 =
          int (length (dir_bytes es) mod BLOCK_SIZE) + (int (length name) + 9)"
        using nm(2) by (simp add: BLOCK_SIZE_def)
      then have "testfs_write_data a (ent_bytes (nr, name)) (int (length (dir_bytes es))) sb = Inr (- ENOSYS, sb)"
        using big unfolding testfs_write_data_def block_position Let_def by simp
      then show ?thesis unfolding s using big False by auto
    qed
  qed
qed

end
