(* ===== verification/FsTable.thy ===== *)
theory FsTable
  imports FsFile
begin

text \<open>
  The table of inodes in memory (fs/inode.c): there is at most one copy of an inode, it is found
  through its hash chain, it is counted, and a copy that is not dirty agrees with the disk.
\<close>

section \<open>The invariant\<close>

abbreviation inode_block :: "int \<Rightarrow> nat" where "inode_block nr \<equiv> 18 + nat nr div 128"
abbreviation inode_off :: "int \<Rightarrow> nat" where "inode_off nr \<equiv> nat nr mod 128 * 64"

text \<open>The inode as it is on disk.\<close>

definition disk_inode :: "byte list list \<Rightarrow> int \<Rightarrow> dinode" where
  "disk_inode dv nr = dec_dinode (take 64 (drop (inode_off nr) (dv ! inode_block nr)))"

definition hashed :: "addr list list \<Rightarrow> (addr \<Rightarrow> inode option) \<Rightarrow> bool" where
  "hashed t m \<longleftrightarrow> length t = 256 \<and>
     (\<forall>h<256. distinct (t ! h) \<and> (\<forall>a. a \<in> set (t ! h) \<longleftrightarrow> (\<exists>ino. m a = Some ino \<and> inode_hashfn (i_nr ino) = h)))"

definition unique :: "(addr \<Rightarrow> inode option) \<Rightarrow> bool" where
  "unique m \<longleftrightarrow> (\<forall>a b i j. m a = Some i \<longrightarrow> m b = Some j \<longrightarrow> i_nr i = i_nr j \<longrightarrow> a = b)"

definition inode_ok :: "byte list list \<Rightarrow> inode \<Rightarrow> bool" where
  "inode_ok dv ino \<longleftrightarrow> 0 \<le> i_nr ino \<and> i_nr ino < 16384 \<and> 0 < i_count ino \<and> (\<not> i_flags ino \<longrightarrow> din ino = disk_inode dv (i_nr ino))"

definition tab_ok :: "super_block \<Rightarrow> bool" where
  "tab_ok sb \<longleftrightarrow> (\<exists>t. inode_hash_table sb = Some t \<and> hashed t (inodes sb)) \<and> unique (inodes sb) \<and>
     (\<forall>a ino. inodes sb a = Some ino \<longrightarrow> a < ibrk sb \<and> inode_ok (dev sb) ino)"

lemma inode_hashfn_bound: "inode_hashfn nr < 256"
proof -
  have "unat (drop_bit 24 (w :: 32 word)) < 256" for w
  proof -
    have "unat w < 2 ^ 32" using unsigned_less[of w, where 'a = nat] by simp
    then show ?thesis by (simp add: drop_bit_eq_div unat_div_distrib div_less_iff_less_mult)
  qed
  then show ?thesis by (simp add: inode_hashfn_def hash_int_def)
qed

lemma find_hit:
  "\<forall>a\<in>set c. m a \<noteq> None \<Longrightarrow> unique m \<Longrightarrow> a \<in> set c \<Longrightarrow> m a = Some ino \<Longrightarrow> find_inode m (i_nr ino) c = Inr (Some a)"
  by (induction c) (auto simp: unique_def)

lemma find_miss:
  "\<forall>a\<in>set c. \<exists>ino. m a = Some ino \<and> i_nr ino \<noteq> nr \<Longrightarrow> find_inode m nr c = Inr None"
  by (induction c) auto

lemma hash_find_hit:
  assumes "tab_ok sb" and "inodes sb a = Some ino"
  shows "inode_hash_find (i_nr ino) sb = Inr (Some a)"
proof -
  obtain t where t: "inode_hash_table sb = Some t" "hashed t (inodes sb)" using assms(1) by (auto simp: tab_ok_def)
  let ?h = "inode_hashfn (i_nr ino)"
  have c: "a \<in> set (t ! ?h)" "\<forall>b\<in>set (t ! ?h). inodes sb b \<noteq> None"
    using t(2) assms(2) inode_hashfn_bound[of "i_nr ino"] by (auto simp: hashed_def)
  have "unique (inodes sb)" using assms(1) by (simp add: tab_ok_def)
  from find_hit[OF c(2) this c(1) assms(2)] t inode_hashfn_bound show ?thesis
    by (simp add: inode_hash_find_def the_table_def bucket_def hashed_def)
qed

lemma hash_find_miss:
  assumes "tab_ok sb" and "\<forall>a ino. inodes sb a = Some ino \<longrightarrow> i_nr ino \<noteq> nr"
  shows "inode_hash_find nr sb = Inr None"
proof -
  obtain t where t: "inode_hash_table sb = Some t" "hashed t (inodes sb)" using assms(1) by (auto simp: tab_ok_def)
  have "\<forall>a\<in>set (t ! inode_hashfn nr). \<exists>ino. inodes sb a = Some ino \<and> i_nr ino \<noteq> nr"
    using t(2) assms(2) inode_hashfn_bound[of nr] by (fastforce simp: hashed_def)
  from find_miss[OF this] t inode_hashfn_bound show ?thesis
    by (simp add: inode_hash_find_def the_table_def bucket_def hashed_def)
qed

section \<open>Getting an inode\<close>

lemma hashed_upd:
  assumes "hashed t m" and "m a = Some ino" and "i_nr ino' = i_nr ino"
  shows "hashed t (m(a \<mapsto> ino'))"
  using assms unfolding hashed_def by auto

lemma hashed_insert:
  assumes "hashed t m" and "m a = None" and "h = inode_hashfn (i_nr ino)"
  shows "hashed (t[h := a # t ! h]) (m(a \<mapsto> ino))"
proof -
  have l: "length t = 256" and c: "\<And>k b. k < 256 \<Longrightarrow> b \<in> set (t ! k) \<longleftrightarrow> (\<exists>ino. m b = Some ino \<and> inode_hashfn (i_nr ino) = k)"
    and d: "\<And>k. k < 256 \<Longrightarrow> distinct (t ! k)" using assms(1) by (auto simp: hashed_def)
  have n: "k < 256 \<Longrightarrow> t[h := a # t ! h] ! k = (if k = h then a # t ! k else t ! k)" for k using l by (auto simp: nth_list_update)
  show ?thesis unfolding hashed_def using l c d n assms(2,3) by auto
qed

lemma unique_upd: "unique m \<Longrightarrow> m a = Some ino \<Longrightarrow> i_nr ino' = i_nr ino \<Longrightarrow> unique (m(a \<mapsto> ino'))"
  unfolding unique_def by (auto split: if_splits)

lemma tab_ok_upd:
  assumes "tab_ok sb" and "inodes sb a = Some ino" and "i_nr ino' = i_nr ino" and "inode_ok (dev sb) ino'"
  shows "tab_ok (sb\<lparr>inodes := (inodes sb)(a \<mapsto> ino')\<rparr>)"
  using assms hashed_upd unique_upd unfolding tab_ok_def by (auto split: if_splits)

lemma get_inode_hit:
  assumes "tab_ok sb" and "inodes sb a = Some ino"
  shows "testfs_get_inode (i_nr ino) sb = Inr (a, sb\<lparr>inodes := (inodes sb)(a \<mapsto> ino\<lparr>i_count := i_count ino + 1\<rparr>)\<rparr>)"
    and "tab_ok (sb\<lparr>inodes := (inodes sb)(a \<mapsto> ino\<lparr>i_count := i_count ino + 1\<rparr>)\<rparr>)"
proof -
  show "testfs_get_inode (i_nr ino) sb = Inr (a, sb\<lparr>inodes := (inodes sb)(a \<mapsto> ino\<lparr>i_count := i_count ino + 1\<rparr>)\<rparr>)"
    using hash_find_hit[OF assms] assms(2) by (simp add: testfs_get_inode_def upd_inode_def)
  show "tab_ok (sb\<lparr>inodes := (inodes sb)(a \<mapsto> ino\<lparr>i_count := i_count ino + 1\<rparr>)\<rparr>)"
    using assms by (intro tab_ok_upd[OF assms]) (auto simp: tab_ok_def inode_ok_def intro: less_imp_le)
qed

lemma inode_place:
  assumes "0 \<le> i_nr ino" and "i_nr ino < 16384"
  shows "testfs_inode_to_block_nr ino = Inr (i_nr ino div 128)" and "testfs_inode_to_block_offset ino = Inr (inode_off (i_nr ino))"
    and "i_nr ino div 128 < 128" and "inode_off (i_nr ino) + 64 \<le> BLOCK_SIZE"
proof -
  have *: "INODES_PER_BLOCK = 128" by (simp add: INODES_PER_BLOCK_def BLOCK_SIZE_def sizeof_dinode_def)
  show d: "i_nr ino div 128 < 128" using assms by simp
  show "testfs_inode_to_block_nr ino = Inr (i_nr ino div 128)"
    using assms d pos_imp_zdiv_nonneg_iff[of 128 "i_nr ino"] by (simp add: testfs_inode_to_block_nr_def * NR_INODE_BLOCKS_def Let_def)
  have m: "nat (i_nr ino) mod 128 < 128" by simp
  then show b: "inode_off (i_nr ino) + 64 \<le> BLOCK_SIZE" by (simp add: BLOCK_SIZE_def)
  show "testfs_inode_to_block_offset ino = Inr (inode_off (i_nr ino))"
    using assms b by (simp add: testfs_inode_to_block_offset_def * sizeof_dinode_def Let_def nat_mod_distrib)
qed

lemma read_inode:
  assumes "sb_ok sb" and "0 \<le> i_nr ino" and "i_nr ino < 16384"
  shows "testfs_read_inode_block ino sb = Inr (dev sb ! inode_block (i_nr ino))" and "inode_block (i_nr ino) < 146"
    and "length (dev sb ! inode_block (i_nr ino)) = BLOCK_SIZE"
proof -
  show l: "inode_block (i_nr ino) < 146" using assms(2,3) by (simp add: div_less_iff_less_mult)
  have o: "146 \<le> length (dev sb)" "dev_ok (dev sb)" "inode_blocks_start (dsb sb) = 18" using assms(1) by (auto simp: sb_ok_def layout_def)
  have "nat (18 + i_nr ino div 128) = inode_block (i_nr ino)" using assms(2) by (simp add: nat_add_distrib nat_div_distrib)
  then show "testfs_read_inode_block ino sb = Inr (dev sb ! inode_block (i_nr ino))"
    using inode_place[OF assms(2,3)] o l pos_imp_zdiv_nonneg_iff[of 128 "i_nr ino"] assms(2) read_one[of "18 + i_nr ino div 128" "dev sb"]
    by (simp add: testfs_read_inode_block_def)
  show "length (dev sb ! inode_block (i_nr ino)) = BLOCK_SIZE" using o l by (intro dev_ok_nth) auto
qed

lemma get_inode_miss:
  assumes "sb_ok sb" and "tab_ok sb" and "0 \<le> nr" and "nr < 16384" and "\<forall>a ino. inodes sb a = Some ino \<longrightarrow> i_nr ino \<noteq> nr"
  shows "\<exists>t. testfs_get_inode nr sb = Inr (ibrk sb, sb\<lparr>inodes := (inodes sb)(ibrk sb \<mapsto>
      \<lparr>din = disk_inode (dev sb) nr, i_flags = False, i_nr = nr, i_count = 1\<rparr>), ibrk := Suc (ibrk sb), inode_hash_table := Some t\<rparr>) \<and>
    tab_ok (sb\<lparr>inodes := (inodes sb)(ibrk sb \<mapsto>
      \<lparr>din = disk_inode (dev sb) nr, i_flags = False, i_nr = nr, i_count = 1\<rparr>), ibrk := Suc (ibrk sb), inode_hash_table := Some t\<rparr>)"
proof -
  obtain t where t: "inode_hash_table sb = Some t" "hashed t (inodes sb)" using assms(2) by (auto simp: tab_ok_def)
  let ?h = "inode_hashfn nr" and ?ino = "\<lparr>din = zero_dinode, i_flags = False, i_nr = nr, i_count = 1\<rparr>"
  let ?new = "\<lparr>din = disk_inode (dev sb) nr, i_flags = False, i_nr = nr, i_count = 1\<rparr>"
  let ?m = "(inodes sb)(ibrk sb \<mapsto> ?new)" and ?t = "t[?h := ibrk sb # t ! ?h]"
  have fresh: "inodes sb (ibrk sb) = None" using assms(2) unfolding tab_ok_def by (meson less_irrefl not_None_eq)
  have get: "testfs_get_inode nr sb = Inr (ibrk sb, sb\<lparr>inodes := ?m, ibrk := Suc (ibrk sb), inode_hash_table := Some ?t\<rparr>)"
    using hash_find_miss[OF assms(2,5)] read_inode(1)[OF assms(1), of ?ino] inode_place(2)[of ?ino] assms(3,4) t inode_hashfn_bound[of nr]
    by (simp add: testfs_get_inode_def inode_hash_insert_def the_table_def bucket_def disk_inode_def sizeof_dinode_def hashed_def Let_def)
  have "hashed ?t ?m" using hashed_insert[OF t(2) fresh, of ?h ?new] by simp
  moreover have "unique ?m" using assms(2,5) unfolding unique_def tab_ok_def by (auto split: if_splits)
  moreover have "\<forall>a ino. ?m a = Some ino \<longrightarrow> a < Suc (ibrk sb) \<and> inode_ok (dev sb) ino"
    using assms(2-4) by (auto simp: tab_ok_def inode_ok_def split: if_splits intro: less_SucI)
  ultimately show ?thesis using get by (intro exI[of _ ?t]) (auto simp: tab_ok_def)
qed

section \<open>Releasing and storing an inode\<close>

lemma put_inode_spec:
  assumes "tab_ok sb" and "inodes sb a = Some ino"
  shows "if i_flags ino then testfs_put_inode a sb = Inl Assert_failed
    else \<exists>t. testfs_put_inode a sb = Inr (sb\<lparr>inodes := (inodes sb)(a := if i_count ino = 1 then None else Some (ino\<lparr>i_count := i_count ino - 1\<rparr>)),
        inode_hash_table := Some t\<rparr>) \<and>
      tab_ok (sb\<lparr>inodes := (inodes sb)(a := if i_count ino = 1 then None else Some (ino\<lparr>i_count := i_count ino - 1\<rparr>)),
        inode_hash_table := Some t\<rparr>)"
proof -
  obtain t where t: "inode_hash_table sb = Some t" "hashed t (inodes sb)" using assms(1) by (auto simp: tab_ok_def)
  have ok: "inode_ok (dev sb) ino" using assms by (auto simp: tab_ok_def)
  have last: "tab_ok (sb\<lparr>inodes := (inodes sb)(a := None), inode_hash_table := Some (map (remove1 a) t)\<rparr>)"
    using assms(1) t unfolding tab_ok_def hashed_def unique_def by (auto split: if_splits)
  have more: "tab_ok (sb\<lparr>inodes := (inodes sb)(a \<mapsto> ino\<lparr>i_count := i_count ino - 1\<rparr>)\<rparr>)" if "i_count ino \<noteq> 1"
    using ok that by (intro tab_ok_upd[OF assms]) (auto simp: inode_ok_def)
  have same: "sb\<lparr>inodes := m, inode_hash_table := Some t\<rparr> = sb\<lparr>inodes := m\<rparr>" for m using t(1) by simp
  show ?thesis
  proof (cases "i_flags ino \<or> i_count ino \<noteq> 1")
    case True
    then show ?thesis
      using assms(2) more same by (auto simp: testfs_put_inode_def upd_inode_def intro!: exI[of _ t])
  next
    case False
    then show ?thesis
      using assms(2) t(1) last by (auto simp: testfs_put_inode_def inode_hash_remove_def the_table_def intro!: exI[of _ "map (remove1 a) t"])
  qed
qed

text \<open>The slots of different inodes do not overlap.\<close>

lemma disk_inode_put:
  assumes "0 \<le> nr" and "nr < 16384" and "0 \<le> nr'" and "nr' < 16384" and "dinode_range d"
    and "length (dv ! inode_block nr) = BLOCK_SIZE" and "inode_block nr < length dv"
  shows "disk_inode (put_block dv (inode_block nr) (memcpy_at (dv ! inode_block nr) (inode_off nr) (enc_dinode d))) nr' =
    (if nr' = nr then d else disk_inode dv nr')"
proof -
  let ?b = "dv ! inode_block nr"
  have len: "length (enc_dinode d) = 64" using assms(5) by (simp add: dinode_range_def)
  have off: "inode_off n + 64 \<le> BLOCK_SIZE" for n
  proof -
    have "nat n mod 128 < 128" by simp
    then show ?thesis by (simp add: BLOCK_SIZE_def)
  qed
  have l: "inode_off nr + length (enc_dinode d) \<le> length ?b" using off assms(6) len by simp
  show ?thesis
  proof (cases "nr' = nr")
    case True
    have "take 64 (drop (inode_off nr) (memcpy_at ?b (inode_off nr) (enc_dinode d))) = enc_dinode d"
      using take_drop_memcpy_at_same[OF l] len by simp
    then show ?thesis using True dec_enc_dinode[OF assms(5), of "[]"] by (simp add: disk_inode_def put_block_nth)
  next
    case False
    show ?thesis
    proof (cases "inode_block nr' = inode_block nr")
      case True
      then have "nat nr mod 128 \<noteq> nat nr' mod 128" using False assms(1,3)
        by (metis add_left_cancel eq_nat_nat_iff mod_mult_div_eq)
      then have "inode_off nr' + 64 \<le> inode_off nr \<or> inode_off nr + 64 \<le> inode_off nr'" by linarith
      then have "take 64 (drop (inode_off nr') (memcpy_at ?b (inode_off nr) (enc_dinode d))) = take 64 (drop (inode_off nr') ?b)"
        using l off len assms(6) by (intro take_drop_memcpy_at) auto
      then show ?thesis using True False by (simp add: disk_inode_def put_block_nth)
    next
      case diff: False
      then show ?thesis using False assms(7) by (simp add: disk_inode_def put_block_def)
    qed
  qed
qed

lemma sync_inode_spec:
  assumes "sb_ok sb" and "tab_ok sb" and "inodes sb a = Some ino" and "dinode_range (din ino)"
  shows "\<exists>dv. testfs_sync_inode a sb = Inr (sb\<lparr>dev := dv, inodes := (inodes sb)(a \<mapsto> ino\<lparr>i_flags := False\<rparr>)\<rparr>) \<and>
    sb_ok (sb\<lparr>dev := dv\<rparr>) \<and> tab_ok (sb\<lparr>dev := dv, inodes := (inodes sb)(a \<mapsto> ino\<lparr>i_flags := False\<rparr>)\<rparr>) \<and>
    disk_inode dv (i_nr ino) = din ino \<and> (\<forall>nr. 0 \<le> nr \<longrightarrow> nr < 16384 \<longrightarrow> nr \<noteq> i_nr ino \<longrightarrow> disk_inode dv nr = disk_inode (dev sb) nr) \<and>
    length dv = length (dev sb) \<and> (\<forall>i. i \<noteq> inode_block (i_nr ino) \<longrightarrow> dv ! i = dev sb ! i)"
proof (cases "i_flags ino")
  case False
  have "inode_ok (dev sb) ino" using assms(2,3) by (auto simp: tab_ok_def)
  moreover have "sb\<lparr>inodes := (inodes sb)(a \<mapsto> ino\<lparr>i_flags := False\<rparr>)\<rparr> = sb" using False assms(3) by (simp add: fun_upd_idem)
  ultimately show ?thesis using False assms by (intro exI[of _ "dev sb"]) (auto simp: testfs_sync_inode_def inode_ok_def)
next
  case True
  have ok: "0 \<le> i_nr ino" "i_nr ino < 16384" "0 < i_count ino" using assms(2,3) by (auto simp: tab_ok_def inode_ok_def)
  note rd = read_inode[OF assms(1) ok(1,2)] and pl = inode_place[OF ok(1,2)]
  let ?k = "inode_block (i_nr ino)"
  let ?b = "memcpy_at (dev sb ! ?k) (inode_off (i_nr ino)) (enc_dinode (din ino))"
  let ?dv = "put_block (dev sb) ?k ?b"
  have len: "length (enc_dinode (din ino)) = 64" using assms(4) by (simp add: dinode_range_def)
  have lb: "length ?b = BLOCK_SIZE" using rd(3) pl(4) len by (simp add: length_memcpy_at)
  have o: "146 \<le> length (dev sb)" "inode_blocks_start (dsb sb) = 18" using assms(1) by (auto simp: sb_ok_def layout_def)
  have kl: "?k < length (dev sb)" using rd(2) o by simp
  have di: "disk_inode ?dv nr = (if nr = i_nr ino then din ino else disk_inode (dev sb) nr)" if "0 \<le> nr" "nr < 16384" for nr
    using disk_inode_put[OF ok(1,2) that assms(4) rd(3) kl] .
  have "nat (18 + i_nr ino div 128) = ?k" "0 \<le> i_nr ino div 128"
    using ok(1) by (simp_all add: nat_add_distrib nat_div_distrib pos_imp_zdiv_nonneg_iff)
  then have wr: "testfs_write_inode_block ino ?b sb = Inr (sb\<lparr>dev := ?dv\<rparr>)"
    using pl(1) o(2) lb by (simp add: testfs_write_inode_block_def upd_dev_def write_one)
  have "testfs_sync_inode a sb = Inr (sb\<lparr>dev := ?dv, inodes := (inodes sb)(a \<mapsto> ino\<lparr>i_flags := False\<rparr>)\<rparr>)"
    using True assms(3) rd(1) pl(2) wr by (simp add: testfs_sync_inode_def upd_inode_def)
  moreover have "sb_ok (sb\<lparr>dev := ?dv\<rparr>)" using sb_ok_put[OF assms(1) _ lb] by simp
  moreover have "tab_ok (sb\<lparr>dev := ?dv, inodes := (inodes sb)(a \<mapsto> ino\<lparr>i_flags := False\<rparr>)\<rparr>)"
  proof -
    have "inode_ok ?dv j" if "inodes sb b = Some j" "b \<noteq> a" for b j
      using assms(2,3) that di unfolding tab_ok_def unique_def inode_ok_def by metis
    moreover have "inode_ok ?dv (ino\<lparr>i_flags := False\<rparr>)" using ok di by (simp add: inode_ok_def)
    moreover have "unique ((inodes sb)(a \<mapsto> ino\<lparr>i_flags := False\<rparr>))"
      using assms(2) by (intro unique_upd[where ino = ino]) (auto simp: tab_ok_def assms(3))
    moreover obtain t where "inode_hash_table sb = Some t" "hashed t ((inodes sb)(a \<mapsto> ino\<lparr>i_flags := False\<rparr>))"
      using assms(2) hashed_upd[where m = "inodes sb" and a = a and ino = ino] assms(3) by (auto simp: tab_ok_def)
    ultimately show ?thesis using assms(2,3) by (auto simp: tab_ok_def)
  qed
  ultimately show ?thesis using di ok kl by (intro exI[of _ ?dv]) (auto simp: put_block_def)
qed

section \<open>Properties\<close>

text \<open>
  C33. There is one copy of an inode in memory and it is not lost. \<open>testfs_get_inode\<close> returns the
  copy in memory, counting it once more, or loads the inode from disk. An inode that is dirty cannot
  be released: \<open>testfs_put_inode\<close> stops at its assertion. After \<open>testfs_sync_inode\<close>, releasing the
  last reference frees the copy, and getting the inode again loads exactly what was in memory; the
  inodes of other numbers keep their place on disk.
\<close>

theorem inode_table_persistent:
  assumes "sb_ok sb" and "tab_ok sb" and "0 \<le> nr" and "nr < 16384"
    and "inodes sb a = Some ino" and "dinode_range (din ino)" and "i_count ino = 1"
  shows "(\<exists>b sb' ino'. testfs_get_inode nr sb = Inr (b, sb') \<and> tab_ok sb' \<and> inodes sb' b = Some ino' \<and> i_nr ino' = nr \<and>
      (if \<exists>c i. inodes sb c = Some i \<and> i_nr i = nr
       then \<exists>i. inodes sb b = Some i \<and> ino' = i\<lparr>i_count := i_count i + 1\<rparr> else din ino' = disk_inode (dev sb) nr \<and> i_count ino' = 1)) \<and>
    (i_flags ino \<longrightarrow> testfs_put_inode a sb = Inl Assert_failed) \<and>
    (\<exists>sb1 sb2 sb3 b. testfs_sync_inode a sb = Inr sb1 \<and> testfs_put_inode a sb1 = Inr sb2 \<and> inodes sb2 = (inodes sb)(a := None) \<and>
      testfs_get_inode (i_nr ino) sb2 = Inr (b, sb3) \<and> tab_ok sb2 \<and> sb_ok sb2 \<and> tab_ok sb3 \<and>
      inodes sb3 b = Some \<lparr>din = din ino, i_flags = False, i_nr = i_nr ino, i_count = 1\<rparr> \<and>
      (\<forall>n. 0 \<le> n \<longrightarrow> n < 16384 \<longrightarrow> n \<noteq> i_nr ino \<longrightarrow> disk_inode (dev sb2) n = disk_inode (dev sb) n))"
proof (intro conjI, goal_cases)
  case 1
  show ?case
  proof (cases "\<exists>c i. inodes sb c = Some i \<and> i_nr i = nr")
    case True
    then obtain c i where "inodes sb c = Some i" "i_nr i = nr" by blast
    then show ?thesis using get_inode_hit[OF assms(2), of c i] True by auto
  next
    case False
    then have "\<forall>c i. inodes sb c = Some i \<longrightarrow> i_nr i \<noteq> nr" by blast
    from get_inode_miss[OF assms(1-4) this] show ?thesis unfolding if_not_P[OF False] by auto
  qed
next
  case 2
  show ?case using put_inode_spec[OF assms(2,5)] by simp
next
  case 3
  obtain dv where s: "testfs_sync_inode a sb = Inr (sb\<lparr>dev := dv, inodes := (inodes sb)(a \<mapsto> ino\<lparr>i_flags := False\<rparr>)\<rparr>)"
    "sb_ok (sb\<lparr>dev := dv\<rparr>)" "tab_ok (sb\<lparr>dev := dv, inodes := (inodes sb)(a \<mapsto> ino\<lparr>i_flags := False\<rparr>)\<rparr>)"
    "disk_inode dv (i_nr ino) = din ino" "\<forall>nr. 0 \<le> nr \<longrightarrow> nr < 16384 \<longrightarrow> nr \<noteq> i_nr ino \<longrightarrow> disk_inode dv nr = disk_inode (dev sb) nr"
    using sync_inode_spec[OF assms(1,2,5,6)] by blast
  let ?sb1 = "sb\<lparr>dev := dv, inodes := (inodes sb)(a \<mapsto> ino\<lparr>i_flags := False\<rparr>)\<rparr>"
  obtain sb2 where p: "testfs_put_inode a ?sb1 = Inr sb2" "tab_ok sb2" "inodes sb2 = (inodes sb)(a := None)" "dev sb2 = dv" "sb_ok sb2"
    using put_inode_spec[OF s(3), of a "ino\<lparr>i_flags := False\<rparr>"] assms(7) s(2) by (auto simp: sb_ok_def maps_ok_def synced_def)
  have r: "0 \<le> i_nr ino" "i_nr ino < 16384" "\<forall>c i. inodes sb2 c = Some i \<longrightarrow> i_nr i \<noteq> i_nr ino"
    using assms(2,5) p(3) by (auto simp: tab_ok_def inode_ok_def unique_def)
  from get_inode_miss[OF p(5,2) r] show ?case using s p by auto
qed

theorem inode_table_persistent_witness:
  "\<exists>sb sb1 sb2 sb3 b. testfs_sync_inode 0 sb = Inr sb1 \<and> testfs_put_inode 0 sb1 = Inr sb2 \<and>
     testfs_get_inode 5 sb2 = Inr (b, sb3) \<and> inodes sb3 b = Some \<lparr>din = zero_dinode\<lparr>i_size := 7\<rparr>, i_flags = False, i_nr = 5, i_count = 1\<rparr>"
proof -
  obtain sb where sb: "sb_ok sb" using format_spec[of 128] by auto
  let ?ino = "\<lparr>din = zero_dinode\<lparr>i_size := 7\<rparr>, i_flags = True, i_nr = 5, i_count = 1\<rparr>"
  let ?t = "(replicate 256 [])[inode_hashfn 5 := [0]]"
  let ?sb = "sb\<lparr>inodes := [0 \<mapsto> ?ino], ibrk := 1, inode_hash_table := Some ?t\<rparr>"
  have "sb_ok ?sb" using sb by (simp add: sb_ok_def maps_ok_def synced_def)
  moreover have "hashed (replicate 256 []) Map.empty" by (simp add: hashed_def)
  from hashed_insert[OF this, where a = 0 and h = "inode_hashfn 5" and ino = ?ino] inode_hashfn_bound[of 5]
  have "tab_ok ?sb" by (auto simp: tab_ok_def inode_ok_def unique_def)
  moreover have "dinode_range (din ?ino)" by (simp add: dinode_range_def zero_dinode_def s32_def s64_def)
  ultimately have "\<exists>sb1 sb2 sb3 b. testfs_sync_inode 0 ?sb = Inr sb1 \<and> testfs_put_inode 0 sb1 = Inr sb2 \<and>
      testfs_get_inode 5 sb2 = Inr (b, sb3) \<and> inodes sb3 b = Some \<lparr>din = zero_dinode\<lparr>i_size := 7\<rparr>, i_flags = False, i_nr = 5, i_count = 1\<rparr>"
    using inode_table_persistent[of ?sb 5 0 ?ino, THEN conjunct2, THEN conjunct2] by auto
  then show ?thesis by blast
qed

end
