(* ===== verification/FsTree.thy ===== *)
theory FsTree
  imports FsDir FsTable
begin

text \<open>
  Directories and inodes together: what removing a name and creating a file do to the tree, between
  commands, when no inode in memory is dirty.
\<close>

section \<open>Quiet states\<close>

definition quiet :: "super_block \<Rightarrow> bool" where
  "quiet sb \<longleftrightarrow> (\<forall>a ino. inodes sb a = Some ino \<longrightarrow> \<not> i_flags ino)"

abbreviation same_disk :: "super_block \<Rightarrow> super_block \<Rightarrow> bool" where
  "same_disk sb sb' \<equiv> dev sb' = dev sb \<and> dsb sb' = dsb sb \<and> inode_freemap sb' = inode_freemap sb \<and> block_freemap sb' = block_freemap sb"

lemma same_disk_ok:
  assumes "same_disk sb sb'"
  shows "sb_ok sb' = sb_ok sb" and "owned sb' p = owned sb p" and "file_ok sb' d = file_ok sb d" and "room sb' = room sb"
    and "blocks_of sb' d = blocks_of sb d"
  using assms by (simp_all add: sb_ok_def maps_ok_def synced_def file_ok_def stored_def owned_def blocks_of_def)

lemma quiet_din:
  "tab_ok sb \<Longrightarrow> quiet sb \<Longrightarrow> inodes sb a = Some ino \<Longrightarrow> din ino = disk_inode (dev sb) (i_nr ino)"
  by (auto simp: tab_ok_def quiet_def inode_ok_def)

text \<open>Getting an inode to look at it, and releasing it.\<close>

lemma get_then_put:
  assumes "sb_ok sb" and "tab_ok sb" and "quiet sb" and "0 \<le> nr" and "nr < 16384"
  shows "\<exists>c sb1 ino1 sb2. testfs_get_inode nr sb = Inr (c, sb1) \<and> inodes sb1 c = Some ino1 \<and> din ino1 = disk_inode (dev sb) nr \<and>
    i_nr ino1 = nr \<and> same_disk sb sb1 \<and> tab_ok sb1 \<and> quiet sb1 \<and> inodes sb1 = (inodes sb)(c \<mapsto> ino1) \<and>
    (\<forall>i. inodes sb c = Some i \<longrightarrow> i_nr i = nr) \<and>
    testfs_put_inode c sb1 = Inr sb2 \<and> tab_ok sb2 \<and> inodes sb2 = inodes sb \<and> same_disk sb sb2"
proof (cases "\<exists>c i. inodes sb c = Some i \<and> i_nr i = nr")
  case True
  then obtain c i where c: "inodes sb c = Some i" "i_nr i = nr" by blast
  let ?i = "i\<lparr>i_count := i_count i + 1\<rparr>"
  let ?sb = "sb\<lparr>inodes := (inodes sb)(c \<mapsto> ?i)\<rparr>"
  have g: "testfs_get_inode nr sb = Inr (c, ?sb)" "tab_ok ?sb" using get_inode_hit[OF assms(2) c(1)] c(2) by auto
  have "0 < i_count i" "\<not> i_flags i" using assms(2,3) c(1) by (auto simp: tab_ok_def inode_ok_def quiet_def)
  then obtain t where p: "testfs_put_inode c ?sb = Inr (?sb\<lparr>inodes := (inodes ?sb)(c \<mapsto> i), inode_hash_table := Some t\<rparr>)"
    "tab_ok (?sb\<lparr>inodes := (inodes ?sb)(c \<mapsto> i), inode_hash_table := Some t\<rparr>)"
    using put_inode_spec[OF g(2), of c ?i] by auto
  have "(inodes sb)(c \<mapsto> i) = inodes sb" using c(1) by auto
  moreover have "quiet ?sb" using assms(3) c(1) by (auto simp: quiet_def)
  ultimately show ?thesis using g p c quiet_din[OF assms(2,3) c(1)]
    by (intro exI[of _ c] exI[of _ ?sb] exI[of _ ?i] exI[of _ "?sb\<lparr>inodes := (inodes ?sb)(c \<mapsto> i), inode_hash_table := Some t\<rparr>"]) auto
next
  case False
  then have n: "\<forall>c i. inodes sb c = Some i \<longrightarrow> i_nr i \<noteq> nr" by blast
  let ?i = "\<lparr>din = disk_inode (dev sb) nr, i_flags = False, i_nr = nr, i_count = 1\<rparr>"
  obtain t where g: "testfs_get_inode nr sb = Inr (ibrk sb, sb\<lparr>inodes := (inodes sb)(ibrk sb \<mapsto> ?i), ibrk := Suc (ibrk sb), inode_hash_table := Some t\<rparr>)"
    "tab_ok (sb\<lparr>inodes := (inodes sb)(ibrk sb \<mapsto> ?i), ibrk := Suc (ibrk sb), inode_hash_table := Some t\<rparr>)" (is "tab_ok ?sb")
    using get_inode_miss[OF assms(1,2,4,5) n] by blast
  have "inodes sb (ibrk sb) = None" using assms(2) unfolding tab_ok_def by (meson less_irrefl not_None_eq)
  then have fr: "inodes sb (ibrk sb) = None" and e: "(inodes sb)(ibrk sb := None) = inodes sb" by auto
  obtain sb2 where p: "testfs_put_inode (ibrk sb) ?sb = Inr sb2" "tab_ok sb2" "inodes sb2 = inodes sb" "same_disk sb sb2"
    using put_inode_spec[OF g(2), of "ibrk sb" ?i] e by auto
  have "quiet ?sb" using assms(3) by (auto simp: quiet_def)
  then show ?thesis using g p fr by (intro exI[of _ "ibrk sb"] exI[of _ ?sb] exI[of _ ?i] exI[of _ sb2]) auto
qed

section \<open>Removing a name\<close>

definition empty_dir :: "entry list \<Rightarrow> bool" where
  "empty_dir es \<longleftrightarrow> (\<forall>e\<in>set (live es). snd e = dot \<or> snd e = dotdot)"

lemma dots: "0 \<notin> set dot" "0 \<notin> set dotdot"
  by (simp_all add: dot_def dotdot_def)

lemma allowed_loop:
  "\<forall>e\<in>set es. ent_ok e \<Longrightarrow>
   \<exists>p. entry_loop (\<lambda>d nm. if d_inode_nr d < 0 then Inr None
      else bindR (strcmp_eq nm dot) (\<lambda>e1. if e1 then Inr None
        else bindR (strcmp_eq nm dotdot) (\<lambda>e2. Inr (if e2 then None else Some (- ENOTEMPTY))))) off es =
     Inr (p, if empty_dir es then None else Some (- ENOTEMPTY))"
  by (induction es arbitrary: off) (auto simp: empty_dir_def strcmp_eq_spec ent_ok_def dots)

lemma remove_allowed_spec:
  assumes "sb_ok sb" and "tab_ok sb" and "quiet sb" and "0 \<le> nr" and "nr < 16384"
    and "i_type (disk_inode (dev sb) nr) = type_nr I_DIR \<Longrightarrow> file_ok sb (disk_inode (dev sb) nr) \<and> dir_rep (disk_inode (dev sb) nr) (dev sb) ces"
  shows "\<exists>sb'. testfs_remove_dirent_allowed nr sb =
      Inr (if i_type (disk_inode (dev sb) nr) = type_nr I_DIR \<and> \<not> empty_dir ces then - ENOTEMPTY else 0, sb') \<and>
    tab_ok sb' \<and> inodes sb' = inodes sb \<and> same_disk sb sb'"
proof -
  obtain c sb1 i sb2 where g: "testfs_get_inode nr sb = Inr (c, sb1)" "inodes sb1 c = Some i" "din i = disk_inode (dev sb) nr"
    "same_disk sb sb1" "testfs_put_inode c sb1 = Inr sb2" "tab_ok sb2" "inodes sb2 = inodes sb" "same_disk sb sb2"
    using get_then_put[OF assms(1-5)] by blast
  show ?thesis
  proof (cases "i_type (disk_inode (dev sb) nr) = type_nr I_DIR")
    case True
    have f: "file_ok sb (disk_inode (dev sb) nr)" "dir_rep (disk_inode (dev sb) nr) (dev sb) ces" using assms(6)[OF True] by auto
    have "sb_ok sb1" "file_ok sb1 (din i)" "dir_rep (din i) (dev sb1) ces" using f g(3,4) assms(1) same_disk_ok[OF g(4)] by auto
    note loop = dirent_loop_spec[OF this(1,2) g(2) this(3)]
    have "\<forall>e\<in>set ces. ent_ok e" using f(2) by (simp add: dir_rep_def)
    from allowed_loop[OF this, of 0] g True show ?thesis
      by (auto simp: testfs_remove_dirent_allowed_def is_dir_def loop)
  next
    case False
    then show ?thesis using g by (auto simp: testfs_remove_dirent_allowed_def is_dir_def)
  qed
qed

lemma find_loop:
  "\<forall>e\<in>set es. ent_ok e \<Longrightarrow> 0 \<notin> set name \<Longrightarrow>
   case dir_map es name of
     None \<Rightarrow> \<exists>p. entry_loop (\<lambda>d nm. if d_inode_nr d < 0 then Inr None
       else bindR (strcmp_eq nm name) (\<lambda>eq. Inr (if eq then Some (d, nm) else None))) off es = Inr (p, None)
   | Some nr \<Rightarrow> \<exists>pre post. es = pre @ (nr, name) # post \<and> entry_loop (\<lambda>d nm. if d_inode_nr d < 0 then Inr None
       else bindR (strcmp_eq nm name) (\<lambda>eq. Inr (if eq then Some (d, nm) else None))) off es =
       Inr (int (off + length (dir_bytes pre)), Some (header (nr, name), name @ [0]))"
proof (induction es arbitrary: off)
  case (Cons e es)
  let ?body = "\<lambda>d nm. if d_inode_nr d < 0 then Inr None
       else bindR (strcmp_eq nm name) (\<lambda>eq. Inr (if eq then Some (d, nm) else None))"
  have s: "0 \<le> fst e \<Longrightarrow> strcmp_eq (snd e @ [0]) name = Inr (snd e = name)" using Cons.prems by (intro strcmp_eq_spec) (auto simp: ent_ok_def)
  show ?case
  proof (cases "0 \<le> fst e \<and> snd e = name")
    case True
    then have e: "e = (fst e, name)" "dir_map (e # es) name = Some (fst e)" by (auto simp: dir_map_Cons prod_eq_iff)
    have "e # es = [] @ (fst e, name) # es" using e(1) by simp
    moreover have "entry_loop ?body off (e # es) = Inr (int (off + length (dir_bytes [])), Some (header (fst e, name), name @ [0]))" using True s by simp
    ultimately show ?thesis unfolding e(2) option.case by blast
  next
    case False
    then have st: "entry_loop ?body off (e # es) = entry_loop ?body (off + length (ent_bytes e)) es" using s by auto
    have dm: "dir_map (e # es) name = dir_map es name" using False by (auto simp: dir_map_Cons)
    have "\<forall>e\<in>set es. ent_ok e" using Cons.prems(1) by simp
    note IH = Cons.IH[OF this Cons.prems(2), of "off + length (ent_bytes e)"]
    show ?thesis
    proof (cases "dir_map es name")
      case None
      then show ?thesis using IH unfolding st dm by simp
    next
      case (Some nr)
      then obtain pre post where p: "e # es = (e # pre) @ (nr, name) # post" "entry_loop ?body (off + length (ent_bytes e)) es =
          Inr (int (off + length (dir_bytes (e # pre))), Some (header (nr, name), name @ [0]))"
        using IH by (auto simp: add.assoc)
      show ?thesis unfolding st dm Some option.case using p by blast
    qed
  qed
qed simp

text \<open>The block of an entry is allocated.\<close>

lemma entry_block:
  assumes "file_ok sb d" and "dir_rep d (dev sb) (pre @ e # post)" and "off = length (dir_bytes pre)"
  shows "phys d (dev sb) (off div BLOCK_SIZE) \<noteq> 0"
proof
  assume z: "phys d (dev sb) (off div BLOCK_SIZE) = 0"
  let ?n = "length (ent_bytes e)"
  have r: "off mod BLOCK_SIZE + ?n \<le> BLOCK_SIZE" "ent_ok e" using assms(2,3) by (auto simp: dir_rep_def fits_append)
  have "content d (dev sb) pos = 0" if "pos \<in> set [off..<off + ?n]" for pos
  proof -
    have "pos div BLOCK_SIZE = off div BLOCK_SIZE" using other_block[of pos off ?n] r(1) that by auto
    then show ?thesis using z by (simp add: content_def)
  qed
  then have "map (content d (dev sb)) [off..<off + ?n] = replicate ?n 0" by (intro replicate_eqI) auto
  then have "ent_bytes e = replicate ?n 0" using dir_rep_slice[OF assms(2,3)] by simp
  then have "dec_dirent (replicate ?n 0) = header e"
    using dec_enc_dirent[of "header e" "snd e @ [0]"] r(2) by (simp add: ent_bytes_def ent_ok_def s32_def BLOCK_SIZE_def)
  then show False by (simp add: dec_dirent_def dec_s32_def le_dec_zero wrap32_id dirent.defs)
qed

lemma dir_map_remove:
  assumes "distinct (map snd (live (pre @ (nr, name) # post)))" and "0 \<le> nr"
  shows "dir_map (pre @ (- 1, name) # post) = (dir_map (pre @ (nr, name) # post))(name := None)"
proof -
  have "dir_map pre name = None" "dir_map post name = None" using assms by (auto simp: dir_map_None)
  then show ?thesis by (auto simp: fun_eq_iff dir_map_append dir_map_Cons split: option.splits)
qed

lemma remove_dirent_spec:
  assumes "sb_ok sb" and "tab_ok sb" and "quiet sb" and "inodes sb a = Some ino" and "file_ok sb (din ino)"
    and "dir_rep (din ino) (dev sb) es" and "0 \<notin> set name" and "name \<noteq> dot" and "name \<noteq> dotdot"
    and "dir_map es name = Some nr" and "nr < 16384"
    and "i_type (disk_inode (dev sb) nr) = type_nr I_DIR \<Longrightarrow> file_ok sb (disk_inode (dev sb) nr) \<and> dir_rep (disk_inode (dev sb) nr) (dev sb) ces"
  shows "if i_type (disk_inode (dev sb) nr) = type_nr I_DIR \<and> \<not> empty_dir ces
    then \<exists>sb'. testfs_remove_dirent a name sb = Inr (- ENOTEMPTY, sb') \<and> tab_ok sb' \<and> inodes sb' = inodes sb \<and> same_disk sb sb'
    else \<exists>sb1 sb' ino' es' off. testfs_remove_dirent a name sb = Inr (nr, sb') \<and> tab_ok sb1 \<and> inodes sb1 = inodes sb \<and> same_disk sb sb1 \<and>
      written sb1 a ino (ent_bytes (- 1, name)) off (i_size (din ino)) sb' ino' \<and> dir_rep (din ino') (dev sb') es' \<and>
      dir_map es' = (dir_map es)(name := None)"
proof -
  have nr: "0 \<le> nr" using dir_map_SomeD[OF assms(10)] by simp
  have ok: "\<forall>e\<in>set es. ent_ok e" "distinct (map snd (live es))" "length (dir_bytes es) \<le> 2058 * BLOCK_SIZE" "fits 0 es"
    "i_size (din ino) = int (length (dir_bytes es))" using assms(6) by (auto simp: dir_rep_def)
  obtain pre post where f: "es = pre @ [(nr, name)] @ post" "entry_loop (\<lambda>d nm. if d_inode_nr d < 0 then Inr None
       else bindR (strcmp_eq nm name) (\<lambda>eq. Inr (if eq then Some (d, nm) else None))) 0 es =
       Inr (int (length (dir_bytes pre)), Some (header (nr, name), name @ [0]))"
    using find_loop[OF ok(1) assms(7), of 0] assms(10) by auto
  let ?off = "length (dir_bytes pre)"
  obtain sb1 where s: "testfs_remove_dirent_allowed nr sb =
      Inr (if i_type (disk_inode (dev sb) nr) = type_nr I_DIR \<and> \<not> empty_dir ces then - ENOTEMPTY else 0, sb1)"
    "tab_ok sb1" "inodes sb1 = inodes sb" "same_disk sb sb1" using remove_allowed_spec[OF assms(1-3) nr assms(11,12)] by blast
  note loop = dirent_loop_spec[OF assms(1,5,4,6)]
  show ?thesis
  proof (cases "i_type (disk_inode (dev sb) nr) = type_nr I_DIR \<and> \<not> empty_dir ces")
    case True
    then show ?thesis using s f(2) assms(8,9) by (auto simp: testfs_remove_dirent_def loop ENOTEMPTY_def)
  next
    case False
    have e: "enc_dirent \<lparr>d_name_len = int (length name) + 1, d_inode_nr = - 1\<rparr> @ name @ [0] = ent_bytes (- 1, name)" by (simp add: ent_bytes_def)
    have go: "testfs_remove_dirent a name sb = bindR (testfs_write_data a (ent_bytes (- 1, name)) (int ?off) sb1)
        (\<lambda>(ret, sb). Inr (if ret \<ge> 0 then nr else ret, sb))"
      using s(1)[unfolded if_not_P[OF False]] f(2) assms(8,9) e by (simp add: testfs_remove_dirent_def loop INVALID_INODE_NR_def nat_add_distrib cong: if_cong)
    have b: "phys (din ino) (dev sb1) (?off div BLOCK_SIZE) \<noteq> 0"
      using entry_block[OF assms(5), of pre "(nr, name)" post ?off] assms(6) f(1) s(4) by simp
    have "sb_ok sb1" "file_ok sb1 (din ino)" "inodes sb1 a = Some ino" using same_disk_ok[OF s(4)] s(3) assms(1,4,5) by auto
    moreover have "?off div BLOCK_SIZE < 2058" using ok(3) f(1) by (simp add: BLOCK_SIZE_def div_less_iff_less_mult)
    moreover have fit: "?off mod BLOCK_SIZE + length (ent_bytes (- 1, name)) \<le> BLOCK_SIZE" using ok(4) f(1) by (simp add: fits_append)
    ultimately obtain sb' ino' where w: "testfs_write_data a (ent_bytes (- 1, name)) (int ?off) sb1 = Inr (int (length name) + 9, sb')"
      "written sb1 a ino (ent_bytes (- 1, name)) ?off (max (i_size (din ino)) (int (?off + length (ent_bytes (- 1, name))))) sb' ino'"
      using write_data_spec[of sb1 ino a ?off "ent_bytes (- 1, name)"] b by (auto simp: ent_bytes_def)
    have sz: "max (i_size (din ino)) (int (?off + length (ent_bytes (- 1, name)))) = i_size (din ino)" using ok(5) f(1) by simp
    have "distinct (map snd (live (pre @ (- 1, name) # post)))" using ok(2) f(1) nr by simp
    moreover have "ent_ok (- 1, name)" using ok(1) f(1) by (auto simp: ent_ok_def)
    moreover have "dir_rep (din ino) (dev sb1) (pre @ [(nr, name)] @ post)" using assms(6) f(1) s(4) by simp
    ultimately have "dir_rep (din ino') (dev sb') (pre @ (- 1, name) # post)"
      using dir_rep_write[of ino sb1 pre "[(nr, name)]" post a "(- 1, name)" _ sb' ino'] w(2) ok(3) f(1) by simp
    moreover have "dir_map (pre @ (- 1, name) # post) = (dir_map es)(name := None)" using dir_map_remove[of pre nr name post] ok(2) f(1) nr by simp
    moreover have "testfs_remove_dirent a name sb = Inr (nr, sb')" using go w(1) by simp
    ultimately show ?thesis unfolding if_not_P[OF False] using w(2) s(2-4) unfolding sz by blast
  qed
qed

section \<open>What depends on which part of the state\<close>

abbreviation same_data :: "super_block \<Rightarrow> super_block \<Rightarrow> bool" where
  "same_data sb sb' \<equiv> length (dev sb') = length (dev sb) \<and> (\<forall>i\<ge>146. dev sb' ! i = dev sb ! i) \<and> block_freemap sb' = block_freemap sb"

lemma same_data_file:
  assumes "sb_ok sb" and "same_data sb sb'" and "file_ok sb d"
  shows "file_ok sb' d" and "dir_rep d (dev sb') es = dir_rep d (dev sb) es"
    and "pos div BLOCK_SIZE < 2058 \<Longrightarrow> content d (dev sb') pos = content d (dev sb) pos"
proof -
  have b: "dev sb' ! nat q = dev sb ! nat q" "stored sb' q = stored sb q" if "stored sb q" for q
    using that owned_range[OF assms(1), of q] assms(2) by (auto simp: stored_def owned_def)
  have own: "stored sb' q = stored sb q" for q using assms(2) by (auto simp: stored_def owned_def)
  have ph: "phys d (dev sb') l = phys d (dev sb) l" for l
    using b[OF file_okD(3)[OF assms(3)]] file_okD(2)[OF assms(3)] by (auto simp: phys_def)
  show "file_ok sb' d" using assms(3) unfolding file_ok_def ph own .
  show c: "pos div BLOCK_SIZE < 2058 \<Longrightarrow> content d (dev sb') pos = content d (dev sb) pos" for pos
    using b[of "phys d (dev sb) (pos div BLOCK_SIZE)"] file_okD(4)[OF assms(3)] by (auto simp: content_def ph Let_def)
  have "map (content d (dev sb')) [0..<n] = map (content d (dev sb)) [0..<n]" if "n \<le> 2058 * BLOCK_SIZE" for n
    using that c by (auto simp: BLOCK_SIZE_def div_less_iff_less_mult)
  from this[of "length (dir_bytes es)"] show "dir_rep d (dev sb') es = dir_rep d (dev sb) es" unfolding dir_rep_def by (metis (no_types))
qed

lemma disk_inode_frame:
  "(\<And>i. 18 \<le> i \<Longrightarrow> i < 146 \<Longrightarrow> dv' ! i = dv ! i) \<Longrightarrow> nr < 16384 \<Longrightarrow> disk_inode dv' nr = disk_inode dv nr"
  by (simp add: disk_inode_def div_less_iff_less_mult nat_less_iff)

lemma tab_ok_frame:
  assumes "tab_ok sb" and "inode_hash_table sb' = inode_hash_table sb" and "ibrk sb' = ibrk sb" and "inodes sb' = inodes sb"
    and "\<And>i. 18 \<le> i \<Longrightarrow> i < 146 \<Longrightarrow> dev sb' ! i = dev sb ! i"
  shows "tab_ok sb'"
  using assms(1-4) disk_inode_frame[of "dev sb'" "dev sb", OF assms(5)] by (auto simp: tab_ok_def inode_ok_def)

lemma blocks_of_range:
  assumes "sb_ok sb" and "file_ok sb d" and "q \<in> blocks_of sb d"
  shows "146 \<le> q"
proof -
  have "stored sb q" using assms(3) file_okD(3,4)[OF assms(2)] by (auto simp: blocks_of_def)
  then show ?thesis using owned_range[OF assms(1)] by (auto simp: stored_def)
qed

lemma tab_ok_written:
  assumes "sb_ok sb" and "tab_ok sb" and "inodes sb a = Some ino" and "file_ok sb (din ino)" and "written sb a ino buf st sz sb' ino'"
  shows "tab_ok sb'" and "nr < 16384 \<Longrightarrow> disk_inode (dev sb') nr = disk_inode (dev sb) nr"
proof -
  have l: "146 \<le> length (dev sb)" using assms(1) by (simp add: sb_ok_def)
  have w: "inodes sb' = (inodes sb)(a \<mapsto> ino')" "i_nr ino' = i_nr ino" "i_count ino' = i_count ino" "i_flags ino'" "same_tab sb sb'"
    using assms(5) by (auto simp: written_def)
  have b: "dev sb' ! i = dev sb ! i" if "18 \<le> i" "i < 146" for i
  proof -
    have "int i \<notin> blocks_of sb (din ino)" using blocks_of_range[OF assms(1,4), of "int i"] that by auto
    then show ?thesis using assms(5) l that unfolding written_def by auto
  qed
  show "nr < 16384 \<Longrightarrow> disk_inode (dev sb') nr = disk_inode (dev sb) nr" using b by (rule disk_inode_frame)
  have "inode_ok (dev sb) ino'" using assms(2,3) w(2-4) by (auto simp: tab_ok_def inode_ok_def)
  from tab_ok_upd[OF assms(2,3) w(2) this] show "tab_ok sb'"
    by (rule tab_ok_frame) (use w b in auto)
qed

lemma file_ok_range:
  assumes "sb_ok sb" and "file_ok sb d" and "s32 (i_type d)" and "s32 (i_dindirect d)" and "s32 (block_count d)" and "s64 (i_size d)"
  shows "dinode_range d"
proof -
  have z: "q = 0 \<or> stored sb q \<Longrightarrow> s32 q" for q using owned_s32[OF assms(1), of q] by (auto simp: stored_def s32_def)
  have l: "length (i_block_nr d) = 10" using assms(2) by (simp add: file_ok_def)
  have "s32 (i_block_nr d ! k)" if "k < 10" for k
    using z[of "phys d (dev sb) k"] file_okD(4)[OF assms(2), of k] that by (auto simp: phys_def)
  then have "\<forall>b\<in>set (i_block_nr d). s32 b" using l by (auto simp: in_set_conv_nth)
  moreover have "s32 (i_indirect d)" using z[of "i_indirect d"] file_okD(3)[OF assms(2)] by blast
  ultimately show ?thesis using assms l by (simp add: dinode_range_def)
qed

section \<open>Creating a file\<close>

text \<open>Inodes in memory are allocated, and free inodes are zero on disk.\<close>

definition inodes_used :: "super_block \<Rightarrow> bool" where
  "inodes_used sb \<longleftrightarrow> (\<forall>a ino. inodes sb a = Some ino \<longrightarrow> nat (i_nr ino) \<in> used (ifree sb))"

definition free_zero :: "super_block \<Rightarrow> bool" where
  "free_zero sb \<longleftrightarrow> (\<forall>n<16384. n \<notin> used (ifree sb) \<longrightarrow> disk_inode (dev sb) (int n) = zero_dinode)"

definition fs_ok :: "super_block \<Rightarrow> bool" where
  "fs_ok sb \<longleftrightarrow> sb_ok sb \<and> tab_ok sb \<and> quiet sb \<and> inodes_used sb \<and> free_zero sb"

abbreviation fresh_inode :: "inode_type \<Rightarrow> nat \<Rightarrow> inode" where
  "fresh_inode ty n \<equiv> \<lparr>din = zero_dinode\<lparr>i_type := type_nr ty\<rparr>, i_flags = True, i_nr = int n, i_count = 1\<rparr>"

lemma create_inode_spec:
  assumes "fs_ok sb" and "n \<notin> used (ifree sb)" and "\<forall>j<n. j \<in> used (ifree sb)" and "n < 16384"
  shows "\<exists>sb'. testfs_create_inode ty sb = Inr (0, Some (ibrk sb), sb') \<and> inodes sb (ibrk sb) = None \<and>
    inodes sb' = (inodes sb)(ibrk sb \<mapsto> fresh_inode ty n) \<and> sb_ok sb' \<and> tab_ok sb' \<and> room sb' = room sb \<and>
    block_freemap sb' = block_freemap sb \<and> length (dev sb') = length (dev sb) \<and> (\<forall>i\<ge>18. dev sb' ! i = dev sb ! i) \<and>
    used (ifree sb') = insert n (used (ifree sb))"
proof -
  have o: "sb_ok sb" "tab_ok sb" "inodes_used sb" "free_zero sb" using assms(1) by (auto simp: fs_ok_def)
  have "card (used (ifree sb)) \<noteq> 65536"
  proof
    assume c: "card (used (ifree sb)) = 65536"
    have "used (ifree sb) \<subseteq> {..<65536}" using bm.inuse_bound[of "ifree sb"] o(1) by (auto simp: sb_ok_def maps_ok_def)
    then have "used (ifree sb) = {..<65536}" using c by (intro card_subset_eq) auto
    then have "n \<in> used (ifree sb)" using assms(4) by simp
    then show False using assms(2) by simp
  qed
  then obtain m sb1 where s: "testfs_get_inode_freemap sb = Inr (int m, sb1)" "m \<notin> used (ifree sb)" "\<forall>j<m. j \<in> used (ifree sb)"
    "sb_ok sb1" "used (ifree sb1) = insert m (used (ifree sb))" "block_freemap sb1 = block_freemap sb"
    "dsb sb1 = (dsb sb)\<lparr>used_inode_count := used_inode_count (dsb sb) + 1\<rparr>" "meta_only sb sb1"
    using get_inode_freemap_spec[OF o(1)] by auto
  have m: "m = n" using s(2,3) assms(2,3) by (meson linorder_neqE_nat)
  have f: "inode_hash_table sb1 = inode_hash_table sb" "inodes sb1 = inodes sb" "ibrk sb1 = ibrk sb"
    "length (dev sb1) = length (dev sb)" "\<And>i. 18 \<le> i \<Longrightarrow> dev sb1 ! i = dev sb ! i" using s(8) by (auto simp: meta_only_def)
  have t1: "tab_ok sb1" by (rule tab_ok_frame[OF o(2) f(1,3,2)]) (use f(5) in simp)
  have no: "\<forall>a ino. inodes sb1 a = Some ino \<longrightarrow> i_nr ino \<noteq> int n"
    using o(3) assms(2) f(2) unfolding inodes_used_def by (metis nat_int)
  have z: "disk_inode (dev sb1) (int n) = zero_dinode"
    using o(4) assms(2,4) disk_inode_frame[of "dev sb1" "dev sb" "int n"] f(5) by (auto simp: free_zero_def)
  let ?new = "\<lparr>din = zero_dinode, i_flags = False, i_nr = int n, i_count = 1\<rparr>"
  have "(0::int) \<le> int n" "int n < 16384" using assms(4) by auto
  from get_inode_miss[OF s(4) t1 this no] obtain t where
    g: "testfs_get_inode (int n) sb1 = Inr (ibrk sb, sb1\<lparr>inodes := (inodes sb)(ibrk sb \<mapsto> ?new), ibrk := Suc (ibrk sb), inode_hash_table := Some t\<rparr>)"
    "tab_ok (sb1\<lparr>inodes := (inodes sb)(ibrk sb \<mapsto> ?new), ibrk := Suc (ibrk sb), inode_hash_table := Some t\<rparr>)" (is "tab_ok ?sb2")
    using f(2,3) z by auto
  let ?sb3 = "?sb2\<lparr>inodes := (inodes sb)(ibrk sb \<mapsto> fresh_inode ty n)\<rparr>"
  have "int n div 128 < 128" using assms(4) by simp
  then have "testfs_create_inode ty sb = Inr (0, Some (ibrk sb), ?sb3)"
    using s(1) g(1) m assms(4)
    by (simp add: testfs_create_inode_def upd_inode_def INODES_PER_BLOCK_def BLOCK_SIZE_def sizeof_dinode_def NR_INODE_BLOCKS_def)
  moreover have "tab_ok ?sb3"
    using tab_ok_upd[OF g(2), of "ibrk sb" ?new "fresh_inode ty n"] assms(4) by (simp add: inode_ok_def)
  moreover have "inodes sb (ibrk sb) = None" using o(2) unfolding tab_ok_def by (meson less_irrefl not_None_eq)
  moreover have "sb_ok ?sb3" using s(4) by (simp add: sb_ok_def maps_ok_def synced_def)
  ultimately show ?thesis using f(4,5) s(5-7) m by (intro exI[of _ ?sb3]) simp
qed

lemma dinode_range_disk: "dinode_range (disk_inode dv nr)"
  by (simp add: disk_inode_def dec_dinode_range)

text \<open>Storing the directory and the new inode and releasing it, after the entry was added.\<close>

lemma sync_same_data:
  assumes "sb_ok sb" and "tab_ok sb" and "inodes sb a = Some ino" and "dinode_range (din ino)"
  obtains sb' where "testfs_sync_inode a sb = Inr sb'" and "inodes sb' = (inodes sb)(a \<mapsto> ino\<lparr>i_flags := False\<rparr>)"
    and "sb_ok sb'" and "tab_ok sb'" and "same_data sb sb'" and "inode_freemap sb' = inode_freemap sb" and "dsb sb' = dsb sb"
    and "\<And>nr. 0 \<le> nr \<Longrightarrow> nr < 16384 \<Longrightarrow> disk_inode (dev sb') nr = (if nr = i_nr ino then din ino else disk_inode (dev sb) nr)"
proof -
  have k: "inode_block (i_nr ino) < 146" using assms(1-3) by (intro read_inode(2)) (auto simp: tab_ok_def inode_ok_def)
  from sync_inode_spec[OF assms] obtain dv where
    s: "testfs_sync_inode a sb = Inr (sb\<lparr>dev := dv, inodes := (inodes sb)(a \<mapsto> ino\<lparr>i_flags := False\<rparr>)\<rparr>)"
    "sb_ok (sb\<lparr>dev := dv\<rparr>)" "tab_ok (sb\<lparr>dev := dv, inodes := (inodes sb)(a \<mapsto> ino\<lparr>i_flags := False\<rparr>)\<rparr>)"
    "disk_inode dv (i_nr ino) = din ino" "\<And>nr. 0 \<le> nr \<Longrightarrow> nr < 16384 \<Longrightarrow> nr \<noteq> i_nr ino \<Longrightarrow> disk_inode dv nr = disk_inode (dev sb) nr"
    "length dv = length (dev sb)" "\<And>i. i \<noteq> inode_block (i_nr ino) \<Longrightarrow> dv ! i = dev sb ! i" by blast
  show thesis using that[OF s(1)] s(2-7) k by auto
qed

lemma store_new:
  assumes "sb_ok sb" and "tab_ok sb" and "inodes sb a = Some ino" and "inodes sb c = Some (fresh_inode ty n)" and "a \<noteq> c"
    and "dinode_range (din ino)" and "n < 16384"
  shows "\<exists>sb5 sb6 sb7. testfs_sync_inode a sb = Inr sb5 \<and> testfs_sync_inode c sb5 = Inr sb6 \<and> testfs_put_inode c sb6 = Inr sb7 \<and>
    sb_ok sb7 \<and> tab_ok sb7 \<and> inodes sb7 = (inodes sb)(a \<mapsto> ino\<lparr>i_flags := False\<rparr>, c := None) \<and> same_data sb sb7 \<and>
    inode_freemap sb7 = inode_freemap sb \<and> dsb sb7 = dsb sb \<and> disk_inode (dev sb7) (int n) = zero_dinode\<lparr>i_type := type_nr ty\<rparr> \<and>
    (\<forall>nr. 0 \<le> nr \<longrightarrow> nr < 16384 \<longrightarrow> nr \<noteq> int n \<longrightarrow> disk_inode (dev sb7) nr = (if nr = i_nr ino then din ino else disk_inode (dev sb) nr))"
proof -
  obtain sb5 where 1: "testfs_sync_inode a sb = Inr sb5" "inodes sb5 = (inodes sb)(a \<mapsto> ino\<lparr>i_flags := False\<rparr>)" "sb_ok sb5" "tab_ok sb5"
    "same_data sb sb5" "inode_freemap sb5 = inode_freemap sb" "dsb sb5 = dsb sb"
    "\<And>nr. 0 \<le> nr \<Longrightarrow> nr < 16384 \<Longrightarrow> disk_inode (dev sb5) nr = (if nr = i_nr ino then din ino else disk_inode (dev sb) nr)"
    by (rule sync_same_data[OF assms(1-3,6)]) blast
  have c: "inodes sb5 c = Some (fresh_inode ty n)" using assms(4,5) 1(2) by simp
  have r: "dinode_range (din (fresh_inode ty n))" by (cases ty) (simp_all add: dinode_range_def zero_dinode_def type_nr_def s32_def s64_def)
  obtain sb6 where 2: "testfs_sync_inode c sb5 = Inr sb6" "inodes sb6 = (inodes sb5)(c \<mapsto> (fresh_inode ty n)\<lparr>i_flags := False\<rparr>)"
    "sb_ok sb6" "tab_ok sb6" "same_data sb5 sb6" "inode_freemap sb6 = inode_freemap sb5" "dsb sb6 = dsb sb5"
    "\<And>nr. 0 \<le> nr \<Longrightarrow> nr < 16384 \<Longrightarrow> disk_inode (dev sb6) nr =
       (if nr = i_nr (fresh_inode ty n) then din (fresh_inode ty n) else disk_inode (dev sb5) nr)"
    by (rule sync_same_data[OF 1(3,4) c r]) blast
  have c6: "inodes sb6 c = Some ((fresh_inode ty n)\<lparr>i_flags := False\<rparr>)" using 2(2) by simp
  obtain sb7 where 3: "testfs_put_inode c sb6 = Inr sb7" "tab_ok sb7" "inodes sb7 = (inodes sb6)(c := None)" "same_disk sb6 sb7"
    using put_inode_spec[OF 2(4) c6] by auto
  have "inodes sb7 = (inodes sb)(a \<mapsto> ino\<lparr>i_flags := False\<rparr>, c := None)" using 1(2) 2(2) 3(3) by simp
  moreover have "sb_ok sb7" using 2(3) same_disk_ok(1)[OF 3(4)] by simp
  moreover have "disk_inode (dev sb7) nr = (if nr = i_nr ino then din ino else disk_inode (dev sb) nr)" if "0 \<le> nr" "nr < 16384" "nr \<noteq> int n" for nr
    using 1(8)[of nr] 2(8)[of nr] that 3(4) by simp
  moreover have "disk_inode (dev sb7) (int n) = zero_dinode\<lparr>i_type := type_nr ty\<rparr>" using 2(8)[of "int n"] 3(4) assms(7) by simp
  ultimately show ?thesis using 1(1,5-7) 2(1,5-7) 3 by auto
qed

lemma create_file_spec:
  assumes "fs_ok sb" and "inodes sb a = Some ino" and "file_ok sb (din ino)" and "dir_rep (din ino) (dev sb) es"
    and "dir_map es name = None" and "0 \<notin> set name" and "length name + 9 \<le> BLOCK_SIZE" and "1 < room sb"
    and "length (dir_bytes es) + length name + 9 \<le> 2058 * BLOCK_SIZE"
    and "(\<exists>e\<in>set es. free_slot (length name) e) \<or> length (dir_bytes es) mod BLOCK_SIZE + length name + 9 \<le> BLOCK_SIZE"
    and "n \<notin> used (ifree sb)" and "\<forall>j<n. j \<in> used (ifree sb)" and "n < 16384"
  shows "\<exists>sb' ino' es'. testfs_create_file_or_dir (Some a) I_FILE name sb = Inr (0, sb') \<and> fs_ok sb' \<and>
    inodes sb' = (inodes sb)(a \<mapsto> ino') \<and> i_nr ino' = i_nr ino \<and> file_ok sb' (din ino') \<and> dir_rep (din ino') (dev sb') es' \<and>
    dir_map es' = (dir_map es)(name \<mapsto> int n) \<and> used (ifree sb') = insert n (used (ifree sb)) \<and>
    disk_inode (dev sb') (int n) = zero_dinode\<lparr>i_type := type_nr I_FILE\<rparr> \<and>
    (\<forall>nr. 0 \<le> nr \<longrightarrow> nr < 16384 \<longrightarrow> nr \<noteq> int n \<longrightarrow> nr \<noteq> i_nr ino \<longrightarrow> disk_inode (dev sb') nr = disk_inode (dev sb) nr) \<and>
    room sb - 2 \<le> room sb'"
proof -
  have o: "sb_ok sb" "tab_ok sb" "quiet sb" "inodes_used sb" "free_zero sb" using assms(1) by (auto simp: fs_ok_def)
  let ?c = "ibrk sb"
  obtain sb3 where 3: "testfs_create_inode I_FILE sb = Inr (0, Some ?c, sb3)" "inodes sb ?c = None"
    "inodes sb3 = (inodes sb)(?c \<mapsto> fresh_inode I_FILE n)" "sb_ok sb3" "tab_ok sb3" "room sb3 = room sb"
    "block_freemap sb3 = block_freemap sb" "length (dev sb3) = length (dev sb)" "\<forall>i\<ge>18. dev sb3 ! i = dev sb ! i"
    "used (ifree sb3) = insert n (used (ifree sb))" using create_inode_spec[OF assms(1,11-13)] by blast
  have ac: "a \<noteq> ?c" using assms(2) 3(2) by auto
  have a3: "inodes sb3 a = Some ino" using assms(2) ac 3(3) by simp
  have "same_data sb sb3" using 3(7-9) by auto
  note f3 = same_data_file[OF o(1) this assms(3)]
  have d3: "disk_inode (dev sb3) nr = disk_inode (dev sb) nr" if "nr < 16384" for nr
    using disk_inode_frame[of "dev sb3" "dev sb" nr] 3(9) that by simp
  have e: "ent_ok (int n, name)" "(0::int) \<le> int n" "1 < room sb3" using assms(6-8,13) 3(6) by (auto simp: ent_ok_def)
  from add_dirent_spec[OF 3(4) f3(1) a3 _ assms(5) e assms(9), unfolded if_P[OF assms(10)]] assms(4) f3(2) obtain sb4 ino4 es' off sz where
    4: "testfs_add_dirent a name (int n) sb3 = Inr (int (length name) + 9, sb4)"
    "written sb3 a ino (ent_bytes (int n, name)) off sz sb4 ino4" "dir_rep (din ino4) (dev sb4) es'" "dir_map es' = (dir_map es)(name \<mapsto> int n)" by auto
  have w: "sb_ok sb4" "file_ok sb4 (din ino4)" "inodes sb4 = (inodes sb3)(a \<mapsto> ino4)" "i_nr ino4 = i_nr ino" "inode_freemap sb4 = inode_freemap sb3"
    "i_type (din ino4) = i_type (din ino)" "i_dindirect (din ino4) = i_dindirect (din ino)"
    "s32 (block_count (din ino)) \<Longrightarrow> s32 (block_count (din ino4))" "room sb3 - 2 \<le> room sb4" using 4(2) by (auto simp: written_def)
  note t4 = tab_ok_written[OF 3(4,5) a3 f3(1) 4(2)]
  have "dinode_range (din ino)" using quiet_din[OF o(2,3) assms(2)] dinode_range_disk by simp
  moreover have "s64 (i_size (din ino4))" using 4(3) by (simp add: dir_rep_def s64_def BLOCK_SIZE_def)
  ultimately have r4: "dinode_range (din ino4)" using file_ok_range[OF w(1,2)] w(6-8) by (simp add: dinode_range_def)
  have i4: "inodes sb4 a = Some ino4" "inodes sb4 ?c = Some (fresh_inode I_FILE n)" using w(3) 3(3) ac by auto
  from store_new[OF w(1) t4(1) i4 ac r4 assms(13)] obtain sb5 sb6 sb7 where
    7: "testfs_sync_inode a sb4 = Inr sb5" "testfs_sync_inode ?c sb5 = Inr sb6" "testfs_put_inode ?c sb6 = Inr sb7"
    "sb_ok sb7" "tab_ok sb7" "inodes sb7 = (inodes sb4)(a \<mapsto> ino4\<lparr>i_flags := False\<rparr>, ?c := None)" "same_data sb4 sb7"
    "inode_freemap sb7 = inode_freemap sb4" "disk_inode (dev sb7) (int n) = zero_dinode\<lparr>i_type := type_nr I_FILE\<rparr>"
    "\<forall>nr. 0 \<le> nr \<longrightarrow> nr < 16384 \<longrightarrow> nr \<noteq> int n \<longrightarrow> disk_inode (dev sb7) nr = (if nr = i_nr ino4 then din ino4 else disk_inode (dev sb4) nr)"
    "dsb sb7 = dsb sb4" by blast
  have run: "testfs_create_file_or_dir (Some a) I_FILE name sb = Inr (0, sb7)"
    using name_to_inode_nr_spec[OF o(1) assms(3,2,4,6)] assms(5) 3(1,3) 4(1) 7(1-3)
    by (simp add: testfs_create_file_or_dir_def ENOENT_def)
  have i7: "inodes sb7 = (inodes sb)(a \<mapsto> ino4\<lparr>i_flags := False\<rparr>)" using 7(6) w(3) 3(2,3) ac by auto
  have u7: "used (ifree sb7) = insert n (used (ifree sb))" using 7(8) w(5) 3(10) by simp
  have d7: "disk_inode (dev sb7) nr = disk_inode (dev sb) nr" if "0 \<le> nr" "nr < 16384" "nr \<noteq> int n" "nr \<noteq> i_nr ino" for nr
    using 7(10) t4(2)[of nr] d3[of nr] w(4) that by auto
  have nr: "nat (i_nr ino) \<in> used (ifree sb)" using o(4) assms(2) by (simp add: inodes_used_def)
  have "quiet sb7" using o(3) i7 by (auto simp: quiet_def split: if_splits)
  moreover have "inodes_used sb7" using o(4) i7 u7 w(4) nr by (auto simp: inodes_used_def split: if_splits)
  moreover have "free_zero sb7"
  proof -
    have "disk_inode (dev sb7) (int k) = zero_dinode" if "k < 16384" "k \<notin> used (ifree sb7)" for k
    proof -
      have "k \<noteq> n" "k \<notin> used (ifree sb)" using that(2) u7 by blast+
      moreover have "int k \<noteq> i_nr ino" using nr calculation(2) by (metis nat_int)
      ultimately show ?thesis using d7[of "int k"] that(1) o(5) by (simp add: free_zero_def)
    qed
    then show ?thesis by (simp add: free_zero_def)
  qed
  ultimately have ok: "fs_ok sb7" using 7(4,5) by (simp add: fs_ok_def)
  note f7 = same_data_file[OF w(1) 7(7) w(2)]
  show ?thesis
    using run ok i7 w(4,9) f7 4(3,4) u7 7(9,11) d7 3(6) by (intro exI[of _ sb7] exI[of _ "ino4\<lparr>i_flags := False\<rparr>"] exI[of _ es']) auto
qed

section \<open>The root directory\<close>

text \<open>\<open>main\<close> of fs/mktestfs.c after the options: the size in megabytes gives the number of blocks, the
  device is formatted, opened, and gets its root directory. What remains is the device.\<close>

definition mktestfs :: "int \<Rightarrow> byte list list res" where
  "mktestfs fs_size_mb =
     (if fs_size_mb < 1 \<or> fs_size_mb > 8192 then Inl Exit_1
      else bindR (format_device (fs_size_mb * 2 ^ 20 div int BLOCK_SIZE)) (\<lambda>(ret, sb).
             case sb of
               None \<Rightarrow> Inl Exit_1
             | Some sb \<Rightarrow> bindR (testfs_make_root_dir sb) (\<lambda>(_, sb). testfs_close_super_block sb)))"

lemma disk_inode_zero: "dv ! inode_block nr = zero_block \<Longrightarrow> disk_inode dv nr = zero_dinode"
proof -
  assume z: "dv ! inode_block nr = zero_block"
  have l: "inode_off nr + 64 \<le> BLOCK_SIZE"
  proof -
    have "nat nr mod 128 < 128" by simp
    then show ?thesis by (simp add: BLOCK_SIZE_def)
  qed
  have "take 64 (drop (inode_off nr) zero_block) = replicate 64 0" using l by (simp add: zero_block_def)
  moreover have "dec_dinode (replicate 64 0) = zero_dinode"
    by (simp add: dec_dinode_def zero_dinode_def dec_s32_def dec_s64_def le_dec_zero wrap32_id wrap64_id s64_def map_replicate_trivial[symmetric] upt_conv_Cons)
  ultimately show ?thesis by (simp add: disk_inode_def z)
qed

lemma format_fs_ok:
  assumes "0 \<le> m" and "m \<le> 2 ^ 20"
  obtains sb where "format_device m = Inr (0, Some sb)" and "fs_ok sb" and "room sb = m" and "used (ifree sb) = {}" and "inodes sb = Map.empty"
proof -
  obtain sb where s: "format_device m = Inr (0, Some sb)" "sb_ok sb" "used (ifree sb) = {}" "dsb sb = new_super m"
    "dev sb = super_bytes (new_super m) # replicate 145 zero_block" "inode_hash_table sb = Some (replicate 256 [])" "inodes sb = Map.empty"
    using format_spec[OF assms] by blast
  have "tab_ok sb" using s(6,7) by (simp add: tab_ok_def hashed_def unique_def)
  moreover have "dev sb ! inode_block (int n) = zero_block" if "n < 16384" for n
    using s(5) that by (simp add: div_less_iff_less_mult)
  then have "free_zero sb" by (simp add: free_zero_def disk_inode_zero)
  ultimately have "fs_ok sb" using s(2,7) by (simp add: fs_ok_def quiet_def inodes_used_def)
  then show thesis using that s by (simp add: new_super_def)
qed

lemma empty_file: "sb_ok sb \<Longrightarrow> file_ok sb (zero_dinode\<lparr>i_type := ty\<rparr>)" "dir_rep (zero_dinode\<lparr>i_type := type_nr I_DIR\<rparr>) dv []"
  by (auto simp: file_ok_def zero_dinode_def phys_def nth_Cons' dir_rep_def)

lemma names_ok: "ent_ok (0, dot)" "ent_ok (0, dotdot)" "dot \<noteq> dotdot" "length dot = 1" "length dotdot = 2"
  by (auto simp: ent_ok_def dot_def dotdot_def BLOCK_SIZE_def)

lemma make_root_spec:
  assumes "fs_ok sb" and "used (ifree sb) = {}" and "inodes sb = Map.empty" and "3 < room sb"
  shows "\<exists>sb' es. testfs_make_root_dir sb = Inr (0, sb') \<and> fs_ok sb' \<and> inodes sb' = Map.empty \<and> room sb - 4 \<le> room sb' \<and>
    used (ifree sb') = {0} \<and> file_ok sb' (disk_inode (dev sb') 0) \<and> dir_rep (disk_inode (dev sb') 0) (dev sb') es \<and>
    dir_map es = [dot \<mapsto> 0, dotdot \<mapsto> 0] \<and> length (dir_bytes es) \<le> 21"
proof -
  have o: "sb_ok sb" "free_zero sb" using assms(1) by (auto simp: fs_ok_def)
  let ?c = "ibrk sb"
  obtain sb3 where 3: "testfs_create_inode I_DIR sb = Inr (0, Some ?c, sb3)" "inodes sb3 = (inodes sb)(?c \<mapsto> fresh_inode I_DIR 0)"
    "sb_ok sb3" "tab_ok sb3" "room sb3 = room sb" "\<forall>i\<ge>18. dev sb3 ! i = dev sb ! i" "used (ifree sb3) = {0}"
    using create_inode_spec[OF assms(1), of 0 I_DIR] assms(2) by auto
  have c3: "inodes sb3 ?c = Some (fresh_inode I_DIR 0)" using 3(2) by simp
  have f3: "file_ok sb3 (din (fresh_inode I_DIR 0))" "dir_rep (din (fresh_inode I_DIR 0)) (dev sb3) []" using empty_file 3(3) by simp_all
  obtain sb4 i4 es4 off4 sz4 where 4: "testfs_add_dirent ?c dot 0 sb3 = Inr (10, sb4)"
    "written sb3 ?c (fresh_inode I_DIR 0) (ent_bytes (0, dot)) off4 sz4 sb4 i4" "dir_rep (din i4) (dev sb4) es4" "dir_map es4 = [dot \<mapsto> 0]" "length (dir_bytes es4) \<le> 10"
    using add_dirent_spec[OF 3(3) f3(1) c3 f3(2) _ names_ok(1)] assms(4) 3(5) by (auto simp: names_ok BLOCK_SIZE_def)
  have w4: "sb_ok sb4" "file_ok sb4 (din i4)" "inodes sb4 ?c = Some i4" "inodes sb4 = [?c \<mapsto> i4]" "room sb - 2 \<le> room sb4"
    "i_nr i4 = 0" "i_count i4 = 1" "i_type (din i4) = type_nr I_DIR" "s32 (block_count (din i4))" "i_dindirect (din i4) = 0" "inode_freemap sb4 = inode_freemap sb3"
    using 4(2) 3(2,5) assms(3) by (auto simp: written_def zero_dinode_def s32_def)
  have t4: "tab_ok sb4" "\<And>nr. nr < 16384 \<Longrightarrow> disk_inode (dev sb4) nr = disk_inode (dev sb3) nr"
    using tab_ok_written[OF 3(3,4) c3 f3(1) 4(2)] by auto
  have l4: "length (dir_bytes es4) mod BLOCK_SIZE + length dotdot + 9 \<le> BLOCK_SIZE" using 4(5) by (simp add: names_ok BLOCK_SIZE_def)
  obtain sb5 i5 es5 off5 sz5 where 5: "testfs_add_dirent ?c dotdot 0 sb4 = Inr (11, sb5)"
    "written sb4 ?c i4 (ent_bytes (0, dotdot)) off5 sz5 sb5 i5" "dir_rep (din i5) (dev sb5) es5" "dir_map es5 = [dot \<mapsto> 0, dotdot \<mapsto> 0]" "length (dir_bytes es5) \<le> 21"
  proof -
    have n4: "dir_map es4 dotdot = None" "1 < room sb4" "length (dir_bytes es4) + length dotdot + 9 \<le> 2058 * BLOCK_SIZE"
      using 4(4,5) w4(5) assms(4) names_ok(3) by (auto simp: names_ok(5) BLOCK_SIZE_def)
    show thesis using add_dirent_spec[OF w4(1-3) 4(3) n4(1) names_ok(2) order_refl n4(2,3), unfolded if_P[OF disjI2[OF l4]]] that 4(4,5)
      by (fastforce simp: names_ok)
  qed
  have w5: "sb_ok sb5" "file_ok sb5 (din i5)" "inodes sb5 ?c = Some i5" "inodes sb5 = [?c \<mapsto> i5]" "room sb - 4 \<le> room sb5" "i_nr i5 = 0"
    "i_count i5 = 1" "i_type (din i5) = type_nr I_DIR" "s32 (block_count (din i5))" "i_dindirect (din i5) = 0" "inode_freemap sb5 = inode_freemap sb3"
    using 5(2) w4 by (auto simp: written_def)
  have t5: "tab_ok sb5" "\<And>nr. nr < 16384 \<Longrightarrow> disk_inode (dev sb5) nr = disk_inode (dev sb4) nr"
    using tab_ok_written[OF w4(1) t4(1) w4(3,2) 5(2)] by auto
  have "s64 (i_size (din i5))" "s32 (type_nr I_DIR)" "s32 0" using 5(3) by (simp_all add: dir_rep_def s64_def s32_def type_nr_def BLOCK_SIZE_def)
  then have r5: "dinode_range (din i5)" using file_ok_range[OF w5(1,2)] w5(8-10) by simp
  obtain sb6 where 6: "testfs_sync_inode ?c sb5 = Inr sb6" "inodes sb6 = (inodes sb5)(?c \<mapsto> i5\<lparr>i_flags := False\<rparr>)" "sb_ok sb6" "tab_ok sb6"
    "same_data sb5 sb6" "inode_freemap sb6 = inode_freemap sb5" "dsb sb6 = dsb sb5"
    "\<And>nr. 0 \<le> nr \<Longrightarrow> nr < 16384 \<Longrightarrow> disk_inode (dev sb6) nr = (if nr = i_nr i5 then din i5 else disk_inode (dev sb5) nr)"
    by (rule sync_same_data[OF w5(1) t5(1) w5(3) r5]) blast
  have c6: "inodes sb6 ?c = Some (i5\<lparr>i_flags := False\<rparr>)" using 6(2) by simp
  obtain sb7 where 7: "testfs_put_inode ?c sb6 = Inr sb7" "tab_ok sb7" "inodes sb7 = (inodes sb6)(?c := None)" "same_disk sb6 sb7"
    using put_inode_spec[OF 6(4) c6] w5(7) by auto
  have run: "testfs_make_root_dir sb = Inr (0, sb7)"
    using 3(1,2) 4(1) 5(1) 6(1) 7(1) f3(2)
    by (simp add: testfs_make_root_dir_def testfs_create_file_or_dir_def testfs_create_empty_dir_def)
  have i7: "inodes sb7 = Map.empty" using 7(3) 6(2) w5(4) by auto
  have d7: "disk_inode (dev sb7) 0 = din i5" using 6(8)[of 0] 7(4) w5(6) by simp
  have f7: "file_ok sb7 (din i5)" "dir_rep (din i5) (dev sb7) es5"
    using same_data_file(1)[OF w5(1) 6(5) w5(2)] same_data_file(2)[OF w5(1) 6(5) w5(2), of es5] 5(3) same_disk_ok(3)[OF 7(4)] 7(4) by auto
  have u7: "used (ifree sb7) = {0}" using 7(4) 6(6) w5(11) 3(7) by simp
  have "disk_inode (dev sb7) (int k) = zero_dinode" if "k < 16384" "k \<noteq> 0" for k
    using 6(8)[of "int k"] t5(2) t4(2) disk_inode_frame[of "dev sb3" "dev sb" "int k"] 3(6) o(2) assms(2) 7(4) w5(6) that by (simp add: free_zero_def)
  then have "free_zero sb7" using u7 by (simp add: free_zero_def)
  moreover have "sb_ok sb7" using same_disk_ok(1)[OF 7(4)] 6(3) by simp
  ultimately have "fs_ok sb7" using 7(2) i7 by (simp add: fs_ok_def quiet_def inodes_used_def)
  moreover have "room sb7 = room sb5" using 7(4) 6(7) by simp
  ultimately show ?thesis using run i7 u7 d7 f7 5(4,5) w5(5) by (intro exI[of _ sb7] exI[of _ es5]) simp
qed

section \<open>Closing and opening\<close>

lemma put_blocks_same:
  "\<forall>j<k. dv ! (n + j) = chunk buf j \<Longrightarrow> n + k \<le> length dv \<Longrightarrow> put_blocks dv n k buf = dv"
proof (induction k arbitrary: n buf)
  case (Suc k)
  have "dv ! n = take BLOCK_SIZE buf" using Suc.prems(1)[rule_format, of 0] by (simp add: chunk_def)
  then have "put_block dv n (take BLOCK_SIZE buf) = dv" using Suc.prems(2) by (simp add: put_block_def list_update_same_conv)
  moreover have "chunk (drop BLOCK_SIZE buf) j = chunk buf (Suc j)" for j by (simp add: chunk_def add.commute)
  then have "\<forall>j<k. dv ! (Suc n + j) = chunk (drop BLOCK_SIZE buf) j" using Suc.prems(1) by auto
  ultimately show ?case using Suc.IH[of "Suc n"] Suc.prems(2) by simp
qed simp

lemma close_spec:
  assumes "sb_ok sb" and "tab_ok sb" and "inodes sb = Map.empty"
  shows "testfs_close_super_block sb = Inr (dev sb)"
proof -
  have o: "layout (dsb sb)" "146 \<le> length (dev sb)" "maps_ok sb" "synced sb" using assms(1) by (auto simp: sb_ok_def)
  obtain t where t: "inode_hash_table sb = Some t" "hashed t (inodes sb)" using assms(2) by (auto simp: tab_ok_def)
  have "c = []" if mem: "c \<in> set t" for c
  proof -
    have "length t = 256" using t(2) by (simp add: hashed_def)
    moreover obtain h where "h < length t" "c = t ! h" using mem unfolding in_set_conv_nth by auto
    ultimately have "h < 256" "c = t ! h" by simp_all
    then have "set c = {}" using t(2) assms(3) by (auto simp: hashed_def)
    then show ?thesis by simp
  qed
  then have d: "inode_hash_destroy sb = Inr (sb\<lparr>inode_hash_table := None\<rparr>)" using t(1) by (simp add: inode_hash_destroy_def)
  have w: "testfs_write_super_block sb = Inr sb"
  proof -
    have "0 < length (dev sb)" "dev sb ! 0 = super_bytes (dsb sb)" using o(2,4) by (auto simp: synced_def)
    then have "(dev sb)[0 := super_bytes (dsb sb)] = dev sb" by (simp add: list_update_same_conv)
    then show ?thesis using write_super[OF \<open>0 < length (dev sb)\<close>] by simp
  qed
  obtain ib bb where m: "inode_freemap sb = Some ib" "block_freemap sb = Some bb" using o(3) by (auto simp: maps_ok_def)
  have l: "length (bv ib) = BLOCK_SIZE" "length (bv bb) = 16 * BLOCK_SIZE" using maps_ok_lengths[OF o(3)] m by simp_all
  have i: "write_blocks (bv ib) 1 (Suc 0) (dev sb) = Inr (dev sb)"
    using o(2,4) m l by (simp add: write_one put_block_def synced_def list_update_same_conv)
  have b: "write_blocks (bv bb) 2 16 (dev sb) = Inr (dev sb)"
    using o(2,4) m l put_blocks_same[of 16 "dev sb" 2 "bv bb"] by (simp add: write_blocks_def synced_def)
  show ?thesis using w d i b m o(1)
    by (simp add: testfs_close_super_block_def upd_dev_def layout_def INODE_FREEMAP_SIZE_def BLOCK_FREEMAP_SIZE_def)
qed

text \<open>A device holds a file system: opening it succeeds and gives a consistent state.\<close>

lemma open_spec:
  assumes "fs_ok sb" and "inodes sb = Map.empty"
  shows "\<exists>sb'. testfs_init_super_block (Inr (dev sb)) = Inr (0, Some sb') \<and> fs_ok sb' \<and> same_disk sb sb' \<and> inodes sb' = Map.empty"
proof -
  have o: "sb_ok sb" "free_zero sb" using assms(1) by (auto simp: fs_ok_def)
  obtain sb' where s: "testfs_init_super_block (Inr (dev sb)) = Inr (0, Some sb')" "same_disk sb sb'" "inodes sb' = Map.empty"
    "inode_hash_table sb' = Some (replicate 256 [])"
    using reopen[OF o(1)] by (auto simp: inode_hash_init_def inode_hash_size_def)
  have "fs_ok sb'" using o s same_disk_ok(1)[OF s(2)]
    by (simp add: fs_ok_def tab_ok_def hashed_def unique_def quiet_def inodes_used_def free_zero_def)
  then show ?thesis using s by blast
qed

lemma mktestfs_spec:
  assumes "1 \<le> mb" and "mb \<le> 8192"
  obtains dv sb es where "mktestfs mb = Inr dv" and "testfs_init_super_block (Inr dv) = Inr (0, Some sb)" and "fs_ok sb" and "inodes sb = Map.empty"
    and "dev sb = dv" and "used (ifree sb) = {0}" and "file_ok sb (disk_inode dv 0)" and "dir_rep (disk_inode dv 0) dv es"
    and "dir_map es = [dot \<mapsto> 0, dotdot \<mapsto> 0]" and "length (dir_bytes es) \<le> 21" and "mb * 128 - 4 \<le> room sb"
proof -
  have m: "mb * 2 ^ 20 div int BLOCK_SIZE = mb * 128" by (simp add: BLOCK_SIZE_def)
  have "0 \<le> mb * 128" "mb * 128 \<le> 2 ^ 20" using assms by auto
  then obtain sb where f: "format_device (mb * 128) = Inr (0, Some sb)" "fs_ok sb" "room sb = mb * 128" "used (ifree sb) = {}" "inodes sb = Map.empty"
    by (rule format_fs_ok)
  have "3 < room sb" using f(3) assms by simp
  from make_root_spec[OF f(2,4,5) this] obtain sb' es where
    r: "testfs_make_root_dir sb = Inr (0, sb')" "fs_ok sb'" "inodes sb' = Map.empty" "room sb - 4 \<le> room sb'" "used (ifree sb') = {0}"
    "file_ok sb' (disk_inode (dev sb') 0)" "dir_rep (disk_inode (dev sb') 0) (dev sb') es" "dir_map es = [dot \<mapsto> 0, dotdot \<mapsto> 0]" "length (dir_bytes es) \<le> 21"
    by blast
  have c: "testfs_close_super_block sb' = Inr (dev sb')" using close_spec[OF _ _ r(3)] r(2) by (simp add: fs_ok_def)
  obtain sb2 where o: "testfs_init_super_block (Inr (dev sb')) = Inr (0, Some sb2)" "fs_ok sb2" "same_disk sb' sb2" "inodes sb2 = Map.empty"
    using open_spec[OF r(2,3)] by blast
  have "mktestfs mb = Inr (dev sb')" unfolding mktestfs_def m using assms f(1) r(1) c by simp
  then show thesis using that[OF _ o(1,2,4)] o(3) r f(3) same_disk_ok(3)[OF o(3)] by auto
qed

text \<open>A new file system, opened, with the root directory as current directory.\<close>

lemma mounted:
  obtains sb a ino es where "fs_ok sb" and "inodes sb = [a \<mapsto> ino]" and "file_ok sb (din ino)" and "dir_rep (din ino) (dev sb) es"
    and "i_nr ino = 0" and "dir_map es = [dot \<mapsto> 0, dotdot \<mapsto> 0]" and "length (dir_bytes es) \<le> 21" and "used (ifree sb) = {0}" and "4 < room sb"
proof -
  have "(1::int) \<le> 1" "(1::int) \<le> 8192" by simp_all
  then obtain dv sb es where s: "fs_ok sb" "inodes sb = Map.empty" "dev sb = dv" "used (ifree sb) = {0}" "file_ok sb (disk_inode dv 0)"
    "dir_rep (disk_inode dv 0) dv es" "dir_map es = [dot \<mapsto> 0, dotdot \<mapsto> 0]" "length (dir_bytes es) \<le> 21" "1 * 128 - 4 \<le> room sb"
    by (rule mktestfs_spec)
  have o: "sb_ok sb" "tab_ok sb" "free_zero sb" using s(1) by (auto simp: fs_ok_def)
  obtain t where t: "tab_ok (sb\<lparr>inodes := (inodes sb)(ibrk sb \<mapsto> \<lparr>din = disk_inode (dev sb) 0, i_flags = False, i_nr = 0, i_count = 1\<rparr>),
      ibrk := Suc (ibrk sb), inode_hash_table := Some t\<rparr>)" (is "tab_ok ?sb")
    using get_inode_miss[OF o(1,2), of 0] s(2) by auto
  have d: "same_disk sb ?sb" by simp
  have "fs_ok ?sb" using t o same_disk_ok(1)[OF d] s(2,4) by (simp add: fs_ok_def quiet_def inodes_used_def free_zero_def)
  then show thesis using that[of ?sb "ibrk sb"] s same_disk_ok(3)[OF d] by simp
qed

section \<open>Properties\<close>

text \<open>
  C35. \<open>mktestfs\<close> makes a file system. For a size of 1 to 8192 MB it writes a device that
  \<open>testfs_init_super_block\<close> opens into a consistent state: inode 0, the only one in use, is the
  root directory, whose two entries \<open>.\<close> and \<open>..\<close> name itself; all other inodes are zero. Other
  sizes are refused.
\<close>

theorem mktestfs_makes_root:
  "if 1 \<le> mb \<and> mb \<le> 8192
   then \<exists>dv sb es. mktestfs mb = Inr dv \<and> testfs_init_super_block (Inr dv) = Inr (0, Some sb) \<and> fs_ok sb \<and> inodes sb = Map.empty \<and>
     used (ifree sb) = {0} \<and> file_ok sb (disk_inode dv 0) \<and> dir_rep (disk_inode dv 0) dv es \<and> dir_map es = [dot \<mapsto> 0, dotdot \<mapsto> 0]
   else mktestfs mb = Inl Exit_1"
proof (cases "1 \<le> mb \<and> mb \<le> 8192")
  case True
  then show ?thesis using mktestfs_spec[of mb] unfolding if_P[OF True] by metis
next
  case False
  then show ?thesis by (auto simp: mktestfs_def)
qed



text \<open>
  C37. Creating a file (\<open>create\<close> of the shell) keeps the file system consistent. If the name is in
  the current directory, the result is \<open>-EEXIST\<close> and nothing changes. Otherwise the least free
  inode number is taken; afterwards the directory has the name with that number, the new inode is an
  empty file on disk, all other inodes on disk are the same, no inode in memory is dirty, only the
  current directory is in memory, and the invariant of the whole state holds again.
\<close>

theorem create_file_consistent:
  assumes "fs_ok sb" and "inodes sb a = Some ino" and "file_ok sb (din ino)" and "dir_rep (din ino) (dev sb) es"
    and "0 \<notin> set name" and "length name + 9 \<le> BLOCK_SIZE" and "1 < room sb"
    and "length (dir_bytes es) + length name + 9 \<le> 2058 * BLOCK_SIZE"
    and "(\<exists>e\<in>set es. free_slot (length name) e) \<or> length (dir_bytes es) mod BLOCK_SIZE + length name + 9 \<le> BLOCK_SIZE"
    and "n \<notin> used (ifree sb)" and "\<forall>j<n. j \<in> used (ifree sb)" and "n < 16384"
  shows "if dir_map es name = None
    then \<exists>sb' ino' es'. testfs_create_file_or_dir (Some a) I_FILE name sb = Inr (0, sb') \<and> fs_ok sb' \<and>
      inodes sb' = (inodes sb)(a \<mapsto> ino') \<and> i_nr ino' = i_nr ino \<and> file_ok sb' (din ino') \<and> dir_rep (din ino') (dev sb') es' \<and>
      dir_map es' = (dir_map es)(name \<mapsto> int n) \<and> used (ifree sb') = insert n (used (ifree sb)) \<and>
      disk_inode (dev sb') (int n) = zero_dinode\<lparr>i_type := type_nr I_FILE\<rparr> \<and>
      (\<forall>nr. 0 \<le> nr \<longrightarrow> nr < 16384 \<longrightarrow> nr \<noteq> int n \<longrightarrow> nr \<noteq> i_nr ino \<longrightarrow> disk_inode (dev sb') nr = disk_inode (dev sb) nr)
    else testfs_create_file_or_dir (Some a) I_FILE name sb = Inr (- EEXIST, sb)"
proof (cases "dir_map es name")
  case None
  show ?thesis using create_file_spec[OF assms(1-4) None assms(5-12)] unfolding if_P[OF None] by blast
next
  case (Some k)
  have "sb_ok sb" using assms(1) by (simp add: fs_ok_def)
  from name_to_inode_nr_spec[OF this assms(3,2,4,5)] dir_map_SomeD[OF Some] Some show ?thesis
    by (simp add: testfs_create_file_or_dir_def)
qed

theorem create_file_consistent_witness:
  "\<exists>sb a sb'. testfs_create_file_or_dir (Some a) I_FILE [102] sb = Inr (0, sb') \<and> fs_ok sb' \<and> used (ifree sb') = {0, 1} \<and>
     disk_inode (dev sb') 1 = zero_dinode\<lparr>i_type := 1\<rparr>"
proof -
  obtain sb a ino es where m: "fs_ok sb" "inodes sb = [a \<mapsto> ino]" "file_ok sb (din ino)" "dir_rep (din ino) (dev sb) es"
    "i_nr ino = 0" "dir_map es = [dot \<mapsto> 0, dotdot \<mapsto> 0]" "length (dir_bytes es) \<le> 21" "used (ifree sb) = {0}" "4 < room sb" by (rule mounted)
  have i: "inodes sb a = Some ino" using m(2) by simp
  have n: "dir_map es [102] = None" using m(6) by (simp add: dot_def dotdot_def)
  have "length (dir_bytes es) mod BLOCK_SIZE + length [102 :: byte] + 9 \<le> BLOCK_SIZE"
    "length (dir_bytes es) + length [102 :: byte] + 9 \<le> 2058 * BLOCK_SIZE" "length [102 :: byte] + 9 \<le> BLOCK_SIZE"
    using m(7) by (auto simp: BLOCK_SIZE_def)
  then obtain sb' where "testfs_create_file_or_dir (Some a) I_FILE [102] sb = Inr (0, sb')" "fs_ok sb'" "used (ifree sb') = {1, 0}"
    "disk_inode (dev sb') 1 = zero_dinode\<lparr>i_type := 1\<rparr>"
    using create_file_consistent[OF m(1) i m(3,4), of "[102]" 1, unfolded if_P[OF n]] m(8,9) by (auto simp: type_nr_def)
  then show ?thesis by (auto simp: insert_commute)
qed

end
