(* ===== verification/FsCmd.thy ===== *)
theory FsCmd
  imports FsTree
begin

text \<open>
  The shell of the file system: the commands of fs/dir.c and fs/file.c, the conversion of numbers
  (fs/common.c), and the command table, parsing and dispatch of fs/testfs.c. A command returns its
  result, what it prints, and the state; one that walks the tree need not return on a tree with
  cycles, so commands are routines of type \<open>io\<close>.
\<close>

section \<open>Routines that may not return\<close>

lemma bindO_mono [partial_function_mono]:
  assumes "mono_option B" and "\<And>y. mono_option (\<lambda>f. C y f)"
  shows "mono_option (\<lambda>f. bindO (B f) (\<lambda>y. C y f))"
proof -
  have e: "bindO r g = Option.bind r (\<lambda>x. case x of Inl e \<Rightarrow> Some (Inl e) | Inr y \<Rightarrow> g y)" for r :: "'x io" and g :: "'x \<Rightarrow> 'y io"
    by (cases r) (auto simp: bindO_def split: sum.splits)
  have "mono_option (\<lambda>f. case x of Inl e \<Rightarrow> Some (Inl e) | Inr y \<Rightarrow> C y f)" for x
    using assms(2) by (cases x) (auto simp: monotone_def flat_ord_def)
  from bind_mono[OF assms(1) this] show ?thesis unfolding e .
qed

abbreviation step :: "'a res \<Rightarrow> ('a \<Rightarrow> 'b io) \<Rightarrow> 'b io" where
  "step r f \<equiv> bindO (Some r) f"

section \<open>Numbers\<close>

definition isspace_byte :: "byte \<Rightarrow> bool" where
  "isspace_byte c \<longleftrightarrow> c \<in> {32, 9, 10, 11, 12, 13}"

definition digit_byte :: "byte \<Rightarrow> bool" where
  "digit_byte c \<longleftrightarrow> 48 \<le> c \<and> c \<le> 57"

definition digits_value :: "byte list \<Rightarrow> int" where
  "digits_value ds = foldl (\<lambda>v c. v * 10 + (uint c - 48)) 0 ds"

text \<open>
  What \<open>strtoll\<close> and \<open>strtoull\<close> with base 10 read: the sign, the digits and the rest of the string;
  without digits the rest is the whole string and the value 0.
\<close>

definition strtol_parse :: "byte list \<Rightarrow> bool \<times> int \<times> byte list" where
  "strtol_parse s =
     (let s1 = dropWhile isspace_byte s;
          neg = (s1 \<noteq> [] \<and> hd s1 = 45);
          s2 = (if s1 \<noteq> [] \<and> (hd s1 = 45 \<or> hd s1 = 43) then tl s1 else s1);
          ds = takeWhile digit_byte s2
      in if ds = [] then (False, 0, s) else (neg, digits_value ds, dropWhile digit_byte s2))"

definition strtoll :: "byte list \<Rightarrow> int \<times> byte list" where
  "strtoll s = (case strtol_parse s of (neg, v, rest) \<Rightarrow> (max (- (2 ^ 63)) (min (2 ^ 63 - 1) (if neg then - v else v)), rest))"

definition strtoull :: "byte list \<Rightarrow> int \<times> byte list" where
  "strtoull s = (case strtol_parse s of (neg, v, rest) \<Rightarrow>
     (if v > 2 ^ 64 - 1 then 2 ^ 64 - 1 else if neg then (- v) mod 2 ^ 64 else v, rest))"

definition str_to_offset :: "byte list \<Rightarrow> int + int" where
  "str_to_offset str = (case strtoll str of (val, rest) \<Rightarrow> if rest \<noteq> [] then Inl (- EINVAL) else Inr val)"

definition str_to_size :: "byte list \<Rightarrow> int + int" where
  "str_to_size str = (case strtoull str of (val, rest) \<Rightarrow> if rest \<noteq> [] then Inl (- EINVAL) else Inr val)"

section \<open>Commands\<close>

definition MAX_ARGS :: nat where "MAX_ARGS = 6"

record cmd_context =
  nargs :: nat
  cmd :: "byte list option list"
  cur_dir :: addr

definition ENOTDIR :: int where "ENOTDIR = 20"
definition EISDIR :: int where "EISDIR = 21"

text \<open>What a command prints.\<close>

datatype printed =
    Text "byte list"
  | Stat_line "byte list" int int int int
  | Usage_counts int int
  | Help_text
  | Bye
  | Error_line "byte list" int
  | Not_found "byte list"

definition arg :: "nat \<Rightarrow> cmd_context \<Rightarrow> byte list res" where
  "arg i c = (if i < length (cmd c) then case cmd c ! i of None \<Rightarrow> Inl Null_deref | Some s \<Rightarrow> Inr s else Inl Out_of_bounds)"

partial_function (option) testfs_pwd :: "addr \<Rightarrow> super_block \<Rightarrow> (int \<times> byte list \<times> super_block) io" where
  "testfs_pwd a sb =
     step (readR (inodes sb) a) (\<lambda>ino.
     step (assertR (i_nr ino \<ge> 0) (testfs_dir_name_to_inode_nr a dotdot sb)) (\<lambda>p_inode_nr.
     step (assertR (p_inode_nr \<ge> 0) (Inr ())) (\<lambda>_.
       if p_inode_nr = i_nr ino then Some (Inr (1, [47], sb))
       else step (testfs_get_inode p_inode_nr sb) (\<lambda>(p_in, sb).
            step (testfs_find_dirent p_in (i_nr ino) sb) (\<lambda>d.
              case d of
                None \<Rightarrow> Some (Inl Assert_failed)
              | Some (_, name) \<Rightarrow>
                  bindO (testfs_pwd p_in sb) (\<lambda>(ret, out, sb).
                  step (testfs_put_inode p_in sb) (\<lambda>sb.
                  step (cstring name) (\<lambda>s.
                    Some (Inr (0, out @ (if ret = 1 then [] else [47]) @ s, sb)))))))))) "

text \<open>The loop of \<open>testfs_ls\<close> from an offset.\<close>

partial_function (option) testfs_ls :: "bool \<Rightarrow> addr \<Rightarrow> int \<Rightarrow> super_block \<Rightarrow> (printed list \<times> super_block) io" where
  "testfs_ls recursive a offset sb =
     step (testfs_next_dirent a offset sb) (\<lambda>n.
       case n of
         None \<Rightarrow> Some (Inr ([], sb))
       | Some (d, name, offset') \<Rightarrow>
           if d_inode_nr d < 0 then testfs_ls recursive a offset' sb
           else step (testfs_get_inode (d_inode_nr d) sb) (\<lambda>(cin, sb).
                step (cstring name) (\<lambda>s.
                step (is_dir cin sb) (\<lambda>b.
                bindO (if recursive \<and> b \<and> s \<noteq> dot \<and> s \<noteq> dotdot then testfs_ls recursive cin 0 sb else Some (Inr ([], sb))) (\<lambda>(out, sb).
                step (testfs_put_inode cin sb) (\<lambda>sb.
                bindO (testfs_ls recursive a offset' sb) (\<lambda>(out', sb).
                  Some (Inr (Text (s @ (if b then [47] else []) @ [10]) # out @ out', sb)))))))))"

type_synonym command = "cmd_context \<Rightarrow> super_block \<Rightarrow> (int \<times> printed list \<times> cmd_context \<times> super_block) io"

definition cmd_ls_internal :: "bool \<Rightarrow> command" where
  "cmd_ls_internal recursive c sb =
     (if nargs c \<noteq> 2 then Some (Inr (- EINVAL, [], c, sb))
      else step (arg 1 c) (\<lambda>cdir.
           step (testfs_dir_name_to_inode_nr (cur_dir c) cdir sb) (\<lambda>nr.
             if nr < 0 then Some (Inr (nr, [], c, sb))
             else step (testfs_get_inode nr sb) (\<lambda>(a, sb).
                  step (is_dir a sb) (\<lambda>b.
                    if b
                    then bindO (testfs_ls recursive a 0 sb) (\<lambda>(out, sb).
                         step (testfs_put_inode a sb) (\<lambda>sb. Some (Inr (0, out, c, sb))))
                    else Some (Inr (- ENOTDIR, [], c, sb)))))))"

definition cmd_cd :: command where
  "cmd_cd c sb =
     (if nargs c \<noteq> 2 then Some (Inr (- EINVAL, [], c, sb))
      else step (arg 1 c) (\<lambda>name.
           step (testfs_dir_name_to_inode_nr (cur_dir c) name sb) (\<lambda>nr.
             if nr < 0 then Some (Inr (nr, [], c, sb))
             else step (testfs_get_inode nr sb) (\<lambda>(a, sb).
                  step (is_dir a sb) (\<lambda>b.
                    if \<not> b then step (testfs_put_inode a sb) (\<lambda>sb. Some (Inr (- ENOTDIR, [], c, sb)))
                    else step (testfs_put_inode (cur_dir c) sb) (\<lambda>sb. Some (Inr (0, [], c\<lparr>cur_dir := a\<rparr>, sb))))))))"

definition cmd_pwd :: command where
  "cmd_pwd c sb =
     (if nargs c \<noteq> 1 then Some (Inr (- EINVAL, [], c, sb))
      else bindO (testfs_pwd (cur_dir c) sb) (\<lambda>(_, out, sb). Some (Inr (0, [Text (out @ [10])], c, sb))))"

definition cmd_ls :: command where "cmd_ls = cmd_ls_internal False"
definition cmd_lsr :: command where "cmd_lsr = cmd_ls_internal True"

definition cmd_create :: command where
  "cmd_create c sb =
     (if nargs c \<noteq> 2 then Some (Inr (- EINVAL, [], c, sb))
      else step (arg 1 c) (\<lambda>name.
           step (testfs_create_file_or_dir (Some (cur_dir c)) I_FILE name sb) (\<lambda>(ret, sb). Some (Inr (ret, [], c, sb)))))"

definition cmd_mkdir :: command where
  "cmd_mkdir c sb =
     (if nargs c \<noteq> 2 then Some (Inr (- EINVAL, [], c, sb))
      else step (arg 1 c) (\<lambda>name.
           step (testfs_create_file_or_dir (Some (cur_dir c)) I_DIR name sb) (\<lambda>(ret, sb). Some (Inr (ret, [], c, sb)))))"

definition cmd_rm :: command where
  "cmd_rm c sb =
     (if nargs c \<noteq> 2 then Some (Inr (- EINVAL, [], c, sb))
      else step (arg 1 c) (\<lambda>name.
           step (testfs_remove_dirent (cur_dir c) name sb) (\<lambda>(nr, sb).
             if nr < 0 then Some (Inr (nr, [], c, sb))
             else step (testfs_get_inode nr sb) (\<lambda>(a, sb).
                  step (testfs_remove_inode a sb) (\<lambda>sb.
                  step (testfs_sync_inode (cur_dir c) sb) (\<lambda>sb. Some (Inr (0, [], c, sb))))))))"

definition cmd_stat :: command where
  "cmd_stat c sb =
     (if nargs c \<noteq> 2 then Some (Inr (- EINVAL, [], c, sb))
      else step (arg 1 c) (\<lambda>name.
           step (testfs_dir_name_to_inode_nr (cur_dir c) name sb) (\<lambda>nr.
             if nr < 0 then Some (Inr (nr, [], c, sb))
             else step (testfs_get_inode nr sb) (\<lambda>(a, sb).
                  step (readR (inodes sb) a) (\<lambda>ino.
                  step (testfs_put_inode a sb) (\<lambda>sb.
                    Some (Inr (0, [Stat_line name (i_nr ino) (i_type (din ino)) (i_size (din ino) mod 2 ^ 64) (block_count (din ino))], c, sb))))))))"

section \<open>Files\<close>

text \<open>\<open>testfs_get_file_inode\<close>: the result and, if it is 0, the inode.\<close>

definition testfs_get_file_inode :: "addr \<Rightarrow> byte list \<Rightarrow> super_block \<Rightarrow> (int \<times> addr option \<times> super_block) res" where
  "testfs_get_file_inode dir name sb =
     bindR (testfs_dir_name_to_inode_nr dir name sb) (\<lambda>nr.
       if nr < 0 then Inr (nr, None, sb)
       else bindR (testfs_get_inode nr sb) (\<lambda>(a, sb).
            bindR (is_dir a sb) (\<lambda>b.
              if b then bindR (testfs_put_inode a sb) (\<lambda>sb. Inr (- EISDIR, None, sb))
              else Inr (0, Some a, sb))))"

text \<open>\<open>cmd_read\<close>: \<open>mal n\<close> tells whether \<open>malloc(n)\<close> succeeds; \<open>size + 1\<close> wraps around to 0 for the
  largest size.\<close>

definition cmd_read :: "(int \<Rightarrow> bool) \<Rightarrow> command" where
  "cmd_read mal c sb =
     (if nargs c \<noteq> 4 then Some (Inr (- EINVAL, [], c, sb))
      else step (arg 1 c) (\<lambda>filename. step (arg 2 c) (\<lambda>s2. step (arg 3 c) (\<lambda>s3.
        case str_to_offset s2 of
          Inl e \<Rightarrow> Some (Inr (e, [], c, sb))
        | Inr offset \<Rightarrow>
            if offset < 0 then Some (Inr (- EINVAL, [], c, sb))
            else case str_to_size s3 of
                Inl e \<Rightarrow> Some (Inr (e, [], c, sb))
              | Inr sz \<Rightarrow>
                  step (testfs_get_file_inode (cur_dir c) filename sb) (\<lambda>(ret, r, sb).
                    case r of
                      None \<Rightarrow> Some (Inr (ret, [], c, sb))
                    | Some a \<Rightarrow>
                        step (readR (inodes sb) a) (\<lambda>ino.
                        step (if wrap64 (offset + wrap64 sz) > i_size (din ino) then Inr (- EINVAL, [])
                              else if \<not> mal ((sz + 1) mod 2 ^ 64) then Inr (- ENOMEM, [])
                              else bindR (testfs_read_data a offset sz sb) (\<lambda>(ret, bytes).
                                     if ret \<ge> 0 then bindR (cstring (bytes @ [0])) (\<lambda>s. Inr (ret, [Text (s @ [10])]))
                                     else Inr (ret, []))) (\<lambda>(ret, out).
                        step (testfs_put_inode a sb) (\<lambda>sb. Some (Inr (ret, out, c, sb))))))))))"

definition cmd_write :: command where
  "cmd_write c sb =
     (if nargs c \<noteq> 4 then Some (Inr (- EINVAL, [], c, sb))
      else step (arg 1 c) (\<lambda>filename. step (arg 2 c) (\<lambda>s2. step (arg 3 c) (\<lambda>buf.
        case str_to_offset s2 of
          Inl e \<Rightarrow> Some (Inr (e, [], c, sb))
        | Inr offset \<Rightarrow>
            if offset < 0 then Some (Inr (- EINVAL, [], c, sb))
            else step (testfs_get_file_inode (cur_dir c) filename sb) (\<lambda>(ret, r, sb).
                   case r of
                     None \<Rightarrow> Some (Inr (ret, [], c, sb))
                   | Some a \<Rightarrow>
                       step (testfs_write_data a buf offset sb) (\<lambda>(ret, sb).
                       step (testfs_sync_inode a sb) (\<lambda>sb.
                       step (testfs_put_inode a sb) (\<lambda>sb. Some (Inr (ret, [], c, sb))))))))))"

section \<open>The shell\<close>

definition cmd_help :: command where
  "cmd_help c sb = Some (Inr (0, [Help_text], c, sb))"

definition cmd_quit :: command where
  "cmd_quit c sb = Some (Inr (0, [Bye], c, sb))"

definition fsstat :: command where
  "fsstat c sb = (case cmd_fsstat (nargs c) sb of (ret, r) \<Rightarrow>
     Some (Inr (ret, case r of None \<Rightarrow> [] | Some (i, b) \<Rightarrow> [Usage_counts i b], c, sb)))"

definition bytes :: "string \<Rightarrow> byte list" where
  "bytes s = map (\<lambda>ch. of_nat (of_char ch)) s"

text \<open>\<open>cmdtable\<close>: name, function and the number of words it takes.\<close>

definition cmdtable :: "(int \<Rightarrow> bool) \<Rightarrow> (byte list \<times> command \<times> nat) list" where
  "cmdtable mal =
     [(bytes ''help'', cmd_help, 1), (bytes ''cd'', cmd_cd, 2), (bytes ''pwd'', cmd_pwd, 1), (bytes ''ls'', cmd_ls, 2),
      (bytes ''lsr'', cmd_lsr, 2), (bytes ''create'', cmd_create, 2), (bytes ''stat'', cmd_stat, 2), (bytes ''rm'', cmd_rm, 2),
      (bytes ''mkdir'', cmd_mkdir, 2), (bytes ''read'', cmd_read mal, 4), (bytes ''write'', cmd_write, 4),
      (bytes ''fsstat'', fsstat, 1), (bytes ''quit'', cmd_quit, 1)]"

text \<open>
  \<open>strtok_r(s, delim, &save)\<close>: the token and the new \<open>save\<close>. POSIX does not define the call with a
  NULL string and a NULL save pointer, which is made when a command has no arguments: \<open>nul\<close> tells
  whether the library returns NULL for it or reads through the pointer.
\<close>

definition strtok_r :: "bool \<Rightarrow> byte set \<Rightarrow> byte list option \<Rightarrow> byte list option \<Rightarrow> (byte list option \<times> byte list option) res" where
  "strtok_r nul delim s save =
     (case (case s of None \<Rightarrow> save | Some _ \<Rightarrow> s) of
        None \<Rightarrow> if nul then Inr (None, None) else Inl Null_deref
      | Some s \<Rightarrow>
          let s = dropWhile (\<lambda>c. c \<in> delim) s
          in if s = [] then Inr (None, Some [])
             else Inr (Some (takeWhile (\<lambda>c. c \<notin> delim) s), Some (tl (dropWhile (\<lambda>c. c \<notin> delim) s))))"

definition blanks :: "byte set" where "blanks = {32, 9, 13, 10}"
definition newlines :: "byte set" where "newlines = {13, 10}"

text \<open>
  The words of a command line: up to \<open>k\<close> separated by blanks, then the rest of the line. After a
  first word \<open>args\<close> is NULL. The last call gives the last word or NULL.
\<close>

fun words :: "bool \<Rightarrow> nat \<Rightarrow> byte list option \<Rightarrow> byte list option \<Rightarrow> (byte list list \<times> byte list option) res" where
  "words nul 0 args save = bindR (strtok_r nul newlines args save) (\<lambda>(tok, _). Inr ([], tok))"
| "words nul (Suc k) args save =
     bindR (strtok_r nul blanks args save) (\<lambda>(tok, save).
       case tok of
         None \<Rightarrow> bindR (strtok_r nul newlines args save) (\<lambda>(tok, _). Inr ([], tok))
       | Some w \<Rightarrow> bindR (words nul k None save) (\<lambda>(ws, tok). Inr (w # ws, tok)))"

text \<open>Entries of \<open>cmd\<close> behind the words are set to NULL; the first of them only if the last call gave
  NULL.\<close>

definition parse_command :: "bool \<Rightarrow> nat \<Rightarrow> byte list \<Rightarrow> byte list option \<Rightarrow> cmd_context \<Rightarrow> cmd_context res" where
  "parse_command nul max_args name args c =
     bindR (words nul (max_args - 1) args None) (\<lambda>(ws, tok).
       let ws = name # ws @ (case tok of None \<Rightarrow> [] | Some w \<Rightarrow> [w]); j = length ws
       in if j > MAX_ARGS + 1 then Inl Out_of_bounds
          else Inr (c\<lparr>nargs := j, cmd := take (MAX_ARGS + 1)
                 (map Some ws @ (if tok = None then [None] else take 1 (drop j (cmd c))) @ replicate (MAX_ARGS - j) None)\<rparr>))"

definition handle_command :: "bool \<Rightarrow> (int \<Rightarrow> bool) \<Rightarrow> byte list option \<Rightarrow> byte list option \<Rightarrow> cmd_context \<Rightarrow> super_block \<Rightarrow>
    (printed list \<times> cmd_context \<times> super_block) io" where
  "handle_command nul mal name args c sb =
     (case name of
        None \<Rightarrow> Some (Inr ([], c, sb))
      | Some nm \<Rightarrow>
          (case map_of (cmdtable mal) nm of
             None \<Rightarrow> Some (Inr ([Not_found nm], c, sb))
           | Some (func, max_args) \<Rightarrow>
               step (parse_command nul max_args nm args c) (\<lambda>c.
               bindO (func c sb) (\<lambda>(ret, out, c, sb).
                 Some (Inr (if ret < 0 then out @ [Error_line nm (- ret)] else out, c, sb))))))"

text \<open>
  The loop of \<open>main\<close> over the lines of the input, after the root directory was opened; it ends at the
  end of the input or when \<open>quit\<close> was run. Then the current directory is released and the super
  block closed, which leaves the device.
\<close>

fun shell_loop :: "bool \<Rightarrow> (int \<Rightarrow> bool) \<Rightarrow> byte list list \<Rightarrow> cmd_context \<Rightarrow> super_block \<Rightarrow> (printed list \<times> cmd_context \<times> super_block) io" where
  "shell_loop nul mal [] c sb = Some (Inr ([], c, sb))"
| "shell_loop nul mal (line # lines) c sb =
     (if line \<noteq> [] \<and> hd line = 35 then shell_loop nul mal lines c sb
      else step (strtok_r nul blanks (Some line) None) (\<lambda>(cname, save).
           step (strtok_r nul newlines None save) (\<lambda>(pargs, _).
           bindO (handle_command nul mal cname pargs c sb) (\<lambda>(out, c, sb).
             if Bye \<in> set out then Some (Inr (out, c, sb))
             else bindO (shell_loop nul mal lines c sb) (\<lambda>(out', c, sb). Some (Inr (out @ out', c, sb)))))))"

definition testfs_main :: "bool \<Rightarrow> (int \<Rightarrow> bool) \<Rightarrow> int + byte list list \<Rightarrow> byte list list \<Rightarrow> (printed list \<times> byte list list) io" where
  "testfs_main nul mal disk lines =
     step (testfs_init_super_block disk) (\<lambda>(ret, r).
       case r of
         None \<Rightarrow> Some (Inl Exit_1)
       | Some sb \<Rightarrow>
           step (testfs_get_inode 0 sb) (\<lambda>(root, sb).
           bindO (shell_loop nul mal lines \<lparr>nargs = 0, cmd = replicate (MAX_ARGS + 1) None, cur_dir = root\<rparr> sb) (\<lambda>(out, c, sb).
           step (testfs_put_inode (cur_dir c) sb) (\<lambda>sb.
           step (testfs_close_super_block sb) (\<lambda>dv. Some (Inr (out, dv)))))))"

section \<open>Listing a directory\<close>

definition ls_line :: "byte list list \<Rightarrow> entry \<Rightarrow> printed" where
  "ls_line dv e = Text (snd e @ (if i_type (disk_inode dv (fst e)) = type_nr I_DIR then [47] else []) @ [10])"

lemma cstring_name: "0 \<notin> set s \<Longrightarrow> cstring (s @ [0]) = Inr s"
  by (simp add: cstring_def) (subst takeWhile_append2, auto)

lemma ls_spec:
  assumes "sb_ok sb" and "tab_ok sb" and "quiet sb" and "inodes sb a = Some ino" and "file_ok sb (din ino)"
    and "dir_rep (din ino) (dev sb) (pre @ post)" and "\<forall>e\<in>set (live post). fst e < 16384" and "off = length (dir_bytes pre)"
  shows "\<exists>sb'. testfs_ls False a (int off) sb = Some (Inr (map (ls_line (dev sb)) (live post), sb')) \<and> tab_ok sb' \<and>
    inodes sb' = inodes sb \<and> same_disk sb sb'"
  using assms
proof (induction post arbitrary: pre off sb)
  case Nil
  then show ?case using next_dirent_end[of sb a ino pre off] by (subst testfs_ls.simps) auto
next
  case (Cons e post)
  let ?off = "off + length (ent_bytes e)"
  have nx: "testfs_next_dirent a (int off) sb = Inr (Some (header e, snd e @ [0], int ?off))"
    using next_dirent_spec[OF Cons.prems(1,5,4,6,8)] by simp
  have rep: "dir_rep (din ino) (dev sb) ((pre @ [e]) @ post)" "?off = length (dir_bytes (pre @ [e]))" using Cons.prems(6,8) by auto
  have nm: "0 \<notin> set (snd e)" using Cons.prems(6) by (simp add: dir_rep_def ent_ok_def)
  show ?case
  proof (cases "fst e < 0")
    case True
    then show ?thesis
      using Cons.IH[OF Cons.prems(1-5) rep(1) _ rep(2)] Cons.prems(7) nx by (subst testfs_ls.simps) simp
  next
    case False
    then have r: "0 \<le> fst e" "fst e < 16384" using Cons.prems(7) by auto
    obtain c sb1 i sb2 where g: "testfs_get_inode (fst e) sb = Inr (c, sb1)" "inodes sb1 c = Some i" "din i = disk_inode (dev sb) (fst e)"
      "same_disk sb sb1" "testfs_put_inode c sb1 = Inr sb2" "tab_ok sb2" "inodes sb2 = inodes sb" "same_disk sb sb2"
      using get_then_put[OF Cons.prems(1-3) r] by blast
    have "sb_ok sb2" "quiet sb2" "inodes sb2 a = Some ino" "file_ok sb2 (din ino)" "dir_rep (din ino) (dev sb2) ((pre @ [e]) @ post)"
      "\<forall>e\<in>set (live post). fst e < 16384"
      using same_disk_ok[OF g(8)] g(7,8) Cons.prems(1,3,4,5,7) rep(1) by (auto simp: quiet_def)
    then obtain sb3 where i: "testfs_ls False a (int ?off) sb2 = Some (Inr (map (ls_line (dev sb2)) (live post), sb3))"
      "tab_ok sb3" "inodes sb3 = inodes sb2" "same_disk sb2 sb3" using Cons.IH[OF _ g(6) _ _ _ _ _ rep(2)] by blast
    have "testfs_ls False a (int off) sb = Some (Inr (map (ls_line (dev sb)) (live (e # post)), sb3))"
      using nx False g i(1) r nm by (subst testfs_ls.simps) (simp add: cstring_name is_dir_def ls_line_def)
    then show ?thesis using i g(7,8) by auto
  qed
qed

section \<open>Reading and writing a file\<close>

text \<open>Opening a file of the current directory that is not in memory.\<close>

lemma get_file_inode_spec:
  assumes "sb_ok sb" and "tab_ok sb" and "quiet sb" and "inodes sb a = Some ino" and "file_ok sb (din ino)" and "dir_rep (din ino) (dev sb) es"
    and "0 \<notin> set name" and "dir_map es name = Some k" and "k < 16384" and "i_type (disk_inode (dev sb) k) \<noteq> type_nr I_DIR"
    and "\<forall>b i. inodes sb b = Some i \<longrightarrow> i_nr i \<noteq> k"
  shows "\<exists>sb1. testfs_get_file_inode a name sb = Inr (0, Some (ibrk sb), sb1) \<and> inodes sb (ibrk sb) = None \<and>
    inodes sb1 = (inodes sb)(ibrk sb \<mapsto> \<lparr>din = disk_inode (dev sb) k, i_flags = False, i_nr = k, i_count = 1\<rparr>) \<and> tab_ok sb1 \<and> same_disk sb sb1"
proof -
  have k: "0 \<le> k" using dir_map_SomeD[OF assms(8)] by simp
  let ?i = "\<lparr>din = disk_inode (dev sb) k, i_flags = False, i_nr = k, i_count = 1\<rparr>"
  from get_inode_miss[OF assms(1,2) k assms(9,11)] obtain t where
    g: "testfs_get_inode k sb = Inr (ibrk sb, sb\<lparr>inodes := (inodes sb)(ibrk sb \<mapsto> ?i), ibrk := Suc (ibrk sb), inode_hash_table := Some t\<rparr>)"
    "tab_ok (sb\<lparr>inodes := (inodes sb)(ibrk sb \<mapsto> ?i), ibrk := Suc (ibrk sb), inode_hash_table := Some t\<rparr>)" by blast
  have "inodes sb (ibrk sb) = None" using assms(2) unfolding tab_ok_def by (meson less_irrefl not_None_eq)
  moreover have "testfs_dir_name_to_inode_nr a name sb = Inr k" using name_to_inode_nr_spec[OF assms(1,5,4,6,7)] assms(8) by simp
  ultimately show ?thesis using g assms(10) k by (simp add: testfs_get_file_inode_def is_dir_def)
qed

lemma write_cmd_spec:
  assumes "fs_ok sb" and "inodes sb a = Some ino" and "file_ok sb (din ino)" and "dir_rep (din ino) (dev sb) es"
    and "0 \<notin> set name" and "dir_map es name = Some k" and "k < 16384" and "nat k \<in> used (ifree sb)"
    and "i_type (disk_inode (dev sb) k) \<noteq> type_nr I_DIR" and "file_ok sb (disk_inode (dev sb) k)" and "0 \<le> i_size (disk_inode (dev sb) k)"
    and "\<forall>b i. inodes sb b = Some i \<longrightarrow> i_nr i \<noteq> k" and "blocks_of sb (din ino) \<inter> blocks_of sb (disk_inode (dev sb) k) = {}"
    and "buf \<noteq> []" and "st div BLOCK_SIZE < 2058" and "st mod BLOCK_SIZE + length buf \<le> BLOCK_SIZE" and "1 < room sb"
    and "nargs c = 4" and "cur_dir c = a" and "arg 1 c = Inr name" and "arg 2 c = Inr s2" and "str_to_offset s2 = Inr (int st)" and "arg 3 c = Inr buf"
  shows "\<exists>sb'. cmd_write c sb = Some (Inr (int (length buf), [], c, sb')) \<and> fs_ok sb' \<and> inodes sb' = inodes sb \<and>
    file_ok sb' (din ino) \<and> dir_rep (din ino) (dev sb') es \<and>
    file_ok sb' (disk_inode (dev sb') k) \<and> i_type (disk_inode (dev sb') k) = i_type (disk_inode (dev sb) k) \<and>
    i_size (disk_inode (dev sb') k) = max (i_size (disk_inode (dev sb) k)) (int (st + length buf)) \<and>
    (\<forall>pos. pos div BLOCK_SIZE < 2058 \<longrightarrow> content (disk_inode (dev sb') k) (dev sb') pos =
      (if st \<le> pos \<and> pos < st + length buf then buf ! (pos - st) else content (disk_inode (dev sb) k) (dev sb) pos))"
proof -
  have o: "sb_ok sb" "tab_ok sb" "quiet sb" "inodes_used sb" "free_zero sb" using assms(1) by (auto simp: fs_ok_def)
  have k: "0 \<le> k" using dir_map_SomeD[OF assms(6)] by simp
  let ?d = "disk_inode (dev sb) k" and ?f = "ibrk sb"
  let ?i = "\<lparr>din = ?d, i_flags = False, i_nr = k, i_count = 1\<rparr>"
  obtain sb1 where 1: "testfs_get_file_inode a name sb = Inr (0, Some ?f, sb1)" "inodes sb ?f = None" "inodes sb1 = (inodes sb)(?f \<mapsto> ?i)"
    "tab_ok sb1" "same_disk sb sb1" using get_file_inode_spec[OF o(1-3) assms(2-7,9,12)] by blast
  note S = same_disk_ok[OF 1(5)]
  have s1: "sb_ok sb1" "file_ok sb1 (din ?i)" "inodes sb1 ?f = Some ?i" using S o(1) assms(10) 1(3) by auto
  obtain sb2 i2 where 2: "testfs_write_data ?f buf (int st) sb1 = Inr (int (length buf), sb2)"
    "written sb1 ?f ?i buf st (max (i_size ?d) (int (st + length buf))) sb2 i2"
    using write_data_spec[OF s1 _ assms(15,16)] assms(14,17) S(4) by auto
  have w: "sb_ok sb2" "file_ok sb2 (din i2)" "inodes sb2 = (inodes sb1)(?f \<mapsto> i2)" "i_nr i2 = k" "i_count i2 = 1" "inode_freemap sb2 = inode_freemap sb"
    "i_type (din i2) = i_type ?d" "i_dindirect (din i2) = i_dindirect ?d" "s32 (block_count ?d) \<Longrightarrow> s32 (block_count (din i2))"
    "i_size (din i2) = max (i_size ?d) (int (st + length buf))"
    "\<And>pos. pos div BLOCK_SIZE < 2058 \<Longrightarrow> content (din i2) (dev sb2) pos = (if st \<le> pos \<and> pos < st + length buf then buf ! (pos - st) else content ?d (dev sb) pos)"
    using 2(2) 1(5) by (auto simp: written_def)
  note t2 = tab_ok_written[OF s1(1) 1(4) s1(3,2) 2(2)]
  have dir2: "file_ok sb2 (din ino)" "dir_rep (din ino) (dev sb2) es"
  proof -
    have "file_ok sb1 (din ino)" "blocks_of sb1 (din ino) \<inter> blocks_of sb1 (din ?i) = {}" using S assms(3,13) by auto
    from other_file[OF s1(1) 2(2) this] 1(5) have f: "file_ok sb2 (din ino)"
      "\<And>pos. pos div BLOCK_SIZE < 2058 \<Longrightarrow> content (din ino) (dev sb2) pos = content (din ino) (dev sb) pos" by auto
    then have "map (content (din ino) (dev sb2)) [0..<n] = map (content (din ino) (dev sb)) [0..<n]" if "n \<le> 2058 * BLOCK_SIZE" for n
      using that by (auto simp: BLOCK_SIZE_def div_less_iff_less_mult)
    from this[of "length (dir_bytes es)"] show "dir_rep (din ino) (dev sb2) es" using assms(4) unfolding dir_rep_def by (metis (no_types))
    show "file_ok sb2 (din ino)" using f by simp
  qed
  have "dinode_range ?d" by (rule dinode_range_disk)
  moreover have "s64 (i_size (din i2))"
    using \<open>dinode_range ?d\<close> w(10) assms(15,16) by (auto simp: dinode_range_def s64_def BLOCK_SIZE_def div_less_iff_less_mult)
  ultimately have r: "dinode_range (din i2)" using file_ok_range[OF w(1,2)] w(7-9) by (simp add: dinode_range_def)
  have i2: "inodes sb2 ?f = Some i2" using w(3) by simp
  obtain sb3 where 3: "testfs_sync_inode ?f sb2 = Inr sb3" "inodes sb3 = (inodes sb2)(?f \<mapsto> i2\<lparr>i_flags := False\<rparr>)" "sb_ok sb3" "tab_ok sb3"
    "same_data sb2 sb3" "inode_freemap sb3 = inode_freemap sb2" "dsb sb3 = dsb sb2"
    "\<And>nr. 0 \<le> nr \<Longrightarrow> nr < 16384 \<Longrightarrow> disk_inode (dev sb3) nr = (if nr = i_nr i2 then din i2 else disk_inode (dev sb2) nr)"
    by (rule sync_same_data[OF w(1) t2(1) i2 r]) blast
  have i3: "inodes sb3 ?f = Some (i2\<lparr>i_flags := False\<rparr>)" using 3(2) by simp
  obtain sb4 where 4: "testfs_put_inode ?f sb3 = Inr sb4" "tab_ok sb4" "inodes sb4 = (inodes sb3)(?f := None)" "same_disk sb3 sb4"
    using put_inode_spec[OF 3(4) i3] w(5) by auto
  have run: "cmd_write c sb = Some (Inr (int (length buf), [], c, sb4))"
    using assms(18-23) 1(1) 2(1) 3(1) 4(1) by (simp add: cmd_write_def)
  have in4: "inodes sb4 = inodes sb" using 4(3) 3(2) w(3) 1(2,3) by auto
  have d4: "disk_inode (dev sb4) k = din i2" using 3(8)[of k] 4(4) k assms(7) w(4) by simp
  have "free_zero sb4"
  proof -
    have "disk_inode (dev sb4) (int m) = zero_dinode" if "m < 16384" "m \<notin> used (ifree sb)" for m
    proof -
      have "int m \<noteq> k" using that(2) assms(8) by auto
      then show ?thesis using 3(8)[of "int m"] 4(4) t2(2)[of "int m"] 1(5) that o(5) w(4) by (simp add: free_zero_def)
    qed
    then show ?thesis using 4(4) 3(6) w(6) by (simp add: free_zero_def)
  qed
  moreover have "inodes_used sb4" using o(4) in4 4(4) 3(6) w(6) by (simp add: inodes_used_def)
  moreover have "sb_ok sb4" using same_disk_ok(1)[OF 4(4)] 3(3) by simp
  ultimately have ok: "fs_ok sb4" using 4(2) in4 o(3) by (simp add: fs_ok_def quiet_def)
  have D: "file_ok sb4 d" "dir_rep d (dev sb4) es = dir_rep d (dev sb2) es" if "file_ok sb2 d" for d
    using same_data_file[OF w(1) 3(5) that] same_disk_ok(3)[OF 4(4)] 4(4) by auto
  have C: "content (din i2) (dev sb4) pos = content (din i2) (dev sb2) pos" if "pos div BLOCK_SIZE < 2058" for pos
    using same_data_file(3)[OF w(1) 3(5) w(2) that] 4(4) by simp
  show ?thesis using run ok in4 D(1)[OF dir2(1)] D(2)[OF dir2(1)] dir2(2) D(1)[OF w(2)] d4 w(7,10,11) C
    by (intro exI[of _ sb4]) simp
qed

lemma read_cmd_spec:
  assumes "fs_ok sb" and "inodes sb a = Some ino" and "file_ok sb (din ino)" and "dir_rep (din ino) (dev sb) es"
    and "0 \<notin> set name" and "dir_map es name = Some k" and "k < 16384"
    and "i_type (disk_inode (dev sb) k) \<noteq> type_nr I_DIR" and "file_ok sb (disk_inode (dev sb) k)"
    and "\<forall>b i. inodes sb b = Some i \<longrightarrow> i_nr i \<noteq> k"
    and "st div BLOCK_SIZE < 2058" and "st mod BLOCK_SIZE + n \<le> BLOCK_SIZE" and "int (st + n) \<le> i_size (disk_inode (dev sb) k)"
    and "0 \<notin> set (map (content (disk_inode (dev sb) k) (dev sb)) [st..<st + n])"
    and "nargs c = 4" and "cur_dir c = a" and "arg 1 c = Inr name" and "arg 2 c = Inr s2" and "str_to_offset s2 = Inr (int st)"
    and "arg 3 c = Inr s3" and "str_to_size s3 = Inr (int n)" and "mal (int n + 1)"
  shows "\<exists>sb'. cmd_read mal c sb = Some (Inr (int n, [Text (map (content (disk_inode (dev sb) k) (dev sb)) [st..<st + n] @ [10])], c, sb')) \<and>
    tab_ok sb' \<and> inodes sb' = inodes sb \<and> same_disk sb sb'"
proof -
  have o: "sb_ok sb" "tab_ok sb" "quiet sb" using assms(1) by (auto simp: fs_ok_def)
  let ?d = "disk_inode (dev sb) k" and ?f = "ibrk sb"
  let ?i = "\<lparr>din = ?d, i_flags = False, i_nr = k, i_count = 1\<rparr>"
  obtain sb1 where 1: "testfs_get_file_inode a name sb = Inr (0, Some ?f, sb1)" "inodes sb ?f = None" "inodes sb1 = (inodes sb)(?f \<mapsto> ?i)"
    "tab_ok sb1" "same_disk sb sb1" using get_file_inode_spec[OF o(1-3) assms(2-8,10)] by blast
  have s1: "sb_ok sb1" "file_ok sb1 (din ?i)" "inodes sb1 ?f = Some ?i" using same_disk_ok[OF 1(5)] o(1) assms(9) 1(3) by auto
  have rd: "testfs_read_data ?f (int st) (int n) sb1 = Inr (int n, map (content ?d (dev sb)) [st..<st + n])"
    using read_data_spec[OF s1 assms(11,12)] assms(13) 1(5) by simp
  obtain sb2 where 2: "testfs_put_inode ?f sb1 = Inr sb2" "tab_ok sb2" "inodes sb2 = (inodes sb1)(?f := None)" "same_disk sb1 sb2"
    using put_inode_spec[OF 1(4) s1(3)] by auto
  have in2: "inodes sb2 = inodes sb" using 2(3) 1(2,3) by auto
  have small: "st < 2058 * 8192" "n \<le> 8192" using assms(11,12) by (simp_all add: BLOCK_SIZE_def div_less_iff_less_mult)
  then have s: "wrap64 (int n) = int n" "wrap64 (int st + int n) = int st + int n" "(int n + 1) mod 18446744073709551616 = int n + 1"
    by (auto intro!: wrap64_id simp: s64_def)
  have "cmd_read mal c sb = Some (Inr (int n, [Text (map (content ?d (dev sb)) [st..<st + n] @ [10])], c, sb2))"
    using assms(13,15-22) 1(1) s1(3) rd 2(1) s cstring_name[OF assms(14)] by (simp add: cmd_read_def)
  then show ?thesis using 2 in2 1(5) by simp
qed

lemma close_leaked:
  assumes "sb_ok sb" and "tab_ok sb" and "inodes sb b = Some i"
  shows "testfs_close_super_block sb = Inl Assert_failed"
proof -
  obtain t where t: "inode_hash_table sb = Some t" "hashed t (inodes sb)" using assms(2) by (auto simp: tab_ok_def)
  have h: "inode_hashfn (i_nr i) < 256" by (rule inode_hashfn_bound)
  then have "b \<in> set (t ! inode_hashfn (i_nr i))" "inode_hashfn (i_nr i) < length t" using t(2) assms(3) by (auto simp: hashed_def)
  then have "\<not> (\<forall>c\<in>set t. c = [])" by (metis empty_iff list.set(1) nth_mem)
  moreover have "0 < length (dev sb)" using assms(1) unfolding sb_ok_def by linarith
  ultimately show ?thesis using t(1) unfolding testfs_close_super_block_def
    by (simp only: write_super bindR_Inr inode_hash_destroy_def) (auto simp: assertR_def)
qed

section \<open>Properties\<close>

text \<open>
  C38. What is written is read. In a consistent file system, \<open>write FILE OFFSET DATA\<close> with data that
  lies within one block returns its length, stores it and leaves the state consistent and the current
  directory unchanged; \<open>read FILE OFFSET SIZE\<close> of the same range then prints exactly the data and
  changes nothing.
\<close>

theorem shell_write_then_read:
  assumes "fs_ok sb" and "inodes sb a = Some ino" and "file_ok sb (din ino)" and "dir_rep (din ino) (dev sb) es"
    and "0 \<notin> set name" and "dir_map es name = Some k" and "k < 16384" and "nat k \<in> used (ifree sb)"
    and "i_type (disk_inode (dev sb) k) \<noteq> type_nr I_DIR" and "file_ok sb (disk_inode (dev sb) k)" and "0 \<le> i_size (disk_inode (dev sb) k)"
    and "\<forall>b i. inodes sb b = Some i \<longrightarrow> i_nr i \<noteq> k" and "blocks_of sb (din ino) \<inter> blocks_of sb (disk_inode (dev sb) k) = {}"
    and "buf \<noteq> []" and "0 \<notin> set buf" and "st div BLOCK_SIZE < 2058" and "st mod BLOCK_SIZE + length buf \<le> BLOCK_SIZE" and "1 < room sb"
    and "nargs c = 4" and "cur_dir c = a" and "arg 1 c = Inr name" and "arg 2 c = Inr s2" and "str_to_offset s2 = Inr (int st)" and "arg 3 c = Inr buf"
    and "nargs c' = 4" and "cur_dir c' = a" and "arg 1 c' = Inr name" and "arg 2 c' = Inr s2" and "arg 3 c' = Inr s3"
    and "str_to_size s3 = Inr (int (length buf))" and "mal (int (length buf) + 1)"
  shows "\<exists>sb' sb''. cmd_write c sb = Some (Inr (int (length buf), [], c, sb')) \<and> fs_ok sb' \<and> inodes sb' = inodes sb \<and>
    dir_rep (din ino) (dev sb') es \<and>
    cmd_read mal c' sb' = Some (Inr (int (length buf), [Text (buf @ [10])], c', sb'')) \<and> fs_ok sb'' \<and> same_disk sb' sb'' \<and> inodes sb'' = inodes sb'"
proof -
  obtain sb' where w: "cmd_write c sb = Some (Inr (int (length buf), [], c, sb'))" "fs_ok sb'" "inodes sb' = inodes sb"
    "file_ok sb' (din ino)" "dir_rep (din ino) (dev sb') es" "file_ok sb' (disk_inode (dev sb') k)" "i_type (disk_inode (dev sb') k) \<noteq> type_nr I_DIR"
    "int (st + length buf) \<le> i_size (disk_inode (dev sb') k)"
    "\<forall>pos. pos div BLOCK_SIZE < 2058 \<longrightarrow> content (disk_inode (dev sb') k) (dev sb') pos =
      (if st \<le> pos \<and> pos < st + length buf then buf ! (pos - st) else content (disk_inode (dev sb) k) (dev sb) pos)"
    using write_cmd_spec[OF assms(1-14,16-24)] assms(9) by auto
  let ?c = "map (content (disk_inode (dev sb') k) (dev sb')) [st..<st + length buf]"
  have buf: "?c = buf"
  proof (rule nth_equalityI)
    fix i assume "i < length ?c"
    then have i: "i < length buf" by simp
    have "(st + i) div BLOCK_SIZE = st div BLOCK_SIZE" using other_block[of "st + i" st "length buf"] assms(17) i by auto
    then show "?c ! i = buf ! i" using w(9)[rule_format, of "st + i"] assms(16) i by simp
  qed simp
  have in': "inodes sb' a = Some ino" "\<forall>b i. inodes sb' b = Some i \<longrightarrow> i_nr i \<noteq> k" using w(3) assms(2,12) by auto
  have "0 \<notin> set ?c" using buf assms(15) by simp
  from read_cmd_spec[OF w(2) in'(1) w(4,5) assms(5-7) w(7,6) in'(2) assms(16,17) w(8) this assms(25-28,23,29,30), of mal] assms(31)
  obtain sb'' where r: "cmd_read mal c' sb' = Some (Inr (int (length buf), [Text (buf @ [10])], c', sb''))" "tab_ok sb''"
    "inodes sb'' = inodes sb'" "same_disk sb' sb''" unfolding buf by blast
  have "fs_ok sb''" using w(2) r(2-4) same_disk_ok(1)[OF r(4)] by (simp add: fs_ok_def quiet_def inodes_used_def free_zero_def)
  then show ?thesis using w r by blast
qed

theorem shell_write_then_read_witness:
  "\<exists>a sb sb' sb''. cmd_write \<lparr>nargs = 4, cmd = [None, Some [102], Some [53], Some [104, 105], None, None, None], cur_dir = a\<rparr> sb =
      Some (Inr (2, [], \<lparr>nargs = 4, cmd = [None, Some [102], Some [53], Some [104, 105], None, None, None], cur_dir = a\<rparr>, sb')) \<and>
    cmd_read (\<lambda>_. True) \<lparr>nargs = 4, cmd = [None, Some [102], Some [53], Some [50], None, None, None], cur_dir = a\<rparr> sb' =
      Some (Inr (2, [Text [104, 105, 10]], \<lparr>nargs = 4, cmd = [None, Some [102], Some [53], Some [50], None, None, None], cur_dir = a\<rparr>, sb''))"
proof -
  obtain sb0 a ino0 es0 where m: "fs_ok sb0" "inodes sb0 = [a \<mapsto> ino0]" "file_ok sb0 (din ino0)" "dir_rep (din ino0) (dev sb0) es0"
    "i_nr ino0 = 0" "dir_map es0 = [dot \<mapsto> 0, dotdot \<mapsto> 0]" "length (dir_bytes es0) \<le> 21" "used (ifree sb0) = {0}" "4 < room sb0"
    by (rule mounted)
  have i: "inodes sb0 a = Some ino0" using m(2) by simp
  have n: "dir_map es0 [102] = None" using m(6) by (simp add: dot_def dotdot_def)
  have l: "length (dir_bytes es0) mod BLOCK_SIZE + length [102 :: byte] + 9 \<le> BLOCK_SIZE"
    "length (dir_bytes es0) + length [102 :: byte] + 9 \<le> 2058 * BLOCK_SIZE" "length [102 :: byte] + 9 \<le> BLOCK_SIZE"
    using m(7) by (auto simp: BLOCK_SIZE_def)
  obtain sb ino es where c: "fs_ok sb" "inodes sb = [a \<mapsto> ino]" "i_nr ino = 0" "file_ok sb (din ino)" "dir_rep (din ino) (dev sb) es"
    "dir_map es = (dir_map es0)([102] \<mapsto> 1)" "used (ifree sb) = {1, 0}" "disk_inode (dev sb) 1 = zero_dinode\<lparr>i_type := 1\<rparr>" "2 < room sb"
    using create_file_spec[OF m(1) i m(3,4) n _ l(3) _ l(2) disjI2[OF l(1)], of 1] m(2,5,8,9) by (auto simp: type_nr_def)
  have in1: "inodes sb a = Some ino" "\<forall>b i. inodes sb b = Some i \<longrightarrow> i_nr i \<noteq> 1" using c(2,3) by (auto split: if_splits)
  have f: "file_ok sb (disk_inode (dev sb) 1)" using empty_file(1)[of sb 1] c(1,8) by (simp add: fs_ok_def)
  have b: "blocks_of sb (disk_inode (dev sb) 1) = {}" by (auto simp: c(8) blocks_of_def zero_dinode_def phys_def nth_Cons')
  let ?w = "\<lparr>nargs = 4, cmd = [None, Some [102], Some [53], Some [104, 105], None, None, None], cur_dir = a\<rparr>"
  let ?r = "\<lparr>nargs = 4, cmd = [None, Some [102], Some [53], Some [50], None, None, None], cur_dir = a\<rparr>"
  have nums: "str_to_offset [53] = Inr (int 5)" "str_to_size [50] = Inr (int (length [104 :: byte, 105]))"
    by (simp_all add: str_to_offset_def str_to_size_def strtoll_def strtoull_def strtol_parse_def digit_byte_def isspace_byte_def digits_value_def)
  show ?thesis
    using shell_write_then_read[OF c(1) _ c(4,5), of a "[102]" 1 "[104, 105]" 5 ?w "[53]" ?r "[50]" "\<lambda>_. True"]
      in1 c(6,7,8,9) f b nums by (auto simp: arg_def BLOCK_SIZE_def type_nr_def zero_dinode_def)
qed

text \<open>
  \<open>ls\<close> lists a directory: one line for each entry in use, in order, with a slash behind the
  names of directories; it returns, and the state is the same afterwards. For a regular file it
  fails with \<open>-ENOTDIR\<close> but keeps its reference to the inode: closing the file system, after the
  current directory was released, then stops at an assertion.
\<close>

lemma ls_command:
  assumes "fs_ok sb" and "inodes sb a = Some ino" and "file_ok sb (din ino)" and "dir_rep (din ino) (dev sb) es"
    and "0 \<notin> set name" and "dir_map es name = Some k" and "k < 16384" and "nargs c = 2" and "cur_dir c = a" and "arg 1 c = Inr name"
    and "i_type (disk_inode (dev sb) k) = type_nr I_DIR \<longrightarrow> file_ok sb (disk_inode (dev sb) k) \<and> dir_rep (disk_inode (dev sb) k) (dev sb) ces \<and>
      (\<forall>e\<in>set (live ces). fst e < 16384)"
  shows "if i_type (disk_inode (dev sb) k) = type_nr I_DIR
    then \<exists>sb'. cmd_ls c sb = Some (Inr (0, map (ls_line (dev sb)) (live ces), c, sb')) \<and> fs_ok sb' \<and> inodes sb' = inodes sb \<and> same_disk sb sb'
    else \<exists>sb'. cmd_ls c sb = Some (Inr (- ENOTDIR, [], c, sb')) \<and> same_disk sb sb' \<and>
      (\<forall>sb''. testfs_put_inode a sb' = Inr sb'' \<longrightarrow> testfs_close_super_block sb'' = Inl Assert_failed)"
proof -
  have o: "sb_ok sb" "tab_ok sb" "quiet sb" using assms(1) by (auto simp: fs_ok_def)
  have k: "0 \<le> k" using dir_map_SomeD[OF assms(6)] by simp
  have nr: "testfs_dir_name_to_inode_nr a name sb = Inr k" using name_to_inode_nr_spec[OF o(1) assms(3,2,4,5)] assms(6) by simp
  obtain b sb1 i sbx where g: "testfs_get_inode k sb = Inr (b, sb1)" "inodes sb1 b = Some i" "din i = disk_inode (dev sb) k" "i_nr i = k"
    "same_disk sb sb1" "tab_ok sb1" "quiet sb1" "testfs_put_inode b sb1 = Inr sbx" "inodes sbx = inodes sb"
    "inodes sb1 = (inodes sb)(b \<mapsto> i)" "\<And>i. inodes sb b = Some i \<Longrightarrow> i_nr i = k" using get_then_put[OF o k assms(7)] by blast
  note S = same_disk_ok[OF g(5)]
  show ?thesis
  proof (cases "i_type (disk_inode (dev sb) k) = type_nr I_DIR")
    case True
    have d: "file_ok sb1 (din i)" "dir_rep (din i) (dev sb1) ([] @ ces)" "\<forall>e\<in>set (live ces). fst e < 16384"
      using assms(11) True g(3,5) S(3) by auto
    have "sb_ok sb1" using S(1) o(1) by simp
    from ls_spec[OF this g(6,7,2) d refl] obtain sb2 where
      l: "testfs_ls False b 0 sb1 = Some (Inr (map (ls_line (dev sb)) (live ces), sb2))" "tab_ok sb2" "inodes sb2 = inodes sb1" "same_disk sb1 sb2"
      using g(5) by auto
    have b2: "inodes sb2 b = Some i" "\<not> i_flags i" using l(3) g(2,7) by (auto simp: quiet_def)
    obtain sb3 where p: "testfs_put_inode b sb2 = Inr sb3" "tab_ok sb3" "same_disk sb2 sb3"
      "inodes sb3 = (inodes sb2)(b := if i_count i = 1 then None else Some (i\<lparr>i_count := i_count i - 1\<rparr>))"
      using put_inode_spec[OF l(2) b2(1)] b2(2) by auto
    have "inodes sb = (inodes sb1)(b := if i_count i = 1 then None else Some (i\<lparr>i_count := i_count i - 1\<rparr>))"
      using put_inode_spec[OF g(6,2)] b2(2) g(8,9) by auto
    then have in3: "inodes sb3 = inodes sb" using p(4) l(3) by simp
    have D: "same_disk sb sb3" using p(3) l(4) g(5) by simp
    have "fs_ok sb3" using assms(1) p(2) in3 D same_disk_ok(1)[OF D] by (simp add: fs_ok_def quiet_def inodes_used_def free_zero_def)
    moreover have "cmd_ls c sb = Some (Inr (0, map (ls_line (dev sb)) (live ces), c, sb3))"
      using assms(8-10) nr k g(1-3) True l(1) p(1) by (simp add: cmd_ls_def cmd_ls_internal_def is_dir_def)
    ultimately show ?thesis unfolding if_P[OF True] using in3 D by blast
  next
    case False
    have ls: "cmd_ls c sb = Some (Inr (- ENOTDIR, [], c, sb1))"
      using assms(8-10) nr k g False by (simp add: cmd_ls_def cmd_ls_internal_def is_dir_def)
    have "testfs_close_super_block sb2 = Inl Assert_failed" if p: "testfs_put_inode a sb1 = Inr sb2" for sb2
    proof -
      have "i_type (din ino) = type_nr I_DIR" using assms(4) by (simp add: dir_rep_def)
      then have "i_nr ino \<noteq> k" using quiet_din[OF o(2,3) assms(2)] False by auto
      then have ab: "a \<noteq> b" using g(11) assms(2) by auto
      then have a1: "inodes sb1 a = Some ino" "\<not> i_flags ino" using g(10) assms(2) o(3) by (auto simp: quiet_def)
      then have q: "tab_ok sb2" "same_disk sb1 sb2" "inodes sb2 b = Some i" using put_inode_spec[OF g(6) a1(1)] p ab g(2) by auto
      then show ?thesis using close_leaked[of sb2 b i] same_disk_ok(1)[OF q(2)] S(1) o(1) by simp
    qed
    then show ?thesis unfolding if_not_P[OF False] using ls g(5) by blast
  qed
qed

lemma ls_command_witness:
  "\<exists>sb sb' a es. cmd_ls \<lparr>nargs = 2, cmd = [None, Some dot], cur_dir = a\<rparr> sb =
     Some (Inr (0, map (ls_line (dev sb)) (live es), \<lparr>nargs = 2, cmd = [None, Some dot], cur_dir = a\<rparr>, sb')) \<and> dir_map es = [dot \<mapsto> 0, dotdot \<mapsto> 0]"
proof -
  obtain sb a ino es where m: "fs_ok sb" "inodes sb = [a \<mapsto> ino]" "file_ok sb (din ino)" "dir_rep (din ino) (dev sb) es"
    "i_nr ino = 0" "dir_map es = [dot \<mapsto> 0, dotdot \<mapsto> 0]" by (rule mounted)
  have i: "inodes sb a = Some ino" using m(2) by simp
  have d: "disk_inode (dev sb) 0 = din ino" using quiet_din[of sb a ino] m(1,5) i by (simp add: fs_ok_def)
  have t: "i_type (disk_inode (dev sb) 0) = type_nr I_DIR" "distinct (map snd (live es))" using m(4) d by (simp_all add: dir_rep_def)
  have "fst e = 0" if "e \<in> set (live es)" for e
  proof -
    have "dir_map es (snd e) = Some (fst e)"
      using that t(2) by (cases e) (auto simp: dir_map_def intro!: map_of_is_SomeI simp: comp_def case_prod_beta' image_iff)
    then show ?thesis using m(6) by (auto split: if_splits)
  qed
  moreover have dm: "dir_map es dot = Some 0" using m(6) by (simp add: names_ok(3))
  ultimately show ?thesis
    using ls_command[OF m(1) i m(3,4) dots(1) dm, of "\<lparr>nargs = 2, cmd = [None, Some dot], cur_dir = a\<rparr>" es, unfolded if_P[OF t(1)]] m(3,4,6) d
    by (auto simp: arg_def)
qed

end
