(* ===== verification/HList.thy ===== *)
theory HList
  imports FsTable
begin

text \<open>
  The hash chains of fs/list.h at pointer level, and the inode hash table they implement. A node
  keeps, besides the next node, the address of the pointer that points to it: the \<open>first\<close> field of a
  head or the \<open>next\<close> field of a node. Theory \<open>FsInode\<close> has the chains of the table as lists; here
  its operations are shown to be what the pointer operations do.
\<close>

section \<open>Chains\<close>

text \<open>The addresses of pointers.\<close>

datatype hptr = First nat | Next addr

record hlist_node =
  hnext :: "addr option"
  pprev :: "hptr option"

record hmem =
  hfirst :: "nat \<Rightarrow> addr option option"
  hnodes :: "addr \<Rightarrow> hlist_node option"

text \<open>Reading and writing \<open>*p\<close> and \<open>n->pprev\<close>.\<close>

definition load :: "hptr \<Rightarrow> hmem \<Rightarrow> addr option res" where
  "load p s =
     (case p of
        First h \<Rightarrow> readR (hfirst s) h
      | Next a \<Rightarrow> bindR (readR (hnodes s) a) (\<lambda>n. Inr (hnext n)))"

definition store :: "hptr \<Rightarrow> addr option \<Rightarrow> hmem \<Rightarrow> hmem res" where
  "store p v s =
     (case p of
        First h \<Rightarrow> bindR (readR (hfirst s) h) (\<lambda>_. Inr (s\<lparr>hfirst := (hfirst s)(h \<mapsto> v)\<rparr>))
      | Next a \<Rightarrow> bindR (readR (hnodes s) a) (\<lambda>n. Inr (s\<lparr>hnodes := (hnodes s)(a \<mapsto> n\<lparr>hnext := v\<rparr>)\<rparr>)))"

definition load_pprev :: "addr \<Rightarrow> hmem \<Rightarrow> hptr option res" where
  "load_pprev a s = bindR (readR (hnodes s) a) (\<lambda>n. Inr (pprev n))"

definition store_pprev :: "addr \<Rightarrow> hptr option \<Rightarrow> hmem \<Rightarrow> hmem res" where
  "store_pprev a v s = bindR (readR (hnodes s) a) (\<lambda>n. Inr (s\<lparr>hnodes := (hnodes s)(a \<mapsto> n\<lparr>pprev := v\<rparr>)\<rparr>))"

text \<open>\<open>if (p) p->pprev = v;\<close>\<close>

definition set_pprev_of :: "addr option \<Rightarrow> hptr option \<Rightarrow> hmem \<Rightarrow> hmem res" where
  "set_pprev_of p v s = (case p of None \<Rightarrow> Inr s | Some a \<Rightarrow> store_pprev a v s)"

definition deref_ptr :: "hptr option \<Rightarrow> hptr res" where
  "deref_ptr p = (case p of None \<Rightarrow> Inl Null_deref | Some q \<Rightarrow> Inr q)"

definition INIT_HLIST_HEAD :: "nat \<Rightarrow> hmem \<Rightarrow> hmem res" where
  "INIT_HLIST_HEAD h s = store (First h) None s"

definition INIT_HLIST_NODE :: "addr \<Rightarrow> hmem \<Rightarrow> hmem res" where
  "INIT_HLIST_NODE n s = bindR (store (Next n) None s) (store_pprev n None)"

definition hlist_empty :: "nat \<Rightarrow> hmem \<Rightarrow> bool res" where
  "hlist_empty h s = bindR (load (First h) s) (\<lambda>f. Inr (f = None))"

definition hlist_add_head :: "addr \<Rightarrow> nat \<Rightarrow> hmem \<Rightarrow> hmem res" where
  "hlist_add_head n h s =
     bindR (load (First h) s) (\<lambda>f.
     bindR (store (Next n) f s) (\<lambda>s.
     bindR (set_pprev_of f (Some (Next n)) s) (\<lambda>s.
     bindR (store (First h) (Some n) s) (\<lambda>s.
       store_pprev n (Some (First h)) s))))"

definition hlist_add_before :: "addr \<Rightarrow> addr \<Rightarrow> hmem \<Rightarrow> hmem res" where
  "hlist_add_before n nx s =
     bindR (load_pprev nx s) (\<lambda>p.
     bindR (store_pprev n p s) (\<lambda>s.
     bindR (store (Next n) (Some nx) s) (\<lambda>s.
     bindR (store_pprev nx (Some (Next n)) s) (\<lambda>s.
     bindR (load_pprev n s) (\<lambda>q.
     bindR (deref_ptr q) (\<lambda>q. store q (Some n) s))))))"

text \<open>The node \<open>nx\<close> is put behind \<open>n\<close>.\<close>

definition hlist_add_after :: "addr \<Rightarrow> addr \<Rightarrow> hmem \<Rightarrow> hmem res" where
  "hlist_add_after n nx s =
     bindR (load (Next n) s) (\<lambda>f.
     bindR (store (Next nx) f s) (\<lambda>s.
     bindR (store (Next n) (Some nx) s) (\<lambda>s.
     bindR (store_pprev nx (Some (Next n)) s) (\<lambda>s.
     bindR (load (Next nx) s) (\<lambda>f. set_pprev_of f (Some (Next nx)) s)))))"

definition hlist_del :: "addr \<Rightarrow> hmem \<Rightarrow> hmem res" where
  "hlist_del n s =
     bindR (load (Next n) s) (\<lambda>nx.
     bindR (load_pprev n s) (\<lambda>p.
     bindR (deref_ptr p) (\<lambda>q.
     bindR (store q nx s) (\<lambda>s.
     bindR (set_pprev_of nx p s) (\<lambda>s.
       INIT_HLIST_NODE n s)))))"

definition hlist_replace :: "addr \<Rightarrow> addr \<Rightarrow> hmem \<Rightarrow> hmem res" where
  "hlist_replace old new s =
     bindR (load (Next old) s) (\<lambda>nx.
     bindR (load_pprev old s) (\<lambda>p.
     bindR (store (Next new) nx s) (\<lambda>s.
     bindR (store_pprev new p s) (\<lambda>s.
     bindR (deref_ptr p) (\<lambda>q.
     bindR (store q (Some new) s) (\<lambda>s.
       set_pprev_of nx (Some (Next new)) s))))))"

text \<open>The nodes \<open>hlist_for_each_entry\<close> visits, from \<open>pos\<close> on.\<close>

partial_function (option) hlist_for_each :: "addr option \<Rightarrow> hmem \<Rightarrow> addr list io" where
  "hlist_for_each pos s =
     (case pos of
        None \<Rightarrow> Some (Inr [])
      | Some a \<Rightarrow>
          (case load (Next a) s of
             Inl e \<Rightarrow> Some (Inl e)
           | Inr n \<Rightarrow> Option.bind (hlist_for_each n s) (\<lambda>r. Some (map_sum id ((#) a) r))))"

section \<open>The list a head denotes\<close>

definition ld :: "hmem \<Rightarrow> hptr \<Rightarrow> addr option option" where
  "ld s p = (case p of First h \<Rightarrow> hfirst s h | Next a \<Rightarrow> map_option hnext (hnodes s a))"

definition bk :: "hmem \<Rightarrow> addr \<Rightarrow> hptr option" where
  "bk s a = Option.bind (hnodes s a) pprev"

definition upd :: "hptr \<Rightarrow> addr option \<Rightarrow> hmem \<Rightarrow> hmem" where
  "upd p v s =
     (case p of
        First h \<Rightarrow> s\<lparr>hfirst := (hfirst s)(h \<mapsto> v)\<rparr>
      | Next a \<Rightarrow> s\<lparr>hnodes := (hnodes s)(a := map_option (\<lambda>n. n\<lparr>hnext := v\<rparr>) (hnodes s a))\<rparr>)"

definition upd_bk :: "addr \<Rightarrow> hptr option \<Rightarrow> hmem \<Rightarrow> hmem" where
  "upd_bk a v s = s\<lparr>hnodes := (hnodes s)(a := map_option (\<lambda>n. n\<lparr>pprev := v\<rparr>) (hnodes s a))\<rparr>"

lemma hptr_access [queue_simps]:
  "ld s p = Some v \<Longrightarrow> load p s = Inr v"
  "ld s p \<noteq> None \<Longrightarrow> store p w s = Inr (upd p w s)"
  "hnodes s a \<noteq> None \<Longrightarrow> load_pprev a s = Inr (bk s a)"
  "hnodes s a \<noteq> None \<Longrightarrow> store_pprev a q s = Inr (upd_bk a q s)"
  by (auto simp: ld_def load_def store_def load_pprev_def store_pprev_def upd_def upd_bk_def bk_def split: hptr.splits)

lemma hptr_fields [simp]:
  "bk (upd p v s) a = bk s a" "ld (upd_bk a w s) q = ld s q"
  "bk (upd_bk a w s) b = (if b = a \<and> hnodes s a \<noteq> None then w else bk s b)"
  "hnodes (upd p v s) a = None \<longleftrightarrow> hnodes s a = None" "hnodes (upd_bk b w s) a = None \<longleftrightarrow> hnodes s a = None"
  by (cases "hnodes s a"; auto simp: ld_def bk_def upd_def upd_bk_def option.map_comp comp_def split: hptr.splits option.splits)+

lemma ld_upd [simp]: "ld s p \<noteq> None \<Longrightarrow> ld (upd p v s) q = (if q = p then Some v else ld s q)"
  by (auto simp: ld_def upd_def split: hptr.splits)

lemma ld_alloc: "ld s (Next a) \<noteq> None \<longleftrightarrow> hnodes s a \<noteq> None"
  by (simp add: ld_def)

fun hpart :: "hmem \<Rightarrow> hptr \<Rightarrow> addr list \<Rightarrow> bool" where
  "hpart s p [] \<longleftrightarrow> True"
| "hpart s p (x # xs) \<longleftrightarrow> ld s p = Some (Some x) \<and> bk s x = Some p \<and> hpart s (Next x) xs"

definition after :: "hptr \<Rightarrow> addr list \<Rightarrow> hptr" where
  "after p xs = (if xs = [] then p else Next (last xs))"

text \<open>The chain that starts at a pointer.\<close>

definition chain_at :: "hmem \<Rightarrow> hptr \<Rightarrow> addr list \<Rightarrow> bool" where
  "chain_at s p xs \<longleftrightarrow> hpart s p xs \<and> ld s (after p xs) = Some None"

lemma chain_at_simps [simp]:
  "chain_at s p [] \<longleftrightarrow> ld s p = Some None"
  "chain_at s p (x # xs) \<longleftrightarrow> ld s p = Some (Some x) \<and> bk s x = Some p \<and> chain_at s (Next x) xs"
  by (auto simp: chain_at_def after_def)

lemma hpart_append: "hpart s p (as @ bs) \<longleftrightarrow> hpart s p as \<and> hpart s (after p as) bs"
  by (induction as arbitrary: p) (auto simp: after_def)

lemma chain_at_append: "chain_at s p (as @ bs) \<longleftrightarrow> hpart s p as \<and> chain_at s (after p as) bs"
  by (auto simp: chain_at_def hpart_append after_def)

lemma chain_at_keep:
  "chain_at s p xs \<Longrightarrow> (\<forall>q\<in>insert p (Next ` set xs). ld s' q = ld s q) \<Longrightarrow> (\<forall>x\<in>set xs. bk s' x = bk s x) \<Longrightarrow>
   chain_at s' p xs"
  by (induction xs arbitrary: p) auto

lemma hpart_keep:
  "hpart s p xs \<Longrightarrow> (\<forall>q\<in>insert p (Next ` set (butlast xs)). ld s' q = ld s q) \<Longrightarrow> (\<forall>x\<in>set xs. bk s' x = bk s x) \<Longrightarrow>
   hpart s' p xs"
proof (induction xs arbitrary: p)
  case (Cons x xs)
  then show ?case by (cases xs) auto
qed simp

lemma chain_at_alloc: "chain_at s p xs \<Longrightarrow> ld s p \<noteq> None \<and> (\<forall>x\<in>set xs. hnodes s x \<noteq> None)"
proof (induction xs arbitrary: p)
  case (Cons x xs)
  then have "ld s (Next x) \<noteq> None" "\<forall>y\<in>set xs. hnodes s y \<noteq> None" using Cons.IH[of "Next x"] by auto
  with Cons.prems show ?case unfolding ld_alloc by simp
qed simp

definition is_hlist :: "hmem \<Rightarrow> nat \<Rightarrow> addr list \<Rightarrow> bool" where
  "is_hlist s h xs \<longleftrightarrow> distinct xs \<and> chain_at s (First h) xs"


text \<open>An operation on one chain leaves the others alone.\<close>

definition hchanges :: "nat \<Rightarrow> addr set \<Rightarrow> hmem \<Rightarrow> hmem \<Rightarrow> bool" where
  "hchanges h A s s' \<longleftrightarrow> (\<forall>q. q \<notin> insert (First h) (Next ` A) \<longrightarrow> ld s' q = ld s q) \<and> (\<forall>x. x \<notin> A \<longrightarrow> bk s' x = bk s x)"

lemma hchanges_keep:
  "hchanges h A s s' \<Longrightarrow> is_hlist s i xs \<Longrightarrow> i \<noteq> h \<Longrightarrow> set xs \<inter> A = {} \<Longrightarrow> is_hlist s' i xs"
  unfolding is_hlist_def hchanges_def by (auto intro!: chain_at_keep[of s])

definition touch :: "addr option \<Rightarrow> hptr option \<Rightarrow> hmem \<Rightarrow> hmem" where
  "touch f v s = (case f of None \<Rightarrow> s | Some a \<Rightarrow> upd_bk a v s)"

lemma set_pprev_of_touch [queue_simps]:
  "(\<And>a. f = Some a \<Longrightarrow> hnodes s a \<noteq> None) \<Longrightarrow> set_pprev_of f v s = Inr (touch f v s)"
  by (auto simp: set_pprev_of_def touch_def queue_simps split: option.split)

lemma touch_fields [simp]:
  "ld (touch f v s) q = ld s q" "hnodes (touch f v s) a = None \<longleftrightarrow> hnodes s a = None"
  "bk (touch f v s) b = (if f = Some b \<and> hnodes s b \<noteq> None then v else bk s b)"
  by (auto simp: touch_def split: option.split)

text \<open>The node a chain starts with; a chain hung up at another pointer, and its part before a
  pointer that changes.\<close>

definition first_of :: "addr list \<Rightarrow> addr option" where
  "first_of xs = (case xs of [] \<Rightarrow> None | x # _ \<Rightarrow> Some x)"

lemma first_of_in: "first_of xs = Some a \<Longrightarrow> a \<in> set xs"
  by (cases xs) (auto simp: first_of_def)

lemma chain_at_first: "chain_at s p xs \<Longrightarrow> ld s p = Some (first_of xs)"
  by (cases xs) (auto simp: first_of_def)

lemma chain_move:
  assumes "chain_at s p bs" and "ld s' q = Some (first_of bs)" and "\<forall>b. first_of bs = Some b \<longrightarrow> bk s' b = Some q"
    and "\<forall>x\<in>set bs. ld s' (Next x) = ld s (Next x)" and "\<forall>x\<in>set bs. first_of bs \<noteq> Some x \<longrightarrow> bk s' x = bk s x"
    and "distinct bs"
  shows "chain_at s' q bs"
proof (cases bs)
  case (Cons b cs)
  note a = assms[unfolded Cons first_of_def, simplified]
  have "chain_at s (Next b) cs" using a(1) by simp
  then have "chain_at s' (Next b) cs"
    by (rule chain_at_keep) (use a(4,5,6) in auto)
  with a(2,3) Cons show ?thesis by simp
qed (use assms in \<open>simp add: first_of_def\<close>)

lemma hpart_before:
  assumes "hpart s (First h) as" and "distinct as" and "\<forall>x\<in>set as. bk s' x = bk s x"
    and "\<forall>q\<in>insert (First h) (Next ` set as). q \<noteq> after (First h) as \<longrightarrow> ld s' q = ld s q"
  shows "hpart s' (First h) as"
proof (cases "as = []")
  case False
  have "last as \<notin> set (butlast as)"
    using assms(2) False by (metis append_butlast_last_id distinct_append disjoint_iff list.set_intros(1))
  then have "x \<in> set as \<and> x \<noteq> last as" if "x \<in> set (butlast as)" for x using that by (auto dest: in_set_butlastD)
  then show ?thesis
    using assms(3,4) False by (intro hpart_keep[OF assms(1)]) (auto simp: after_def)
qed simp

lemma after_ne: "x \<notin> set as \<Longrightarrow> after (First h) as \<noteq> Next x"
  by (auto simp: after_def)

lemma hlist_add_head_spec:
  assumes "is_hlist s h xs" and "hnodes s n \<noteq> None" and "n \<notin> set xs"
  shows "\<exists>s'. hlist_add_head n h s = Inr s' \<and> is_hlist s' h (n # xs) \<and> hchanges h (set (n # xs)) s s'"
proof -
  have c: "chain_at s (First h) xs" "distinct xs" using assms(1) by (auto simp: is_hlist_def)
  let ?f = "first_of xs"
  note f = chain_at_first[OF c(1)]
  have fa: "hnodes s a \<noteq> None" "a \<noteq> n" if "?f = Some a" for a
    using that chain_at_alloc[OF c(1)] first_of_in[OF that] assms(3) by auto
  have nn: "ld s (Next n) \<noteq> None" using assms(2) ld_alloc by blast
  let ?s = "upd_bk n (Some (First h)) (upd (First h) (Some n) (touch ?f (Some (Next n)) (upd (Next n) ?f s)))"
  have "hlist_add_head n h s = Inr ?s"
    using f fa nn assms(2) by (simp add: hlist_add_head_def queue_simps)
  moreover have "chain_at ?s (Next n) xs"
    by (rule chain_move[OF c(1)]) (use f fa nn assms(3) c(2) in auto)
  then have "is_hlist ?s h (n # xs)" using c(2) assms(2,3) f nn by (auto simp: is_hlist_def)
  moreover have "hchanges h (set (n # xs)) s ?s"
    using f nn first_of_in[of xs] by (auto simp: hchanges_def)
  ultimately show ?thesis by blast
qed

lemma hlist_del_spec:
  assumes "is_hlist s h (as @ e # bs)"
  shows "\<exists>s'. hlist_del e s = Inr s' \<and> is_hlist s' h (as @ bs) \<and> hchanges h (set (as @ e # bs)) s s'"
proof -
  let ?q = "after (First h) as" and ?f = "first_of bs"
  have c: "hpart s (First h) as" "ld s ?q = Some (Some e)" "bk s e = Some ?q" "chain_at s (Next e) bs"
    and d: "distinct (as @ e # bs)" using assms by (auto simp: is_hlist_def chain_at_append)
  have al: "hnodes s e \<noteq> None" "\<forall>b\<in>set bs. hnodes s b \<noteq> None" using chain_at_alloc[OF c(4)] ld_alloc by auto
  note f = chain_at_first[OF c(4)]
  have fa: "hnodes s a \<noteq> None" "a \<notin> set as" "a \<noteq> e" if "?f = Some a" for a
    using first_of_in[OF that] al(2) d by auto
  have q: "?q \<noteq> Next e" "\<forall>x\<in>set bs. ?q \<noteq> Next x" using d after_ne by (auto simp: disjoint_iff)
  let ?s = "upd_bk e None (upd (Next e) None (touch ?f (Some ?q) (upd ?q ?f s)))"
  have r: "hlist_del e s = Inr ?s"
    using f fa c(2,3) al(1) q by (simp add: hlist_del_def deref_ptr_def INIT_HLIST_NODE_def queue_simps)
  have "hpart ?s (First h) as" by (rule hpart_before[OF c(1)]) (use d fa c(2) f q in auto)
  moreover have "chain_at ?s ?q bs" by (rule chain_move[OF c(4)]) (use d fa c(2) f q in auto)
  ultimately have "is_hlist ?s h (as @ bs)" using d by (auto simp: is_hlist_def chain_at_append)
  moreover have "hchanges h (set (as @ e # bs)) s ?s"
    using c(2) f q first_of_in[of bs] by (auto simp: hchanges_def after_def)
  ultimately show ?thesis using r by blast
qed

lemma hlist_replace_spec:
  assumes "is_hlist s h (as @ old # bs)" and "hnodes s new \<noteq> None" and "new \<notin> set (as @ old # bs)"
  shows "\<exists>s'. hlist_replace old new s = Inr s' \<and> is_hlist s' h (as @ new # bs) \<and> hchanges h (set (new # as @ bs)) s s'"
proof -
  let ?q = "after (First h) as" and ?f = "first_of bs"
  have c: "hpart s (First h) as" "ld s ?q = Some (Some old)" "bk s old = Some ?q" "chain_at s (Next old) bs"
    and d: "distinct (as @ old # bs)" using assms(1) by (auto simp: is_hlist_def chain_at_append)
  have al: "hnodes s old \<noteq> None" "\<forall>b\<in>set bs. hnodes s b \<noteq> None" "ld s (Next new) \<noteq> None"
    using chain_at_alloc[OF c(4)] ld_alloc assms(2) by blast+
  note f = chain_at_first[OF c(4)]
  have fa: "hnodes s a \<noteq> None" "a \<notin> set as" "a \<noteq> new" if "?f = Some a" for a
    using first_of_in[OF that] al(2) d assms(3) by auto
  have q: "?q \<noteq> Next new" "\<forall>x\<in>set bs. ?q \<noteq> Next x" "new \<noteq> old" using d after_ne assms(3) by (auto simp: disjoint_iff)
  let ?s = "touch ?f (Some (Next new)) (upd ?q (Some new) (upd_bk new (Some ?q) (upd (Next new) ?f s)))"
  have r: "hlist_replace old new s = Inr ?s"
    using f fa c(2,3) al assms(2) q by (simp add: hlist_replace_def deref_ptr_def queue_simps)
  have "hpart ?s (First h) as" by (rule hpart_before[OF c(1)]) (use d fa c(2) f q al assms(3) in auto)
  moreover have "chain_at ?s (Next new) bs" by (rule chain_move[OF c(4)]) (use d fa c(2) f q al assms(3) in auto)
  ultimately have "is_hlist ?s h (as @ new # bs)"
    using d c(2) f q al assms(2,3) fa(3) by (auto simp: is_hlist_def chain_at_append)
  moreover have "hchanges h (set (new # as @ bs)) s ?s"
    using c(2) f q al first_of_in[of bs] by (auto simp: hchanges_def after_def)
  ultimately show ?thesis using r by blast
qed

lemma hlist_add_before_spec:
  assumes "is_hlist s h (as @ nx # bs)" and "hnodes s n \<noteq> None" and "n \<notin> set (as @ nx # bs)"
  shows "\<exists>s'. hlist_add_before n nx s = Inr s' \<and> is_hlist s' h (as @ n # nx # bs) \<and> hchanges h (set (n # as @ [nx])) s s'"
proof -
  let ?q = "after (First h) as"
  have c: "hpart s (First h) as" "ld s ?q = Some (Some nx)" "bk s nx = Some ?q" "chain_at s (Next nx) bs" "chain_at s ?q (nx # bs)"
    and d: "distinct (as @ nx # bs)" using assms(1) by (auto simp: is_hlist_def chain_at_append)
  have al: "hnodes s nx \<noteq> None" "ld s (Next n) \<noteq> None"
    using chain_at_alloc[OF c(4)] ld_alloc assms(2) by blast+
  have q: "?q \<noteq> Next n" "\<forall>x\<in>set (nx # bs). ?q \<noteq> Next x" "n \<noteq> nx" using d after_ne assms(3) by (auto simp: disjoint_iff)
  let ?s = "upd ?q (Some n) (upd_bk nx (Some (Next n)) (upd (Next n) (Some nx) (upd_bk n (Some ?q) s)))"
  have r: "hlist_add_before n nx s = Inr ?s"
    using c(2,3) al assms(2) q by (simp add: hlist_add_before_def deref_ptr_def queue_simps)
  have "hpart ?s (First h) as" by (rule hpart_before[OF c(1)]) (use d c(2) q al assms(3) in auto)
  moreover have "chain_at ?s (Next n) (nx # bs)"
    by (rule chain_move[OF c(5)]) (use d c(2) q al assms(3) in \<open>auto simp: first_of_def\<close>)
  ultimately have "is_hlist ?s h (as @ n # nx # bs)"
    using d c(2) q al assms(2,3) by (auto simp: is_hlist_def chain_at_append simp del: chain_at_simps(2)) (simp add: q(3))
  moreover have "hchanges h (set (n # as @ [nx])) s ?s"
    using c(2) q al by (auto simp: hchanges_def after_def)
  ultimately show ?thesis using r by blast
qed

lemma hlist_add_after_spec:
  assumes "is_hlist s h (as @ n # bs)" and "hnodes s nx \<noteq> None" and "nx \<notin> set (as @ n # bs)"
  shows "\<exists>s'. hlist_add_after n nx s = Inr s' \<and> is_hlist s' h (as @ n # nx # bs) \<and> hchanges h (set (n # nx # bs)) s s'"
proof -
  let ?q = "after (First h) as" and ?f = "first_of bs"
  have c: "hpart s (First h) as" "ld s ?q = Some (Some n)" "bk s n = Some ?q" "chain_at s (Next n) bs"
    and d: "distinct (as @ n # bs)" using assms(1) by (auto simp: is_hlist_def chain_at_append)
  have al: "hnodes s n \<noteq> None" "\<forall>b\<in>set bs. hnodes s b \<noteq> None" "ld s (Next nx) \<noteq> None"
    using chain_at_alloc[OF c(4)] ld_alloc assms(2) by blast+
  note f = chain_at_first[OF c(4)]
  have fa: "hnodes s a \<noteq> None" "a \<notin> set as" "a \<noteq> nx" "a \<noteq> n" if "?f = Some a" for a
    using first_of_in[OF that] al(2) d assms(3) by auto
  have q: "?q \<noteq> Next n" "?q \<noteq> Next nx" "nx \<noteq> n" using d after_ne assms(3) by auto
  let ?s = "touch ?f (Some (Next nx)) (upd_bk nx (Some (Next n)) (upd (Next n) (Some nx) (upd (Next nx) ?f s)))"
  have r: "hlist_add_after n nx s = Inr ?s"
    using f fa al assms(2) q by (simp add: hlist_add_after_def queue_simps)
  have "hpart ?s (First h) as" by (rule hpart_before[OF c(1)]) (use d fa f q al assms(3) in auto)
  moreover have "chain_at ?s (Next nx) bs" by (rule chain_move[OF c(4)]) (use d fa f q al assms(3) in auto)
  ultimately have "is_hlist ?s h (as @ n # nx # bs)"
    using d c f q al assms(2,3) fa by (auto simp: is_hlist_def chain_at_append)
  moreover have "hchanges h (set (n # nx # bs)) s ?s"
    using f q al first_of_in[of bs] by (auto simp: hchanges_def)
  ultimately show ?thesis using r by blast
qed

lemma hlist_for_each_from: "chain_at s p xs \<Longrightarrow> hlist_for_each (first_of xs) s = Some (Inr xs)"
proof (induction xs arbitrary: p)
  case Nil
  then show ?case by (subst hlist_for_each.simps) (simp add: first_of_def)
next
  case (Cons x xs)
  then have "chain_at s (Next x) xs" by simp
  with Cons.IH[OF this] chain_at_first[OF this] show ?case
    by (subst hlist_for_each.simps) (simp add: first_of_def queue_simps)
qed


section \<open>The table\<close>

text \<open>
  What the inode table relies on: the chain of a head, adding a node in front of it and removing a
  node from the chain it is in. \<open>changes h A\<close> bounds what an operation on chain \<open>h\<close> may touch.
\<close>

locale hash_chains =
  fixes chain_of :: "'s \<Rightarrow> nat \<Rightarrow> addr list \<Rightarrow> bool"
    and changes :: "nat \<Rightarrow> addr set \<Rightarrow> 's \<Rightarrow> 's \<Rightarrow> bool"
    and allocated :: "'s \<Rightarrow> addr \<Rightarrow> bool"
    and add_head :: "addr \<Rightarrow> nat \<Rightarrow> 's \<Rightarrow> 's res"
    and del :: "addr \<Rightarrow> 's \<Rightarrow> 's res"
  assumes chain_distinct: "chain_of s h xs \<Longrightarrow> distinct xs"
    and other_chain: "changes h A s s' \<Longrightarrow> chain_of s i xs \<Longrightarrow> i \<noteq> h \<Longrightarrow> set xs \<inter> A = {} \<Longrightarrow> chain_of s' i xs"
    and add_head_law: "chain_of s h xs \<Longrightarrow> allocated s n \<Longrightarrow> n \<notin> set xs \<Longrightarrow>
      \<exists>s'. add_head n h s = Inr s' \<and> chain_of s' h (n # xs) \<and> changes h (set (n # xs)) s s'"
    and del_law: "chain_of s h (as @ e # bs) \<Longrightarrow>
      \<exists>s'. del e s = Inr s' \<and> chain_of s' h (as @ bs) \<and> changes h (set (as @ e # bs)) s s'"

text \<open>The heads \<open>0, ..., n - 1\<close> hold the chains of a table and no node is in two of them.\<close>

definition table_of :: "('s \<Rightarrow> nat \<Rightarrow> addr list \<Rightarrow> bool) \<Rightarrow> 's \<Rightarrow> addr list list \<Rightarrow> bool" where
  "table_of chain_of s t \<longleftrightarrow> (\<forall>i < length t. chain_of s i (t ! i)) \<and>
     (\<forall>i < length t. \<forall>j < length t. i \<noteq> j \<longrightarrow> set (t ! i) \<inter> set (t ! j) = {})"

abbreviation table_abs :: "hmem \<Rightarrow> addr list list \<Rightarrow> bool" where
  "table_abs \<equiv> table_of is_hlist"

lemma map_remove1_table:
  assumes "table_of chain_of s t" and "i < length t" and "a \<in> set (t ! i)"
  shows "map (remove1 a) t = t[i := remove1 a (t ! i)]"
proof (rule nth_equalityI)
  fix j assume j: "j < length (map (remove1 a) t)"
  have "a \<notin> set (t ! j)" if "j \<noteq> i" using assms that j by (auto simp: table_of_def)
  with j show "map (remove1 a) t ! j = t[i := remove1 a (t ! i)] ! j"
    by (cases "j = i") (auto simp: remove1_idem)
qed simp

context hash_chains
begin

text \<open>An operation on one chain, seen on the table.\<close>

lemma table_update:
  assumes "table_of chain_of s t" and "i < length t" and "chain_of s' i c" and "changes i A s s'"
    and "A \<subseteq> set (t ! i) \<union> B" and "set c \<subseteq> set (t ! i) \<union> B" and "\<forall>j < length t. B \<inter> set (t ! j) = {}"
  shows "table_of chain_of s' (t[i := c])"
proof -
  have dj: "set (t ! j) \<inter> (set (t ! i) \<union> B) = {}" if "j < length t" "j \<noteq> i" for j
    using that assms(1,2,7) unfolding table_of_def by blast
  have "chain_of s' j (t[i := c] ! j)" if "j < length t" for j
  proof (cases "j = i")
    case False
    have "chain_of s j (t ! j)" using assms(1) that by (simp add: table_of_def)
    from other_chain[OF assms(4) this False] dj[OF that False] assms(5) False show ?thesis by auto
  qed (use assms(2,3) in simp)
  moreover have "set (t[i := c] ! j) \<inter> set (t[i := c] ! k) = {}" if "j < length t" "k < length t" "j \<noteq> k" for j k
  proof -
    have "set (t ! j) \<inter> set (t ! k) = {}" using assms(1) that by (simp add: table_of_def)
    with dj[OF that(1)] dj[OF that(2)] assms(6) that show ?thesis by (cases "j = i"; cases "k = i") auto
  qed
  ultimately show ?thesis by (simp add: table_of_def)
qed

lemma table_add:
  assumes "table_of chain_of s t" and "i < length t" and "allocated s a" and "a \<notin> set (concat t)"
  shows "\<exists>s'. add_head a i s = Inr s' \<and> table_of chain_of s' (t[i := a # t ! i])"
proof -
  have na: "\<forall>j < length t. {a} \<inter> set (t ! j) = {}" using assms(4) by auto
  have "chain_of s i (t ! i)" using assms(1,2) by (simp add: table_of_def)
  from add_head_law[OF this assms(3)] na assms(2) obtain s' where
    s': "add_head a i s = Inr s'" "chain_of s' i (a # t ! i)" "changes i (set (a # t ! i)) s s'" by auto
  have "table_of chain_of s' (t[i := a # t ! i])" by (rule table_update[OF assms(1,2) s'(2,3) _ _ na]) auto
  with s'(1) show ?thesis by blast
qed

lemma table_del:
  assumes "table_of chain_of s t" and "a \<in> set (concat t)"
  shows "\<exists>s'. del a s = Inr s' \<and> table_of chain_of s' (map (remove1 a) t) \<and> a \<notin> set (concat (map (remove1 a) t))"
proof -
  have l: "chain_of s i (t ! i)" if "i < length t" for i using assms(1) that by (simp add: table_of_def)
  from assms(2) obtain i where i: "i < length t" "a \<in> set (t ! i)" by (auto simp: in_set_conv_nth[of _ t])
  then obtain as bs where ab: "t ! i = as @ a # bs" by (meson split_list)
  have d: "distinct (as @ a # bs)" using chain_distinct[OF l[OF i(1)]] ab by simp
  from del_law[of s i as a bs] l[OF i(1)] ab obtain s' where
    s': "del a s = Inr s'" "chain_of s' i (as @ bs)" "changes i (set (t ! i)) s s'" by auto
  have "remove1 a (t ! i) = as @ bs" using ab d by (simp add: remove1_append)
  then have t': "map (remove1 a) t = t[i := as @ bs]" using map_remove1_table[OF assms(1) i] by simp
  have "table_of chain_of s' (t[i := as @ bs])"
    by (rule table_update[OF assms(1) i(1) s'(2,3), of "{}"]) (use ab in auto)
  moreover have "a \<notin> set (concat (map (remove1 a) t))"
    using chain_distinct[OF l] by (auto simp: in_set_conv_nth[of _ t])
  ultimately show ?thesis using s'(1) t' by metis
qed

end

interpretation hc: hash_chains is_hlist hchanges "\<lambda>s a. hnodes s a \<noteq> None" hlist_add_head hlist_del
proof (unfold_locales, goal_cases)
  case (1 s h xs)
  then show ?case by (simp add: is_hlist_def)
next
  case (2 h A s s' i xs)
  then show ?case by (rule hchanges_keep)
next
  case (3 s h xs n)
  then show ?case by (rule hlist_add_head_spec)
next
  case (4 s h as e bs)
  then show ?case by (rule hlist_del_spec)
qed

text \<open>
  C34. The chains of fs/list.h implement the inode hash table. Inserting an inode that is in no
  chain and removing one that is in a chain, by the pointer operations, leaves a table that holds the
  chains the operations of the inode table compute, whichever chain is concerned: no other chain
  changes and no pointer dangles. Walking along a chain visits its inodes in order and ends.
\<close>

theorem hash_chains_refine_table:
  assumes "table_abs s t" and "inode_hash_table sb = Some t" and "inodes sb a = Some ino" and "hnodes s a \<noteq> None"
    and "inode_hashfn (i_nr ino) < length t"
  shows "(a \<notin> set (concat t) \<longrightarrow> (\<exists>s' t'. hlist_add_head a (inode_hashfn (i_nr ino)) s = Inr s' \<and>
      inode_hash_insert a sb = Inr (sb\<lparr>inode_hash_table := Some t'\<rparr>) \<and> table_abs s' t')) \<and>
    (a \<in> set (concat t) \<longrightarrow> (\<exists>s' t'. hlist_del a s = Inr s' \<and>
      inode_hash_remove a sb = Inr (sb\<lparr>inode_hash_table := Some t'\<rparr>) \<and> table_abs s' t' \<and> a \<notin> set (concat t'))) \<and>
    (\<forall>i < length t. hlist_empty i s = Inr (t ! i = []) \<and> load (First i) s = Inr (first_of (t ! i)) \<and>
      hlist_for_each (first_of (t ! i)) s = Some (Inr (t ! i)))"
proof (intro conjI impI allI)
  let ?i = "inode_hashfn (i_nr ino)"
  assume "a \<notin> set (concat t)"
  from hc.table_add[OF assms(1,5,4) this]
  show "\<exists>s' t'. hlist_add_head a ?i s = Inr s' \<and>
      inode_hash_insert a sb = Inr (sb\<lparr>inode_hash_table := Some t'\<rparr>) \<and> table_abs s' t'"
    using assms(2,3,5) by (auto simp: inode_hash_insert_def the_table_def bucket_def)
next
  assume "a \<in> set (concat t)"
  from hc.table_del[OF assms(1) this]
  show "\<exists>s' t'. hlist_del a s = Inr s' \<and>
      inode_hash_remove a sb = Inr (sb\<lparr>inode_hash_table := Some t'\<rparr>) \<and> table_abs s' t' \<and> a \<notin> set (concat t')"
    using assms(2) by (auto simp: inode_hash_remove_def the_table_def intro!: exI[of _ "map (remove1 a) t"])
next
  fix i assume "i < length t"
  then have c: "chain_at s (First i) (t ! i)" using assms(1) by (simp add: table_of_def is_hlist_def)
  note f = chain_at_first[OF c]
  show "hlist_empty i s = Inr (t ! i = [])"
    using f by (cases "t ! i") (auto simp: hlist_empty_def queue_simps first_of_def)
  show "load (First i) s = Inr (first_of (t ! i))" using f by (simp add: queue_simps)
  show "hlist_for_each (first_of (t ! i)) s = Some (Inr (t ! i))" by (rule hlist_for_each_from[OF c])
qed

theorem hash_chains_refine_table_witness:
  "\<exists>s' t'. hlist_add_head 1 (inode_hashfn 5) \<lparr>hfirst = \<lambda>i. if i < 256 then Some None else None,
       hnodes = [1 \<mapsto> \<lparr>hnext = None, pprev = None\<rparr>]\<rparr> = Inr s' \<and> table_abs s' t' \<and>
     inode_hash_insert 1 \<lparr>dev = [], dsb = dec_super [], inode_freemap = None, block_freemap = None,
         inode_hash_table = Some (replicate 256 []),
         inodes = [1 \<mapsto> \<lparr>din = zero_dinode, i_flags = False, i_nr = 5, i_count = 1\<rparr>], ibrk = 2\<rparr> =
       Inr \<lparr>dev = [], dsb = dec_super [], inode_freemap = None, block_freemap = None, inode_hash_table = Some t',
         inodes = [1 \<mapsto> \<lparr>din = zero_dinode, i_flags = False, i_nr = 5, i_count = 1\<rparr>], ibrk = 2\<rparr>"
proof -
  let ?s = "\<lparr>hfirst = \<lambda>i. if i < 256 then Some None else None, hnodes = [1 \<mapsto> \<lparr>hnext = None, pprev = None\<rparr>]\<rparr>"
  let ?ino = "\<lparr>din = zero_dinode, i_flags = False, i_nr = 5, i_count = 1\<rparr>"
  let ?sb = "\<lparr>dev = [], dsb = dec_super [], inode_freemap = None, block_freemap = None,
      inode_hash_table = Some (replicate 256 []), inodes = [1 \<mapsto> ?ino], ibrk = 2\<rparr>"
  have "table_abs ?s (replicate 256 [])" by (simp add: table_of_def is_hlist_def ld_def)
  moreover have "inode_hashfn (i_nr ?ino) < length (replicate 256 [])" using inode_hashfn_bound[of 5] by simp
  ultimately show ?thesis
    using hash_chains_refine_table[of ?s "replicate 256 []" ?sb 1 ?ino, THEN conjunct1] by auto
qed

end
