(* ===== verification/KList.thy ===== *)
theory KList
  imports Prelude
begin

text \<open>
  The intrusive lists of fs/list.h at pointer level: the circular doubly linked list, whose head is
  a node like the others, and the hash chains, whose nodes point back to the pointer that points to
  them. Structures live in a store; a NULL or dangling pointer is a fault.
\<close>

section \<open>Circular lists\<close>

record list_head =
  lnext :: "addr option"
  lprev :: "addr option"

type_synonym lmem = "addr \<Rightarrow> list_head option"

text \<open>Reading and writing \<open>p->next\<close> and \<open>p->prev\<close>.\<close>

definition get_next :: "addr option \<Rightarrow> lmem \<Rightarrow> addr option res" where
  "get_next p m = (case p of None \<Rightarrow> Inl Null_deref | Some a \<Rightarrow> bindR (readR m a) (\<lambda>n. Inr (lnext n)))"

definition get_prev :: "addr option \<Rightarrow> lmem \<Rightarrow> addr option res" where
  "get_prev p m = (case p of None \<Rightarrow> Inl Null_deref | Some a \<Rightarrow> bindR (readR m a) (\<lambda>n. Inr (lprev n)))"

definition set_next :: "addr option \<Rightarrow> addr option \<Rightarrow> lmem \<Rightarrow> lmem res" where
  "set_next p v m =
     (case p of None \<Rightarrow> Inl Null_deref | Some a \<Rightarrow> bindR (readR m a) (\<lambda>n. Inr (m(a \<mapsto> n\<lparr>lnext := v\<rparr>))))"

definition set_prev :: "addr option \<Rightarrow> addr option \<Rightarrow> lmem \<Rightarrow> lmem res" where
  "set_prev p v m =
     (case p of None \<Rightarrow> Inl Null_deref | Some a \<Rightarrow> bindR (readR m a) (\<lambda>n. Inr (m(a \<mapsto> n\<lparr>lprev := v\<rparr>))))"

definition INIT_LIST_HEAD :: "addr \<Rightarrow> lmem \<Rightarrow> lmem res" where
  "INIT_LIST_HEAD list m =
     bindR (set_next (Some list) (Some list) m) (set_prev (Some list) (Some list))"

text \<open>\<open>__list_add\<close>, \<open>list_add\<close> and \<open>list_add_tail\<close>\<close>

definition list_add_between :: "addr \<Rightarrow> addr option \<Rightarrow> addr option \<Rightarrow> lmem \<Rightarrow> lmem res" where
  "list_add_between new prev nxt m =
     bindR (set_prev nxt (Some new) m) (\<lambda>m.
     bindR (set_next (Some new) nxt m) (\<lambda>m.
     bindR (set_prev (Some new) prev m) (\<lambda>m.
       set_next prev (Some new) m)))"

definition list_add :: "addr \<Rightarrow> addr \<Rightarrow> lmem \<Rightarrow> lmem res" where
  "list_add new head m = bindR (get_next (Some head) m) (\<lambda>n. list_add_between new (Some head) n m)"

definition list_add_tail :: "addr \<Rightarrow> addr \<Rightarrow> lmem \<Rightarrow> lmem res" where
  "list_add_tail new head m = bindR (get_prev (Some head) m) (\<lambda>p. list_add_between new p (Some head) m)"

text \<open>\<open>__list_del\<close> and \<open>list_del\<close>\<close>

definition list_unlink :: "addr option \<Rightarrow> addr option \<Rightarrow> lmem \<Rightarrow> lmem res" where
  "list_unlink prev nxt m = bindR (set_prev nxt prev m) (set_next prev nxt)"

definition list_del :: "addr \<Rightarrow> lmem \<Rightarrow> lmem res" where
  "list_del entry m =
     bindR (get_prev (Some entry) m) (\<lambda>p.
     bindR (get_next (Some entry) m) (\<lambda>n.
       assertR (p \<noteq> None) (assertR (n \<noteq> None)
         (bindR (list_unlink p n m) (\<lambda>m.
          bindR (set_prev (Some entry) None m) (set_next (Some entry) None))))))"

definition list_replace :: "addr \<Rightarrow> addr \<Rightarrow> lmem \<Rightarrow> lmem res" where
  "list_replace old new m =
     bindR (get_next (Some old) m) (\<lambda>n.
     bindR (set_next (Some new) n m) (\<lambda>m.
     bindR (set_prev n (Some new) m) (\<lambda>m.
     bindR (get_prev (Some old) m) (\<lambda>p.
     bindR (set_prev (Some new) p m) (\<lambda>m.
       set_next p (Some new) m)))))"

definition list_is_last :: "addr \<Rightarrow> addr \<Rightarrow> lmem \<Rightarrow> bool res" where
  "list_is_last list head m = bindR (get_next (Some list) m) (\<lambda>n. Inr (n = Some head))"

definition list_empty :: "addr \<Rightarrow> lmem \<Rightarrow> bool res" where
  "list_empty head m = bindR (get_next (Some head) m) (\<lambda>n. Inr (n = Some head))"

definition list_is_singular :: "addr \<Rightarrow> lmem \<Rightarrow> bool res" where
  "list_is_singular head m =
     bindR (list_empty head m) (\<lambda>e.
     bindR (get_next (Some head) m) (\<lambda>n.
     bindR (get_prev (Some head) m) (\<lambda>p. Inr (\<not> e \<and> n = p))))"

text \<open>\<open>__list_cut_position\<close> and \<open>list_cut_position\<close>\<close>

definition list_cut :: "addr \<Rightarrow> addr \<Rightarrow> addr \<Rightarrow> lmem \<Rightarrow> lmem res" where
  "list_cut list head entry m =
     bindR (get_next (Some entry) m) (\<lambda>new_first.
     bindR (get_next (Some head) m) (\<lambda>f.
     bindR (set_next (Some list) f m) (\<lambda>m.
     bindR (set_prev f (Some list) m) (\<lambda>m.
     bindR (set_prev (Some list) (Some entry) m) (\<lambda>m.
     bindR (set_next (Some entry) (Some list) m) (\<lambda>m.
     bindR (set_next (Some head) new_first m) (\<lambda>m.
       set_prev new_first (Some head) m)))))))"

definition list_cut_position :: "addr \<Rightarrow> addr \<Rightarrow> addr \<Rightarrow> lmem \<Rightarrow> lmem res" where
  "list_cut_position list head entry m =
     bindR (list_empty head m) (\<lambda>e.
     if e then Inr m
     else bindR (list_is_singular head m) (\<lambda>sg.
          bindR (get_next (Some head) m) (\<lambda>n.
          if sg \<and> n \<noteq> Some entry \<and> head \<noteq> entry then Inr m
          else if entry = head then INIT_LIST_HEAD list m
          else list_cut list head entry m)))"

text \<open>\<open>__list_splice\<close>, \<open>list_splice\<close> and \<open>list_splice_tail\<close>\<close>

definition list_join :: "addr \<Rightarrow> addr option \<Rightarrow> addr option \<Rightarrow> lmem \<Rightarrow> lmem res" where
  "list_join list prev nxt m =
     bindR (get_next (Some list) m) (\<lambda>f.
     bindR (get_prev (Some list) m) (\<lambda>l.
     bindR (set_prev f prev m) (\<lambda>m.
     bindR (set_next prev f m) (\<lambda>m.
     bindR (set_next l nxt m) (\<lambda>m.
       set_prev nxt l m)))))"

definition list_splice :: "addr \<Rightarrow> addr \<Rightarrow> lmem \<Rightarrow> lmem res" where
  "list_splice list head m =
     bindR (list_empty list m) (\<lambda>e.
     if e then Inr m
     else bindR (get_next (Some head) m) (\<lambda>n. list_join list (Some head) n m))"

definition list_splice_tail :: "addr \<Rightarrow> addr \<Rightarrow> lmem \<Rightarrow> lmem res" where
  "list_splice_tail list head m =
     bindR (list_empty list m) (\<lambda>e.
     if e then Inr m
     else bindR (get_prev (Some head) m) (\<lambda>p. list_join list p (Some head) m))"

text \<open>The entries \<open>list_for_each_entry\<close> visits, from position \<open>pos\<close> on.\<close>

partial_function (option) list_for_each :: "addr \<Rightarrow> addr option \<Rightarrow> lmem \<Rightarrow> addr list io" where
  "list_for_each head pos m =
     (case pos of
        None \<Rightarrow> Some (Inl Null_deref)
      | Some a \<Rightarrow>
          if a = head then Some (Inr [])
          else (case get_next (Some a) m of
                  Inl e \<Rightarrow> Some (Inl e)
                | Inr n \<Rightarrow> Option.bind (list_for_each head n m) (\<lambda>r. Some (map_sum id ((#) a) r))))"

section \<open>The list a head denotes\<close>

text \<open>The links along a list of nodes, and the ring of a head and its entries.\<close>

definition nxt :: "lmem \<Rightarrow> addr \<Rightarrow> addr option" where "nxt m a = Option.bind (m a) lnext"
definition prv :: "lmem \<Rightarrow> addr \<Rightarrow> addr option" where "prv m a = Option.bind (m a) lprev"

fun links :: "lmem \<Rightarrow> addr list \<Rightarrow> bool" where
  "links m (x # y # zs) \<longleftrightarrow> nxt m x = Some y \<and> prv m y = Some x \<and> links m (y # zs)"
| "links m _ \<longleftrightarrow> True"

definition is_list :: "lmem \<Rightarrow> addr \<Rightarrow> addr list \<Rightarrow> bool" where
  "is_list m h xs \<longleftrightarrow> distinct (h # xs) \<and> links m (h # xs @ [h])"

lemma links_append: "links m (as @ x # bs) \<longleftrightarrow> links m (as @ [x]) \<and> links m (x # bs)"
proof (induction as)
  case (Cons a as)
  then show ?case by (cases as) auto
qed simp

lemma links_cong:
  "(\<And>x. x \<in> set (butlast as) \<Longrightarrow> nxt m' x = nxt m x) \<Longrightarrow> (\<And>x. x \<in> set (tl as) \<Longrightarrow> prv m' x = prv m x) \<Longrightarrow>
   links m' as \<longleftrightarrow> links m as"
proof (induction m as rule: links.induct)
  case (1 m x y zs)
  have "links m' (y # zs) \<longleftrightarrow> links m (y # zs)"
    using 1(2,3) by (intro 1(1)) (auto simp del: butlast.simps simp: butlast.simps(2)[of x "y # zs"] dest: in_set_butlastD split: list.split_asm)
  with 1(2)[of x] 1(3)[of y] show ?case by simp
qed simp_all

text \<open>Links at both ends mean that the nodes are allocated.\<close>

lemma links_alloc: "links m (as @ x # y # bs) \<Longrightarrow> nxt m x = Some y \<and> prv m y = Some x \<and> m x \<noteq> None \<and> m y \<noteq> None"
proof -
  assume "links m (as @ x # y # bs)"
  then have "nxt m x = Some y" "prv m y = Some x" using links_append[of m as x "y # bs"] by auto
  then show ?thesis by (cases "m x"; cases "m y") (auto simp: nxt_def prv_def)
qed

text \<open>The store after a write through a pointer to an allocated node.\<close>

definition upd_next :: "addr \<Rightarrow> addr option \<Rightarrow> lmem \<Rightarrow> lmem" where
  "upd_next a v m = (case m a of None \<Rightarrow> m | Some n \<Rightarrow> m(a \<mapsto> n\<lparr>lnext := v\<rparr>))"

definition upd_prev :: "addr \<Rightarrow> addr option \<Rightarrow> lmem \<Rightarrow> lmem" where
  "upd_prev a v m = (case m a of None \<Rightarrow> m | Some n \<Rightarrow> m(a \<mapsto> n\<lparr>lprev := v\<rparr>))"

lemma access_ok [queue_simps]:
  "m a \<noteq> None \<Longrightarrow> set_next (Some a) v m = Inr (upd_next a v m)"
  "m a \<noteq> None \<Longrightarrow> set_prev (Some a) v m = Inr (upd_prev a v m)"
  "m a \<noteq> None \<Longrightarrow> get_next (Some a) m = Inr (nxt m a)"
  "m a \<noteq> None \<Longrightarrow> get_prev (Some a) m = Inr (prv m a)"
  by (auto simp: set_next_def set_prev_def get_next_def get_prev_def upd_next_def upd_prev_def nxt_def prv_def)

lemma upd_alloc [simp]:
  "upd_next a v m b = None \<longleftrightarrow> m b = None" "upd_prev a v m b = None \<longleftrightarrow> m b = None"
  by (auto simp: upd_next_def upd_prev_def split: option.splits)

lemma upd_fields [simp]:
  "nxt (upd_next a v m) b = (if b = a \<and> m a \<noteq> None then v else nxt m b)"
  "prv (upd_next a v m) b = prv m b" "nxt (upd_prev a v m) b = nxt m b"
  "prv (upd_prev a v m) b = (if b = a \<and> m a \<noteq> None then v else prv m b)"
  by (auto simp: upd_next_def upd_prev_def nxt_def prv_def split: option.splits)

section \<open>Inserting and removing\<close>

text \<open>The nodes of a ring: no entry occurs twice, whichever end of the ring is left out.\<close>

lemma ring_distinct: "is_list m h xs \<Longrightarrow> distinct (butlast (h # xs @ [h])) \<and> distinct (tl (h # xs @ [h]))"
  by (auto simp: is_list_def butlast_append)

lemma in_set_tl: "x \<in> set (tl xs) \<Longrightarrow> x \<in> set xs"
  by (cases xs) auto

lemma ring_split:
  assumes "distinct (butlast (us @ p # n # vs))" and "distinct (tl (us @ p # n # vs))"
  shows "p \<notin> set us" "p \<notin> set (butlast (n # vs))" "n \<notin> set (tl (us @ [p]))" "n \<notin> set vs"
proof -
  have "butlast (us @ p # n # vs) = us @ p # butlast (n # vs)" by (simp add: butlast_append)
  with assms(1) show "p \<notin> set us" "p \<notin> set (butlast (n # vs))" by auto
  have "tl (us @ p # n # vs) = tl (us @ [p]) @ n # vs" by (cases us) auto
  with assms(2) show "n \<notin> set (tl (us @ [p]))" "n \<notin> set vs" by auto
qed

text \<open>A stretch of links survives changes elsewhere.\<close>

lemma links_keep:
  assumes "links m as" and "\<forall>x\<in>set (butlast as). nxt m' x = nxt m x" and "\<forall>x\<in>set (tl as). prv m' x = prv m x"
  shows "links m' as"
  using links_cong[of as m' m] assms by blast

lemma links_insert:
  assumes "links m (us @ p # n # vs)" and "distinct (butlast (us @ p # n # vs))" and "distinct (tl (us @ p # n # vs))"
    and "new \<notin> set (us @ p # n # vs)"
    and "\<And>x. nxt m' x = (if x = p then Some new else if x = new then Some n else nxt m x)"
    and "\<And>x. prv m' x = (if x = n then Some new else if x = new then Some p else prv m x)"
  shows "links m' (us @ p # new # n # vs)"
proof -
  note d = ring_split[OF assms(2,3)]
  have l: "links m (us @ [p])" "links m (n # vs)" using assms(1) links_append[of m us p "n # vs"] by auto
  have "links m' (us @ [p])"
    by (rule links_keep[OF l(1)]) (use d assms(4) in \<open>auto simp: assms(5,6) dest: in_set_tl\<close>)
  moreover have "links m' (n # vs)"
    by (rule links_keep[OF l(2)]) (use d assms(4) in \<open>auto simp: assms(5,6) dest: in_set_butlastD split: if_splits\<close>)
  ultimately show ?thesis using assms(4) links_append[of m' us p "new # n # vs"] by (auto simp: assms(5,6))
qed

lemma links_remove:
  assumes "links m (us @ p # e # n # vs)" and "distinct (butlast (us @ p # n # vs))" and "distinct (tl (us @ p # n # vs))"
    and "e \<notin> set (us @ p # n # vs)"
    and "\<And>x. x \<noteq> e \<Longrightarrow> nxt m' x = (if x = p then Some n else nxt m x)"
    and "\<And>x. x \<noteq> e \<Longrightarrow> prv m' x = (if x = n then Some p else prv m x)"
  shows "links m' (us @ p # n # vs)"
proof -
  note d = ring_split[OF assms(2,3)]
  have ne: "x \<noteq> e" if "x \<in> set (us @ p # n # vs)" for x using that assms(4) by auto
  have nt: "x \<noteq> e" if "x \<in> set (tl (us @ [p]))" for x using in_set_tl[OF that] ne[of x] by auto
  have nb: "x \<noteq> e" if "x \<in> set (butlast (n # vs))" for x using in_set_butlastD[OF that] ne[of x] by auto
  have l: "links m (us @ [p])" "links m (n # vs)"
    using assms(1) links_append[of m us p "e # n # vs"] links_append[of m "[e]" n vs] by auto
  have "links m' (us @ [p])"
    by (rule links_keep[OF l(1)]) (use d ne nt in \<open>auto simp: assms(5,6)\<close>)
  moreover have "links m' (n # vs)"
    by (rule links_keep[OF l(2)]) (use d ne nb in \<open>auto simp: assms(5,6) simp del: butlast.simps\<close>)
  ultimately show ?thesis using ne links_append[of m' us p "n # vs"] by (auto simp: assms(5,6))
qed


lemma upd_other [simp]: "x \<noteq> a \<Longrightarrow> upd_next a v m x = m x" "x \<noteq> a \<Longrightarrow> upd_prev a v m x = m x"
  by (auto simp: upd_next_def upd_prev_def split: option.splits)

text \<open>Nodes outside a set are untouched.\<close>

definition only_changes :: "addr set \<Rightarrow> lmem \<Rightarrow> lmem \<Rightarrow> bool" where
  "only_changes A m m' \<longleftrightarrow> (\<forall>x. x \<notin> A \<longrightarrow> m' x = m x) \<and> dom m' = dom m"

lemma upd_dom [simp]: "dom (upd_next a v m) = dom m" "dom (upd_prev a v m) = dom m"
  by (auto simp: dom_def)

lemma only_changes_refl [simp]: "only_changes A m m"
  by (simp add: only_changes_def)

lemma only_changes_upd [intro]:
  "a \<in> A \<Longrightarrow> only_changes A m m' \<Longrightarrow> only_changes A m (upd_next a v m')"
  "a \<in> A \<Longrightarrow> only_changes A m m' \<Longrightarrow> only_changes A m (upd_prev a v m')"
  unfolding only_changes_def by (metis upd_other upd_dom)+

lemma ring_alloc:
  assumes "is_list m h xs" and "x \<in> set (h # xs)"
  shows "m x \<noteq> None"
proof -
  have "x \<in> set (butlast (h # xs @ [h]))" using assms(2) by (simp add: butlast_append)
  then obtain us y vs where e: "h # xs @ [h] = us @ x # y # vs"
    by (metis append_Cons append_butlast_last_id in_set_conv_decomp list.discI list.exhaust append.assoc append_Nil snoc_eq_iff_butlast)
  show ?thesis using links_alloc[of m us x y vs] assms(1) e by (auto simp: is_list_def)
qed

lemma add_between:
  assumes "is_list m h xs" and "h # xs @ [h] = us @ p # n # vs" and "m new \<noteq> None" and "new \<notin> set (h # xs)"
  shows "\<exists>m'. list_add_between new (Some p) (Some n) m = Inr m' \<and> links m' (us @ p # new # n # vs) \<and>
    only_changes (set (new # h # xs)) m m'"
proof -
  let ?m = "upd_next p (Some new) (upd_prev new (Some p) (upd_next new (Some n) (upd_prev n (Some new) m)))"
  have s: "set (us @ p # n # vs) = set (h # xs)" using assms(2) by (metis append_Cons insert_absorb2 list.simps(15) set_append set_simps(1,2) Un_insert_right sup_bot_right)
  have pn: "p \<in> set (h # xs)" "n \<in> set (h # xs)" using s by auto
  note al = ring_alloc[OF assms(1) pn(1)] ring_alloc[OF assms(1) pn(2)]
  have nn: "new \<noteq> p" "new \<noteq> n" "new \<notin> set (us @ p # n # vs)" using assms(4) pn s by auto
  have "list_add_between new (Some p) (Some n) m = Inr ?m"
    using al assms(3) by (simp add: list_add_between_def queue_simps)
  moreover have "links ?m (us @ p # new # n # vs)"
    using assms(1) ring_distinct[OF assms(1)] unfolding is_list_def assms(2)
    by (intro links_insert[where m = m]) (use nn al assms(3) in auto)
  moreover have "only_changes (set (new # h # xs)) m ?m"
    using pn by (intro only_changes_upd) auto
  ultimately show ?thesis by blast
qed

lemma list_add_spec:
  assumes "is_list m h xs" and "m new \<noteq> None" and "new \<notin> set (h # xs)"
  shows "\<exists>m'. list_add new h m = Inr m' \<and> is_list m' h (new # xs) \<and> only_changes (set (new # h # xs)) m m'"
proof -
  obtain n vs where e: "h # xs @ [h] = [] @ h # n # vs" by (cases xs) auto
  have "nxt m h = Some n" "m h \<noteq> None"
    using links_alloc[of m "[]" h n vs] assms(1) e by (auto simp: is_list_def)
  moreover obtain m' where "list_add_between new (Some h) (Some n) m = Inr m'" "links m' ([] @ h # new # n # vs)"
    "only_changes (set (new # h # xs)) m m'" using add_between[OF assms(1) e assms(2,3)] by blast
  moreover have "n # vs = xs @ [h]" using e by simp
  ultimately show ?thesis using assms(1,3) by (auto simp: list_add_def queue_simps is_list_def)
qed

lemma list_add_tail_spec:
  assumes "is_list m h xs" and "m new \<noteq> None" and "new \<notin> set (h # xs)"
  shows "\<exists>m'. list_add_tail new h m = Inr m' \<and> is_list m' h (xs @ [new]) \<and> only_changes (set (new # h # xs)) m m'"
proof -
  obtain us p where p: "h # xs = us @ [p]" by (metis list.discI rev_exhaust)
  then have e: "h # xs @ [h] = us @ p # h # []" by (metis append.assoc append_Cons append_Nil)
  have "prv m h = Some p" "m h \<noteq> None"
    using links_alloc[of m us p h "[]"] assms(1) e by (auto simp: is_list_def)
  moreover obtain m' where "list_add_between new (Some p) (Some h) m = Inr m'" "links m' (us @ p # new # h # [])"
    "only_changes (set (new # h # xs)) m m'" using add_between[OF assms(1) e assms(2,3)] by blast
  moreover have "us @ p # new # h # [] = h # (xs @ [new]) @ [h]" using p by (metis append.assoc append_Cons append_Nil)
  ultimately show ?thesis using assms(1,3) by (auto simp: list_add_tail_def queue_simps is_list_def)
qed


lemma list_del_spec:
  assumes "is_list m h (as @ e # bs)"
  shows "\<exists>m'. list_del e m = Inr m' \<and> is_list m' h (as @ bs) \<and> nxt m' e = None \<and> prv m' e = None \<and>
    only_changes (set (h # as @ e # bs)) m m'"
proof -
  obtain us p where p: "h # as = us @ [p]" by (metis list.discI rev_exhaust)
  obtain n vs where n: "bs @ [h] = n # vs" by (cases bs) auto
  have r: "h # (as @ e # bs) @ [h] = us @ p # e # n # vs" using p n by (metis append.assoc append_Cons append_Nil)
  have r': "h # (as @ bs) @ [h] = us @ p # n # vs" using p n by (metis append.assoc append_Cons append_Nil)
  have L: "links m (us @ p # e # n # vs)" "distinct (h # as @ e # bs)" using assms r by (auto simp: is_list_def)
  have d: "distinct (h # as @ bs)" using L(2) by auto
  have d': "distinct (butlast (us @ p # n # vs))" "distinct (tl (us @ p # n # vs))"
    using d unfolding r'[symmetric] by (auto simp: butlast_append)
  have en: "e \<notin> set (us @ p # n # vs)" using L(2) unfolding r'[symmetric] by auto
  have pe: "prv m e = Some p" "m p \<noteq> None" "m e \<noteq> None" using links_alloc[OF L(1)] by auto
  have ne: "nxt m e = Some n" "m n \<noteq> None" using links_alloc[of m "us @ [p]" e n vs] L(1) by auto
  let ?m = "upd_next e None (upd_prev e None (upd_next p (Some n) (upd_prev n (Some p) m)))"
  have "list_del e m = Inr ?m"
    using pe ne by (simp add: list_del_def list_unlink_def queue_simps)
  moreover have "links ?m (us @ p # n # vs)"
    by (rule links_remove[OF L(1) d' en]) (use pe ne en in auto)
  moreover have "set (us @ p # n # vs) = set (h # as @ bs)" unfolding r'[symmetric] by auto
  then have "p \<in> set (h # as @ e # bs)" "n \<in> set (h # as @ e # bs)" by auto
  then have "only_changes (set (h # as @ e # bs)) m ?m" by (intro only_changes_upd) auto
  ultimately show ?thesis using d r' pe(3) unfolding is_list_def by auto
qed

lemma list_replace_spec:
  assumes "is_list m h (as @ old # bs)" and "m new \<noteq> None" and "new \<notin> set (h # as @ old # bs)"
  shows "\<exists>m'. list_replace old new m = Inr m' \<and> is_list m' h (as @ new # bs) \<and>
    only_changes (set (new # h # as @ bs)) m m'"
proof -
  obtain us p where p: "h # as = us @ [p]" by (metis list.discI rev_exhaust)
  obtain n vs where n: "bs @ [h] = n # vs" by (cases bs) auto
  have r: "h # (as @ x # bs) @ [h] = us @ p # x # n # vs" for x using p n by (metis append.assoc append_Cons append_Nil)
  have r': "h # (as @ bs) @ [h] = us @ p # n # vs" using p n by (metis append.assoc append_Cons append_Nil)
  have L: "links m (us @ p # old # n # vs)" "distinct (h # as @ old # bs)" using assms r by (auto simp: is_list_def)
  have d: "distinct (h # as @ bs)" using L(2) by auto
  have d': "distinct (butlast (us @ p # n # vs))" "distinct (tl (us @ p # n # vs))"
    using d unfolding r'[symmetric] by (auto simp: butlast_append)
  have s: "set (us @ p # n # vs) = set (h # as @ bs)" unfolding r'[symmetric] by auto
  have en: "old \<notin> set (us @ p # n # vs)" "new \<notin> set (us @ p # n # vs)" "new \<noteq> old" using L(2) assms(3) unfolding s by auto
  have pe: "prv m old = Some p" "m p \<noteq> None" "m old \<noteq> None" using links_alloc[OF L(1)] by auto
  have ne: "nxt m old = Some n" "m n \<noteq> None" using links_alloc[of m "us @ [p]" old n vs] L(1) by auto
  let ?m = "upd_next p (Some new) (upd_prev new (Some p) (upd_prev n (Some new) (upd_next new (Some n) m)))"
  have "list_replace old new m = Inr ?m"
    using pe ne en assms(2) by (simp add: list_replace_def queue_simps)
  moreover define k where "k = upd_next p (Some n) (upd_prev n (Some p) m)"
  have "links k (us @ p # n # vs)"
    unfolding k_def by (rule links_remove[OF L(1) d' en(1)]) (use pe ne in auto)
  then have "links ?m (us @ p # new # n # vs)"
    by (rule links_insert[OF _ d' en(2)]) (use pe ne en assms(2) in \<open>auto simp: k_def\<close>)
  moreover have "p \<in> set (new # h # as @ bs)" "n \<in> set (new # h # as @ bs)" using s by auto
  then have "only_changes (set (new # h # as @ bs)) m ?m" by (intro only_changes_upd) auto
  ultimately show ?thesis using L(2) assms(3) r[of new] unfolding is_list_def by auto
qed

text \<open>The observers and the loop.\<close>

lemma list_empty_spec: "is_list m h xs \<Longrightarrow> list_empty h m = Inr (xs = [])"
proof -
  assume l: "is_list m h xs"
  obtain n vs where n: "xs @ [h] = n # vs" by (cases xs) auto
  then have "nxt m h = Some n" "m h \<noteq> None" using links_alloc[of m "[]" h n vs] l by (auto simp: is_list_def)
  moreover have "n = h \<longleftrightarrow> xs = []" using n l by (cases xs) (auto simp: is_list_def)
  ultimately show ?thesis by (simp add: list_empty_def queue_simps)
qed

lemma list_is_singular_spec: "is_list m h xs \<Longrightarrow> list_is_singular h m = Inr (length xs = 1)"
proof -
  assume l: "is_list m h xs"
  obtain n vs where n: "xs @ [h] = n # vs" by (cases xs) auto
  then have nh: "nxt m h = Some n" "m h \<noteq> None" using links_alloc[of m "[]" h n vs] l by (auto simp: is_list_def)
  obtain us p where p: "h # xs = us @ [p]" by (metis list.discI rev_exhaust)
  then have e: "h # xs @ [h] = us @ p # h # []" by (metis append.assoc append_Cons append_Nil)
  have ph: "prv m h = Some p" using links_alloc[of m us p h "[]"] l e by (auto simp: is_list_def)
  have "xs \<noteq> [] \<and> n = p \<longleftrightarrow> length xs = 1"
  proof (cases xs)
    case (Cons x ys)
    then have "n = x" "p = last (x # ys)" using n p by (auto simp: last_append split: if_splits) (metis last_ConsR last_snoc list.discI)+
    then show ?thesis using l Cons by (cases ys) (auto simp: is_list_def)
  qed simp
  then show ?thesis using list_empty_spec[OF l] nh ph by (auto simp: list_is_singular_def queue_simps)
qed

lemma list_for_each_from:
  "links m (as @ [h]) \<Longrightarrow> as \<noteq> [] \<Longrightarrow> h \<notin> set as \<Longrightarrow> list_for_each h (Some (hd as)) m = Some (Inr as)"
proof (induction as)
  case (Cons a as)
  obtain n vs where n: "as @ [h] = n # vs" by (cases as) auto
  have "nxt m a = Some n" "m a \<noteq> None" using links_alloc[of m "[]" a n vs] Cons.prems(1) n by auto
  moreover have "list_for_each h (Some n) m = Some (Inr as)"
  proof (cases as)
    case Nil
    with n show ?thesis by (subst list_for_each.simps) auto
  next
    case (Cons b bs)
    with Cons.IH Cons.prems n show ?thesis by auto
  qed
  ultimately show ?case using Cons.prems(3) by (subst list_for_each.simps) (auto simp: queue_simps)
qed simp

lemma list_for_each_spec: "is_list m h xs \<Longrightarrow> list_for_each h (nxt m h) m = Some (Inr xs)"
proof -
  assume l: "is_list m h xs"
  obtain n vs where n: "xs @ [h] = n # vs" by (cases xs) auto
  have "nxt m h = Some n" using links_alloc[of m "[]" h n vs] l n by (auto simp: is_list_def)
  moreover have "links m (xs @ [h])" using l n by (auto simp: is_list_def)
  ultimately show ?thesis using list_for_each_from[of m xs h] l n
    by (cases xs) (auto simp: is_list_def, subst list_for_each.simps, simp)
qed


section \<open>Cutting and joining\<close>

lemma links_middle: "links m (as @ bs @ cs) \<Longrightarrow> links m bs"
proof (cases bs)
  case (Cons b bs')
  assume "links m (as @ bs @ cs)"
  then have "links m (b # bs' @ cs)" using Cons links_append[of m as b "bs' @ cs"] by simp
  then show "links m bs"
    using Cons links_append[of m "butlast bs" "last bs" cs] append_butlast_last_id[of bs] by (metis append.assoc append_Cons append_Nil list.discI)
qed simp

lemma links_ends:
  "bs \<noteq> [] \<Longrightarrow> links m (a # bs @ [c]) \<longleftrightarrow>
     nxt m a = Some (hd bs) \<and> prv m (hd bs) = Some a \<and> links m bs \<and> nxt m (last bs) = Some c \<and> prv m c = Some (last bs)"
proof -
  assume "bs \<noteq> []"
  then obtain ds z where bs: "bs = ds @ [z]" by (metis rev_exhaust)
  have "links m (bs @ [c]) \<longleftrightarrow> links m bs \<and> nxt m z = Some c \<and> prv m c = Some z"
    using links_append[of m ds z "[c]"] bs by simp
  moreover have "links m (a # bs @ [c]) \<longleftrightarrow> nxt m a = Some (hd bs) \<and> prv m (hd bs) = Some a \<and> links m (bs @ [c])"
    using \<open>bs \<noteq> []\<close> by (cases bs) auto
  ultimately show ?thesis using bs by auto
qed

lemma list_cut_position_spec:
  assumes "is_list m h (as @ e # bs)" and "m l \<noteq> None" and "l \<notin> set (h # as @ e # bs)"
  shows "\<exists>m'. list_cut_position l h e m = Inr m' \<and> is_list m' l (as @ [e]) \<and> is_list m' h bs \<and>
    only_changes (set (l # h # as @ e # bs)) m m'"
proof -
  let ?xs = "as @ e # bs" and ?f = "hd (as @ [e])" and ?n = "hd (bs @ [h])"
  have L: "links m (h # ?xs @ [h])" "distinct (h # ?xs)" using assms(1) by (auto simp: is_list_def)
  have ends: "nxt m h = Some ?f" using L(1) links_ends[of ?xs m h h] by (auto simp: hd_append)
  have "links m ((h # as) @ e # bs @ [h])" using L(1) by simp
  then have e: "nxt m e = Some ?n" "links m (e # bs @ [h])"
    using links_append[of m "h # as" e "bs @ [h]"] by (cases bs; auto)+
  have in_f: "?f \<in> set ?xs" "?f \<noteq> h" "?f \<in> set (h # ?xs)" and in_n: "?n \<in> set (h # ?xs)"
    using L(2) by (cases as; cases bs; auto)+
  have al: "m h \<noteq> None" "m e \<noteq> None" "m ?f \<noteq> None" "m ?n \<noteq> None"
    using ring_alloc[OF assms(1)] in_f(3) in_n by auto
  let ?m = "upd_prev ?n (Some h) (upd_next h (Some ?n) (upd_next e (Some l) (upd_prev l (Some e)
      (upd_prev ?f (Some l) (upd_next l (Some ?f) m)))))"
  have "\<not> (length ?xs = 1 \<and> Some ?f \<noteq> Some e \<and> h \<noteq> e)" by (cases as) auto
  moreover have "e \<noteq> h" using L(2) by auto
  ultimately have c: "list_cut_position l h e m = list_cut l h e m"
    using list_empty_spec[OF assms(1)] list_is_singular_spec[OF assms(1)] al(1) ends
    by (auto simp: list_cut_position_def queue_simps)
  have ln: "l \<noteq> h" "l \<noteq> e" "l \<noteq> ?f" "l \<noteq> ?n" using assms(3) in_f(3) in_n by auto
  have "list_cut l h e m = Inr ?m"
    using al assms(2) ends e(1) ln by (simp add: list_cut_def queue_simps)
  with c have r: "list_cut_position l h e m = Inr ?m" by simp
  have i1: "links m (as @ [e])" using links_middle[of m "[h]" "as @ [e]" "bs @ [h]"] L(1) by simp
  have i2: "links m (bs @ [h])" using links_middle[of m "[e]" "bs @ [h]" "[]"] e(2) by simp
  have nf: "?n \<notin> set (as @ [e])" using L(2) by (cases bs) auto
  have ft: "?f \<notin> set (tl (as @ [e]))" "l \<notin> set (tl (as @ [e]))" "?n \<notin> set (tl (as @ [e]))"
    using L(2) assms(3) nf by (cases as; auto)+
  have "links ?m (as @ [e])"
    by (rule links_keep[OF i1]) (use L(2) assms(3) ft in \<open>auto simp: butlast_append\<close>)
  moreover have "?f \<noteq> ?n" using nf by (metis Nil_is_append_conv hd_in_set list.discI)
  ultimately have "links ?m (l # (as @ [e]) @ [l])"
    using links_ends[of "as @ [e]" ?m l l] al assms(2) ln \<open>e \<noteq> h\<close> by auto
  then have 1: "is_list ?m l (as @ [e])" using L(2) assms(3) unfolding is_list_def by auto
  have nt: "?n \<notin> set (tl (bs @ [h]))" "l \<notin> set (tl (bs @ [h]))" "?f \<notin> set (bs @ [h])"
    using L(2) assms(3) in_f(2) by (cases bs; cases as; auto)+
  then have "?f \<notin> set (tl (bs @ [h]))" using in_set_tl by fastforce
  with nt have "links ?m (bs @ [h])"
    by (intro links_keep[OF i2]) (use L(2) assms(3) in \<open>auto simp: butlast_append\<close>)
  then have "links ?m (h # bs @ [h])" using al ln by (cases bs) auto
  then have 2: "is_list ?m h bs" using L(2) unfolding is_list_def by auto
  have "only_changes (set (l # h # ?xs)) m ?m" using in_f(3) in_n by (intro only_changes_upd) auto
  with r 1 2 show ?thesis by blast
qed

lemma list_join_spec:
  assumes "is_list m l ys" and "ys \<noteq> []" and "is_list m h xs" and "set (l # ys) \<inter> set (h # xs) = {}"
    and "h # xs @ [h] = us @ p # n # vs"
  shows "\<exists>m'. list_join l (Some p) (Some n) m = Inr m' \<and> links m' (us @ p # ys @ n # vs) \<and>
    only_changes (set (ys @ h # xs)) m m'"
proof -
  let ?f = "hd ys" and ?z = "last ys"
  have L: "nxt m l = Some ?f" "prv m l = Some ?z" "links m ys"
    using links_ends[OF assms(2), of m l l] assms(1) by (auto simp: is_list_def)
  have s: "set (us @ p # n # vs) = set (h # xs)" using assms(5)
    by (metis append_Cons insert_absorb2 list.simps(15) set_append set_simps(1,2) Un_insert_right sup_bot_right)
  have pn: "p \<in> set (h # xs)" "n \<in> set (h # xs)" using s by auto
  have fz: "?f \<in> set ys" "?z \<in> set ys" using assms(2) by auto
  have al: "m p \<noteq> None" "m n \<noteq> None" "m l \<noteq> None" "m ?f \<noteq> None" "m ?z \<noteq> None"
    using ring_alloc[OF assms(3)] pn ring_alloc[OF assms(1)] fz by auto
  let ?m = "upd_prev n (Some ?z) (upd_next ?z (Some n) (upd_next p (Some ?f) (upd_prev ?f (Some p) m)))"
  have r: "list_join l (Some p) (Some n) m = Inr ?m" using al L by (simp add: list_join_def queue_simps)
  have M: "links m (us @ p # n # vs)" using assms(3) unfolding is_list_def assms(5) by simp
  note d = ring_split[OF conjunct1[OF ring_distinct[OF assms(3), unfolded assms(5)]] conjunct2[OF ring_distinct[OF assms(3), unfolded assms(5)]]]
  have yx: "y \<notin> set (us @ p # n # vs)" if "y \<in> set ys" for y using that assms(4) s by auto
  have M12: "links m (us @ [p])" "links m (n # vs)" using M links_append[of m us p "n # vs"] by auto
  have "links ?m (us @ [p])"
  proof (rule links_keep[OF M12(1)])
    show "\<forall>x\<in>set (butlast (us @ [p])). nxt ?m x = nxt m x" using d(1) yx fz by auto
    show "\<forall>x\<in>set (tl (us @ [p])). prv ?m x = prv m x" using d(3) yx[OF fz(1)] in_set_tl[of _ "us @ [p]"] by auto
  qed
  moreover have "links ?m (n # vs)"
  proof (rule links_keep[OF M12(2)])
    show "\<forall>x\<in>set (butlast (n # vs)). nxt ?m x = nxt m x"
      using d(2) yx[OF fz(2)] in_set_butlastD[of _ "n # vs"] by (auto simp del: butlast.simps)
    show "\<forall>x\<in>set (tl (n # vs)). prv ?m x = prv m x" using d(4) yx[OF fz(1)] by auto
  qed
  moreover have dy: "distinct ys" using assms(1) by (simp add: is_list_def)
  have "links ?m ys"
  proof (rule links_keep[OF L(3)])
    have "?z \<notin> set (butlast ys)" using dy assms(2) by (metis append_butlast_last_id distinct_append disjoint_iff list.set_intros(1))
    then show "\<forall>x\<in>set (butlast ys). nxt ?m x = nxt m x" using yx in_set_butlastD[of _ ys] by auto
    have "?f \<notin> set (tl ys)" using dy assms(2) by (cases ys) auto
    then show "\<forall>x\<in>set (tl ys). prv ?m x = prv m x" using yx in_set_tl[of _ ys] by auto
  qed
  moreover have "?f \<noteq> n" "?z \<noteq> p" using yx fz by auto
  ultimately have "links ?m (p # ys @ [n])" using links_ends[OF assms(2), of ?m p n] al by auto
  then have "links ?m (us @ p # ys @ n # vs)"
    using \<open>links ?m (us @ [p])\<close> \<open>links ?m (n # vs)\<close> links_append[of ?m us p "ys @ n # vs"] links_append[of ?m "p # ys" n vs] by simp
  moreover have "only_changes (set (ys @ h # xs)) m ?m" using pn fz by (intro only_changes_upd) auto
  ultimately show ?thesis using r by blast
qed

lemma list_splice_spec:
  assumes "is_list m l ys" and "is_list m h xs" and "set (l # ys) \<inter> set (h # xs) = {}"
  shows "\<exists>m'. list_splice l h m = Inr m' \<and> is_list m' h (ys @ xs) \<and> only_changes (set (ys @ h # xs)) m m'"
    and "\<exists>m'. list_splice_tail l h m = Inr m' \<and> is_list m' h (xs @ ys) \<and> only_changes (set (ys @ h # xs)) m m'"
proof -
  have al: "m h \<noteq> None" using ring_alloc[OF assms(2)] by simp
  have d: "distinct (h # ys @ xs)" "distinct (h # xs @ ys)" using assms by (auto simp: is_list_def)
  obtain n vs where n: "h # xs @ [h] = [] @ h # n # vs" by (cases xs) auto
  have nh: "nxt m h = Some n" using links_alloc[of m "[]" h n vs] assms(2) n by (auto simp: is_list_def)
  show "\<exists>m'. list_splice l h m = Inr m' \<and> is_list m' h (ys @ xs) \<and> only_changes (set (ys @ h # xs)) m m'"
  proof (cases "ys = []")
    case False
    from list_join_spec[OF assms(1) False assms(2,3) n] obtain m' where
      "list_join l (Some h) (Some n) m = Inr m'" "links m' ([] @ h # ys @ n # vs)" "only_changes (set (ys @ h # xs)) m m'" by blast
    moreover have "n # vs = xs @ [h]" using n by simp
    ultimately show ?thesis using list_empty_spec[OF assms(1)] False nh al d(1)
      by (auto simp: list_splice_def queue_simps is_list_def)
  qed (use list_empty_spec[OF assms(1)] assms(2) in \<open>simp add: list_splice_def\<close>)
  obtain us p where p: "h # xs = us @ [p]" by (metis list.discI rev_exhaust)
  then have e: "h # xs @ [h] = us @ p # h # []" by (metis append.assoc append_Cons append_Nil)
  have ph: "prv m h = Some p" using links_alloc[of m us p h "[]"] assms(2) e by (auto simp: is_list_def)
  show "\<exists>m'. list_splice_tail l h m = Inr m' \<and> is_list m' h (xs @ ys) \<and> only_changes (set (ys @ h # xs)) m m'"
  proof (cases "ys = []")
    case False
    from list_join_spec[OF assms(1) False assms(2,3) e] obtain m' where
      m': "list_join l (Some p) (Some h) m = Inr m'" "links m' (us @ p # ys @ h # [])" "only_changes (set (ys @ h # xs)) m m'" by blast
    have "us @ p # ys @ h # [] = h # (xs @ ys) @ [h]" using p by (metis append.assoc append_Cons append_Nil)
    with m' show ?thesis using list_empty_spec[OF assms(1)] False ph al d(2)
      by (auto simp: list_splice_tail_def queue_simps is_list_def)
  qed (use list_empty_spec[OF assms(1)] assms(2) in \<open>simp add: list_splice_tail_def\<close>)
qed


section \<open>The operations on lists\<close>

lemma only_changes_keep:
  assumes "only_changes A m m'" and "is_list m l ys" and "set (l # ys) \<inter> A = {}"
  shows "is_list m' l ys"
proof -
  have eq: "m' x = m x" if "x \<in> set (l # ys @ [l])" for x using that assms(1,3) by (auto simp: only_changes_def)
  have "links m (l # ys @ [l])" "distinct (l # ys)" using assms(2) by (auto simp: is_list_def)
  moreover have "nxt m' x = nxt m x" if "x \<in> set (butlast (l # ys @ [l]))" for x
    using eq[OF in_set_butlastD[OF that]] by (simp add: nxt_def)
  moreover have "prv m' x = prv m x" if "x \<in> set (tl (l # ys @ [l]))" for x
    using eq[OF in_set_tl[OF that]] by (simp add: prv_def)
  ultimately have "links m' (l # ys @ [l])" using links_keep by blast
  then show ?thesis using \<open>distinct (l # ys)\<close> by (simp add: is_list_def)
qed

lemma changes_both:
  assumes "\<exists>m'. r = Inr m' \<and> P m' \<and> only_changes A m m'" and "is_list m l ys" and "set (l # ys) \<inter> A = {}"
  shows "\<exists>m'. r = Inr m' \<and> P m' \<and> is_list m' l ys"
proof -
  obtain m' where m': "r = Inr m'" "P m'" "only_changes A m m'" using assms(1) by blast
  from only_changes_keep[OF m'(3) assms(2,3)] m'(1,2) show ?thesis by blast
qed

text \<open>
  The circular lists of fs/list.h. On a ring that holds a list, adding at either end, removing
  and replacing an entry, cutting the list behind an entry and joining another list at either end are
  the list operations; another ring is left alone. The tests for an empty list and for one entry are
  right, and the loop visits the entries in order and ends.
\<close>

lemma circular_list_operations:
  assumes "is_list m h (as @ e # bs)" and "is_list m l ys" and "set (l # ys) \<inter> set (h # as @ e # bs) = {}"
    and "m new \<noteq> None" and "new \<notin> set (l # ys) \<union> set (h # as @ e # bs)"
  shows "(\<exists>m'. list_add new h m = Inr m' \<and> is_list m' h (new # as @ e # bs) \<and> is_list m' l ys) \<and>
    (\<exists>m'. list_add_tail new h m = Inr m' \<and> is_list m' h ((as @ e # bs) @ [new]) \<and> is_list m' l ys) \<and>
    (\<exists>m'. list_del e m = Inr m' \<and> is_list m' h (as @ bs) \<and> is_list m' l ys) \<and>
    (\<exists>m'. list_replace e new m = Inr m' \<and> is_list m' h (as @ new # bs) \<and> is_list m' l ys) \<and>
    (\<exists>m'. list_cut_position new h e m = Inr m' \<and> (is_list m' new (as @ [e]) \<and> is_list m' h bs) \<and> is_list m' l ys) \<and>
    (\<exists>m'. list_splice l h m = Inr m' \<and> is_list m' h (ys @ as @ e # bs)) \<and>
    (\<exists>m'. list_splice_tail l h m = Inr m' \<and> is_list m' h ((as @ e # bs) @ ys)) \<and>
    list_empty l m = Inr (ys = []) \<and> list_is_singular l m = Inr (length ys = 1) \<and>
    list_for_each l (nxt m l) m = Some (Inr ys)"
proof (intro conjI)
  have n: "new \<notin> set (h # as @ e # bs)" using assms(5) by simp
  show "\<exists>m'. list_add new h m = Inr m' \<and> is_list m' h (new # as @ e # bs) \<and> is_list m' l ys"
    by (rule changes_both[OF list_add_spec[OF assms(1,4) n] assms(2)]) (use assms(3,5) in auto)
  show "\<exists>m'. list_add_tail new h m = Inr m' \<and> is_list m' h ((as @ e # bs) @ [new]) \<and> is_list m' l ys"
    by (rule changes_both[OF list_add_tail_spec[OF assms(1,4) n] assms(2)]) (use assms(3,5) in auto)
  have "\<exists>m'. list_del e m = Inr m' \<and> is_list m' h (as @ bs) \<and> only_changes (set (h # as @ e # bs)) m m'"
    using list_del_spec[OF assms(1)] by blast
  from changes_both[OF this assms(2)] assms(3)
  show "\<exists>m'. list_del e m = Inr m' \<and> is_list m' h (as @ bs) \<and> is_list m' l ys" by blast
  show "\<exists>m'. list_replace e new m = Inr m' \<and> is_list m' h (as @ new # bs) \<and> is_list m' l ys"
    by (rule changes_both[OF list_replace_spec[OF assms(1,4) n] assms(2)]) (use assms(3,5) in auto)
  have "\<exists>m'. list_cut_position new h e m = Inr m' \<and> (is_list m' new (as @ [e]) \<and> is_list m' h bs) \<and>
      only_changes (set (new # h # as @ e # bs)) m m'" using list_cut_position_spec[OF assms(1,4) n] by blast
  then show "\<exists>m'. list_cut_position new h e m = Inr m' \<and> (is_list m' new (as @ [e]) \<and> is_list m' h bs) \<and> is_list m' l ys"
    by (rule changes_both[OF _ assms(2)]) (use assms(3,5) in auto)
  show "\<exists>m'. list_splice l h m = Inr m' \<and> is_list m' h (ys @ as @ e # bs)"
    and "\<exists>m'. list_splice_tail l h m = Inr m' \<and> is_list m' h ((as @ e # bs) @ ys)"
    using list_splice_spec[OF assms(2,1,3)] by blast+
  show "list_empty l m = Inr (ys = [])" "list_is_singular l m = Inr (length ys = 1)" "list_for_each l (nxt m l) m = Some (Inr ys)"
    using list_empty_spec list_is_singular_spec list_for_each_spec assms(2) by blast+
qed

lemma circular_list_operations_witness:
  "\<exists>m'. list_del 1 [0 \<mapsto> \<lparr>lnext = Some 1, lprev = Some 1\<rparr>, 1 \<mapsto> \<lparr>lnext = Some 0, lprev = Some 0\<rparr>,
       2 \<mapsto> \<lparr>lnext = Some 2, lprev = Some 2\<rparr>, 3 \<mapsto> \<lparr>lnext = None, lprev = None\<rparr>] = Inr m' \<and>
     is_list m' 0 [] \<and> is_list m' 2 []"
proof -
  let ?m = "[0 \<mapsto> \<lparr>lnext = Some 1, lprev = Some 1\<rparr>, 1 \<mapsto> \<lparr>lnext = Some 0, lprev = Some 0\<rparr>,
      2 \<mapsto> \<lparr>lnext = Some 2, lprev = Some 2\<rparr>, 3 \<mapsto> \<lparr>lnext = None, lprev = None\<rparr>]"
  have "is_list ?m 0 ([] @ 1 # [])" "is_list ?m 2 []" by (simp_all add: is_list_def nxt_def prv_def)
  from circular_list_operations[OF this, of 3] show ?thesis by simp
qed

end
