(* ===== verification/WordCount.thy ===== *)
theory WordCount
  imports Request
begin

unbundle bit_operations_syntax

text \<open>
  The word counter warmup/wc.c, a hash table with chains from words to counts, and the factorial
  program warmup/fact.c. The words of the table point into a private copy of the input and are
  modelled as strings; chains own their nodes and are lists.
\<close>

section \<open>The table\<close>

record word_count =
  word :: string
  count :: int

record wc =
  wsize :: int
  buckets :: "word_count list list"

fun wc_hash_loop :: "64 word \<Rightarrow> string \<Rightarrow> 64 word" where
  "wc_hash_loop hash [] = hash"
| "wc_hash_loop hash (c # str) =
     wc_hash_loop ((push_bit 5 hash + hash) + scast (of_char c :: 8 word)) str"

definition wc_hash_value :: "string \<Rightarrow> 64 word" where
  "wc_hash_value str = wc_hash_loop 5381 str"

text \<open>The loop over a chain: count the word in its node, or append a node.\<close>

fun count_in_chain :: "string \<Rightarrow> word_count list \<Rightarrow> word_count list" where
  "count_in_chain w [] = [\<lparr>word = w, count = 1\<rparr>]"
| "count_in_chain w (n # ns) =
     (if word n = w then n\<lparr>count := wrap32 (count n + 1)\<rparr> # ns else n # count_in_chain w ns)"

definition insert_into_wc :: "string \<Rightarrow> wc \<Rightarrow> wc res" where
  "insert_into_wc w t =
     (if wsize t = 0 then Inl Div_by_zero
      else let hash = crem (sint (wc_hash_value w)) (wsize t);
               i = nat (if hash < 0 then hash + wsize t else hash)
           in if i < length (buckets t)
              then Inr (t\<lparr>buckets := (buckets t)[i := count_in_chain w (buckets t ! i)]\<rparr>)
              else Inl Out_of_bounds)"

definition delim :: "char set" where
  "delim = {CHR '' '', CHR 0x09, CHR 0x0A, CHR 0x0D, CHR 0x0B, CHR 0x0C}"

text \<open>\<open>strtok\<close> on what is left of the copy: the next word and the rest.\<close>

definition strtok :: "string \<Rightarrow> (string \<times> string) option" where
  "strtok s =
     (let s = dropWhile (\<lambda>c. c \<in> delim) s
      in if s = [] then None
         else Some (takeWhile (\<lambda>c. c \<notin> delim) s, drop 1 (dropWhile (\<lambda>c. c \<notin> delim) s)))"

lemma strtok_shorter: "strtok s = Some (w, r) \<Longrightarrow> length r < length s"
proof -
  assume s: "strtok s = Some (w, r)"
  let ?s = "dropWhile (\<lambda>c. c \<in> delim) s"
  have "?s \<noteq> []" "r = drop 1 (dropWhile (\<lambda>c. c \<notin> delim) ?s)" using s by (auto simp: strtok_def Let_def split: if_splits)
  moreover have "length (dropWhile (\<lambda>c. c \<notin> delim) ?s) \<le> length ?s" "length ?s \<le> length s"
    by (rule length_dropWhile_le)+
  ultimately show ?thesis by (cases ?s) auto
qed

function count_words :: "string \<Rightarrow> wc \<Rightarrow> wc res" where
  "count_words s t =
     (case strtok s of
        None \<Rightarrow> Inr t
      | Some (w, r) \<Rightarrow> bindR (insert_into_wc w t) (count_words r))"
  by pat_completeness auto
termination by (relation "measure (\<lambda>(s, t). length s)") (auto dest: strtok_shorter)

declare count_words.simps [simp del]

text \<open>
  \<open>wc_init\<close>: \<open>word_array\<close> is the memory at the array up to its first 0 byte; \<open>strcpy\<close> copies it
  and the 0 byte into \<open>size\<close> bytes. The size of the table is an \<open>int\<close>.
\<close>

definition wc_init :: "string \<Rightarrow> int \<Rightarrow> wc res" where
  "wc_init word_array sz =
     (if int (length word_array) + 1 > sz then Inl Out_of_bounds
      else let n = wrap32 (2 * sz)
           in count_words word_array \<lparr>wsize = n, buckets = replicate (nat n) []\<rparr>)"

text \<open>The nodes in the order of the loops of \<open>wc_output\<close>, and what it prints.\<close>

definition wc_nodes :: "wc \<Rightarrow> word_count list" where
  "wc_nodes t = concat (take (nat (wsize t)) (buckets t))"

definition wc_output :: "wc \<Rightarrow> string" where
  "wc_output t = concat (map (\<lambda>n. word n @ '':'' @ fmt_d (count n) @ [CHR 0x0A]) (wc_nodes t))"

text \<open>The memory blocks \<open>wc_init\<close> allocates: the copy of the text, the structure, the array of chains and
  a node for every entry; and those \<open>wc_destroy\<close> frees, in order.\<close>

datatype wc_block = B_copy | B_table | B_mapping | B_node nat nat

definition wc_allocated :: "wc \<Rightarrow> wc_block list" where
  "wc_allocated t = [B_copy, B_table, B_mapping] @
     concat (map (\<lambda>i. map (B_node i) [0..<length (buckets t ! i)]) [0..<length (buckets t)])"

definition wc_destroy :: "wc \<Rightarrow> wc_block list" where
  "wc_destroy t = concat (map (\<lambda>i. map (B_node i) [0..<length (buckets t ! i)]) [0..<nat (wsize t)]) @ [B_table]"

text \<open>Every node is freed once; the copy of the text and the array of chains are lost.\<close>

lemma wc_destroy_leaks:
  assumes "int (length (buckets t)) = wsize t"
  shows "distinct (wc_destroy t)" and "set (wc_destroy t) = set (wc_allocated t) - {B_copy, B_mapping}"
proof -
  have n: "nat (wsize t) = length (buckets t)" using assms by simp
  have "distinct (concat (map (\<lambda>i. map (B_node i) [0..<length (buckets t ! i)]) [0..<m]))" for m
    by (induction m) (auto simp: distinct_map inj_on_def)
  then show "distinct (wc_destroy t)" by (auto simp: wc_destroy_def)
  show "set (wc_destroy t) = set (wc_allocated t) - {B_copy, B_mapping}"
    by (auto simp: wc_destroy_def wc_allocated_def n)
qed

section \<open>The factorial program\<close>

text \<open>\<open>factCalc\<close>; below 1 the recursion goes down until the \<open>int\<close> wraps around.\<close>

partial_function (option) factCalc :: "int \<Rightarrow> int option" where
  "factCalc n = (if n = 1 then Some 1 else Option.bind (factCalc (wrap32 (n - 1))) (\<lambda>r. Some (wrap32 (n * r))))"

fun hasDecimal :: "string \<Rightarrow> bool" where
  "hasDecimal [] \<longleftrightarrow> False"
| "hasDecimal (c # str) \<longleftrightarrow> c = CHR ''.'' \<or> hasDecimal str"

text \<open>\<open>main\<close>: what it prints, given the arguments after the program name.\<close>

definition fact_main :: "string list \<Rightarrow> string option" where
  "fact_main args =
     (case args of
        [s] \<Rightarrow>
          if atoi s \<le> 0 then Some (''Huh?'' @ [CHR 0x0A])
          else if hasDecimal s then Some (''Huh?'' @ [CHR 0x0A])
          else if atoi s > 12 then Some (''Overflow'' @ [CHR 0x0A])
          else map_option (\<lambda>r. fmt_d r @ [CHR 0x0A]) (factCalc (atoi s))
      | _ \<Rightarrow> Some (''Huh?'' @ [CHR 0x0A]))"

section \<open>The words of a text\<close>

text \<open>Independently of \<open>strtok\<close>: the maximal runs of characters that are not delimiters.\<close>

fun split_words :: "string \<Rightarrow> string \<Rightarrow> string list" where
  "split_words acc [] = (if acc = [] then [] else [acc])"
| "split_words acc (c # s) =
     (if c \<in> delim then (if acc = [] then [] else [acc]) @ split_words [] s else split_words (acc @ [c]) s)"

lemma split_words_acc:
  "split_words acc s = (let w = acc @ takeWhile (\<lambda>c. c \<notin> delim) s
     in (if w = [] then [] else [w]) @ split_words [] (drop 1 (dropWhile (\<lambda>c. c \<notin> delim) s)))"
  by (induction s arbitrary: acc) (auto simp: Let_def)

lemma split_words_skip: "split_words [] s = split_words [] (dropWhile (\<lambda>c. c \<in> delim) s)"
  by (induction s) auto

lemma split_words_strtok:
  "split_words [] s = (case strtok s of None \<Rightarrow> [] | Some (w, r) \<Rightarrow> w # split_words [] r)"
proof (cases "dropWhile (\<lambda>c. c \<in> delim) s")
  case Nil
  with split_words_skip[of s, unfolded Nil] show ?thesis by (simp add: strtok_def del: dropWhile_eq_Nil_conv)
next
  case (Cons c s')
  then have "c \<notin> delim" by (metis hd_dropWhile list.distinct(1) list.sel(1))
  with Cons show ?thesis
    using split_words_skip[of s] split_words_acc[of "[]" "c # s'"] by (simp add: strtok_def Let_def)
qed

section \<open>Counting\<close>

text \<open>The table holds the counts of a list of words: each word once, in the chain of its hash.\<close>

definition wc_index :: "wc \<Rightarrow> string \<Rightarrow> nat" where
  "wc_index t w = (let hash = crem (sint (wc_hash_value w)) (wsize t)
     in nat (if hash < 0 then hash + wsize t else hash))"

definition counts :: "wc \<Rightarrow> string list \<Rightarrow> bool" where
  "counts t ws \<longleftrightarrow> 0 < wsize t \<and> int (length (buckets t)) = wsize t \<and>
     (\<forall>i < length (buckets t). distinct (map word (buckets t ! i)) \<and>
        word ` set (buckets t ! i) = {w \<in> set ws. wc_index t w = i} \<and>
        (\<forall>n\<in>set (buckets t ! i). count n = int (count_list ws (word n))))"

lemma wc_index_bound: "0 < wsize t \<Longrightarrow> int (wc_index t w) < wsize t"
  using crem_bounds[of "wsize t" "sint (wc_hash_value w)"] by (auto simp: wc_index_def Let_def)

lemma count_in_chain_words:
  "word ` set (count_in_chain w ns) = insert w (word ` set ns)"
  "distinct (map word ns) \<Longrightarrow> distinct (map word (count_in_chain w ns))"
proof -
  show w: "word ` set (count_in_chain w ns) = insert w (word ` set ns)" for ns
    by (induction ns) auto
  show "distinct (map word ns) \<Longrightarrow> distinct (map word (count_in_chain w ns))"
  proof (induction ns)
    case (Cons n ns)
    have "word n \<notin> word ` set (count_in_chain w ns)" if "word n \<noteq> w" using Cons.prems that w[of ns] by auto
    with Cons show ?case by auto
  qed simp
qed

lemma count_in_chain_counts:
  assumes "distinct (map word ns)" and "n \<in> set (count_in_chain w ns)"
  shows "if word n = w
    then (if w \<in> word ` set ns then \<exists>m\<in>set ns. word m = w \<and> count n = wrap32 (count m + 1) else count n = 1)
    else n \<in> set ns"
  using assms
proof (induction ns)
  case (Cons a ns)
  then show ?case by (cases "word a = w") (auto simp: image_iff split: if_splits)
qed simp

lemma insert_counts:
  assumes "counts t ws" and "length ws < 2 ^ 31 - 1"
  shows "\<exists>t'. insert_into_wc w t = Inr t' \<and> counts t' (ws @ [w]) \<and> wsize t' = wsize t"
proof -
  let ?i = "wc_index t w"
  have z: "0 < wsize t" "int (length (buckets t)) = wsize t"
    and b: "\<And>i. i < length (buckets t) \<Longrightarrow> distinct (map word (buckets t ! i)) \<and>
        word ` set (buckets t ! i) = {w \<in> set ws. wc_index t w = i} \<and>
        (\<forall>n\<in>set (buckets t ! i). count n = int (count_list ws (word n)))"
    using assms(1) by (auto simp: counts_def)
  have i: "?i < length (buckets t)" using wc_index_bound[OF z(1), of w] z(2) by simp
  define t' where "t' = t\<lparr>buckets := (buckets t)[?i := count_in_chain w (buckets t ! ?i)]\<rparr>"
  have ix: "wc_index t' = wc_index t" by (simp add: wc_index_def t'_def fun_eq_iff Let_def)
  have e: "insert_into_wc w t = Inr t'" using z(1) i by (simp add: insert_into_wc_def wc_index_def Let_def t'_def)
  have "distinct (map word (buckets t' ! j)) \<and> word ` set (buckets t' ! j) = {v \<in> set (ws @ [w]). wc_index t' v = j} \<and>
      (\<forall>n\<in>set (buckets t' ! j). count n = int (count_list (ws @ [w]) (word n)))" if j: "j < length (buckets t')" for j
  proof (cases "j = ?i")
    case False
    then have "buckets t' ! j = buckets t ! j" "j < length (buckets t)" using j by (auto simp: t'_def)
    with b[of j] False show ?thesis unfolding ix by auto
  next
    case True
    have bj: "buckets t' ! j = count_in_chain w (buckets t ! ?i)" using True i by (simp add: t'_def)
    note bi = b[OF i]
    have "count n = int (count_list (ws @ [w]) (word n))" if n: "n \<in> set (count_in_chain w (buckets t ! ?i))" for n
    proof -
      note c = count_in_chain_counts[OF conjunct1[OF bi] n]
      have wr: "wrap32 (int (count_list ws w) + 1) = int (count_list ws w) + 1"
        using assms(2) count_le_length[of ws w] by (intro wrap32_id) auto
      show ?thesis
      proof (cases "word n = w")
        case True
        show ?thesis
        proof (cases "w \<in> word ` set (buckets t ! ?i)")
          case True
          with c \<open>word n = w\<close> obtain m where "m \<in> set (buckets t ! ?i)" "word m = w" "count n = wrap32 (count m + 1)" by auto
          with bi wr \<open>word n = w\<close> show ?thesis by simp
        next
          case False
          then have "w \<notin> set ws" using bi by auto
          with False c \<open>word n = w\<close> show ?thesis by simp
        qed
      next
        case False
        with c bi show ?thesis by auto
      qed
    qed
    then show ?thesis using count_in_chain_words(2)[of "buckets t ! ?i" w] bi True
      unfolding bj count_in_chain_words(1) ix by auto
  qed
  then have "counts t' (ws @ [w])" using z by (auto simp: counts_def t'_def)
  with e show ?thesis by (auto simp: t'_def)
qed

lemma count_words_counts:
  "counts t ws \<Longrightarrow> length ws + length s < 2 ^ 31 - 1 \<Longrightarrow>
   \<exists>t'. count_words s t = Inr t' \<and> counts t' (ws @ split_words [] s) \<and> wsize t' = wsize t"
proof (induction s t arbitrary: ws rule: count_words.induct)
  case (1 s t)
  show ?case
  proof (cases "strtok s")
    case None
    with 1 show ?thesis by (subst count_words.simps) (simp add: split_words_strtok)
  next
    case (Some x)
    obtain w r where x: "x = (w, r)" by fastforce
    have "length r < length s" using strtok_shorter Some x by simp
    moreover obtain t1 where t1: "insert_into_wc w t = Inr t1" "counts t1 (ws @ [w])" "wsize t1 = wsize t"
      using insert_counts[OF "1.prems"(1)] "1.prems"(2) by auto
    ultimately obtain t' where "count_words r t1 = Inr t'" "counts t' ((ws @ [w]) @ split_words [] r)" "wsize t' = wsize t1"
      using "1.IH"[OF Some x[symmetric] t1(1), of "ws @ [w]"] "1.prems"(2) by auto
    then show ?thesis using Some x t1 by (subst count_words.simps) (auto simp: split_words_strtok[of s])
  qed
qed


text \<open>Chains with different indices have no word in common.\<close>

lemma distinct_map_concat:
  "(\<forall>i < length bs. distinct (map f (bs ! i)) \<and> (\<forall>x\<in>set (bs ! i). g (f x) = k + i)) \<Longrightarrow>
   distinct (map f (concat bs)) \<and> (\<forall>x\<in>set (concat bs). k \<le> g (f x))"
proof (induction bs arbitrary: k)
  case (Cons b bs)
  have "\<forall>i < length bs. distinct (map f (bs ! i)) \<and> (\<forall>x\<in>set (bs ! i). g (f x) = Suc k + i)"
    using Cons.prems by (metis Suc_less_eq add_Suc add_Suc_right length_Cons nth_Cons_Suc)
  note IH = Cons.IH[OF this]
  moreover have b: "distinct (map f b)" "\<forall>x\<in>set b. g (f x) = k" using Cons.prems[rule_format, of 0] by auto
  moreover have "f ` set b \<inter> f ` set (concat bs) = {}"
    using IH b(2) by (fastforce simp del: set_concat)
  ultimately show ?case by (fastforce simp del: set_concat simp: set_concat[symmetric])
qed simp

lemma counts_nodes:
  assumes "counts t ws"
  shows "distinct (map word (wc_nodes t))" and "word ` set (wc_nodes t) = set ws"
    and "n \<in> set (wc_nodes t) \<Longrightarrow> count n = int (count_list ws (word n))"
proof -
  have z: "0 < wsize t" "int (length (buckets t)) = wsize t"
    and b: "\<And>i. i < length (buckets t) \<Longrightarrow> distinct (map word (buckets t ! i)) \<and>
        word ` set (buckets t ! i) = {w \<in> set ws. wc_index t w = i} \<and>
        (\<forall>n\<in>set (buckets t ! i). count n = int (count_list ws (word n)))"
    using assms by (auto simp: counts_def)
  have nodes: "wc_nodes t = concat (buckets t)" using z by (simp add: wc_nodes_def)
  have "\<forall>i < length (buckets t). distinct (map word (buckets t ! i)) \<and> (\<forall>x\<in>set (buckets t ! i). wc_index t (word x) = 0 + i)"
    using b by fastforce
  from distinct_map_concat[OF this] show "distinct (map word (wc_nodes t))" by (simp add: nodes)
  have in_b: "n \<in> set (wc_nodes t) \<longleftrightarrow> (\<exists>i < length (buckets t). n \<in> set (buckets t ! i))" for n
    by (auto simp: nodes in_set_conv_nth[of _ "buckets t"]) (metis nth_mem)
  show "word ` set (wc_nodes t) = set ws"
  proof (intro set_eqI iffI)
    fix w assume "w \<in> set ws"
    moreover have "wc_index t w < length (buckets t)" using wc_index_bound[OF z(1), of w] z(2) by simp
    ultimately have "w \<in> word ` set (buckets t ! wc_index t w)" using b by auto
    with \<open>wc_index t w < _\<close> show "w \<in> word ` set (wc_nodes t)" using in_b by auto
  next
    fix w assume "w \<in> word ` set (wc_nodes t)"
    then obtain n i where "w = word n" "i < length (buckets t)" "n \<in> set (buckets t ! i)" using in_b by auto
    with b[of i] show "w \<in> set ws" by auto
  qed
  show "n \<in> set (wc_nodes t) \<Longrightarrow> count n = int (count_list ws (word n))" using in_b b by auto
qed

text \<open>
  C40. The word counter. On a text that fits its copy, \<open>wc_init\<close> builds a table from which
  \<open>wc_output\<close> prints every word of the text exactly once and with the number of its occurrences;
  words are separated by blanks, tabs, newlines, carriage returns, vertical tabs and form feeds. On a
  text that is as long as the array, as the header promises it, the copy is one byte too short.
\<close>

theorem wc_counts_words:
  assumes "sz < 2 ^ 30"
  shows "if sz \<le> int (length txt) then wc_init txt sz = Inl Out_of_bounds
    else \<exists>t ws. wc_init txt sz = Inr t \<and> distinct ws \<and> set ws = set (split_words [] txt) \<and>
      wc_output t = concat (map (\<lambda>w. w @ '':'' @ fmt_u (count_list (split_words [] txt) w) @ [CHR 0x0A]) ws)"
proof (cases "sz \<le> int (length txt)")
  case True
  then show ?thesis by (simp add: wc_init_def)
next
  case False
  have n: "wrap32 (2 * sz) = 2 * sz" using False assms by (intro wrap32_id) auto
  let ?t = "\<lparr>wsize = 2 * sz, buckets = replicate (nat (2 * sz)) []\<rparr>"
  have "counts ?t []" using False by (simp add: counts_def)
  moreover have "length [] + length txt < 2 ^ 31 - 1" using False assms by simp
  ultimately obtain t where t: "count_words txt ?t = Inr t" "counts t ([] @ split_words [] txt)"
    using count_words_counts by blast
  note c = counts_nodes[OF t(2)[simplified]]
  have "wc_output t = concat (map (\<lambda>w. w @ '':'' @ fmt_u (count_list (split_words [] txt) w) @ [CHR 0x0A]) (map word (wc_nodes t)))"
    unfolding wc_output_def map_map using c(3) by (intro arg_cong[where f = concat] map_cong) (auto simp: fmt_d_def)
  moreover have "wc_init txt sz = Inr t" using False t(1) n by (simp add: wc_init_def)
  ultimately show ?thesis using False c(1,2) by (auto intro!: exI[of _ "map word (wc_nodes t)"])
qed

theorem wc_counts_words_witness:
  "wc_init ''to be or not'' 12 = Inl Out_of_bounds \<and>
   (\<exists>t ws. wc_init ''to be to'' 9 = Inr t \<and> distinct ws \<and> set ws = {''to'', ''be''} \<and>
     wc_output t = concat (map (\<lambda>w. w @ '':'' @ fmt_u (count_list [''to'', ''be'', ''to''] w) @ [CHR 0x0A]) ws))"
proof -
  have w: "split_words [] ''to be to'' = [''to'', ''be'', ''to'']" by (simp add: delim_def)
  have s: "set [''to'', ''be'', ''to''] = {''to'', ''be''}" by auto
  show ?thesis using wc_counts_words[of 12 "''to be or not''"] wc_counts_words[of 9 "''to be to''"] unfolding w s by simp
qed

section \<open>Factorials\<close>

lemma factCalc_fact: "n \<le> 11 \<Longrightarrow> factCalc (int (Suc n)) = Some (int (fact (Suc n)))"
proof (induction n)
  case 0
  then show ?case by (subst factCalc.simps) simp
next
  case (Suc n)
  have "fact (Suc (Suc n)) \<le> (fact 12 :: nat)" using Suc.prems by (intro fact_mono) auto
  then have b: "fact (Suc (Suc n)) \<le> (479001600 :: nat)" by (simp add: fact_numeral)
  have "wrap32 (int (Suc (Suc n)) - 1) = int (Suc n)" using Suc.prems by (subst wrap32_id) auto
  moreover have "wrap32 (int (Suc (Suc n)) * int (fact (Suc n))) = int (fact (Suc (Suc n)))"
  proof -
    have e: "int (Suc (Suc n)) * int (fact (Suc n)) = int (fact (Suc (Suc n)))" by (metis fact_Suc of_nat_id of_nat_mult)
    have "wrap32 (int m) = int m" if "m \<le> 479001600" for m using that by (intro wrap32_id) auto
    from this[OF b] show ?thesis unfolding e .
  qed
  ultimately show ?case using Suc by (subst factCalc.simps) simp
qed

lemma nat_fact: "nat (fact k) = fact k"
  by (metis nat_int of_nat_fact)

text \<open>The program always prints something; the factorial of a number from 1 to 12 is exact.\<close>

lemma fact_main_prints:
  "fact_main [s] = Some ((if atoi s \<le> 0 \<or> hasDecimal s then ''Huh?''
     else if atoi s > 12 then ''Overflow'' else fmt_u (fact (nat (atoi s)))) @ [CHR 0x0A])"
proof (cases "atoi s \<le> 0 \<or> hasDecimal s \<or> atoi s > 12")
  case False
  then have a: "atoi s = int (Suc (nat (atoi s) - 1))" "nat (atoi s) - 1 \<le> 11" by auto
  have "factCalc (atoi s) = Some (int (fact (nat (atoi s))))"
    using factCalc_fact[OF a(2)] a(1) by simp
  with False show ?thesis by (simp add: fact_main_def fmt_d_def nat_fact)
qed (auto simp: fact_main_def)

end
