(* ===== verification/Cpr.thy ===== *)
theory Cpr
  imports Prelude "HOL-Library.AList" "HOL-Library.Sublist"
begin

text \<open>
  The recursive copy warmup/cpr.c, on a file system without links: an association list from absolute
  paths, lists of names, to directories and files, in the order of creation. Arguments stand for what
  the code does not determine: \<open>cwd\<close>, the working directory; \<open>rd\<close>, the order in which \<open>readdir\<close>
  lists a directory; \<open>wr\<close>, how many bytes a write to a file accepts; \<open>usable\<close>, how many bytes a block
  of \<open>malloc\<close> really has, as the code writes one byte more than it asked for.
\<close>

section \<open>The file system\<close>

datatype node = DirN | FileN string

type_synonym path = "string list"
type_synonym fs = "(path \<times> node) list"

datatype errno = ENOENT | ENOTDIR | EISDIR | EEXIST

text \<open>The components of a path.\<close>

fun split_path :: "string \<Rightarrow> string list" where
  "split_path [] = [[]]"
| "split_path (c # s) =
     (if c = CHR ''/'' then [] # split_path s
      else case split_path s of [] \<Rightarrow> [[c]] | w # ws \<Rightarrow> (c # w) # ws)"

fun walk :: "fs \<Rightarrow> path \<Rightarrow> string list \<Rightarrow> errno + path" where
  "walk T p [] = Inr p"
| "walk T p (c # cs) =
     (case map_of T p of
        None \<Rightarrow> Inl ENOENT
      | Some (FileN _) \<Rightarrow> Inl ENOTDIR
      | Some DirN \<Rightarrow>
          if c = [] \<or> c = ''.'' then walk T p cs
          else if c = ''..'' then walk T (butlast p) cs
          else if map_of T (p @ [c]) = None then Inl ENOENT
          else walk T (p @ [c]) cs)"

definition start_dir :: "path \<Rightarrow> string \<Rightarrow> path" where
  "start_dir cwd s = (if take 1 s = ''/'' then [] else cwd)"

definition resolve :: "path \<Rightarrow> fs \<Rightarrow> string \<Rightarrow> errno + path" where
  "resolve cwd T s = (if s = [] then Inl ENOENT else walk T (start_dir cwd s) (split_path s))"

text \<open>The directory in which the last component of a path is or would be, and this component.\<close>

definition resolve_parent :: "path \<Rightarrow> fs \<Rightarrow> string \<Rightarrow> errno + path \<times> string" where
  "resolve_parent cwd T s =
     (let cs = rev (dropWhile (\<lambda>c. c = []) (rev (split_path s)))
      in if s = [] then Inl ENOENT
         else if cs = [] \<or> last cs = ''.'' \<or> last cs = ''..'' then Inl EEXIST
         else case walk T (start_dir cwd s) (butlast cs) of
                Inl e \<Rightarrow> Inl e
              | Inr p \<Rightarrow> if map_of T p = Some DirN then Inr (p, last cs) else Inl ENOTDIR)"

definition opendir :: "path \<Rightarrow> fs \<Rightarrow> string \<Rightarrow> errno + path" where
  "opendir cwd T s =
     (case resolve cwd T s of
        Inl e \<Rightarrow> Inl e
      | Inr p \<Rightarrow> (case map_of T p of None \<Rightarrow> Inl ENOENT | Some DirN \<Rightarrow> Inr p | Some (FileN _) \<Rightarrow> Inl ENOTDIR))"

definition entries :: "fs \<Rightarrow> path \<Rightarrow> string list" where
  "entries T p = map last (filter (\<lambda>q. q \<noteq> [] \<and> butlast q = p) (map fst T))"

definition mkdir :: "path \<Rightarrow> fs \<Rightarrow> string \<Rightarrow> errno + fs" where
  "mkdir cwd T s =
     (case resolve_parent cwd T s of
        Inl e \<Rightarrow> Inl e
      | Inr (p, c) \<Rightarrow> if map_of T (p @ [c]) = None then Inr (AList.update (p @ [c]) DirN T) else Inl EEXIST)"

text \<open>\<open>open\<close> with \<open>O_RDONLY\<close>, and with \<open>O_CREAT|O_RDWR|O_TRUNC\<close>.\<close>

definition open_read :: "path \<Rightarrow> fs \<Rightarrow> string \<Rightarrow> errno + path" where
  "open_read cwd T s =
     (case resolve cwd T s of Inl e \<Rightarrow> Inl e | Inr p \<Rightarrow> if map_of T p = None then Inl ENOENT else Inr p)"

definition open_create :: "path \<Rightarrow> fs \<Rightarrow> string \<Rightarrow> errno + path \<times> fs" where
  "open_create cwd T s =
     (if last (split_path s) = [] then Inl EISDIR
      else case resolve_parent cwd T s of
             Inl e \<Rightarrow> Inl e
           | Inr (p, c) \<Rightarrow>
               if map_of T (p @ [c]) = Some DirN then Inl EISDIR
               else Inr (p @ [c], AList.update (p @ [c]) (FileN []) T))"

section \<open>The program\<close>

text \<open>\<open>isFile\<close>\<close>

definition isFile :: "path \<Rightarrow> fs \<Rightarrow> string \<Rightarrow> int" where
  "isFile cwd T name =
     (case opendir cwd T name of Inr _ \<Rightarrow> 0 | Inl e \<Rightarrow> if e = ENOTDIR then 1 else - 1)"

text \<open>\<open>getDirName\<close>: what follows the last slash that is not the last character; without one,
  the pointer is used uninitialised.\<close>

definition getDirName :: "string \<Rightarrow> string res" where
  "getDirName src =
     (case filter (\<lambda>i. src ! i = CHR ''/'' \<and> i \<noteq> length src - 1) [0..<length src] of
        [] \<Rightarrow> Inl Uninit
      | is \<Rightarrow> Inr (drop (Suc (last is)) src))"

text \<open>The loop of \<open>copyOverFile\<close> over blocks of 4096 bytes; a write that accepts fewer bytes ends it.\<close>

function copy_loop :: "(nat \<Rightarrow> nat) \<Rightarrow> nat \<Rightarrow> string \<Rightarrow> string \<Rightarrow> string" where
  "copy_loop w i src out =
     (let buf = take 4096 src; amount = min (w i) (length buf)
      in if buf = [] then out
         else if amount \<noteq> length buf then out @ take amount buf
         else copy_loop w (Suc i) (drop 4096 src) (out @ buf))"
  by pat_completeness auto
termination by (relation "measure (\<lambda>(w, i, src, out). length src)") (auto simp: Let_def)

declare copy_loop.simps [simp del]

text \<open>Reading a directory fails, and then so does the write of a negative number of bytes: the two
  results are equal and the loop never ends.\<close>

definition copyOverFile :: "path \<Rightarrow> (path \<Rightarrow> nat \<Rightarrow> nat) \<Rightarrow> string \<Rightarrow> string \<Rightarrow> fs \<Rightarrow> fs io" where
  "copyOverFile cwd wr source dest T =
     (let fd = open_read cwd T source; fd_write = open_create cwd T dest;
          T = (case fd_write of Inl _ \<Rightarrow> T | Inr (_, T) \<Rightarrow> T)
      in case fd of
           Inl _ \<Rightarrow> Some (Inr T)
         | Inr p \<Rightarrow>
             (case fd_write of
                Inl _ \<Rightarrow> Some (Inr T)
              | Inr (q, _) \<Rightarrow>
                  (case map_of T p of
                     Some (FileN content) \<Rightarrow> Some (Inr (AList.update q (FileN (copy_loop (wr q) 0 content [])) T))
                   | _ \<Rightarrow> None)))"

fun each :: "(string \<Rightarrow> fs \<Rightarrow> fs io) \<Rightarrow> string list \<Rightarrow> fs \<Rightarrow> fs io" where
  "each f [] T = Some (Inr T)"
| "each f (x # xs) T = bindO (f x T) (each f xs)"

definition with_slash :: "string \<Rightarrow> string" where
  "with_slash s = (if last s \<noteq> CHR ''/'' then s @ ''/'' else s)"

text \<open>\<open>dealWithDirectory\<close>; the depth of the recursion is bounded by the first argument.\<close>

fun dealWithDirectory :: "nat \<Rightarrow> path \<Rightarrow> (string list \<Rightarrow> string list) \<Rightarrow> (path \<Rightarrow> nat \<Rightarrow> nat) \<Rightarrow> (nat \<Rightarrow> nat) \<Rightarrow>
    string \<Rightarrow> string \<Rightarrow> fs \<Rightarrow> fs io" where
  "dealWithDirectory 0 cwd rd wr usable source dest T = None"
| "dealWithDirectory (Suc n) cwd rd wr usable source dest T =
     (if source = [] \<or> dest = [] then Some (Inl Out_of_bounds)
      else case getDirName (with_slash source) of
             Inl e \<Rightarrow> Some (Inl e)
           | Inr dirName \<Rightarrow>
               let newDirForSrc = with_slash source; newDirForDest = with_slash dest @ dirName
               in case mkdir cwd T newDirForDest of
                    Inl _ \<Rightarrow> Some (Inr T)
                  | Inr T \<Rightarrow>
                      (case (opendir cwd T newDirForSrc, opendir cwd T newDirForDest) of
                         (Inr p, Inr _) \<Rightarrow>
                           each (\<lambda>filename T.
                               let newPath = newDirForSrc @ filename
                               in if isFile cwd T newPath = 1
                                  then copyOverFile cwd wr newPath (newDirForDest @ filename) T
                                  else if usable (length newPath + 1) < length newPath + 2 then Some (Inl Out_of_bounds)
                                  else dealWithDirectory n cwd rd wr usable (newPath @ ''/'') newDirForDest T)
                             (rd (''.'' # ''..'' # entries T p)) T
                       | _ \<Rightarrow> Some (Inr T)))"

definition cpr_main :: "nat \<Rightarrow> path \<Rightarrow> (string list \<Rightarrow> string list) \<Rightarrow> (path \<Rightarrow> nat \<Rightarrow> nat) \<Rightarrow> (nat \<Rightarrow> nat) \<Rightarrow>
    string list \<Rightarrow> fs \<Rightarrow> fs io" where
  "cpr_main n cwd rd wr usable argv T =
     (if length argv \<noteq> 3 then Some (Inl Exit_1)
      else if isFile cwd T (argv ! 1) \<noteq> 0 then copyOverFile cwd wr (argv ! 1) (argv ! 2) T
      else dealWithDirectory n cwd rd wr usable (argv ! 1) (argv ! 2) T)"

section \<open>Paths\<close>

lemma split_path_ne [simp]: "split_path s \<noteq> []"
  by (induction s) (auto split: list.splits)

lemma split_path_append: "split_path (a @ CHR ''/'' # b) = split_path a @ split_path b"
  by (induction a) (auto split: list.splits)

definition good_name :: "string \<Rightarrow> bool" where
  "good_name c \<longleftrightarrow> c \<noteq> [] \<and> c \<noteq> ''.'' \<and> c \<noteq> ''..'' \<and> CHR ''/'' \<notin> set c"

lemma split_path_name: "CHR ''/'' \<notin> set c \<Longrightarrow> split_path c = [c]"
  by (induction c) auto

lemma walk_append: "walk T p (cs @ ds) = (case walk T p cs of Inl e \<Rightarrow> Inl e | Inr q \<Rightarrow> walk T q ds)"
  by (induction cs arbitrary: p) (auto split: option.splits node.splits)

lemma start_append: "s \<noteq> [] \<Longrightarrow> start_dir cwd (s @ t) = start_dir cwd s"
  by (cases s) (simp_all add: start_dir_def)

text \<open>\<open>u\<close> followed by a slash names the directory \<open>p\<close>.\<close>

definition names_dir :: "path \<Rightarrow> fs \<Rightarrow> string \<Rightarrow> path \<Rightarrow> bool" where
  "names_dir cwd T u p \<longleftrightarrow> walk T (start_dir cwd (u @ ''/'')) (split_path u) = Inr p \<and> map_of T p = Some DirN"

lemma names_dir_resolve:
  assumes "names_dir cwd T u p"
  shows "resolve cwd T (u @ ''/'' @ c) = walk T p (split_path c)"
proof -
  have "start_dir cwd ((u @ ''/'') @ c) = start_dir cwd (u @ ''/'')" by (rule start_append) simp
  with assms show ?thesis by (simp add: resolve_def split_path_append walk_append names_dir_def)
qed

lemma names_dir_opendir: "names_dir cwd T u p \<Longrightarrow> opendir cwd T (u @ ''/'') = Inr p"
  using names_dir_resolve[of cwd T u p "[]"] by (simp add: opendir_def names_dir_def)

lemma names_dir_child:
  assumes "names_dir cwd T u p" and "good_name c" and "map_of T (p @ [c]) = Some DirN"
  shows "names_dir cwd T (u @ ''/'' @ c) (p @ [c])"
proof -
  have "start_dir cwd ((u @ ''/'') @ c @ ''/'') = start_dir cwd (u @ ''/'')" by (rule start_append) simp
  with assms show ?thesis
    by (simp add: names_dir_def split_path_append walk_append good_name_def split_path_name)
qed

lemma isFile_child:
  assumes "names_dir cwd T u p" and "good_name c"
  shows "isFile cwd T (u @ ''/'' @ c) =
    (case map_of T (p @ [c]) of None \<Rightarrow> - 1 | Some DirN \<Rightarrow> 0 | Some (FileN _) \<Rightarrow> 1)"
proof -
  have "resolve cwd T (u @ ''/'' @ c) = walk T p [c]"
    using names_dir_resolve[OF assms(1)] assms(2) by (simp add: good_name_def split_path_name)
  with assms show ?thesis
    by (auto simp: isFile_def opendir_def names_dir_def good_name_def split: option.splits node.splits)
qed


lemma resolve_parent_child:
  assumes "names_dir cwd T u p" and "good_name c" and "sl = [] \<or> sl = ''/''"
  shows "resolve_parent cwd T (u @ ''/'' @ c @ sl) = Inr (p, c)"
proof -
  have "start_dir cwd ((u @ ''/'') @ c @ sl) = start_dir cwd (u @ ''/'')" by (rule start_append) simp
  moreover have "split_path (u @ ''/'' @ c @ sl) = split_path u @ (if sl = [] then [c] else [c, []])"
    using assms(2,3) by (auto simp: split_path_append split_path_name good_name_def)
  ultimately show ?thesis
    using assms by (auto simp: resolve_parent_def names_dir_def good_name_def)
qed

lemma resolve_parent_dots:
  assumes "c = ''.'' \<or> c = ''..''"
  shows "resolve_parent cwd T (u @ ''/'' @ c @ ''/'') = Inl EEXIST"
proof -
  have "split_path (u @ ''/'' @ c @ ''/'') = split_path u @ [c, []]"
    using assms by (auto simp: split_path_append split_path_name)
  then show ?thesis using assms by (auto simp: resolve_parent_def)
qed

lemma getDirName_last:
  assumes "CHR ''/'' \<notin> set c"
  shows "getDirName (v @ ''/'' @ c @ ''/'') = Inr (c @ ''/'')"
proof -
  let ?s = "v @ ''/'' @ c @ ''/''" and ?n = "length v"
  let ?P = "\<lambda>i. ?s ! i = CHR ''/'' \<and> i \<noteq> length ?s - 1"
  have u: "[0..<length ?s] = [0..<?n] @ ?n # [Suc ?n..<length ?s]"
    using upt_add_eq_append[of 0 ?n "length ?s - ?n"] upt_conv_Cons[of ?n "length ?s"] by (simp del: upt_Suc)
  have "filter ?P [Suc ?n..<length ?s] = []"
  proof (subst filter_empty_conv, intro ballI)
    fix i assume "i \<in> set [Suc ?n..<length ?s]"
    then have i: "Suc ?n \<le> i" "i < length ?s" by auto
    show "\<not> ?P i"
    proof (cases "i = length ?s - 1")
      case False
      then have k: "i - Suc ?n < length c" using i by auto
      then have "?s ! i = c ! (i - Suc ?n)" using i by (auto simp: nth_append nth_Cons')
      with k assms show ?thesis by (metis nth_mem)
    qed simp
  qed
  moreover have "?P ?n" by (simp add: nth_append)
  ultimately have f: "filter ?P [0..<length ?s] = filter ?P [0..<?n] @ [?n]" unfolding u by simp
  have "getDirName ?s = (case filter ?P [0..<?n] @ [?n] of [] \<Rightarrow> Inl Uninit | is \<Rightarrow> Inr (drop (Suc (last (filter ?P [0..<?n] @ [?n]))) ?s))"
    unfolding getDirName_def f by (cases "filter ?P [0..<?n]") simp_all
  then show ?thesis by (cases "filter ?P [0..<?n]") (simp_all del: filter.simps)
qed

section \<open>File systems that extend each other\<close>

text \<open>Paths occur once, parents are directories, and names are proper.\<close>

definition tree_ok :: "fs \<Rightarrow> bool" where
  "tree_ok T \<longleftrightarrow> distinct (map fst T) \<and> map_of T [] = Some DirN \<and>
     (\<forall>p c. map_of T (p @ [c]) \<noteq> None \<longrightarrow> map_of T p = Some DirN \<and> good_name c)"

lemma tree_ok_prefix: "tree_ok T \<Longrightarrow> map_of T (p @ q) \<noteq> None \<Longrightarrow> map_of T p \<noteq> None"
proof (induction q rule: rev_induct)
  case (snoc c q)
  then have "map_of T (p @ q) = Some DirN" unfolding tree_ok_def by (metis append_assoc)
  with snoc show ?case by simp
qed simp

lemma tree_ok_update:
  assumes "tree_ok T" and "map_of T p = Some DirN" and "good_name c" and "map_of T (p @ [c]) \<noteq> Some DirN"
  shows "tree_ok (AList.update (p @ [c]) x T)"
proof -
  let ?T = "AList.update (p @ [c]) x T"
  have T: "distinct (map fst T)" "map_of T [] = Some DirN"
    "\<And>q b. map_of T (q @ [b]) \<noteq> None \<Longrightarrow> map_of T q = Some DirN \<and> good_name b"
    using assms(1) unfolding tree_ok_def by blast+
  have "map_of ?T q = Some DirN \<and> good_name b" if "map_of ?T (q @ [b]) \<noteq> None" for q b
  proof (cases "q @ [b] = p @ [c]")
    case True
    then show ?thesis using assms(2,3) by (simp add: update_conv')
  next
    case False
    with that have "map_of T (q @ [b]) \<noteq> None" by (auto simp: update_conv')
    with T(3) have "map_of T q = Some DirN" "good_name b" by blast+
    with assms(4) show ?thesis by (auto simp: update_conv')
  qed
  with T(1,2) show ?thesis unfolding tree_ok_def by (simp add: update_conv' distinct_update)
qed

lemma walk_mono: "map_of T \<subseteq>\<^sub>m map_of T' \<Longrightarrow> walk T p cs = Inr q \<Longrightarrow> walk T' p cs = Inr q"
proof (induction cs arbitrary: p)
  case (Cons c cs)
  have m: "map_of T' r = map_of T r" if "map_of T r \<noteq> None" for r using Cons.prems(1) that by (auto simp: map_le_def dom_def)
  from Cons.prems(2) have d: "map_of T p = Some DirN" by (auto split: option.splits node.splits)
  with m have d': "map_of T' p = Some DirN" by simp
  have "c \<noteq> [] \<Longrightarrow> c \<noteq> ''.'' \<Longrightarrow> c \<noteq> ''..'' \<Longrightarrow> map_of T (p @ [c]) \<noteq> None" using Cons.prems(2) d by (auto split: if_splits)
  with m d d' Cons.prems Cons.IH show ?case by (auto split: if_splits)
qed simp

lemma names_dir_mono: "map_of T \<subseteq>\<^sub>m map_of T' \<Longrightarrow> names_dir cwd T u p \<Longrightarrow> names_dir cwd T' u p"
  by (auto simp: names_dir_def map_le_def dom_def intro: walk_mono)

lemma entries_set: "tree_ok T \<Longrightarrow> set (entries T p) = {c. map_of T (p @ [c]) \<noteq> None}"
proof -
  have "c \<in> set (entries T p) \<longleftrightarrow> p @ [c] \<in> fst ` set T" for c
  proof
    assume "p @ [c] \<in> fst ` set T"
    then show "c \<in> set (entries T p)" unfolding entries_def by (auto intro!: image_eqI[of c last "p @ [c]"])
  next
    assume "c \<in> set (entries T p)"
    then obtain q where q: "q \<in> fst ` set T" "q \<noteq> []" "butlast q = p" "c = last q" by (auto simp: entries_def)
    then have "q = p @ [c]" using append_butlast_last_id[of q] by simp
    with q(1) show "p @ [c] \<in> fst ` set T" by simp
  qed
  then show ?thesis by (auto simp: map_of_eq_None_iff)
qed

lemma entries_distinct: "distinct (map fst T) \<Longrightarrow> distinct (entries T p)"
proof -
  assume "distinct (map fst T)"
  moreover have "inj_on last {q. q \<noteq> [] \<and> butlast q = p}"
    by (rule inj_onI) (metis (mono_tags, lifting) append_butlast_last_id mem_Collect_eq)
  then have "inj_on last (set (filter (\<lambda>q. q \<noteq> [] \<and> butlast q = p) (map fst T)))" by (rule inj_on_subset) auto
  ultimately show ?thesis by (simp add: entries_def distinct_map)
qed

lemma copy_loop_all: "\<forall>i. 4096 \<le> w i \<Longrightarrow> copy_loop w i src out = out @ src"
proof (induction w i src out rule: copy_loop.induct)
  case (1 w i src out)
  have m: "min (w i) (length (take 4096 src)) = length (take 4096 src)" using "1.prems"[THEN spec, of i] by simp
  show ?case
  proof (cases "take 4096 src = []")
    case True
    then show ?thesis by (subst copy_loop.simps) simp
  next
    case False
    from "1.IH"[OF refl refl False _ "1.prems"] m have "copy_loop w (Suc i) (drop 4096 src) (out @ take 4096 src) = out @ src" by simp
    with False m show ?thesis by (subst copy_loop.simps) (simp only: Let_def if_False simp_thms)
  qed
qed


section \<open>Copying\<close>

lemma each_inv:
  assumes "\<And>x T dn. x \<in> set xs \<Longrightarrow> x \<notin> dn \<Longrightarrow> I dn T \<Longrightarrow> \<exists>T'. f x T = Some (Inr T') \<and> I (insert x dn) T'"
    and "distinct xs" and "set xs \<inter> dn = {}" and "I dn T"
  shows "\<exists>T'. each f xs T = Some (Inr T') \<and> I (dn \<union> set xs) T'"
  using assms
proof (induction xs arbitrary: T dn)
  case (Cons x xs)
  from Cons.prems(1)[of x dn T] Cons.prems(3,4) obtain T1 where 1: "f x T = Some (Inr T1)" "I (insert x dn) T1" by auto
  have "\<exists>T'. each f xs T1 = Some (Inr T') \<and> I (insert x dn \<union> set xs) T'"
    using Cons.prems 1(2) by (intro Cons.IH) auto
  with 1(1) show ?case by simp
qed simp

text \<open>What has been copied from \<open>p\<close> to the new directory \<open>e\<close> when the names in \<open>dn\<close> are done; \<open>T0\<close> is
  the file system before.\<close>

definition copying :: "fs \<Rightarrow> path \<Rightarrow> path \<Rightarrow> string set \<Rightarrow> fs \<Rightarrow> bool" where
  "copying T0 p e dn T \<longleftrightarrow> tree_ok T \<and> map_of T e = Some DirN \<and>
     (\<forall>r. \<not> prefix e r \<longrightarrow> map_of T r = map_of T0 r) \<and>
     (\<forall>c q. map_of T (e @ c # q) = (if c \<in> dn then map_of T0 (p @ c # q) else None))"

text \<open>The new directory and the source are apart.\<close>

definition apart :: "fs \<Rightarrow> path \<Rightarrow> path \<Rightarrow> bool" where
  "apart T p e \<longleftrightarrow> tree_ok T \<and> map_of T p = Some DirN \<and> map_of T e = None \<and> \<not> prefix p e"

lemma apart_source: "apart T p e \<Longrightarrow> \<not> prefix e (p @ q)"
proof
  assume a: "apart T p e" and "prefix e (p @ q)"
  then have "prefix e p" using prefix_same_cases[of e "p @ q" p] by (auto simp: apart_def)
  then obtain r where "p = e @ r" by (auto simp: prefix_def)
  with a tree_ok_prefix[of T e r] show False by (auto simp: apart_def)
qed

lemma apart_fresh: "apart T p e \<Longrightarrow> map_of T (e @ q) = None"
  using tree_ok_prefix[of T e q] by (cases "map_of T (e @ q)") (auto simp: apart_def)

lemma copying_mono: "apart T p e \<Longrightarrow> copying T p e dn T' \<Longrightarrow> map_of T \<subseteq>\<^sub>m map_of T'"
proof (unfold map_le_def, intro ballI)
  fix r assume a: "apart T p e" "copying T p e dn T'" "r \<in> dom (map_of T)"
  then have "\<not> prefix e r" using apart_fresh[OF a(1)] by (auto simp: prefix_def)
  with a(2) show "map_of T r = map_of T' r" by (simp add: copying_def)
qed

lemma copying_source: "apart T p e \<Longrightarrow> copying T p e dn T' \<Longrightarrow> map_of T' (p @ q) = map_of T (p @ q)"
  using apart_source by (simp add: copying_def)

lemma copying_start:
  assumes "apart T p (d @ [b])" and "map_of T d = Some DirN" and "good_name b"
  shows "copying T p (d @ [b]) {} (AList.update (d @ [b]) DirN T)"
proof -
  have "tree_ok (AList.update (d @ [b]) DirN T)" using assms by (intro tree_ok_update) (simp_all add: apart_def)
  moreover have "map_of T (d @ b # c # q) = None" for c q using apart_fresh[OF assms(1), of "c # q"] by simp
  ultimately show ?thesis by (auto simp: copying_def update_conv')
qed

text \<open>The entries for the directory itself and its parent: nothing happens.\<close>

lemma deal_dots:
  assumes "c = ''.'' \<or> c = ''..''" and "0 < n"
  shows "dealWithDirectory n cwd rd wr usable (u @ ''/'' @ c @ ''/'') (w @ ''/'') T = Some (Inr T)"
proof -
  have "CHR ''/'' \<notin> set c" using assms(1) by auto
  from getDirName_last[OF this, of u] have g: "getDirName (u @ ''/'' @ c @ ''/'') = Inr (c @ ''/'')" .
  have m: "mkdir cwd T (w @ ''/'' @ c @ ''/'') = Inl EEXIST" using resolve_parent_dots[OF assms(1)] by (simp add: mkdir_def)
  from assms(2) obtain k where k: "n = Suc k" by (cases n) auto
  have ws: "with_slash (u @ ''/'' @ c @ ''/'') = u @ ''/'' @ c @ ''/''" "with_slash (w @ ''/'') = w @ ''/''"
    by (simp_all add: with_slash_def)
  show ?thesis unfolding k dealWithDirectory.simps ws g using m by simp
qed

lemma copying_dots:
  assumes "copying T0 p e dn T" and "tree_ok T0" and "c = ''.'' \<or> c = ''..''"
  shows "copying T0 p e (insert c dn) T"
proof -
  have n: "map_of T0 (p @ c # q) = None" for q
  proof (rule ccontr)
    assume "map_of T0 (p @ c # q) \<noteq> None"
    then have "map_of T0 (p @ [c]) \<noteq> None" using tree_ok_prefix[OF assms(2), of "p @ [c]" q] by simp
    then have "good_name c" using assms(2) unfolding tree_ok_def by blast
    with assms(3) show False by (auto simp: good_name_def)
  qed
  with assms(1) show ?thesis by (auto simp: copying_def)
qed

lemma copying_file:
  assumes "apart T0 p e" and "copying T0 p e dn T" and "c \<notin> dn" and "good_name c" and "map_of T0 (p @ [c]) = Some (FileN s)"
    and "names_dir cwd T u p" and "names_dir cwd T w e" and "\<forall>q i. 4096 \<le> wr q i"
  shows "\<exists>T'. copyOverFile cwd wr (u @ ''/'' @ c) (w @ ''/'' @ c) T = Some (Inr T') \<and> copying T0 p e (insert c dn) T'"
proof -
  have src: "map_of T (p @ [c]) = Some (FileN s)" using copying_source[OF assms(1,2), of "[c]"] assms(5) by simp
  have fresh: "map_of T (e @ [c]) = None" and e: "map_of T e = Some DirN" "tree_ok T"
    using assms(2,3) by (simp_all add: copying_def)
  have r: "open_read cwd T (u @ ''/'' @ c) = Inr (p @ [c])"
    using names_dir_resolve[OF assms(6), of c] assms(4,6) src
    by (simp add: open_read_def good_name_def split_path_name names_dir_def)
  have sp: "last (split_path (w @ ''/'' @ c)) = c" using assms(4) by (simp add: split_path_append split_path_name good_name_def)
  let ?T1 = "AList.update (e @ [c]) (FileN []) T"
  have o: "open_create cwd T (w @ ''/'' @ c) = Inr (e @ [c], ?T1)"
    using resolve_parent_child[OF assms(7,4), of "[]"] sp fresh assms(4) by (simp add: open_create_def good_name_def)
  have ne: "p @ [c] \<noteq> e @ [c]" using src fresh by auto
  then have s1: "map_of ?T1 (p @ [c]) = Some (FileN s)" using src by (simp add: update_conv')
  let ?T2 = "AList.update (e @ [c]) (FileN s) ?T1"
  have res: "copyOverFile cwd wr (u @ ''/'' @ c) (w @ ''/'' @ c) T = Some (Inr ?T2)"
    using r o s1 copy_loop_all[of "wr (e @ [c])" 0 s "[]"] assms(8) by (simp add: copyOverFile_def Let_def)
  have ok1: "tree_ok ?T1" using tree_ok_update[OF e(2,1) assms(4)] fresh by simp
  have ok2: "tree_ok ?T2" using e(1) by (intro tree_ok_update[OF ok1 _ assms(4)]) (auto simp: update_conv')
  have sub: "map_of T0 (p @ c # q) = None" if "q \<noteq> []" for q
  proof (rule ccontr)
    assume a: "map_of T0 (p @ c # q) \<noteq> None"
    from that obtain x q' where q: "q = x # q'" by (cases q) auto
    have t: "tree_ok T0" using assms(1) by (simp add: apart_def)
    from a q have "map_of T0 ((p @ [c]) @ [x]) \<noteq> None" using tree_ok_prefix[OF t, of "(p @ [c]) @ [x]" q'] by simp
    with t have "map_of T0 (p @ [c]) = Some DirN" unfolding tree_ok_def by blast
    with assms(5) show False by simp
  qed
  have "copying T0 p e (insert c dn) ?T2"
    unfolding copying_def
  proof (intro conjI allI impI)
    show "tree_ok ?T2" by (rule ok2)
    show "map_of ?T2 e = Some DirN" using e(1) by (simp add: update_conv')
  next
    fix r assume "\<not> prefix e r"
    then show "map_of ?T2 r = map_of T0 r" using assms(2) by (auto simp: update_conv' copying_def)
  next
    fix x q
    show "map_of ?T2 (e @ x # q) = (if x \<in> insert c dn then map_of T0 (p @ x # q) else None)"
      using assms(2,3,5) sub[of q] by (cases "q = []") (auto simp: update_conv' copying_def)
  qed
  with res show ?thesis by blast
qed


text \<open>What the arguments have to be for the copy to work: \<open>readdir\<close> lists every entry once, writes are
  not cut short, and there is room for the byte written behind a block.\<close>

definition platform_ok :: "(string list \<Rightarrow> string list) \<Rightarrow> (path \<Rightarrow> nat \<Rightarrow> nat) \<Rightarrow> (nat \<Rightarrow> nat) \<Rightarrow> bool" where
  "platform_ok rd wr usable \<longleftrightarrow> (\<forall>xs. distinct xs \<longrightarrow> distinct (rd xs) \<and> set (rd xs) = set xs) \<and>
     (\<forall>q i. 4096 \<le> wr q i) \<and> (\<forall>n. n < usable n)"

text \<open>No path below the source has more than \<open>n\<close> components there.\<close>

definition depth_le :: "fs \<Rightarrow> path \<Rightarrow> nat \<Rightarrow> bool" where
  "depth_le T p n \<longleftrightarrow> (\<forall>q. map_of T (p @ q) \<noteq> None \<longrightarrow> length q \<le> n)"

text \<open>The effect of copying \<open>p\<close> to \<open>e\<close>.\<close>

definition copied_to :: "fs \<Rightarrow> path \<Rightarrow> path \<Rightarrow> fs \<Rightarrow> bool" where
  "copied_to T p e T' \<longleftrightarrow> tree_ok T' \<and> (\<forall>q. map_of T' (e @ q) = map_of T (p @ q)) \<and>
     (\<forall>r. \<not> prefix e r \<longrightarrow> map_of T' r = map_of T r)"

lemma copying_done:
  assumes "copying T p e dn T'" and "apart T p e" and "set (entries T p) \<subseteq> dn"
  shows "copied_to T p e T'"
proof -
  have t: "tree_ok T" using assms(2) by (simp add: apart_def)
  have "map_of T' (e @ q) = map_of T (p @ q)" for q
  proof (cases q)
    case Nil
    then show ?thesis using assms(1,2) by (simp add: copying_def apart_def)
  next
    case (Cons c q')
    have "map_of T (p @ c # q') = None" if "c \<notin> dn"
    proof -
      from that assms(3) have "map_of T (p @ [c]) = None" using entries_set[OF t, of p] by auto
      then show ?thesis using tree_ok_prefix[OF t, of "p @ [c]" q'] by (cases "map_of T (p @ c # q')") auto
    qed
    then show ?thesis using assms(1) Cons by (auto simp: copying_def)
  qed
  then show ?thesis using assms(1) by (simp add: copied_to_def copying_def)
qed

lemma copying_subdir:
  assumes "apart T0 p e" and "copying T0 p e dn T" and "c \<notin> dn" and "map_of T0 (p @ [c]) = Some DirN"
  shows "apart T (p @ [c]) (e @ [c])"
    and "copied_to T (p @ [c]) (e @ [c]) T' \<Longrightarrow> copying T0 p e (insert c dn) T'"
proof -
  have f: "map_of T (e @ [c]) = None" "tree_ok T" "map_of T (p @ [c]) = Some DirN"
    using assms(2-4) copying_source[OF assms(1,2), of "[c]"] by (simp_all add: copying_def)
  have "p \<noteq> e" using assms(1) by (auto simp: apart_def)
  with assms(1) have "\<not> prefix (p @ [c]) (e @ [c])" by (auto simp: apart_def dest: append_prefixD)
  with f show a: "apart T (p @ [c]) (e @ [c])" by (simp add: apart_def)
  assume c: "copied_to T (p @ [c]) (e @ [c]) T'"
  have o: "map_of T' r = map_of T r" if "\<not> prefix (e @ [c]) r" for r using c that by (simp add: copied_to_def)
  show "copying T0 p e (insert c dn) T'"
    unfolding copying_def
  proof (intro conjI allI impI)
    show "tree_ok T'" using c by (simp add: copied_to_def)
    have "\<not> prefix (e @ [c]) e" by (auto simp: prefix_def)
    then show "map_of T' e = Some DirN" using o assms(2) by (simp add: copying_def)
  next
    fix r assume "\<not> prefix e r"
    moreover then have "\<not> prefix (e @ [c]) r" by (auto dest: append_prefixD)
    ultimately show "map_of T' r = map_of T0 r" using o assms(2) by (simp add: copying_def)
  next
    fix x q
    show "map_of T' (e @ x # q) = (if x \<in> insert c dn then map_of T0 (p @ x # q) else None)"
    proof (cases "x = c")
      case True
      have "map_of T' ((e @ [c]) @ q) = map_of T ((p @ [c]) @ q)" using c by (simp add: copied_to_def)
      with True copying_source[OF assms(1,2), of "c # q"] show ?thesis by simp
    next
      case False
      then have "\<not> prefix (e @ [c]) (e @ x # q)" by (auto simp: prefix_def)
      with o False assms(2) show ?thesis by (simp add: copying_def)
    qed
  qed
qed

lemma mkdir_child:
  assumes "names_dir cwd T w d" and "good_name b" and "map_of T (d @ [b]) = None"
  shows "mkdir cwd T (w @ ''/'' @ b @ ''/'') = Inr (AList.update (d @ [b]) DirN T)"
  using resolve_parent_child[OF assms(1,2), of "''/''"] assms(3) by (simp add: mkdir_def)

lemma isFile_dots:
  assumes "names_dir cwd T u p" and "tree_ok T" and "c = ''.'' \<or> c = ''..''"
  shows "isFile cwd T (u @ ''/'' @ c) = 0"
proof -
  have p: "map_of T p = Some DirN" using assms(1) by (simp add: names_dir_def)
  have "map_of T (butlast p) = Some DirN"
  proof (cases p rule: rev_cases)
    case (snoc p' x)
    with p have "map_of T (p' @ [x]) \<noteq> None" by simp
    then have "map_of T p' = Some DirN" using assms(2) unfolding tree_ok_def by blast
    with snoc show ?thesis by simp
  qed (use p in simp)
  moreover have "resolve cwd T (u @ ''/'' @ c) = walk T p [c]"
    using names_dir_resolve[OF assms(1), of c] assms(3) by (auto simp: split_path_name)
  ultimately show ?thesis using assms(3) p by (auto simp: isFile_def opendir_def)
qed

text \<open>What happens to one entry, when subdirectories are copied as they should.\<close>

lemma entry_step:
  assumes "platform_ok rd wr usable" and "apart T p e" and "copying T p e dn T1" and "c \<notin> dn"
    and "names_dir cwd T1 u p" and "names_dir cwd T1 w e" and "c \<in> insert ''.'' (insert ''..'' (set (entries T p)))" and "0 < n"
    and "map_of T (p @ [c]) = Some DirN \<Longrightarrow> good_name c \<Longrightarrow>
      \<exists>T'. dealWithDirectory n cwd rd wr usable (u @ ''/'' @ c @ ''/'') (w @ ''/'') T1 = Some (Inr T') \<and>
        copied_to T1 (p @ [c]) (e @ [c]) T'"
  shows "\<exists>T'. (if isFile cwd T1 (u @ ''/'' @ c) = 1 then copyOverFile cwd wr (u @ ''/'' @ c) (w @ ''/'' @ c) T1
      else if usable (length (u @ ''/'' @ c) + 1) < length (u @ ''/'' @ c) + 2 then Some (Inl Out_of_bounds)
      else dealWithDirectory n cwd rd wr usable (u @ ''/'' @ c @ ''/'') (w @ ''/'') T1) = Some (Inr T') \<and>
    copying T p e (insert c dn) T'"
proof (cases "c = ''.'' \<or> c = ''..''")
  case dots: True
  have t: "tree_ok T" "tree_ok T1" using assms(2,3) by (simp_all add: apart_def copying_def)
  have "\<not> usable (length (u @ ''/'' @ c) + 1) < length (u @ ''/'' @ c) + 2"
    using assms(1)[unfolded platform_ok_def] by (metis Suc_eq_plus1 add_2_eq_Suc' less_Suc_eq_le not_le Suc_leI)
  then show ?thesis
    using isFile_dots[OF assms(5) t(2) dots] deal_dots[OF dots assms(8)] copying_dots[OF assms(3) t(1) dots] by simp
next
  case False
  have t: "tree_ok T" using assms(2) by (simp add: apart_def)
  from False assms(7) have m: "map_of T (p @ [c]) \<noteq> None" using entries_set[OF t] by auto
  with t have g: "good_name c" unfolding tree_ok_def by blast
  have m1: "map_of T1 (p @ [c]) = map_of T (p @ [c])" using copying_source[OF assms(2,3)] .
  note i = isFile_child[OF assms(5) g]
  show ?thesis
  proof (cases "map_of T (p @ [c])")
    case (Some k)
    show ?thesis
    proof (cases k)
      case (FileN s)
      have "\<forall>q i. 4096 \<le> wr q i" using assms(1) by (simp add: platform_ok_def)
      from copying_file[OF assms(2-4) g _ assms(5,6) this, of s] Some FileN i m1 show ?thesis by simp
    next
      case DirN
      have "\<not> usable (length (u @ ''/'' @ c) + 1) < length (u @ ''/'' @ c) + 2"
        using assms(1)[unfolded platform_ok_def] by (metis Suc_eq_plus1 add_2_eq_Suc' less_Suc_eq_le not_le Suc_leI)
      with assms(9)[OF _ g] copying_subdir(2)[OF assms(2-4)] Some DirN i m1 show ?thesis by auto
    qed
  qed (use m in simp)
qed

lemma deal_level:
  assumes "platform_ok rd wr usable" and "names_dir cwd T (v @ ''/'' @ b) p" and "names_dir cwd T w d" and "good_name b"
    and "apart T p (d @ [b])" and "0 < n"
    and sub: "\<And>c T1. map_of T (p @ [c]) = Some DirN \<Longrightarrow> good_name c \<Longrightarrow> \<forall>q. map_of T1 (p @ q) = map_of T (p @ q) \<Longrightarrow>
      names_dir cwd T1 (v @ ''/'' @ b) p \<Longrightarrow> names_dir cwd T1 (w @ ''/'' @ b) (d @ [b]) \<Longrightarrow> apart T1 (p @ [c]) (d @ [b, c]) \<Longrightarrow>
      \<exists>T'. dealWithDirectory n cwd rd wr usable (v @ ''/'' @ b @ ''/'' @ c @ ''/'') (w @ ''/'' @ b @ ''/'') T1 = Some (Inr T') \<and>
        copied_to T1 (p @ [c]) (d @ [b, c]) T'"
  shows "\<exists>T'. dealWithDirectory (Suc n) cwd rd wr usable (v @ ''/'' @ b @ ''/'') (w @ ''/'') T = Some (Inr T') \<and>
     copied_to T p (d @ [b]) T'"
proof -
  let ?e = "d @ [b]" and ?T = "AList.update (d @ [b]) DirN T" and ?u = "v @ ''/'' @ b" and ?w = "w @ ''/'' @ b"
  have d: "map_of T d = Some DirN" "map_of T ?e = None" using assms(3,5) by (simp_all add: names_dir_def apart_def)
  have c0: "copying T p ?e {} ?T" using copying_start[OF assms(5) d(1) assms(4)] .
  have mono: "names_dir cwd T1 ?u p \<and> names_dir cwd T1 ?w ?e" if "copying T p ?e dn T1" for T1 dn
    using copying_mono[OF assms(5) that] names_dir_mono[OF _ assms(2)] names_dir_mono[OF _ assms(3)] that
      names_dir_child[OF _ assms(4)] by (auto simp: copying_def)
  have od: "opendir cwd ?T (v @ ''/'' @ b @ ''/'') = Inr p" "opendir cwd ?T (w @ ''/'' @ b @ ''/'') = Inr ?e"
    using names_dir_opendir[of cwd ?T ?u p] names_dir_opendir[of cwd ?T ?w ?e] mono[OF c0] by simp_all
  have t: "tree_ok T" "tree_ok ?T" using assms(5) c0 by (simp_all add: apart_def copying_def)
  have es: "set (entries ?T p) = set (entries T p)"
    unfolding entries_set[OF t(1)] entries_set[OF t(2)] using copying_source[OF assms(5) c0] by simp
  let ?xs = "''.'' # ''..'' # entries ?T p"
  have "good_name c" if "c \<in> set (entries ?T p)" for c
    using that t(2) unfolding entries_set[OF t(2)] tree_ok_def by blast
  then have "distinct ?xs" using entries_distinct[of ?T p] t(2) by (auto simp: tree_ok_def good_name_def)
  then have rd: "distinct (rd ?xs)" "set (rd ?xs) = set ?xs" using assms(1) unfolding platform_ok_def by blast+
  let ?f = "\<lambda>filename T. let newPath = (v @ ''/'' @ b @ ''/'') @ filename
     in if isFile cwd T newPath = 1 then copyOverFile cwd wr newPath ((w @ ''/'' @ b @ ''/'') @ filename) T
        else if usable (length newPath + 1) < length newPath + 2 then Some (Inl Out_of_bounds)
        else dealWithDirectory n cwd rd wr usable (newPath @ ''/'') (w @ ''/'' @ b @ ''/'') T"
  have "\<exists>T'. ?f c T1 = Some (Inr T') \<and> copying T p ?e (insert c dn) T'"
    if "c \<in> set (rd ?xs)" "c \<notin> dn" "copying T p ?e dn T1" for c T1 dn
  proof -
    note m = mono[OF that(3)]
    have s: "\<exists>T'. dealWithDirectory n cwd rd wr usable (?u @ ''/'' @ c @ ''/'') (?w @ ''/'') T1 = Some (Inr T') \<and>
        copied_to T1 (p @ [c]) (?e @ [c]) T'" if "map_of T (p @ [c]) = Some DirN" "good_name c"
      using sub[OF that, of T1] m copying_source[OF assms(5) \<open>copying T p ?e dn T1\<close>]
        copying_subdir(1)[OF assms(5) \<open>copying T p ?e dn T1\<close> \<open>c \<notin> dn\<close> that(1)] by simp
    have "c \<in> insert ''.'' (insert ''..'' (set (entries T p)))" using that(1) rd(2) es by simp
    from entry_step[OF assms(1,5) that(3,2) conjunct1[OF m] conjunct2[OF m] this assms(6) s]
    show ?thesis unfolding Let_def append_assoc .
  qed
  from each_inv[of "rd ?xs" "copying T p ?e" ?f, OF this rd(1) _ c0] obtain T' where
    T': "each ?f (rd ?xs) ?T = Some (Inr T')" "copying T p ?e (set (rd ?xs)) T'" by auto
  have g: "getDirName (v @ ''/'' @ b @ ''/'') = Inr (b @ ''/'')" using assms(4) by (intro getDirName_last) (simp add: good_name_def)
  have ws: "with_slash (v @ ''/'' @ b @ ''/'') = v @ ''/'' @ b @ ''/''" "with_slash (w @ ''/'') = w @ ''/''"
    by (simp_all add: with_slash_def)
  have "dealWithDirectory (Suc n) cwd rd wr usable (v @ ''/'' @ b @ ''/'') (w @ ''/'') T = each ?f (rd ?xs) ?T"
    unfolding dealWithDirectory.simps ws g using mkdir_child[OF assms(3,4) d(2)] od by (simp add: Let_def cong: if_cong)
  moreover have "copied_to T p ?e T'" using copying_done[OF T'(2) assms(5)] rd(2) es by auto
  ultimately show ?thesis using T'(1) by simp
qed

text \<open>A directory named by \<open>v/b/\<close>, copied into the one named by \<open>w/\<close>.\<close>

lemma deal_copies:
  "platform_ok rd wr usable \<Longrightarrow> names_dir cwd T (v @ ''/'' @ b) p \<Longrightarrow> names_dir cwd T w d \<Longrightarrow> good_name b \<Longrightarrow>
   apart T p (d @ [b]) \<Longrightarrow> depth_le T p n \<Longrightarrow>
   \<exists>T'. dealWithDirectory (Suc (Suc n)) cwd rd wr usable (v @ ''/'' @ b @ ''/'') (w @ ''/'') T = Some (Inr T') \<and>
     copied_to T p (d @ [b]) T'"
proof (induction n arbitrary: T v b p w d)
  case 0
  have "map_of T (p @ [c]) = None" for c
    using "0.prems"(6)[unfolded depth_le_def, rule_format, of "[c]"] by (cases "map_of T (p @ [c])") auto
  then show ?case using deal_level[OF "0.prems"(1-5), of "Suc 0"] by simp
next
  case (Suc n)
  show ?case
  proof (rule deal_level[OF Suc.prems(1-5)])
    fix c T1
    assume c: "map_of T (p @ [c]) = Some DirN" "good_name c" "\<forall>q. map_of T1 (p @ q) = map_of T (p @ q)"
      and n: "names_dir cwd T1 (v @ ''/'' @ b) p" "names_dir cwd T1 (w @ ''/'' @ b) (d @ [b])" "apart T1 (p @ [c]) (d @ [b, c])"
    have "map_of T1 (p @ [c]) = Some DirN" using c(1,3) by simp
    then have u: "names_dir cwd T1 ((v @ ''/'' @ b) @ ''/'' @ c) (p @ [c])" using names_dir_child[OF n(1) c(2)] by simp
    have "depth_le T1 (p @ [c]) n" unfolding depth_le_def
    proof (intro allI impI)
      fix q assume "map_of T1 ((p @ [c]) @ q) \<noteq> None"
      then have "map_of T (p @ c # q) \<noteq> None" using c(3) by simp
      then show "length q \<le> n" using Suc.prems(6)[unfolded depth_le_def, rule_format, of "c # q"] by simp
    qed
    from Suc.IH[OF Suc.prems(1) u n(2) c(2) _ this] n(3) show
      "\<exists>T'. dealWithDirectory (Suc (Suc n)) cwd rd wr usable (v @ ''/'' @ b @ ''/'' @ c @ ''/'') (w @ ''/'' @ b @ ''/'') T1 = Some (Inr T') \<and>
        copied_to T1 (p @ [c]) (d @ [b, c]) T'" by simp
  qed simp
qed




text \<open>A small file system.\<close>

definition small_fs :: fs where
  "small_fs = [([], DirN), ([''s''], DirN), ([''s'', ''f''], FileN ''hi''), ([''d''], DirN), ([''g''], FileN ''old'')]"

lemma small_fs_ok: "tree_ok small_fs"
  unfolding tree_ok_def
proof (intro conjI allI impI)
  fix p c assume "map_of small_fs (p @ [c]) \<noteq> None"
  then have "p @ [c] \<in> fst ` set small_fs" by (simp add: map_of_eq_None_iff)
  then have "p @ [c] \<in> {[''s''], [''s'', ''f''], [''d''], [''g'']}" by (auto simp: small_fs_def)
  then have "p = [] \<and> c \<in> {''s'', ''d'', ''g''} \<or> p = [''s''] \<and> c = ''f''" by (auto simp: append_eq_Cons_conv)
  then show "map_of small_fs p = Some DirN" "good_name c" by (auto simp: small_fs_def good_name_def)
qed (simp_all add: small_fs_def)


section \<open>Where the copy goes wrong\<close>

text \<open>A source without a slash: the name of the new directory is read through a pointer that was never set.\<close>

lemma bare_name_uninitialised:
  assumes "CHR ''/'' \<notin> set s" and "s \<noteq> []" and "dest \<noteq> []"
  shows "dealWithDirectory (Suc n) cwd rd wr usable s dest T = Some (Inl Uninit)"
proof -
  have "last s \<noteq> CHR ''/''" using assms(1,2) by (metis last_in_set)
  then have w: "with_slash s = s @ ''/''" by (simp add: with_slash_def)
  have "filter (\<lambda>i. (s @ ''/'') ! i = CHR ''/'' \<and> i \<noteq> length (s @ ''/'') - 1) [0..<length (s @ ''/'')] = []"
    using assms(1) by (auto simp: filter_empty_conv nth_append) (metis nth_mem)
  then have "getDirName (s @ ''/'') = Inl Uninit" unfolding getDirName_def by simp
  with assms(2,3) show ?thesis by (simp only: dealWithDirectory.simps w simp_thms if_False sum.case)
qed

text \<open>If the destination cannot be made a directory, because its parent is missing or it exists, nothing
  is copied, and the program ends as if it had been.\<close>

lemma failed_mkdir_ignored:
  "source \<noteq> [] \<Longrightarrow> dest \<noteq> [] \<Longrightarrow> getDirName (with_slash source) = Inr dirName \<Longrightarrow>
   mkdir cwd T (with_slash dest @ dirName) = Inl e \<Longrightarrow>
   dealWithDirectory (Suc n) cwd rd wr usable source dest T = Some (Inr T)"
  by (simp add: Let_def)

text \<open>Copying to a destination that does not exist yet does nothing; a missing source empties the
  destination; copying a file to itself loses its contents; a memory block of exactly the size asked for
  is overrun.\<close>

lemma missing_destination:
  "cpr_main 9 [] (\<lambda>xs. xs) (\<lambda>q i. 4096) Suc [''cpr'', ''/s'', ''/new''] small_fs = Some (Inr small_fs)"
  by code_simp

lemma missing_source_truncates:
  "map_option (map_sum id (\<lambda>T. map_of T [''g''])) (cpr_main 9 [] (\<lambda>xs. xs) (\<lambda>q i. 4096) Suc [''cpr'', ''/none'', ''/g''] small_fs) =
   Some (Inr (Some (FileN [])))"
  by code_simp

lemma copy_to_itself_truncates:
  "map_option (map_sum id (\<lambda>T. map_of T [''g''])) (cpr_main 9 [] (\<lambda>xs. xs) (\<lambda>q i. 4096) Suc [''cpr'', ''/g'', ''/g''] small_fs) =
   Some (Inr (Some (FileN [])))"
  by code_simp

lemma path_buffer_overrun:
  "cpr_main 9 [] (\<lambda>xs. xs) (\<lambda>q i. 4096) id [''cpr'', ''/s'', ''/d''] small_fs = Some (Inl Out_of_bounds)"
  by code_simp

end
