(* ===== verification/Points.thy ===== *)
theory Points
  imports Double
begin

text \<open>
  The points of warmup/point.c and point.h: translation, distance, and the comparison of the distances
  from the origin, in the arithmetic of theory \<open>Double\<close>.
\<close>

record point =
  px :: double
  py :: double

definition point_X :: "point \<Rightarrow> double" where "point_X p = px p"

definition point_Y :: "point \<Rightarrow> double" where "point_Y p = py p"

definition point_set :: "point \<Rightarrow> double \<Rightarrow> double \<Rightarrow> point" where
  "point_set p x y = p\<lparr>px := x, py := y\<rparr>"

definition point_translate :: "point \<Rightarrow> double \<Rightarrow> double \<Rightarrow> point" where
  "point_translate p x y = point_set p (dadd (point_X p) x) (dadd (point_Y p) y)"

definition point_distance :: "point \<Rightarrow> point \<Rightarrow> double" where
  "point_distance p q =
     (let dx = dsub (point_X p) (point_X q); dy = dsub (point_Y p) (point_Y q)
      in dsqrt (dadd (dmul dx dx) (dmul dy dy)))"

definition point_length :: "point \<Rightarrow> double" where
  "point_length p = dsqrt (dadd (dmul (point_X p) (point_X p)) (dmul (point_Y p) (point_Y p)))"

definition point_compare :: "point \<Rightarrow> point \<Rightarrow> int" where
  "point_compare p q =
     (if dless (point_length q) (point_length p) then 1
      else if deq (point_length p) (point_length q) then 0 else - 1)"

section \<open>Lengths\<close>

lemma dmul_self: "x \<noteq> NaN \<Longrightarrow> dmul x x = Inf False \<or> (\<exists>y\<ge>0. dmul x x = Num y)"
  by (cases x) (auto simp: dbl_def rnd_nonneg)

lemma dmul_self_NaN: "dmul x x = NaN \<longleftrightarrow> x = NaN"
  by (cases x) (auto simp: dbl_def)

lemma dbl_sum: "0 \<le> x \<Longrightarrow> dbl x = Inf False \<or> (\<exists>y\<ge>0. dbl x = Num y)"
  by (auto simp: dbl_def rnd_nonneg)

lemma length_NaN: "point_length p = NaN \<longleftrightarrow> px p = NaN \<or> py p = NaN"
proof (cases "px p = NaN \<or> py p = NaN")
  case True
  then show ?thesis
    by (cases "dmul (px p) (px p)"; cases "dmul (py p) (py p)") (auto simp: point_length_def point_X_def point_Y_def)
next
  case False
  let ?s = "dadd (dmul (px p) (px p)) (dmul (py p) (py p))"
  have "?s = Inf False \<or> (\<exists>y\<ge>0. ?s = Num y)"
    using False dmul_self[of "px p", THEN disjE] dmul_self[of "py p", THEN disjE]
    by (smt (verit) dadd.simps dbl_sum)
  then have "dsqrt ?s \<noteq> NaN" by auto
  with False show ?thesis by (simp add: point_length_def point_X_def point_Y_def)
qed

lemma dsub_swap_mul: "dmul (dsub x y) (dsub x y) = dmul (dsub y x) (dsub y x)"
proof (cases x; cases y)
  fix a b assume x: "x = Num a" "y = Num b"
  have d: "dsub x y = dbl (a - b)" "dsub y x = dbl (- (a - b))" using x by (simp_all add: dsub_def)
  show ?thesis
  proof (cases "a = b")
    case False
    then have "dsub y x = dneg (dbl (a - b))" using d(2) dbl_minus[of "a - b"] by simp
    then show ?thesis unfolding d(1) by (cases "dbl (a - b)") auto
  qed (use x in simp)
qed (auto simp: dsub_def)

text \<open>The exact squared length of a point with integer coordinates.\<close>

abbreviation int_point :: "int \<Rightarrow> int \<Rightarrow> point" where
  "int_point x y \<equiv> \<lparr>px = of_i x, py = of_i y\<rparr>"

lemma square_bound: "\<bar>x\<bar> < 2 ^ 20 \<Longrightarrow> (x::int) * x < 2 ^ 40"
proof -
  assume "\<bar>x\<bar> < 2 ^ 20"
  then have "\<bar>x\<bar> * \<bar>x\<bar> < 2 ^ 20 * 2 ^ 20" by (intro mult_strict_mono') auto
  then show ?thesis by (simp add: abs_mult_self_eq)
qed

lemma dsqrt_of_i: "0 \<le> n \<Longrightarrow> dsqrt (of_i n) = dbl (sqrt (of_int n))"
  by (simp add: of_i_def)

lemma int_length:
  assumes "\<bar>x\<bar> < 2 ^ 20" and "\<bar>y\<bar> < 2 ^ 20"
  shows "point_length (int_point x y) = dbl (sqrt (of_int (x * x + y * y)))"
proof -
  have b: "x * x < 2 ^ 40" "y * y < 2 ^ 40" "0 \<le> x * x" "0 \<le> y * y" using square_bound assms by auto
  then have "dbl (of_int (x * x)) = of_i (x * x)" "dbl (of_int (y * y)) = of_i (y * y)"
    "dbl (of_int (x * x + y * y)) = of_i (x * x + y * y)" by (intro dbl_of_int; linarith?; simp)+
  then have "dadd (dmul (of_i x) (of_i x)) (dmul (of_i y) (of_i y)) = of_i (x * x + y * y)"
    by (simp add: of_i_def)
  then show ?thesis 
    using dsqrt_of_i[OF add_nonneg_nonneg[OF b(3,4)]] by (simp only: point_length_def point_X_def point_Y_def point.simps)
qed

lemma sqrt_gap:
  assumes "0 \<le> n" and "n < m" and "m < 2 ^ 42"
  shows "rnd (sqrt (of_int n)) < rnd (sqrt (of_int m))"
proof -
  define a b where "a = sqrt (of_int n)" and "b = sqrt (of_int m)"
  have ab: "0 \<le> a" "a < b" "b < 2 ^ 21" using assms by (auto simp: a_def b_def real_sqrt_less_iff intro: real_less_lsqrt)
  have "(b - a) * (b + a) = b * b - a * a" by (simp add: algebra_simps)
  also have "\<dots> = of_int m - of_int n" using assms by (simp add: a_def b_def)
  finally have "1 \<le> (b - a) * (b + a)" using assms(2) by linarith
  moreover have "(b - a) * (b + a) \<le> (b - a) * 2 ^ 22" using ab by (intro mult_left_mono) auto
  ultimately have g: "1 / 4194304 \<le> b - a" by simp
  have "\<bar>rnd a - a\<bar> \<le> 2 ^ 21 / 2 ^ 53" "\<bar>rnd b - b\<bar> \<le> 2 ^ 21 / 2 ^ 53" using ab by (intro rnd_error; simp)+
  then have "\<bar>rnd a - a\<bar> \<le> 1 / 4294967296" "\<bar>rnd b - b\<bar> \<le> 1 / 4294967296" by simp_all
  then have "rnd a < rnd b" using g by linarith
  then show ?thesis by (simp only: a_def b_def)
qed

lemma int_length_less:
  assumes "\<bar>x\<bar> < 2 ^ 20" "\<bar>y\<bar> < 2 ^ 20" "\<bar>u\<bar> < 2 ^ 20" "\<bar>v\<bar> < 2 ^ 20"
  shows "dless (point_length (int_point x y)) (point_length (int_point u v)) \<longleftrightarrow> x * x + y * y < u * u + v * v"
proof -
  have num: "dbl (sqrt (of_int n)) = Num (rnd (sqrt (of_int n)))" if "0 \<le> n" "n < 2 ^ 42" for n
  proof -
    have "sqrt (of_int n) < 2 ^ 21" using that by (auto intro: real_less_lsqrt)
    then have "\<bar>sqrt (of_int n)\<bar> \<le> of_int (2 ^ 21)" using that by simp
    then have "\<bar>rnd (sqrt (of_int n))\<bar> \<le> of_int (2 ^ 21)"
      using that rnd_nonneg[of "sqrt (of_int n)"] rnd_le[OF _ rnd_of_int[of "2 ^ 21"]] by simp
    also have "\<dots> < (2::real) ^ 22" by simp
    also have "\<dots> \<le> too_large" by (rule too_large_bound) simp
    finally show ?thesis by (simp add: dbl_def)
  qed
  have b: "x * x + y * y < 2 ^ 42" "u * u + v * v < 2 ^ 42" "0 \<le> x * x + y * y" "0 \<le> u * u + v * v"
    using assms[THEN square_bound] by auto
  show ?thesis
    unfolding int_length[OF assms(1,2)] int_length[OF assms(3,4)] num[OF b(3,1)] num[OF b(4,2)] dless.simps
    using sqrt_gap[OF b(3) _ b(2)] sqrt_gap[OF b(4) _ b(1)]
    by (metis less_irrefl linorder_neqE_linordered_idom order_less_asym)
qed

section \<open>Properties\<close>

text \<open>
  Distance and comparison of points. The distance does not depend on the order of the points. The
  comparison gives one of -1, 0 and 1; when no coordinate is NaN it is antisymmetric, transitive, and 0
  exactly for equal lengths, and when one is NaN it is -1 in both orders. For integer coordinates below
  \<open>2 ^ 20\<close> it is the comparison of the exact lengths, which rounding does not disturb.
\<close>

definition no_NaN :: "point \<Rightarrow> bool" where
  "no_NaN p \<longleftrightarrow> px p \<noteq> NaN \<and> py p \<noteq> NaN"

lemma point_comparison:
  "point_distance p q = point_distance q p \<and> point_compare p q \<in> {-1, 0, 1} \<and>
   (if no_NaN p \<and> no_NaN q
    then point_compare q p = - point_compare p q \<and> (point_compare p q = 0 \<longleftrightarrow> point_length p = point_length q) \<and>
      (no_NaN r \<longrightarrow> point_compare p q \<le> 0 \<longrightarrow> point_compare q r \<le> 0 \<longrightarrow> point_compare p r \<le> 0)
    else point_compare p q = - 1 \<and> point_compare q p = - 1) \<and>
   (\<bar>x\<bar> < 2 ^ 20 \<and> \<bar>y\<bar> < 2 ^ 20 \<and> \<bar>u\<bar> < 2 ^ 20 \<and> \<bar>v\<bar> < 2 ^ 20 \<longrightarrow>
     point_compare (int_point x y) (int_point u v) = sgn ((x * x + y * y) - (u * u + v * v)))"
proof (intro conjI)
  show "point_distance p q = point_distance q p"
    unfolding point_distance_def Let_def dsub_swap_mul[of "point_X p"] dsub_swap_mul[of "point_Y p"] ..
  show "point_compare p q \<in> {-1, 0, 1}" by (simp add: point_compare_def)
  let ?l = point_length
  show "if no_NaN p \<and> no_NaN q
    then point_compare q p = - point_compare p q \<and> (point_compare p q = 0 \<longleftrightarrow> ?l p = ?l q) \<and>
      (no_NaN r \<longrightarrow> point_compare p q \<le> 0 \<longrightarrow> point_compare q r \<le> 0 \<longrightarrow> point_compare p r \<le> 0)
    else point_compare p q = - 1 \<and> point_compare q p = - 1"
  proof (cases "no_NaN p \<and> no_NaN q")
    case True
    then have n: "?l p \<noteq> NaN" "?l q \<noteq> NaN" "no_NaN r \<Longrightarrow> ?l r \<noteq> NaN" by (auto simp: length_NaN no_NaN_def)
    have c: "point_compare a b \<le> 0 \<longleftrightarrow> \<not> dless (?l b) (?l a)" for a b by (simp add: point_compare_def)
    have "point_compare q p = - point_compare p q" "point_compare p q = 0 \<longleftrightarrow> ?l p = ?l q"
      using n(1,2) dless_linear[OF n(1,2)] dless_asym by (auto simp: point_compare_def deq_def)
    moreover have "\<not> dless (?l r) (?l p)" if "no_NaN r" "\<not> dless (?l q) (?l p)" "\<not> dless (?l r) (?l q)"
      using that dless_linear[OF n(1,2)] dless_linear[OF n(2) n(3)[OF that(1)]] dless_trans dless_asym by metis
    ultimately show ?thesis using True c by auto
  next
    case False
    then have "?l p = NaN \<or> ?l q = NaN" by (auto simp: length_NaN no_NaN_def)
    then have "point_compare p q = - 1" "point_compare q p = - 1"
      by (cases "?l p"; cases "?l q"; auto simp: point_compare_def deq_def)+
    with False show ?thesis by auto
  qed
next
  show "\<bar>x\<bar> < 2 ^ 20 \<and> \<bar>y\<bar> < 2 ^ 20 \<and> \<bar>u\<bar> < 2 ^ 20 \<and> \<bar>v\<bar> < 2 ^ 20 \<longrightarrow>
     point_compare (int_point x y) (int_point u v) = sgn ((x * x + y * y) - (u * u + v * v))"
  proof
    assume a: "\<bar>x\<bar> < 2 ^ 20 \<and> \<bar>y\<bar> < 2 ^ 20 \<and> \<bar>u\<bar> < 2 ^ 20 \<and> \<bar>v\<bar> < 2 ^ 20"
    have n: "point_length (int_point x y) \<noteq> NaN" "point_length (int_point u v) \<noteq> NaN"
      by (simp_all add: length_NaN of_i_def)
    have l: "dless (point_length (int_point x y)) (point_length (int_point u v)) \<longleftrightarrow> x * x + y * y < u * u + v * v"
      "dless (point_length (int_point u v)) (point_length (int_point x y)) \<longleftrightarrow> u * u + v * v < x * x + y * y"
      using a int_length_less by auto
    have "deq (point_length (int_point x y)) (point_length (int_point u v)) \<longleftrightarrow> x * x + y * y = u * u + v * v"
      using l n dless_linear[OF n] unfolding deq_def by (metis dless_irrefl linorder_neqE_linordered_idom less_irrefl)
    then have "point_compare (int_point x y) (int_point u v) =
        (if u * u + v * v < x * x + y * y then 1 else if x * x + y * y = u * u + v * v then 0 else - 1)"
      unfolding point_compare_def l by simp
    also have "\<dots> = sgn ((x * x + y * y) - (u * u + v * v))" by (simp add: sgn_if)
    finally show "point_compare (int_point x y) (int_point u v) = sgn ((x * x + y * y) - (u * u + v * v))" .
  qed
qed

text \<open>
  Squares can overflow: points of different lengths beyond \<open>2 ^ 512\<close> are all equally long.
\<close>

lemma point_compare_overflows:
  assumes "512 \<le> k" and "512 \<le> m"
  shows "point_compare \<lparr>px = Num (2 ^ k), py = Num 0\<rparr> \<lparr>px = Num (2 ^ m), py = Num 0\<rparr> = 0"
proof -
  have "rnd (2 ^ k * 2 ^ k) = 2 ^ (2 * k)" for k
  proof -
    have e: "(2::real) ^ k * 2 ^ k = 2 ^ (2 * k)" unfolding mult_2 by (rule power_add[symmetric])
    have "rnd ((2::real) ^ (2 * k)) = 2 ^ (2 * k)" by (rule rnd_exact[of 1 "int (2 * k)"]) (simp_all del: of_nat_mult)
    then show ?thesis unfolding e .
  qed
  moreover have "too_large \<le> 2 ^ (2 * k)" if "512 \<le> k" for k unfolding too_large_def using that by (intro power_increasing) simp_all
  ultimately have "dbl (2 ^ k * 2 ^ k) = Inf False" if "512 \<le> k" for k
    using that by (simp add: dbl_def not_less)
  then have "dmul (Num (2 ^ k)) (Num (2 ^ k)) = Inf False" if "512 \<le> k" for k using that by simp
  then have "point_length \<lparr>px = Num (2 ^ k), py = Num 0\<rparr> = Inf False" if "512 \<le> k" for k
    using that by (simp add: point_length_def point_X_def point_Y_def dbl_def)
  with assms show ?thesis by (simp add: point_compare_def deq_def)
qed

end
