(* ===== verification/Socket.thy ===== *)
theory Socket
  imports Prelude
begin

text \<open>
  The socket helpers of webserver/common.c: \<open>open_clientfd\<close>, with the loop that enlarges the buffer of
  \<open>gethostbyname_r\<close>, and \<open>open_listenfd\<close>. What the system calls and the resolver return is an argument;
  the state keeps the number of allocated buffers, so that leaks show, and the calls made on the socket.
\<close>

section \<open>Addresses\<close>

text \<open>\<open>struct sockaddr_in\<close>; the port is stored in network byte order.\<close>

record sockaddr_in =
  sin_addr :: "8 word list"
  sin_port :: "16 word"

text \<open>The conversion of an \<open>int\<close> argument to \<open>uint16_t\<close>, and \<open>htons\<close> on a little-endian machine.\<close>

definition htons :: "int \<Rightarrow> 16 word" where
  "htons port = (let p = (word_of_int port :: 16 word) in word_of_int (uint p div 256 + (uint p mod 256) * 256))"

text \<open>The results of \<open>gethostbyname_r\<close>: the buffer is too small, another error, or success with or without
  an entry. An entry has the bytes of its first address, if it has one.\<close>

datatype lookup = L_range | L_error | L_found "8 word list option option"

section \<open>The helpers\<close>

datatype sockcall = Connect sockaddr_in | Setsockopt | Bind sockaddr_in | Listen

record net =
  socket_ret :: int
  call_ret :: "sockcall \<Rightarrow> int"
  resolve_host :: "string \<Rightarrow> nat \<Rightarrow> lookup"
  malloc_ok :: "nat \<Rightarrow> bool"

text \<open>\<open>SYS\<close>: a negative result ends the process.\<close>

definition SYS :: "int \<Rightarrow> 'a res \<Rightarrow> 'a res" where
  "SYS rc r = (if rc < 0 then Inl Exit_1 else r)"

text \<open>The loop over the lookup: the entry, and the number of buffers that are allocated then. \<open>buf_len\<close> is a
  \<open>size_t\<close>.\<close>

partial_function (option) lookup_loop :: "net \<Rightarrow> string \<Rightarrow> nat \<Rightarrow> nat \<Rightarrow> (8 word list option option \<times> nat) io" where
  "lookup_loop net hostname buf_len live =
     (if \<not> malloc_ok net buf_len then Some (Inl Exit_1)
      else case resolve_host net hostname buf_len of
             L_range \<Rightarrow> lookup_loop net hostname (buf_len * 2 mod 2 ^ 64) live
           | L_error \<Rightarrow> Some (Inl Exit_1)
           | L_found hp \<Rightarrow> Some (Inr (hp, live + 1)))"

text \<open>\<open>open_clientfd\<close>: the descriptor, the calls on it, and the number of buffers left. The address is copied into
  four bytes; the remaining ones are zero.\<close>

definition open_clientfd :: "net \<Rightarrow> string \<Rightarrow> int \<Rightarrow> (int \<times> sockcall list \<times> nat) io" where
  "open_clientfd net hostname port =
     (if socket_ret net < 0 then Some (Inl Exit_1)
      else bindO (lookup_loop net hostname 1024 0) (\<lambda>(hp, live).
             case hp of
               Some (Some h_addr) \<Rightarrow>
                 if 4 < length h_addr then Some (Inl Out_of_bounds)
                 else let c = Connect \<lparr>sin_addr = h_addr @ replicate (4 - length h_addr) 0, sin_port = htons port\<rparr>
                      in Some (SYS (call_ret net c) (Inr (socket_ret net, [c], live - 1)))
             | _ \<Rightarrow> Some (Inl Exit_1)))"

definition open_listenfd :: "net \<Rightarrow> int \<Rightarrow> (int \<times> sockcall list) res" where
  "open_listenfd net port =
     (let b = Bind \<lparr>sin_addr = replicate 4 0, sin_port = htons port\<rparr>
      in SYS (socket_ret net)
           (SYS (call_ret net Setsockopt)
              (SYS (call_ret net b)
                 (SYS (call_ret net Listen) (Inr (socket_ret net, [Setsockopt, b, Listen]))))))"

section \<open>Facts\<close>

text \<open>The loop ends as soon as the buffer is large enough: with at most \<open>2 ^ k\<close> times the first size.\<close>

lemma lookup_loop_ends:
  "\<forall>j\<le>k. malloc_ok net (n * 2 ^ j) \<Longrightarrow> \<forall>j<k. resolve_host net h (n * 2 ^ j) = L_range \<Longrightarrow> n * 2 ^ k < 2 ^ 64 \<Longrightarrow>
   resolve_host net h (n * 2 ^ k) = L_found hp \<Longrightarrow> lookup_loop net h n live = Some (Inr (hp, live + 1))"
proof (induction k arbitrary: n)
  case 0
  then show ?case by (subst lookup_loop.simps) simp
next
  case (Suc k)
  have m: "malloc_ok net n" "resolve_host net h n = L_range" using Suc.prems(1,2) by auto
  have "n * 2 \<le> n * 2 ^ Suc k" by (intro mult_le_mono2) simp
  then have "n * 2 < 2 ^ 64" using Suc.prems(3) by linarith
  then have e: "lookup_loop net h n live = lookup_loop net h (n * 2) live" using m by (subst lookup_loop.simps) simp
  have x: "n * 2 * 2 ^ j = n * 2 ^ Suc j" for j by simp
  have "lookup_loop net h (n * 2) live = Some (Inr (hp, live + 1))"
    using Suc.prems by (intro Suc.IH) (simp_all only: x, auto)
  with e show ?case by simp
qed

text \<open>A host with an IPv4 address, found with a buffer of \<open>2 ^ k\<close> kilobytes: one connection attempt to it, and no
  buffer is lost.\<close>

lemma open_clientfd_connects:
  assumes "0 \<le> socket_ret net" and "\<forall>j\<le>k. malloc_ok net (1024 * 2 ^ j)" and "\<forall>j<k. resolve_host net h (1024 * 2 ^ j) = L_range"
    and "k < 54" and "resolve_host net h (1024 * 2 ^ k) = L_found (Some (Some a))" and "length a = 4"
  shows "open_clientfd net h port =
    Some (if call_ret net (Connect \<lparr>sin_addr = a, sin_port = htons port\<rparr>) < 0 then Inl Exit_1
          else Inr (socket_ret net, [Connect \<lparr>sin_addr = a, sin_port = htons port\<rparr>], 0))"
proof -
  have "(2 :: nat) ^ k \<le> 2 ^ 53" using assms(4) by (intro power_increasing) simp_all
  then have "1024 * 2 ^ k < (2 :: nat) ^ 64" by simp
  from lookup_loop_ends[OF assms(2,3) this assms(5), of 0] assms(1,6) show ?thesis
    by (simp add: open_clientfd_def SYS_def Let_def)
qed

text \<open>Only the low 16 bits of the port count: a server started on port 65616 listens on port 80.\<close>

lemma port_truncated: "htons (port + 65536) = htons port"
proof -
  have "(word_of_int (port + 65536) :: 16 word) = word_of_int port"
    by (simp add: word_of_int_eq_iff take_bit_eq_mod)
  then show ?thesis by (simp only: htons_def)
qed

lemma htons_bytes: "0 \<le> port \<Longrightarrow> port < 65536 \<Longrightarrow> uint (htons port) = port div 256 + port mod 256 * 256"
proof -
  assume p: "0 \<le> port" "port < 65536"
  let ?x = "port div 256 + port mod 256 * 256"
  have u: "uint (word_of_int y :: 16 word) = y" if "0 \<le> y" "y < 65536" for y
    using that by (simp add: unsigned_of_int take_bit_eq_mod)
  have "0 \<le> port div 256" "port div 256 < 256" "0 \<le> port mod 256" "port mod 256 < 256" using p by auto
  then have "0 \<le> ?x" "?x < 65536" by linarith+
  then have "uint (word_of_int ?x :: 16 word) = ?x" by (rule u)
  then show ?thesis unfolding htons_def Let_def u[OF p] .
qed

end
