(* ===== verification/Spec2Isabelle.thy ===== *)
theory Spec2Isabelle
  imports DList ThreadProps Timer ServerMain ServerAll EvictWait FileSet Rand FsCmd HList KList WordCount Cpr Points Socket
begin

text \<open>
  A verification of the C programs of this repository: a user-level thread package
  (src/threads), a multi-threaded web server with a file cache (src/webserver), a small file system
  with a shell (src/fs), and warm-up programs (src/warmup).

  \<^bold>\<open>Conventions.\<close> Theory \<open>Prelude\<close> has the faults of C (NULL and dangling pointers, bounds, division
  by zero, failed assertions, uninitialised memory, exit). A routine that may fault has type
  \<open>'a res = fault + 'a\<close>; one that also may not return has type \<open>'a io = 'a res option\<close> and is a
  \<open>partial_function (option)\<close>, where \<open>None\<close> is a run that does not end. Structures are records in
  stores indexed by addresses, integers are \<open>int\<close> or \<open>nat\<close> with the wrap-around written out
  (\<open>wrap32\<close>) or words. The queue interfaces \<open>fifo_queue\<close> and \<open>removable_queue\<close> are locales,
  interpreted on the pointer structures of the code.

  \<^bold>\<open>Threads\<close> (threads/thread.c, thread.h, interrupt.c).
  \<^item> \<open>DList\<close>: the ready queue, a doubly linked list at pointer level; every sequence of operations
    behaves as on lists, without leaks.
  \<^item> \<open>ThreadState\<close>, \<open>ThreadOps\<close>: control blocks, identifier pool, wait queues, locks and condition
    variables as one state \<open>sys\<close>; every routine. A context switch stores the frames of the package
    in the saved context of the thread (\<open>Ctx_yield\<close>) and resumes those of the other.
  \<^item> \<open>ThreadMachine\<close>: the transition relation of client calls, timer interrupts and dispatches, and the
    invariant of reachable states; \<open>ThreadInit\<close>: \<open>thread_init\<close> establishes it; \<open>ThreadRun\<close>: concrete runs.
  \<^item> \<open>ThreadLocks\<close>, \<open>ThreadConserve\<close>, \<open>ThreadSched\<close>, \<open>ThreadProps\<close>: mutual exclusion; no thread is
    lost, and how a killed identifier loses one; round robin and termination of the dispatch; the
    result and effect of each routine on every branch.
  \<^item> \<open>Timer\<close>: the one-shot timer, its handler, and the machine in which an interrupt is delivered when
    the timer has expired: a running thread is preempted within the interval. Waiting on the clock.

  \<^bold>\<open>Web server\<close> (webserver/server_thread.c, request.c, common.c, server.c, client.c, client_simple.c, fileset.c).
  \<^item> \<open>SList\<close>, \<open>ConnQueue\<close>: the singly linked queues; the connection queue is a bounded FIFO queue.
  \<^item> \<open>Pool\<close>: main thread and workers as steps over the sections under the mutex: every accepted
    connection is served once and in order, no wake-up is lost, and how \<open>server_exit\<close> can hang.
  \<^item> \<open>Cache\<close>: hash table and LRU list over shared file structures; insertion evicts the least recently
    used files and no more than needed, lookup and destruction.
  \<^item> \<open>Rio\<close>: buffered and unbuffered input and output over a kernel that interrupts, fails and
    transfers less than asked; \<open>Request\<close>: parsing, checks, responses.
  \<^item> \<open>ServerRequest\<close>: \<open>do_server_request\<close>, one step per critical section. With a cache it sends what it
    sends without one; after a failed read it destroys the request twice; between two sections a
    cached file can be evicted under the handler.
  \<^item> \<open>ServerConc\<close>: any number of handlers on one cache, their steps interleaved in every order; the
    eviction is split where the code lets other threads in. The cache and the responses are right in
    every reachable state. \<open>ServerFits\<close>: when the files fit the cache together, every schedule serves
    every request; otherwise a file can be freed after it has been marked as being sent.
  \<^item> \<open>ServerAll\<close>: the workers of \<open>Pool\<close> run these handlers: the server as a whole takes a bounded number of
    steps and stops only when every connection has been answered and closed.
  \<^item> \<open>EvictWait\<close>: waiting for a file being sent and being woken up, with the mutex and the condition
    variable of every entry of the list: the signal can be lost, but not when the wait comes first.
  \<^item> \<open>Client\<close>: the clients: a request that is sent, served and read back passes the client's checks and
    delivers the file, unless a line of the file fills the client's buffer; what a client relies on is the
    locale \<open>file_server\<close>, interpreted on the server; \<open>FileSet\<close>: the generator of
    the files, whose index the client reads back; its files have no lines, so that those of 8192 bytes
    and more cannot be read by the client.
  \<^item> \<open>Rand\<close>: the random number functions, over the doubles of theory \<open>Double\<close> (the operations of IEEE 754
    with rounding to nearest): \<open>rand_int\<close> stays within its range in spite of the rounding, unless \<open>random\<close>
    gives 0; \<open>rand_pareto\<close> is never below its minimum; \<open>rand_self_similar\<close> underflows for small arguments.
  \<^item> \<open>Socket\<close>: opening sockets: the loop of the name lookup ends and leaks no buffer.
  \<^item> \<open>ServerMain\<close>: the main routine: arguments, initial state and the loop over connections. Without
    workers every connection is served in order; with them, it drives the machine of \<open>Pool\<close>.

  \<^bold>\<open>File system\<close> (fs).
  \<^item> \<open>Bitmap\<close>: bitmaps implement sets of indices (locale \<open>freemap\<close>); \<open>FsDisk\<close>: the device and the
    encoding of the structures on it; \<open>FsSuper\<close>: super block, free maps, allocation of blocks.
  \<^item> \<open>FsInode\<close>, \<open>FsTable\<close>, \<open>FsFile\<close>: inodes in memory and on disk, and the data of a file as a function
    from positions to bytes; \<open>KList\<close>, \<open>HList\<close>: the lists of list.h at pointer level, and that its hash
    chains implement the inode table (locale \<open>hash_chains\<close>).
  \<^item> \<open>FsDir\<close>, \<open>FsTree\<close>: directories are finite maps from names to inode numbers; creating files keeps
    the file system consistent; \<open>mktestfs\<close> makes a consistent one.
  \<^item> \<open>FsCmd\<close>: the shell: parsing and dispatch of commands, reading and writing files, listing.

  \<^bold>\<open>Warm-up\<close>: \<open>WordCount\<close>: the word counter (warmup/wc.c) and the factorial program (warmup/fact.c).
  \<open>Cpr\<close>: the recursive copy (warmup/cpr.c) on a file system of directories and files: it copies exactly
  the source tree and changes nothing else, for sources named with a slash, destinations that exist, and
  memory blocks with a byte to spare. \<open>Points\<close>: the points (warmup/point.c): their comparison is an order
  and exact for small integer coordinates.

  \<^bold>\<open>Bounds and termination.\<close> The sizes are those of the code: 1024 threads, 8192 bytes per line and
  response, blocks of 8192 bytes, 16384 inodes, 256 hash chains. Fuel bounds only the
  depth of the recursive copy, and two more than the depth of the source tree is enough. Loops are
  structural recursion, functions with a measure (the LRU list for evictions, the schedule of the
  kernel for input and output, the remaining sections for a request), or partial functions, for which
  termination is a statement of its own. An empty schedule of the kernel is a call that does not
  return; \<open>enough n k\<close> says that \<open>n\<close> calls succeed.

  \<^bold>\<open>Parameters.\<close> What \<open>malloc\<close> returns for a thread stack or a file structure, what \<open>stat\<close> and
  \<open>open\<close> say of a file, what \<open>poll\<close> and \<open>accept\<close> report, what \<open>random\<close> returns and the functions
  \<open>pow\<close> and \<open>log\<close>, the clock, the order of \<open>readdir\<close> and the behaviour of the kernel are arguments. Other allocations
  succeed.

  \<^bold>\<open>Not modelled.\<close> Option parsing by \<open>argp\<close> and \<open>popt\<close>; the sign of a floating point zero; links and
  permissions in the file system of the recursive copy; tests, demonstrations and the older copy of the
  thread package under cpy. In \<open>Cache\<close> and \<open>ServerRequest\<close>, where one handler runs alone, evicting a file
  being sent is the result \<open>Would_block\<close>; in \<open>ServerConc\<close> the wait ends when the file is not being sent any
  more, and the signals that end it are the subject of \<open>EvictWait\<close>. Wake-ups without a signal are left out.
\<close>

end
